(* ===== verification/OS_Prelude.thy ===== *)
theory OS_Prelude
  imports Main "HOL-Library.Word" "HOL-Library.Monad_Syntax"
begin

unbundle bit_operations_syntax

text \<open>
  Shared vocabulary of the development: the machine types of the i386 kernel, the error
  values its functions return, byte-level memory access with the bounds written out, and
  the generic lemmas on lists, ring buffers and words the component theories rely on.

  Every \<^verbatim>\<open>unsigned int\<close>, \<^verbatim>\<open>unsigned long\<close> and \<^verbatim>\<open>size_t\<close> of the kernel is 32 bits wide
  (it is built for i386 only), so they are all \<open>u32\<close> where wrap-around can matter.
\<close>

type_synonym u8 = "8 word"
type_synonym u16 = "16 word"
type_synonym u32 = "32 word"

text \<open>
  Error results. \<open>E_FAIL\<close> stands for a bare \<^verbatim>\<open>return -1\<close> (or a null pointer), the other
  codes for \<^verbatim>\<open>-ECODE\<close> of \<^verbatim>\<open>include/errno.h\<close>. \<open>Panic\<close> is a failed \<^verbatim>\<open>assert\<close> or a call
  of \<^verbatim>\<open>panic\<close>, after which the kernel does not go on.
\<close>

datatype kerr =
    E_FAIL | E_PERM | E_INVAL | E_FAULT | E_NOMEM | E_AGAIN | E_TIMEDOUT | E_INTR
  | E_PIPE | E_NOENT | E_SRCH | E_BUSY | Panic

type_synonym 'a res = "kerr + 'a"

text \<open>A call that may suspend the calling task either finishes or leaves it blocked.\<close>

datatype 'a outcome = Done 'a | Blocked

named_theorems inv_intros \<open>introduction rules that re-establish a component invariant\<close>
named_theorems kdefs \<open>definitions of the kernel operations, for unfolding\<close>


section \<open>Memory objects\<close>

text \<open>
  A memory object is the list of its cells. A load or a store outside the object is
  undefined behaviour in C; here it is the value \<open>None\<close>, so that \<open>= Some _\<close> in a
  theorem says that the access was in bounds.
\<close>

definition mem_load :: "nat \<Rightarrow> nat \<Rightarrow> 'a list \<Rightarrow> 'a list option" where
  "mem_load off n m = (if off + n \<le> length m then Some (take n (drop off m)) else None)"

definition mem_store :: "nat \<Rightarrow> 'a list \<Rightarrow> 'a list \<Rightarrow> 'a list option" where
  "mem_store off xs m =
     (if off + length xs \<le> length m
      then Some (take off m @ xs @ drop (off + length xs) m) else None)"

lemma mem_load_Some_iff:
  "mem_load off n m = Some xs \<longleftrightarrow> off + n \<le> length m \<and> xs = take n (drop off m)"
  by (auto simp: mem_load_def)

lemma mem_store_Some_iff:
  "mem_store off xs m = Some m' \<longleftrightarrow>
     off + length xs \<le> length m \<and> m' = take off m @ xs @ drop (off + length xs) m"
  by (auto simp: mem_store_def)

lemma mem_store_length: "mem_store off xs m = Some m' \<Longrightarrow> length m' = length m"
  by (auto simp: mem_store_Some_iff)

lemma mem_load_length: "mem_load off n m = Some xs \<Longrightarrow> length xs = n"
  by (auto simp: mem_load_Some_iff)

lemma mem_store_nth:
  assumes "mem_store off xs m = Some m'" and "i < length m"
  shows "m' ! i = (if off \<le> i \<and> i < off + length xs then xs ! (i - off) else m ! i)"
  using assms by (auto simp: mem_store_Some_iff nth_append min_def)

lemma mem_load_store: "mem_store off xs m = Some m' \<Longrightarrow> mem_load off (length xs) m' = Some xs"
  by (auto simp: mem_store_Some_iff mem_load_def)


section \<open>Lists\<close>

text \<open>First index that satisfies a predicate: the shape of every table scan of the kernel.\<close>

fun scan_index :: "('a \<Rightarrow> bool) \<Rightarrow> 'a list \<Rightarrow> nat option" where
  "scan_index P [] = None"
| "scan_index P (x # xs) = (if P x then Some 0 else map_option Suc (scan_index P xs))"

lemma scan_index_Some:
  "scan_index P xs = Some i \<Longrightarrow> i < length xs \<and> P (xs ! i) \<and> (\<forall>j < i. \<not> P (xs ! j))"
proof (induction xs arbitrary: i)
  case (Cons x xs)
  then show ?case
    by (auto split: if_splits simp: less_Suc_eq_0_disj)
qed simp

lemma scan_index_None: "scan_index P xs = None \<longleftrightarrow> (\<forall>x \<in> set xs. \<not> P x)"
  by (induction xs) auto

lemma scan_index_Some_iff:
  "scan_index P xs = Some i \<longleftrightarrow> i < length xs \<and> P (xs ! i) \<and> (\<forall>j < i. \<not> P (xs ! j))"
proof
  assume R: "i < length xs \<and> P (xs ! i) \<and> (\<forall>j < i. \<not> P (xs ! j))"
  then obtain k where k: "scan_index P xs = Some k"
    by (metis not_None_eq nth_mem scan_index_None)
  with R scan_index_Some[OF k] have "k = i" by (metis linorder_neqE_nat)
  with k show "scan_index P xs = Some i" by simp
qed (rule scan_index_Some)


section \<open>Ring buffers\<close>

text \<open>
  \<open>ring_read m st n\<close> reads \<open>n\<close> cells of the ring \<open>m\<close> from position \<open>st\<close> on, wrapping at
  the end. It is the abstraction function of all the kernel's circular queues.
\<close>

definition ring_read :: "'a list \<Rightarrow> nat \<Rightarrow> nat \<Rightarrow> 'a list" where
  "ring_read m st n = map (\<lambda>i. m ! ((st + i) mod length m)) [0..<n]"

lemma length_ring_read [simp]: "length (ring_read m st n) = n"
  by (simp add: ring_read_def)

lemma nth_ring_read: "i < n \<Longrightarrow> ring_read m st n ! i = m ! ((st + i) mod length m)"
  by (simp add: ring_read_def)

lemma ring_read_0 [simp]: "ring_read m st 0 = []"
  by (simp add: ring_read_def)

lemma ring_read_mod: "ring_read m (st mod length m) n = ring_read m st n"
  by (simp add: ring_read_def mod_add_left_eq)

lemma ring_read_add: "ring_read m st (a + b) = ring_read m st a @ ring_read m (st + a) b"
  by (rule nth_equalityI) (auto simp: nth_append nth_ring_read ac_simps)

lemma ring_read_take: "k \<le> n \<Longrightarrow> take k (ring_read m st n) = ring_read m st k"
  by (rule nth_equalityI) (auto simp: nth_ring_read)

lemma ring_read_drop: "k \<le> n \<Longrightarrow> drop k (ring_read m st n) = ring_read m (st + k) (n - k)"
  by (rule nth_equalityI) (auto simp: nth_ring_read ac_simps)

lemma ring_read_Suc: "ring_read m st (Suc n) = m ! (st mod length m) # ring_read m (Suc st) n"
  using ring_read_add[of m st 1 n] by (simp add: ring_read_def)

lemma mod_add_neq:
  fixes a b st N :: nat
  assumes "a < b" "b < a + N"
  shows "(st + a) mod N \<noteq> (st + b) mod N"
proof
  assume "(st + a) mod N = (st + b) mod N"
  then have "N dvd (st + b) - (st + a)"
    using assms by (metis add_le_mono le_refl less_imp_le mod_eq_dvd_iff_nat)
  then have "N dvd b - a" by simp
  with assms show False by (auto dest: dvd_imp_le)
qed

lemma mod_add_wrap:
  fixes a b N :: nat
  assumes "a < N" "b < N"
  shows "(a + b) mod N = (if a + b < N then a + b else a + b - N)"
  using assms by (simp add: le_mod_geq)

lemma ring_read_update:
  assumes "n < length m"
  shows "ring_read (m[(st + n) mod length m := x]) st (Suc n) = ring_read m st n @ [x]"
proof (rule nth_equalityI)
  fix i assume "i < length (ring_read (m[(st + n) mod length m := x]) st (Suc n))"
  then have i: "i < Suc n" by simp
  have pos: "0 < length m" using assms by linarith
  show "ring_read (m[(st + n) mod length m := x]) st (Suc n) ! i = (ring_read m st n @ [x]) ! i"
  proof (cases "i = n")
    case True
    then show ?thesis using pos by (simp add: nth_ring_read nth_append)
  next
    case False
    with i have "i < n" by simp
    then have "(st + i) mod length m \<noteq> (st + n) mod length m"
      using assms by (intro mod_add_neq) auto
    with \<open>i < n\<close> show ?thesis by (simp add: nth_ring_read nth_append)
  qed
qed simp

text \<open>
  A copy of \<open>xs\<close> into the ring at \<open>off\<close> done in two pieces, up to the end and then from
  the start, is a run of single-cell writes modulo the size.
\<close>

definition ring_copy_in :: "nat \<Rightarrow> nat \<Rightarrow> 'a list \<Rightarrow> 'a list \<Rightarrow> 'a list option" where
  "ring_copy_in off l xs m = do {
     m1 \<leftarrow> mem_store off (take l xs) m;
     mem_store 0 (drop l xs) m1 }"

lemma ring_copy_in_nth:
  assumes c: "ring_copy_in off l xs m = Some m'"
    and l: "l = min (length xs) (length m - off)" and off: "off < length m"
    and len: "length xs \<le> length m" and p: "p < length m"
  shows "m' ! p = (if off \<le> p \<and> p < off + length xs then xs ! (p - off)
                   else if p + length m < off + length xs then xs ! (p + length m - off)
                   else m ! p)"
proof -
  from c obtain m1 where m1: "mem_store off (take l xs) m = Some m1"
    and m': "mem_store 0 (drop l xs) m1 = Some m'"
    by (auto simp: ring_copy_in_def split: bind_splits)
  have lm1: "length m1 = length m" using m1 by (rule mem_store_length)
  show ?thesis
  proof (cases "length xs \<le> length m - off")
    case True
    with l have "take l xs = xs" "drop l xs = []" by auto
    with m1 m' p lm1 True off show ?thesis
      by (auto simp: mem_store_nth[OF m'] mem_store_nth[OF m1])
  next
    case False
    then have l': "l = length m - off" using l by simp
    with p lm1 False off len show ?thesis
      by (auto simp: mem_store_nth[OF m'] mem_store_nth[OF m1] nth_append add.commute
          intro: arg_cong[where f = "(!) xs"])
  qed
qed

lemma ring_copy_in_Some:
  assumes "off < length m" "length xs \<le> length m" "l = min (length xs) (length m - off)"
  shows "\<exists>m'. ring_copy_in off l xs m = Some m' \<and> length m' = length m"
  using assms by (auto simp: ring_copy_in_def mem_store_def min_def)

lemma ring_copy_in_append:
  assumes c: "ring_copy_in ((st + n) mod length m) l xs m = Some m'"
    and l: "l = min (length xs) (length m - (st + n) mod length m)"
    and pos: "0 < length m" and fits: "n + length xs \<le> length m"
    and len: "length m' = length m"
  shows "ring_read m' st (n + length xs) = ring_read m st n @ xs"
proof (rule nth_equalityI)
  let ?N = "length m" and ?off = "(st + n) mod length m"
  have off: "?off < ?N" using pos by simp
  fix i assume "i < length (ring_read m' st (n + length xs))"
  then have i: "i < n + length xs" by simp
  note nth = ring_copy_in_nth[OF c l off]
  have wrap: "(st + (n + j)) mod ?N = (if ?off + j < ?N then ?off + j else ?off + j - ?N)"
    if "j < ?N" for j
  proof -
    have "(st + (n + j)) mod ?N = (?off + j) mod ?N"
      by (simp only: add.assoc[symmetric] mod_add_left_eq)
    with mod_add_wrap[OF off that] show ?thesis by simp
  qed
  show "ring_read m' st (n + length xs) ! i = (ring_read m st n @ xs) ! i"
  proof (cases "i < n")
    case True
    define p where "p = (st + i) mod ?N"
    have p: "p < ?N" using pos by (simp add: p_def)
    have new: "p \<noteq> (st + (n + j)) mod ?N" if "j < length xs" for j
      unfolding p_def using that True fits by (intro mod_add_neq) auto
    have "\<not> (?off \<le> p \<and> p < ?off + length xs)"
    proof
      assume a: "?off \<le> p \<and> p < ?off + length xs"
      then have "p - ?off < length xs" "?off + (p - ?off) = p" by auto
      with new[of "p - ?off"] wrap[of "p - ?off"] fits p show False by auto
    qed
    moreover have "\<not> p + ?N < ?off + length xs"
    proof
      assume a: "p + ?N < ?off + length xs"
      then have "p + ?N - ?off < length xs" using off by simp
      with new[of "p + ?N - ?off"] wrap[of "p + ?N - ?off"] fits off a show False by auto
    qed
    ultimately have "m' ! p = m ! p" using nth[of p] p fits by auto
    with True show ?thesis by (simp add: nth_ring_read nth_append p_def len)
  next
    case False
    define j where "j = i - n"
    have j: "j < length xs" "i = n + j" using i False by (auto simp: j_def)
    have "m' ! ((st + (n + j)) mod ?N) = xs ! j"
    proof (cases "?off + j < ?N")
      case True
      with j fits show ?thesis by (simp add: wrap nth)
    next
      case False
      with j fits off show ?thesis by (auto simp: wrap nth)
    qed
    with j i show ?thesis by (simp add: nth_ring_read nth_append len)
  qed
qed simp

text \<open>The matching read in two pieces.\<close>

definition ring_copy_out :: "nat \<Rightarrow> nat \<Rightarrow> nat \<Rightarrow> 'a list \<Rightarrow> 'a list option" where
  "ring_copy_out off l n m = do {
     a \<leftarrow> mem_load off l m;
     b \<leftarrow> mem_load 0 (n - l) m;
     Some (a @ b) }"

lemma ring_copy_out_eq:
  assumes off: "off < length m" and n: "n \<le> length m" and l: "l = min n (length m - off)"
  shows "ring_copy_out off l n m = Some (ring_read m off n)"
proof -
  have b: "off + l \<le> length m" "n - l \<le> length m" using assms by auto
  have "take l (drop off m) @ take (n - l) m = ring_read m off n"
  proof (rule nth_equalityI)
    show "length (take l (drop off m) @ take (n - l) m) = length (ring_read m off n)"
      using assms by (auto simp: min_def)
  next
    fix i assume "i < length (take l (drop off m) @ take (n - l) m)"
    then have i: "i < n" using assms by (auto simp: min_def split: if_splits)
    show "(take l (drop off m) @ take (n - l) m) ! i = ring_read m off n ! i"
    proof (cases "i < l")
      case True
      with i l off show ?thesis by (simp add: nth_append nth_ring_read)
    next
      case False
      with i l off have "l = length m - off" "length m \<le> off + i" "off + i < 2 * length m"
        using n by auto
      then have "(off + i) mod length m = off + i - length m"
        by (simp add: mod_if)
      with False i \<open>l = length m - off\<close> off show ?thesis
        by (simp add: nth_append nth_ring_read add.commute)
    qed
  qed
  with b show ?thesis by (simp add: ring_copy_out_def mem_load_def)
qed


section \<open>Words\<close>

lemma unat_and_pow2_mask:
  fixes x :: "'a::len word"
  assumes "k < LENGTH('a)"
  shows "unat (x AND (2 ^ k - 1)) = unat x mod 2 ^ k"
proof -
  have "x AND (2 ^ k - 1) = take_bit k x"
    by (simp add: take_bit_eq_mask mask_eq_exp_minus_1)
  moreover have "unat (take_bit k x) = take_bit k (unat x)"
    by (rule unsigned_take_bit_eq)
  ultimately show ?thesis by (simp only: take_bit_eq_mod)
qed

lemma unat_pow2: "k < LENGTH('a) \<Longrightarrow> unat (2 ^ k :: 'a::len word) = 2 ^ k"
  using unat_of_nat[of "2 ^ k", where 'a = 'a] by simp

lemma unat_lt_32: "unat (w :: u32) < 2 ^ 32"
  using unsigned_less[of w] by simp

lemma unat_min: "unat (min a b) = min (unat a) (unat b)"
  by (simp add: min_def word_le_nat_alt)

lemma unat_sub_word: "b \<le> a \<Longrightarrow> unat (a - b) = unat a - unat b"
  by (simp add: unat_sub)

lemma unat_add_no_overflow:
  fixes a b :: "'a::len word"
  shows "unat a + unat b < 2 ^ LENGTH('a) \<Longrightarrow> unat (a + b) = unat a + unat b"
  by (simp add: unat_word_ariths)

lemma unat_mod_pow2_add:
  fixes a b :: "'a::len word"
  assumes "k \<le> LENGTH('a)"
  shows "unat (a + b) mod 2 ^ k = (unat a + unat b) mod 2 ^ k"
proof -
  have "(2::nat) ^ k dvd 2 ^ LENGTH('a)" using assms by (rule le_imp_power_dvd)
  then show ?thesis by (simp add: unat_word_ariths mod_mod_cancel)
qed

lemma sint_small:
  fixes w :: u32
  assumes "unat w < 2 ^ 31"
  shows "sint w = int (unat w)"
proof -
  have "uint w < 2 ^ 31" using assms by (metis of_nat_less_iff of_nat_numeral of_nat_power uint_nat)
  moreover have "(0::int) \<le> uint w" by simp
  ultimately have "signed_take_bit 31 (uint w) = uint w"
    by (intro signed_take_bit_int_eq_self) linarith+
  then show ?thesis by (simp add: sint_uint)
qed

end
