(* ===== verification/Queue_Interface.thy ===== *)
theory Queue_Interface
  imports OS_Prelude
begin

text \<open>
  The contract shared by the kernel's bounded queues (\<^verbatim>\<open>fifo_buf\<close>, \<^verbatim>\<open>fifo_io\<close>,
  \<^verbatim>\<open>msgpool\<close>): an element is appended at the back while there is room and refused when
  there is none (\<open>elem\<close> tells which elements fit a slot of the queue); the oldest element is taken from the front, and nothing is delivered
  from an empty queue. What a client can rely on over any sequence of calls is proved
  here once; each queue interprets the locale on its own operations.
\<close>

datatype 'a qop = QPut 'a | QGet

text \<open>
  \<open>q_run\<close> performs a sequence of calls and collects the elements that were accepted and
  the elements that were delivered, in order.
\<close>

fun q_run :: "('a \<Rightarrow> 'q \<Rightarrow> bool \<times> 'q) \<Rightarrow> ('q \<Rightarrow> 'a option \<times> 'q) \<Rightarrow> 'a qop list \<Rightarrow> 'q
    \<Rightarrow> 'a list \<times> 'a list \<times> 'q" where
  "q_run put get [] q = ([], [], q)"
| "q_run put get (QPut x # ops) q =
     (let (ok, q1) = put x q; (ins, outs, q2) = q_run put get ops q1
      in (if ok then x # ins else ins, outs, q2))"
| "q_run put get (QGet # ops) q =
     (let (r, q1) = get q; (ins, outs, q2) = q_run put get ops q1
      in (ins, (case r of None \<Rightarrow> outs | Some x \<Rightarrow> x # outs), q2))"

locale bounded_queue =
  fixes invar :: "'q \<Rightarrow> bool"
    and content :: "'q \<Rightarrow> 'a list"
    and cap :: "'q \<Rightarrow> nat"
    and put :: "'a \<Rightarrow> 'q \<Rightarrow> bool \<times> 'q"
    and get :: "'q \<Rightarrow> 'a option \<times> 'q"
    and elem :: "'q \<Rightarrow> 'a \<Rightarrow> bool"
  assumes within_cap: "invar q \<Longrightarrow> length (content q) \<le> cap q"
    and put_room: "invar q \<Longrightarrow> elem q x \<Longrightarrow> length (content q) < cap q \<Longrightarrow>
      \<exists>q'. put x q = (True, q') \<and> invar q' \<and> content q' = content q @ [x] \<and> cap q' = cap q \<and> elem q' = elem q"
    and put_full: "invar q \<Longrightarrow> elem q x \<Longrightarrow> length (content q) = cap q \<Longrightarrow>
      \<exists>q'. put x q = (False, q') \<and> invar q' \<and> content q' = content q \<and> cap q' = cap q \<and> elem q' = elem q"
    and get_some: "invar q \<Longrightarrow> content q = x # xs \<Longrightarrow>
      \<exists>q'. get q = (Some x, q') \<and> invar q' \<and> content q' = xs \<and> cap q' = cap q \<and> elem q' = elem q"
    and get_empty: "invar q \<Longrightarrow> content q = [] \<Longrightarrow>
      \<exists>q'. get q = (None, q') \<and> invar q' \<and> content q' = [] \<and> cap q' = cap q \<and> elem q' = elem q"
begin

lemma put_cases:
  assumes "invar q" "elem q x"
  obtains q' where "put x q = (True, q')" "invar q'" "content q' = content q @ [x]" "cap q' = cap q" "elem q' = elem q"
  | q' where "put x q = (False, q')" "invar q'" "content q' = content q" "cap q' = cap q" "elem q' = elem q"
      "length (content q) = cap q"
  using within_cap[OF assms(1)] put_room[OF assms] put_full[OF assms]
  by (metis le_neq_implies_less)

lemma get_cases:
  assumes "invar q"
  obtains x q' where "get q = (Some x, q')" "invar q'" "content q = x # content q'" "cap q' = cap q" "elem q' = elem q"
  | q' where "get q = (None, q')" "invar q'" "content q' = []" "content q = []" "cap q' = cap q" "elem q' = elem q"
  using get_some[OF assms] get_empty[OF assms] by (metis list.exhaust)

lemma run_fifo:
  assumes "invar q" "\<forall>x. QPut x \<in> set ops \<longrightarrow> elem q x" "q_run put get ops q = (ins, outs, q')"
  shows "invar q' \<and> cap q' = cap q \<and> content q @ ins = outs @ content q'"
  using assms
proof (induction put\<equiv>put get\<equiv>get ops q arbitrary: ins outs q' rule: q_run.induct)
  case (1 q)
  then show ?case by auto
next
  case (2 x ops q)
  from 2(3) have "elem q x" by simp
  with \<open>invar q\<close> show ?case
  proof (cases rule: put_cases[of q x])
    case (1 q1)
    obtain ins1 outs1 q2 where r: "q_run put get ops q1 = (ins1, outs1, q2)"
      by (cases "q_run put get ops q1") auto
    from 2(1)[OF _ _ 1(2) _ r] 1 2(3,4) r show ?thesis by (auto simp: Let_def)
  next
    case (2 q1)
    obtain ins1 outs1 q2 where r: "q_run put get ops q1 = (ins1, outs1, q2)"
      by (cases "q_run put get ops q1") auto
    from "2.hyps"[OF _ _ 2(2) _ r] 2 "2.prems"(2,3) r show ?thesis by (auto simp: Let_def)
  qed
next
  case (3 ops q)
  from \<open>invar q\<close> show ?case
  proof (cases rule: get_cases[of q])
    case (1 x q1)
    obtain ins1 outs1 q2 where r: "q_run put get ops q1 = (ins1, outs1, q2)"
      by (cases "q_run put get ops q1") auto
    from 3(1)[OF _ _ 1(2) _ r] 1 3(3,4) r show ?thesis by (auto simp: Let_def)
  next
    case (2 q1)
    obtain ins1 outs1 q2 where r: "q_run put get ops q1 = (ins1, outs1, q2)"
      by (cases "q_run put get ops q1") auto
    from 3(1)[OF _ _ 2(2) _ r] 2 3(3,4) r show ?thesis by (auto simp: Let_def)
  qed
qed

lemma run_bounded:
  assumes "invar q" "\<forall>x. QPut x \<in> set ops \<longrightarrow> elem q x" "q_run put get ops q = (ins, outs, q')"
  shows "length (content q) + length ins \<le> length outs + cap q"
  using run_fifo[OF assms] within_cap[of q'] by (metis add_left_mono length_append)

end

end
