(* ===== verification/Fifobuf.thy ===== *)
theory Fifobuf
  imports Queue_Interface
begin

text \<open>
  The byte ring buffer of \<^verbatim>\<open>src/lib/fifobuf.c\<close> and \<^verbatim>\<open>src/include/xbook/fifobuf.h\<close>, with the
  power-of-two arithmetic of \<^verbatim>\<open>src/include/math.h\<close> it is built on. The two cursors \<open>in\<close>
  and \<open>out\<close> are free-running 32-bit counters that wrap around; only their difference and
  their low bits are meaningful. The locked entry points run the unlocked ones with the
  spin lock held and interrupts off, so each is one atomic operation here.
\<close>

section \<open>Powers of two\<close>

definition is_power_of_2 :: "u32 \<Rightarrow> bool" where
  "is_power_of_2 n \<longleftrightarrow> n \<noteq> 0 \<and> n AND (n - 1) = 0"

text \<open>
  \<^verbatim>\<open>fls\<close> shifts a signed \<^verbatim>\<open>long\<close> right until it is zero. The shift is arithmetic, so the
  loop does not end for a negative argument: \<open>None\<close>.
\<close>

partial_function (option) fls_loop :: "int \<Rightarrow> int \<Rightarrow> int option" where
  "fls_loop i position = (if i \<noteq> 0 then fls_loop (drop_bit 1 i) (position + 1) else Some position)"

definition fls :: "int \<Rightarrow> int option" where
  "fls x = (if x \<noteq> 0 then do { p \<leftarrow> fls_loop (drop_bit 1 x) 0; Some (p + 1) } else Some 0)"

definition roundup_pow_of_two :: "u32 \<Rightarrow> u32 option" where
  "roundup_pow_of_two x = do { p \<leftarrow> fls (sint (x - 1)); Some (push_bit (nat p) 1) }"


section \<open>The buffer and its operations\<close>

record fifo_buf_t =
  fb_buffer :: "u8 list"
  fb_size :: u32
  fb_in :: u32
  fb_out :: u32

definition fifo_buf_init :: "fifo_buf_t \<Rightarrow> u8 list \<Rightarrow> u32 \<Rightarrow> fifo_buf_t" where
  "fifo_buf_init fifo buffer sz =
     (if \<not> is_power_of_2 sz then fifo
      else fifo\<lparr>fb_buffer := buffer, fb_size := sz, fb_in := 0, fb_out := 0\<rparr>)"

text \<open>
  \<^verbatim>\<open>mem_alloc\<close> is an argument: the bytes of a fresh object, or \<open>None\<close> for a null pointer;
  \<open>hdr\<close> is what the second allocation, for the header, returns. The outer option is
  termination.
\<close>

definition fifo_buf_alloc ::
    "(u32 \<Rightarrow> u8 list option) \<Rightarrow> fifo_buf_t option \<Rightarrow> u32 \<Rightarrow> fifo_buf_t res option" where
  "fifo_buf_alloc mem_alloc hdr sz =
     (if \<not> is_power_of_2 sz \<and> \<not> sz < 0x80000000 then Some (Inl Panic)
      else do {
        size' \<leftarrow> (if is_power_of_2 sz then Some sz else roundup_pow_of_two sz);
        Some (case mem_alloc size' of
                None \<Rightarrow> Inl E_FAIL
              | Some buffer \<Rightarrow>
                  (case hdr of
                     None \<Rightarrow> Inl E_FAIL
                   | Some fifo \<Rightarrow> Inr (fifo_buf_init fifo buffer size'))) })"

text \<open>\<^verbatim>\<open>__fifo_buf_put\<close>: the result is the number of bytes taken and the new buffer.\<close>

definition fifo_buf_put_nolock :: "fifo_buf_t \<Rightarrow> u8 list \<Rightarrow> u32 \<Rightarrow> (u32 \<times> fifo_buf_t) option" where
  "fifo_buf_put_nolock fifo data len0 =
     (let len = min len0 (fb_size fifo - fb_in fifo + fb_out fifo);
          off = fb_in fifo AND (fb_size fifo - 1);
          l = min len (fb_size fifo - off)
      in do {
        buf \<leftarrow> ring_copy_in (unat off) (unat l) (take (unat len) data) (fb_buffer fifo);
        Some (len, fifo\<lparr>fb_buffer := buf, fb_in := fb_in fifo + len\<rparr>) })"

text \<open>\<^verbatim>\<open>__fifo_buf_get\<close>: the bytes delivered, their number, and the new buffer.\<close>

definition fifo_buf_get_nolock :: "fifo_buf_t \<Rightarrow> u32 \<Rightarrow> (u32 \<times> u8 list \<times> fifo_buf_t) option" where
  "fifo_buf_get_nolock fifo len0 =
     (let len = min len0 (fb_in fifo - fb_out fifo);
          off = fb_out fifo AND (fb_size fifo - 1);
          l = min len (fb_size fifo - off)
      in do {
        bs \<leftarrow> ring_copy_out (unat off) (unat l) (unat len) (fb_buffer fifo);
        Some (len, bs, fifo\<lparr>fb_out := fb_out fifo + len\<rparr>) })"

definition fifo_buf_put :: "fifo_buf_t \<Rightarrow> u8 list \<Rightarrow> u32 \<Rightarrow> (u32 \<times> fifo_buf_t) option" where
  "fifo_buf_put fifo data len = fifo_buf_put_nolock fifo data len"

definition fifo_buf_get :: "fifo_buf_t \<Rightarrow> u32 \<Rightarrow> (u32 \<times> u8 list \<times> fifo_buf_t) option" where
  "fifo_buf_get fifo len = do {
     (ret, bs, fifo') \<leftarrow> fifo_buf_get_nolock fifo len;
     Some (ret, bs, if fb_in fifo' = fb_out fifo'
                    then fifo'\<lparr>fb_in := 0, fb_out := 0\<rparr> else fifo') }"

definition fifo_buf_reset :: "fifo_buf_t \<Rightarrow> fifo_buf_t" where
  "fifo_buf_reset fifo = fifo\<lparr>fb_in := 0, fb_out := 0\<rparr>"

definition fifo_buf_len :: "fifo_buf_t \<Rightarrow> u32" where
  "fifo_buf_len fifo = fb_in fifo - fb_out fifo"

definition fifo_buf_avali :: "fifo_buf_t \<Rightarrow> u32" where
  "fifo_buf_avali fifo = fb_size fifo - (fb_in fifo - fb_out fifo)"


section \<open>Abstraction and invariant\<close>

definition fifo_buf_inv :: "fifo_buf_t \<Rightarrow> bool" where
  "fifo_buf_inv f \<longleftrightarrow> (\<exists>k < 32. fb_size f = 2 ^ k)
     \<and> length (fb_buffer f) = unat (fb_size f) \<and> fb_in f - fb_out f \<le> fb_size f"

definition fifo_buf_content :: "fifo_buf_t \<Rightarrow> u8 list" where
  "fifo_buf_content f = ring_read (fb_buffer f) (unat (fb_out f)) (unat (fb_in f - fb_out f))"

lemma fls_loop_Some_iff:
  "fls_loop i p = Some r \<Longrightarrow> 0 \<le> i"
proof (rule fls_loop.raw_induct[where P = "\<lambda>i p r. 0 \<le> i"])
  fix f i p r
  assume IH: "\<And>i p r. f i p = Some r \<Longrightarrow> (0::int) \<le> i"
    and eq: "(if i \<noteq> 0 then f (drop_bit 1 i) (p + 1) else Some p) = Some r"
  show "0 \<le> i"
  proof (cases "i = 0")
    case False
    with eq have "f (drop_bit 1 i) (p + 1) = Some r" by simp
    then have "0 \<le> drop_bit 1 i" by (rule IH)
    then show ?thesis by simp
  qed simp
qed

lemma fls_loop_pos:
  assumes "0 \<le> i"
  shows "\<exists>n. fls_loop i p = Some (p + int n) \<and> i < 2 ^ n \<and> (0 < i \<longrightarrow> 2 ^ n \<le> 2 * i)"
  using assms
proof (induction "nat i" arbitrary: i p rule: less_induct)
  case less
  show ?case
  proof (cases "i = 0")
    case True
    then show ?thesis by (auto simp: fls_loop.simps intro!: exI[of _ 0])
  next
    case False
    let ?h = "drop_bit 1 i"
    have h: "?h = i div 2" by (simp add: drop_bit_eq_div)
    have "nat ?h < nat i" "0 \<le> ?h" using False less.prems h by auto
    from less.hyps[OF this, of "p + 1"] obtain n
      where n: "fls_loop ?h (p + 1) = Some (p + 1 + int n)" "?h < 2 ^ n"
        "0 < ?h \<longrightarrow> 2 ^ n \<le> 2 * ?h" by blast
    have up: "i < 2 ^ Suc n" using n(2) h by auto
    have lo: "2 ^ Suc n \<le> 2 * i"
    proof (cases "0 < ?h")
      case True
      with n(3) h show ?thesis by auto
    next
      case False
      with \<open>0 \<le> ?h\<close> have "?h = 0" by linarith
      with n(1) have "n = 0" by (simp add: fls_loop.simps)
      with \<open>i \<noteq> 0\<close> less.prems show ?thesis by simp
    qed
    show ?thesis
      using False n(1) up lo by (intro exI[of _ "Suc n"]) (simp add: fls_loop.simps[of i] ac_simps)
  qed
qed

lemma fls_pos:
  assumes "0 < x"
  shows "\<exists>n. fls x = Some (int n) \<and> x < 2 ^ n \<and> 2 ^ n \<le> 2 * x"
proof -
  have h: "drop_bit 1 x = x div 2" by (simp add: drop_bit_eq_div)
  then have "0 \<le> drop_bit 1 x" using assms by simp
  from fls_loop_pos[OF this, of 0] obtain n where n: "fls_loop (drop_bit 1 x) 0 = Some (int n)"
    "x div 2 < 2 ^ n" "0 < x div 2 \<longrightarrow> 2 ^ n \<le> 2 * (x div 2)" by (auto simp: h[unfolded One_nat_def])
  have "2 ^ Suc n \<le> 2 * x"
  proof (cases "0 < x div 2")
    case True
    with n(3) show ?thesis by auto
  next
    case False
    with assms have "x = 1" by auto
    with n(1) have "n = 0" by (simp add: fls_loop.simps)
    with \<open>x = 1\<close> show ?thesis by simp
  qed
  with n assms show ?thesis by (intro exI[of _ "Suc n"]) (auto simp: fls_def)
qed

lemma fls_negative: "x < 0 \<Longrightarrow> fls x = None"
  using fls_loop_Some_iff[of "drop_bit 1 x" 0]
  by (cases "fls_loop (drop_bit 1 x) 0") (auto simp: fls_def)

lemma is_power_of_2_pow: "k < 32 \<Longrightarrow> is_power_of_2 (2 ^ k)"
proof -
  assume k: "k < 32"
  then have "unat ((2 ^ k :: u32) AND (2 ^ k - 1)) = 0"
    by (simp add: unat_and_pow2_mask unat_pow2)
  then have "(2 ^ k :: u32) AND (2 ^ k - 1) = 0" by (simp add: unat_eq_zero)
  moreover have "(2 ^ k :: u32) \<noteq> 0" using k unat_pow2[of k, where 'a = 32] by auto
  ultimately show ?thesis by (simp add: is_power_of_2_def)
qed

lemma is_power_of_2_ex:
  assumes "is_power_of_2 n"
  shows "\<exists>k < 32. n = 2 ^ k"
proof -
  from assms have nz: "n \<noteq> 0" and land: "n AND (n - 1) = 0" by (auto simp: is_power_of_2_def)
  then have "1 \<le> unat n" by (simp add: Suc_leI unat_gt_0)
  then obtain k where k: "2 ^ k \<le> unat n" "unat n < 2 ^ (k + 1)"
    using ex_power_ivl1[of 2 "unat n"] by auto
  have k32: "k < 32"
  proof (rule ccontr)
    assume "\<not> k < 32"
    then have "(2::nat) ^ 32 \<le> 2 ^ k" by (intro power_increasing) auto
    with k unat_lt_32[of n] show False by simp
  qed
  have top: "bit w k" if "2 ^ k \<le> unat w" "unat w < 2 ^ (k + 1)" for w :: u32
  proof -
    have "unat w div 2 ^ k = 1" using that by (intro div_nat_eqI) auto
    then have "bit (unat w) k" by (simp add: bit_iff_odd)
    then show ?thesis by (simp add: bit_unsigned_iff)
  qed
  have "n = 2 ^ k"
  proof (rule ccontr)
    assume ne: "n \<noteq> 2 ^ k"
    then have "unat n \<noteq> unat (2 ^ k :: u32)" unfolding word_unat_eq_iff .
    then have "unat n \<noteq> 2 ^ k" using k32 unat_pow2[of k, where 'a = 32] by simp
    then have gt: "2 ^ k < unat n" using k by simp
    have "unat (n - 1) = unat n - 1" using nz by (simp add: unat_minus_one)
    with gt k have "bit (n - 1) k" by (intro top) auto
    moreover have "bit n k" using k by (rule top)
    ultimately have "bit (n AND (n - 1)) k" by (simp add: bit_and_iff)
    with land show False by simp
  qed
  with k32 show ?thesis by blast
qed


section \<open>Functional correctness\<close>

lemma fifo_buf_invE:
  assumes "fifo_buf_inv f"
  obtains k where "k < 32" "fb_size f = 2 ^ k" "unat (fb_size f) = 2 ^ k"
    "length (fb_buffer f) = 2 ^ k" "unat (fb_in f - fb_out f) \<le> 2 ^ k"
    "\<forall>x. unat (x AND (fb_size f - 1)) = unat x mod 2 ^ k"
    "\<forall>x. unat (fb_size f - (x AND (fb_size f - 1))) = 2 ^ k - unat x mod 2 ^ k"
proof -
  from assms obtain k where k: "k < 32" "fb_size f = 2 ^ k"
    and len: "length (fb_buffer f) = unat (fb_size f)" and le: "fb_in f - fb_out f \<le> fb_size f"
    by (auto simp: fifo_buf_inv_def)
  have sz: "unat (fb_size f) = 2 ^ k" using k by (simp add: unat_pow2)
  have msk: "unat (x AND (fb_size f - 1)) = unat x mod 2 ^ k" for x
    using k by (simp add: unat_and_pow2_mask)
  have "unat (x AND (fb_size f - 1)) \<le> unat (fb_size f)" for x
    by (simp add: msk sz less_imp_le)
  then have "unat (fb_size f - (x AND (fb_size f - 1))) = 2 ^ k - unat x mod 2 ^ k" for x
    using unat_sub[of "x AND (fb_size f - 1)" "fb_size f"] by (simp add: word_le_nat_alt msk sz)
  with k len le sz msk show ?thesis by (intro that[of k]) (auto simp: word_le_nat_alt)
qed

lemma fifo_buf_space:
  assumes "fifo_buf_inv f"
  shows "unat (fb_size f - fb_in f + fb_out f) = unat (fb_size f) - unat (fb_in f - fb_out f)"
proof -
  have "fb_size f - fb_in f + fb_out f = fb_size f - (fb_in f - fb_out f)" by simp
  with assms show ?thesis by (simp only: fifo_buf_inv_def unat_sub)
qed

lemma fifo_buf_put_nolock_correct:
  assumes inv: "fifo_buf_inv f" and len: "unat len \<le> length data"
  defines "n \<equiv> min (unat len) (unat (fb_size f) - length (fifo_buf_content f))"
  shows "\<exists>f'. fifo_buf_put_nolock f data len = Some (of_nat n, f') \<and> fifo_buf_inv f'
    \<and> fifo_buf_content f' = fifo_buf_content f @ take n data \<and> fb_size f' = fb_size f"
proof -
  from inv obtain k where k: "k < 32" "fb_size f = 2 ^ k" "unat (fb_size f) = 2 ^ k"
    "length (fb_buffer f) = 2 ^ k" "unat (fb_in f - fb_out f) \<le> 2 ^ k"
    "\<forall>x. unat (x AND (fb_size f - 1)) = unat x mod 2 ^ k"
    "\<forall>x. unat (fb_size f - (x AND (fb_size f - 1))) = 2 ^ k - unat x mod 2 ^ k"
    by (rule fifo_buf_invE)
  let ?c = "unat (fb_in f - fb_out f)" and ?m = "fb_buffer f"
  define w where "w = min len (fb_size f - fb_in f + fb_out f)"
  have n: "n = min (unat len) (2 ^ k - ?c)"
    by (simp add: n_def fifo_buf_content_def k(3))
  have wn: "unat w = n" by (simp add: w_def unat_min fifo_buf_space[OF inv] k(3) n)
  then have ofn: "of_nat n = w" by auto
  have in_mod: "unat (fb_in f) mod 2 ^ k = (unat (fb_out f) + ?c) mod 2 ^ k"
    using unat_mod_pow2_add[of k "fb_in f - fb_out f" "fb_out f"] k(1) by (simp add: add.commute)
  let ?off = "unat (fb_in f) mod 2 ^ k" and ?xs = "take n data"
  have lx: "length ?xs = n" using len n by simp
  have l: "unat (min w (fb_size f - (fb_in f AND (fb_size f - 1))))
      = min (length ?xs) (length ?m - ?off)"
    by (simp only: unat_min wn k(4) k(7)[rule_format] lx)
  have "?off < length ?m" "length ?xs \<le> length ?m" using lx n by (simp_all add: k(4))
  from ring_copy_in_Some[OF this refl]
  obtain m' where m': "ring_copy_in ?off (min (length ?xs) (length ?m - ?off)) ?xs ?m = Some m'"
    "length m' = length ?m" by blast
  have put: "fifo_buf_put_nolock f data len
      = Some (w, f\<lparr>fb_buffer := m', fb_in := fb_in f + w\<rparr>)"
    unfolding fifo_buf_put_nolock_def Let_def w_def[symmetric] wn k(6)[rule_format] l using m'(1) by simp
  have cnt: "unat (fb_in f + w - fb_out f) = ?c + n"
  proof -
    have e: "fb_in f + w - fb_out f = (fb_in f - fb_out f) + w" by simp
    have "?c + unat w \<le> 2 ^ k" using n wn k(5) by simp
    moreover have "(2::nat) ^ k < 2 ^ 32" using k(1) by (intro power_strict_increasing) auto
    ultimately show ?thesis
      unfolding e using wn unat_add_no_overflow[of "fb_in f - fb_out f" w] by simp
  qed
  have rd: "ring_read m' (unat (fb_out f)) (?c + n) = ring_read ?m (unat (fb_out f)) ?c @ ?xs"
  proof -
    have off: "?off = (unat (fb_out f) + ?c) mod length ?m" by (simp only: in_mod k(4))
    have fits: "?c + length ?xs \<le> length ?m" unfolding lx k(4) using n k(5) by linarith
    have pos: "0 < length ?m" by (simp add: k(4))
    from ring_copy_in_append[OF m'(1)[unfolded off] refl pos fits m'(2)]
    show ?thesis unfolding lx .
  qed
  show ?thesis
    using put cnt rd m'(2) k n inv ofn
    by (auto simp: fifo_buf_inv_def fifo_buf_content_def word_le_nat_alt)
qed

lemma fifo_buf_get_nolock_correct:
  fixes len :: u32
  assumes inv: "fifo_buf_inv f"
  defines "n \<equiv> min (unat len) (length (fifo_buf_content f))"
  shows "\<exists>f'. fifo_buf_get_nolock f len = Some (of_nat n, take n (fifo_buf_content f), f')
    \<and> fifo_buf_inv f' \<and> fifo_buf_content f' = drop n (fifo_buf_content f)
    \<and> fb_size f' = fb_size f"
proof -
  from inv obtain k where k: "k < 32" "fb_size f = 2 ^ k" "unat (fb_size f) = 2 ^ k"
    "length (fb_buffer f) = 2 ^ k" "unat (fb_in f - fb_out f) \<le> 2 ^ k"
    "\<forall>x. unat (x AND (fb_size f - 1)) = unat x mod 2 ^ k"
    "\<forall>x. unat (fb_size f - (x AND (fb_size f - 1))) = 2 ^ k - unat x mod 2 ^ k"
    by (rule fifo_buf_invE)
  let ?c = "unat (fb_in f - fb_out f)" and ?m = "fb_buffer f"
  define w where "w = min len (fb_in f - fb_out f)"
  have n: "n = min (unat len) ?c" by (simp add: n_def fifo_buf_content_def)
  have wn: "unat w = n" by (simp add: w_def unat_min n)
  then have ofn: "of_nat n = w" by auto
  let ?off = "unat (fb_out f) mod 2 ^ k"
  have l: "unat (min w (fb_size f - (fb_out f AND (fb_size f - 1)))) = min n (length ?m - ?off)"
    by (simp only: unat_min wn k(4) k(7)[rule_format])
  have out: "ring_copy_out ?off (min n (length ?m - ?off)) n ?m = Some (ring_read ?m ?off n)"
    using k(4,5) n by (intro ring_copy_out_eq) auto
  have rd: "ring_read ?m ?off n = take n (fifo_buf_content f)"
    using ring_read_mod[of ?m "unat (fb_out f)"] n k(4)
    by (simp add: fifo_buf_content_def ring_read_take)
  have get: "fifo_buf_get_nolock f len
      = Some (w, take n (fifo_buf_content f), f\<lparr>fb_out := fb_out f + w\<rparr>)"
    unfolding fifo_buf_get_nolock_def Let_def w_def[symmetric] wn k(6)[rule_format] l out
    by (simp add: rd)
  have "w \<le> fb_in f - fb_out f" by (simp add: w_def)
  then have cnt: "unat (fb_in f - (fb_out f + w)) = ?c - n"
    using unat_sub[of w "fb_in f - fb_out f"] wn by (simp add: algebra_simps)
  have "ring_read ?m (unat (fb_out f + w)) (?c - n) = ring_read ?m (unat (fb_out f) + n) (?c - n)"
    using ring_read_mod[of ?m "unat (fb_out f + w)" "?c - n"]
      ring_read_mod[of ?m "unat (fb_out f) + n" "?c - n"]
      unat_mod_pow2_add[of k "fb_out f" w] k(1,4) wn by simp
  also have "\<dots> = drop n (fifo_buf_content f)"
    using n by (simp add: fifo_buf_content_def ring_read_drop)
  finally show ?thesis
    using get cnt k inv ofn
    by (auto simp: fifo_buf_inv_def fifo_buf_content_def[of "f\<lparr>fb_out := fb_out f + w\<rparr>"]
        word_le_nat_alt)
qed

lemma fifo_buf_reset_correct:
  assumes "fifo_buf_inv f"
  shows "fifo_buf_inv (fifo_buf_reset f) \<and> fifo_buf_content (fifo_buf_reset f) = []"
  using assms by (auto simp: fifo_buf_inv_def fifo_buf_reset_def fifo_buf_content_def)

lemma fifo_buf_get_correct:
  fixes len :: u32
  assumes inv: "fifo_buf_inv f"
  defines "n \<equiv> min (unat len) (length (fifo_buf_content f))"
  shows "\<exists>f'. fifo_buf_get f len = Some (of_nat n, take n (fifo_buf_content f), f')
    \<and> fifo_buf_inv f' \<and> fifo_buf_content f' = drop n (fifo_buf_content f)
    \<and> fb_size f' = fb_size f"
proof -
  from fifo_buf_get_nolock_correct[OF inv, of len] obtain f1
    where g: "fifo_buf_get_nolock f len = Some (of_nat n, take n (fifo_buf_content f), f1)"
      and i: "fifo_buf_inv f1" and c: "fifo_buf_content f1 = drop n (fifo_buf_content f)"
      and sz: "fb_size f1 = fb_size f"
    unfolding n_def by blast
  show ?thesis
  proof (cases "fb_in f1 = fb_out f1")
    case True
    then have e: "drop n (fifo_buf_content f) = []" using c by (simp add: fifo_buf_content_def)
    have "fifo_buf_get f len
        = Some (of_nat n, take n (fifo_buf_content f), fifo_buf_reset f1)"
      using g True by (simp add: fifo_buf_get_def fifo_buf_reset_def)
    with fifo_buf_reset_correct[OF i] e sz show ?thesis
      by (intro exI[of _ "fifo_buf_reset f1"]) (simp add: fifo_buf_reset_def)
  next
    case False
    with g i c sz show ?thesis by (simp add: fifo_buf_get_def)
  qed
qed

lemma length_fifo_buf_content: "length (fifo_buf_content f) = unat (fb_in f - fb_out f)"
  by (simp add: fifo_buf_content_def)

text \<open>One byte at a time, the ring buffer is a bounded queue.\<close>

definition fifo_buf_put1 :: "u8 \<Rightarrow> fifo_buf_t \<Rightarrow> bool \<times> fifo_buf_t" where
  "fifo_buf_put1 x f =
     (case fifo_buf_put f [x] 1 of Some (n, f') \<Rightarrow> (n = 1, f') | None \<Rightarrow> (False, f))"

definition fifo_buf_get1 :: "fifo_buf_t \<Rightarrow> u8 option \<times> fifo_buf_t" where
  "fifo_buf_get1 f =
     (case fifo_buf_get f 1 of Some (n, bs, f') \<Rightarrow> (if n = 1 then Some (hd bs) else None, f')
      | None \<Rightarrow> (None, f))"

interpretation fbq: bounded_queue fifo_buf_inv fifo_buf_content "\<lambda>f. unat (fb_size f)"
  fifo_buf_put1 fifo_buf_get1 "\<lambda>_ _. True"
proof (unfold_locales, goal_cases)
  case (1 q)
  then show ?case by (simp add: length_fifo_buf_content fifo_buf_inv_def word_le_nat_alt)
next
  case (2 q x)
  then show ?case
    using fifo_buf_put_nolock_correct[OF 2(1), of 1 "[x]"]
    by (auto simp: fifo_buf_put1_def fifo_buf_put_def min_def)
next
  case (3 q x)
  then show ?case
    using fifo_buf_put_nolock_correct[OF 3(1), of 1 "[x]"]
    by (auto simp: fifo_buf_put1_def fifo_buf_put_def min_def)
next
  case (4 q x xs)
  then show ?case
    using fifo_buf_get_correct[OF 4(1), of 1] by (auto simp: fifo_buf_get1_def min_def)
next
  case (5 q)
  then show ?case
    using fifo_buf_get_correct[OF 5(1), of 1] by (auto simp: fifo_buf_get1_def min_def)
qed

section \<open>Properties\<close>

text \<open>\<^verbatim>\<open>fifo_buf_put\<close> stays inside its buffer, takes as many bytes as are offered and fit,
  returns that number, and appends exactly those bytes to the queue, also when the 32-bit
  cursors wrap around.\<close>

theorem fifo_buf_put_appends:
  assumes "fifo_buf_inv f" and "unat len \<le> length data"
  shows "\<exists>n f'. fifo_buf_put f data len = Some (n, f') \<and> fifo_buf_inv f'
    \<and> unat n = min (unat len) (unat (fb_size f) - length (fifo_buf_content f))
    \<and> fifo_buf_content f' = fifo_buf_content f @ take (unat n) data"
proof -
  let ?n = "min (unat len) (unat (fb_size f) - length (fifo_buf_content f))"
  have "?n < 2 ^ 32" using unat_lt_32[of len] by simp
  then have "unat (of_nat ?n :: u32) = ?n" by (simp add: unat_of_nat)
  with fifo_buf_put_nolock_correct[OF assms] show ?thesis by (auto simp: fifo_buf_put_def)
qed

theorem fifo_buf_put_appends_witness:
  "\<exists>n f'. fifo_buf_put \<lparr>fb_buffer = [1, 2, 3, 4], fb_size = 4, fb_in = 1, fb_out = 0xFFFFFFFF\<rparr>
       [7, 8, 9] 3 = Some (n, f') \<and> fifo_buf_inv f' \<and> unat n = 2
       \<and> fifo_buf_content f' = [4, 1, 7, 8]"
proof -
  let ?f = "\<lparr>fb_buffer = [1, 2, 3, 4], fb_size = 4, fb_in = 1, fb_out = 0xFFFFFFFF\<rparr> :: fifo_buf_t"
  have "(4 :: u32) = 2 ^ 2" by simp
  then have inv: "fifo_buf_inv ?f" unfolding fifo_buf_inv_def by (auto intro!: exI[of _ 2])
  have c: "fifo_buf_content ?f = [4, 1]" by (simp add: fifo_buf_content_def ring_read_def upt_rec)
  from fifo_buf_put_appends[OF inv, of 3 "[7, 8, 9]"] c show ?thesis by force
qed

text \<open>\<^verbatim>\<open>fifo_buf_get\<close> stays inside its buffer and delivers the oldest bytes, as many as are
  asked for and present, in the order they were put, and leaves the rest.\<close>

theorem fifo_buf_get_takes:
  assumes "fifo_buf_inv f"
  shows "\<exists>n f'. fifo_buf_get f len = Some (n, take (unat n) (fifo_buf_content f), f')
    \<and> fifo_buf_inv f' \<and> unat n = min (unat len) (length (fifo_buf_content f))
    \<and> fifo_buf_content f' = drop (unat n) (fifo_buf_content f)"
proof -
  let ?n = "min (unat len) (length (fifo_buf_content f))"
  have "?n < 2 ^ 32" using unat_lt_32[of len] by simp
  then have "unat (of_nat ?n :: u32) = ?n" by (simp add: unat_of_nat)
  with fifo_buf_get_correct[OF assms, of len] show ?thesis by auto
qed

theorem fifo_buf_get_takes_witness:
  "\<exists>n f'. fifo_buf_get \<lparr>fb_buffer = [1, 2, 3, 4], fb_size = 4, fb_in = 1, fb_out = 0xFFFFFFFF\<rparr> 1
     = Some (n, take (unat n) [4, 1], f') \<and> unat n = 1 \<and> fifo_buf_content f' = [1]"
proof -
  let ?f = "\<lparr>fb_buffer = [1, 2, 3, 4], fb_size = 4, fb_in = 1, fb_out = 0xFFFFFFFF\<rparr> :: fifo_buf_t"
  have "(4 :: u32) = 2 ^ 2" by simp
  then have inv: "fifo_buf_inv ?f" unfolding fifo_buf_inv_def by (auto intro!: exI[of _ 2])
  have c: "fifo_buf_content ?f = [4, 1]" by (simp add: fifo_buf_content_def ring_read_def upt_rec)
  from fifo_buf_get_takes[OF inv, of 1] c show ?thesis by force
qed



lemma roundup_pow_of_two_correct:
  assumes "1 < unat x" "unat x < 2 ^ 31"
  shows "\<exists>k < 32. roundup_pow_of_two x = Some (2 ^ k) \<and> unat x \<le> 2 ^ k \<and> 2 ^ k < 2 * unat x"
proof -
  define v where "v = unat x - 1"
  have v: "0 < v" "unat x = Suc v" using assms by (auto simp: v_def)
  have "x \<noteq> 0" using assms by auto
  then have "unat (x - 1) = v" by (simp add: v_def unat_minus_one)
  then have sv: "sint (x - 1) = int v" using assms v by (subst sint_small) auto
  obtain n where n: "fls (int v) = Some (int n)" "int v < 2 ^ n" "2 ^ n \<le> 2 * int v"
    using fls_pos[of "int v"] v by auto
  have le: "2 ^ n \<le> 2 * v" "v < 2 ^ n"
    using n(2,3) by (metis of_nat_le_iff of_nat_mult of_nat_numeral of_nat_power)
      (metis n(2) of_nat_less_iff of_nat_numeral of_nat_power)
  have n32: "n < 32"
  proof (rule ccontr)
    assume "\<not> n < 32"
    then have "(2::nat) ^ 32 \<le> 2 ^ n" by (intro power_increasing) auto
    with le assms v show False by simp
  qed
  have "roundup_pow_of_two x = Some (2 ^ n)"
    by (simp add: roundup_pow_of_two_def sv n(1) push_bit_eq_mult)
  with n32 le v show ?thesis by (intro exI[of _ n]) auto
qed

text \<open>For every size from 1 to \<open>2\<^sup>3\<^sup>1\<close> and an allocator that succeeds with objects of the
  requested size, \<^verbatim>\<open>fifo_buf_alloc\<close> returns a valid empty buffer whose capacity is the
  smallest power of two that holds the requested size.\<close>

theorem fifo_buf_alloc_correct:
  assumes "\<And>n. \<exists>b. mem_alloc n = Some b \<and> length b = unat n"
    and "0 < unat sz" and "unat sz \<le> 2 ^ 31"
  shows "\<exists>f. fifo_buf_alloc mem_alloc (Some hdr) sz = Some (Inr f) \<and> fifo_buf_inv f
    \<and> fifo_buf_content f = [] \<and> unat sz \<le> unat (fb_size f) \<and> unat (fb_size f) < 2 * unat sz"
proof -
  have ok: "\<exists>f. fifo_buf_alloc mem_alloc (Some hdr) sz = Some (Inr f) \<and> fifo_buf_inv f
      \<and> fifo_buf_content f = [] \<and> fb_size f = 2 ^ k"
    if k: "k < 32" and np: "is_power_of_2 sz \<or> sz < 0x80000000"
      and sz': "(if is_power_of_2 sz then Some sz else roundup_pow_of_two sz) = Some (2 ^ k)" for k
  proof -
    obtain b where "mem_alloc (2 ^ k) = Some b" "length b = unat (2 ^ k :: u32)"
      using assms(1) by blast
    with that is_power_of_2_pow[OF k] show ?thesis
      by (auto simp: fifo_buf_alloc_def fifo_buf_init_def fifo_buf_inv_def fifo_buf_content_def)
  qed
  show ?thesis
  proof (cases "is_power_of_2 sz")
    case True
    then obtain k where k: "k < 32" "sz = 2 ^ k" using is_power_of_2_ex by blast
    with True ok[OF k(1)] assms(2) show ?thesis by auto
  next
    case False
    have ne1: "unat sz \<noteq> 1" using False is_power_of_2_pow[of 0] word_unat_eq_iff[of sz 1] by auto
    have "unat sz \<noteq> 2 ^ 31"
      using False is_power_of_2_pow[of 31] word_unat_eq_iff[of sz "2 ^ 31"] by auto
    with ne1 assms have b: "1 < unat sz" "unat sz < 2 ^ 31" by auto
    then have lt: "sz < 0x80000000" by (simp add: word_less_nat_alt)
    from roundup_pow_of_two_correct[OF b] obtain k where k: "k < 32"
      "roundup_pow_of_two sz = Some (2 ^ k)" "unat sz \<le> 2 ^ k" "2 ^ k < 2 * unat sz" by blast
    with False lt ok[OF k(1)] show ?thesis by (auto simp: unat_pow2)
  qed
qed

theorem fifo_buf_alloc_correct_witness:
  "\<exists>f. fifo_buf_alloc (\<lambda>n. Some (replicate (unat n) 0))
        (Some \<lparr>fb_buffer = [], fb_size = 0, fb_in = 9, fb_out = 3\<rparr>) 5 = Some (Inr f)
     \<and> fifo_buf_inv f \<and> fifo_buf_content f = [] \<and> 5 \<le> unat (fb_size f) \<and> unat (fb_size f) < 10"
  using fifo_buf_alloc_correct[of "\<lambda>n. Some (replicate (unat n) 0)" 5
      "\<lparr>fb_buffer = [], fb_size = 0, fb_in = 9, fb_out = 3\<rparr>"] by simp

text \<open>For size 0 \<^verbatim>\<open>fifo_buf_alloc\<close> does not return: zero is not a power of two, and rounding
  it up makes \<^verbatim>\<open>fls\<close> shift the value \<open>-1\<close> right forever.\<close>

theorem fifo_buf_alloc_zero_diverges: "fifo_buf_alloc mem_alloc hdr 0 = None"
  using fls_negative[of "-1"]
  by (simp add: fifo_buf_alloc_def is_power_of_2_def roundup_pow_of_two_def)

end
