(* ===== verification/Sched.thy ===== *)
theory Sched
  imports OS_Prelude
begin

text \<open>
  Tasks and the scheduler: \<^verbatim>\<open>src/task/schedule.c\<close>, \<^verbatim>\<open>src/include/xbook/schedule.h\<close>, the state
  changes of \<^verbatim>\<open>src/task/task.c\<close> and \<^verbatim>\<open>src/include/xbook/task.h\<close>. A task is named by its
  address (\<open>tid\<close>); the intrusive lists (\<^verbatim>\<open>list_t\<close>) are lists of such names. The kernel runs on
  one processor with interrupts off inside these functions, so each is one atomic change of
  the state \<open>kst\<close>. \<open>None\<close> means that the kernel does not go on: a failed assertion, a panic,
  or a read outside the queue table.

  The saved floating-point and stack contexts and the page directory switch of
  \<^verbatim>\<open>sched_set_next_task\<close> are hardware state and are left out.
\<close>

section \<open>Data\<close>

type_synonym tid = nat

datatype task_state_t =
  TASK_READY | TASK_RUNNING | TASK_BLOCKED | TASK_WAITING | TASK_STOPPED | TASK_HANGING | TASK_ZOMBIE

record task_t =
  t_state :: task_state_t
  t_pid :: int
  t_parent_pid :: int
  t_tgid :: int
  t_pgid :: int
  t_flags :: u32
  t_priority :: int
  t_static_priority :: int
  t_ticks :: u32
  t_timeslice :: u32
  t_elapsed_ticks :: u32
  t_exit_status :: int

record sched_queue_t =
  q_list :: "tid list"
  q_length :: nat
  q_priority :: nat

record sched_unit_t =
  su_tasknr :: u32
  su_dynamic_priority :: nat
  su_idle :: tid
  su_cur :: tid
  su_queue :: "sched_queue_t list"

record kst =
  k_task :: "tid \<Rightarrow> task_t"
  k_global :: "tid list"
  k_next_pid :: int
  k_su :: sched_unit_t
  k_tasknr :: u32
  k_wait :: "nat \<Rightarrow> tid list"

abbreviation (input) TASK_PRIORITY_LOW :: int where "TASK_PRIORITY_LOW \<equiv> 0"
abbreviation (input) TASK_PRIORITY_HIGH :: int where "TASK_PRIORITY_HIGH \<equiv> 2"
abbreviation (input) TASK_PRIORITY_REALTIME :: int where "TASK_PRIORITY_REALTIME \<equiv> 3"
abbreviation (input) TASK_PRIORITY_MAX_NR :: nat where "TASK_PRIORITY_MAX_NR \<equiv> 4"
abbreviation (input) TASK_PRIO_LEVEL_MAX :: nat where "TASK_PRIO_LEVEL_MAX \<equiv> 5"
abbreviation (input) THREAD_FLAG_WAITLIST :: u32 where "THREAD_FLAG_WAITLIST \<equiv> 64"
abbreviation (input) THREAD_FLAG_KERNEL :: u32 where "THREAD_FLAG_KERNEL \<equiv> 128"
abbreviation (input) USER_INIT_PROC_ID :: int where "USER_INIT_PROC_ID \<equiv> 1"

text \<open>Assignment to a C \<^verbatim>\<open>char\<close> (signed, 8 bits).\<close>

definition to_char :: "int \<Rightarrow> int" where
  "to_char n = signed_take_bit 7 n"

definition upd_task :: "tid \<Rightarrow> (task_t \<Rightarrow> task_t) \<Rightarrow> kst \<Rightarrow> kst" where
  "upd_task t f s = s\<lparr>k_task := (k_task s)(t := f (k_task s t))\<rparr>"

abbreviation set_state :: "tid \<Rightarrow> task_state_t \<Rightarrow> kst \<Rightarrow> kst" where
  "set_state t st \<equiv> upd_task t (t_state_update (\<lambda>_. st))"

abbreviation task_current :: "kst \<Rightarrow> tid" where
  "task_current s \<equiv> su_cur (k_su s)"


section \<open>Scheduler\<close>

definition sched_priority_levels :: "int list" where
  "sched_priority_levels = [1, 0, 1, 2, 3]"

definition sched_calc_base_priority :: "nat \<Rightarrow> int" where
  "sched_calc_base_priority level0 =
     (let level = (if level0 \<ge> TASK_PRIO_LEVEL_MAX then 0 else level0)
      in sched_priority_levels ! level)"

definition sched_calc_new_priority :: "task_t \<Rightarrow> int \<Rightarrow> int option" where
  "sched_calc_new_priority task adjustment =
     (let p0 = t_priority task in
      if \<not> p0 \<le> TASK_PRIORITY_REALTIME then None
      else if p0 < TASK_PRIORITY_REALTIME then
        (let p1 = to_char (p0 + adjustment);
             p2 = (if p1 \<ge> TASK_PRIORITY_REALTIME then TASK_PRIORITY_REALTIME - 1 else p1);
             p3 = (if p2 < t_static_priority task then t_static_priority task else p2)
         in Some p3)
      else Some p0)"

definition init_sched_unit :: "sched_unit_t \<Rightarrow> sched_unit_t" where
  "init_sched_unit su = su\<lparr>su_cur := 0, su_idle := 0, su_tasknr := 0, su_dynamic_priority := 0,
     su_queue := map (\<lambda>i. \<lparr>q_list = [], q_length = 0, q_priority = i\<rparr>) [0..<TASK_PRIORITY_MAX_NR]\<rparr>"

definition sched_queue_has_task :: "sched_unit_t \<Rightarrow> tid \<Rightarrow> bool" where
  "sched_queue_has_task su t = (t \<in> set (q_list (su_queue su ! su_dynamic_priority su)))"

text \<open>
  \<^verbatim>\<open>sched_queue_add_tail\<close> and \<^verbatim>\<open>sched_queue_add_head\<close> have the same body: both append.
\<close>

definition sched_queue_add_tail :: "tid \<Rightarrow> kst \<Rightarrow> kst option" where
  "sched_queue_add_tail t s =
     (let su = k_su s; p = t_priority (k_task s t) in
      if \<not> (0 \<le> p \<and> nat p < length (su_queue su)) then None
      else let i = nat p; queue = su_queue su ! i in
        if t \<in> set (q_list queue) then None
        else Some (s\<lparr>k_tasknr := k_tasknr s + 1,
          k_su := su\<lparr>su_queue := (su_queue su)[i := queue\<lparr>q_list := q_list queue @ [t],
                                                        q_length := q_length queue + 1\<rparr>],
                     su_tasknr := su_tasknr su + 1,
                     su_dynamic_priority := (if p > int (su_dynamic_priority su) then i
                                             else su_dynamic_priority su)\<rparr>\<rparr>))"

definition sched_queue_add_head :: "tid \<Rightarrow> kst \<Rightarrow> kst option" where
  "sched_queue_add_head t s =
     (let su = k_su s; p = t_priority (k_task s t) in
      if \<not> (0 \<le> p \<and> nat p < length (su_queue su)) then None
      else let i = nat p; queue = su_queue su ! i in
        if t \<in> set (q_list queue) then None
        else Some (s\<lparr>k_tasknr := k_tasknr s + 1,
          k_su := su\<lparr>su_queue := (su_queue su)[i := queue\<lparr>q_list := q_list queue @ [t],
                                                        q_length := q_length queue + 1\<rparr>],
                     su_tasknr := su_tasknr su + 1,
                     su_dynamic_priority := (if p > int (su_dynamic_priority su) then i
                                             else su_dynamic_priority su)\<rparr>\<rparr>))"

text \<open>
  The search loop of \<^verbatim>\<open>sched_queue_fetch_first\<close>. Decrementing past 0 makes the next read
  leave the table.
\<close>

fun fetch_priority :: "sched_queue_t list \<Rightarrow> nat \<Rightarrow> nat option" where
  "fetch_priority qs 0 = (if 0 < length qs \<and> q_length (qs ! 0) \<noteq> 0 then Some 0 else None)"
| "fetch_priority qs (Suc p) =
     (if \<not> Suc p < length qs then None
      else if q_length (qs ! Suc p) = 0 then fetch_priority qs p else Some (Suc p))"

definition sched_queue_fetch_first :: "kst \<Rightarrow> (tid \<times> kst) option" where
  "sched_queue_fetch_first s = do {
     let su = k_su s;
     p \<leftarrow> fetch_priority (su_queue su) (su_dynamic_priority su);
     let queue = su_queue su ! p;
     case q_list queue of
       [] \<Rightarrow> None
     | t # ts \<Rightarrow> Some (t, s\<lparr>k_su := su\<lparr>su_dynamic_priority := p,
          su_queue := (su_queue su)[p := queue\<lparr>q_list := ts, q_length := q_length queue - 1\<rparr>],
          su_tasknr := su_tasknr su - 1\<rparr>\<rparr>) }"

definition lower_priority :: "task_t \<Rightarrow> task_t" where
  "lower_priority task =
     (if t_priority task < TASK_PRIORITY_REALTIME \<and> t_priority task > TASK_PRIORITY_LOW
      then (if t_priority task - 1 \<le> TASK_PRIORITY_LOW
            then task\<lparr>t_priority := t_static_priority task\<rparr>
            else task\<lparr>t_priority := t_priority task - 1\<rparr>)
      else task)"

definition get_next_task :: "kst \<Rightarrow> (tid \<times> kst) option" where
  "get_next_task s =
     (let c = task_current s; st = t_state (k_task s c) in do {
        s' \<leftarrow> (if st = TASK_RUNNING then
                 sched_queue_add_tail c (upd_task c (\<lambda>t. lower_priority
                   (t\<lparr>t_ticks := t_timeslice t, t_state := TASK_READY\<rparr>)) s)
               else if st = TASK_READY then sched_queue_add_tail c (upd_task c lower_priority s)
               else Some s);
        sched_queue_fetch_first s' })"

definition sched_set_next_task :: "tid \<Rightarrow> kst \<Rightarrow> kst" where
  "sched_set_next_task t s =
     set_state t TASK_RUNNING (s\<lparr>k_su := (k_su s)\<lparr>su_cur := t\<rparr>\<rparr>)"

definition schedule :: "kst \<Rightarrow> kst option" where
  "schedule s = do { (t, s') \<leftarrow> get_next_task s; Some (sched_set_next_task t s') }"


section \<open>Task state changes\<close>

definition task_block :: "task_state_t \<Rightarrow> kst \<Rightarrow> kst option" where
  "task_block st s =
     (if st \<in> {TASK_BLOCKED, TASK_WAITING, TASK_STOPPED, TASK_HANGING, TASK_ZOMBIE}
      then schedule (set_state (task_current s) st s) else None)"

definition task_unblock :: "tid \<Rightarrow> kst \<Rightarrow> kst option" where
  "task_unblock t s =
     (if t_state (k_task s t) \<notin> {TASK_BLOCKED, TASK_WAITING, TASK_STOPPED} then None
      else if sched_queue_has_task (k_su s) t then None
      else do {
        let s1 = set_state t TASK_READY s;
        p \<leftarrow> sched_calc_new_priority (k_task s1 t) 1;
        sched_queue_add_head t (upd_task t (t_priority_update (\<lambda>_. p)) s1) })"

definition task_yield :: "kst \<Rightarrow> kst option" where
  "task_yield s = schedule (set_state (task_current s) TASK_READY s)"

text \<open>\<^verbatim>\<open>list_del\<close> unlinks a node from whichever list it is on.\<close>

definition list_unlink :: "tid \<Rightarrow> kst \<Rightarrow> kst" where
  "list_unlink t s = s\<lparr>k_wait := (\<lambda>w. removeAll t (k_wait s w)),
     k_su := (k_su s)\<lparr>su_queue := map (q_list_update (removeAll t)) (su_queue (k_su s))\<rparr>\<rparr>"

definition TASK_NOT_READY :: "task_t \<Rightarrow> bool" where
  "TASK_NOT_READY task \<longleftrightarrow> t_state task \<in> {TASK_BLOCKED, TASK_WAITING, TASK_STOPPED}"

definition TASK_ENTER_WAITLIST :: "tid \<Rightarrow> kst \<Rightarrow> kst" where
  "TASK_ENTER_WAITLIST t = upd_task t (t_flags_update (\<lambda>f. f OR THREAD_FLAG_WAITLIST))"

definition TASK_LEAVE_WAITLIST :: "tid \<Rightarrow> kst \<Rightarrow> kst" where
  "TASK_LEAVE_WAITLIST t = upd_task t (t_flags_update (\<lambda>f. f AND NOT THREAD_FLAG_WAITLIST))"

definition TASK_IN_WAITLIST :: "task_t \<Rightarrow> bool" where
  "TASK_IN_WAITLIST task \<longleftrightarrow> t_flags task AND THREAD_FLAG_WAITLIST \<noteq> 0"

definition task_wakeup :: "tid \<Rightarrow> kst \<Rightarrow> kst option" where
  "task_wakeup t s =
     (if TASK_NOT_READY (k_task s t)
      then task_unblock t (if TASK_IN_WAITLIST (k_task s t) then list_unlink t s else s)
      else Some s)"

definition task_detach :: "tid \<Rightarrow> kst \<Rightarrow> kst" where
  "task_detach t s =
     (if TASK_NOT_READY (k_task s t) \<and> TASK_IN_WAITLIST (k_task s t) then list_unlink t s else s)"


section \<open>Task identity\<close>

definition task_take_pid :: "kst \<Rightarrow> int \<times> kst" where
  "task_take_pid s = (k_next_pid s, s\<lparr>k_next_pid := k_next_pid s + 1\<rparr>)"

definition task_rollback_pid :: "kst \<Rightarrow> kst" where
  "task_rollback_pid s = s\<lparr>k_next_pid := k_next_pid s - 1\<rparr>"

text \<open>The fields of \<^verbatim>\<open>task_init\<close> that this model keeps; every other field is cleared there.\<close>

definition task_init :: "tid \<Rightarrow> nat \<Rightarrow> kst \<Rightarrow> kst" where
  "task_init t prio_level s =
     (let (pid, s1) = task_take_pid s; b = sched_calc_base_priority prio_level in
      upd_task t (\<lambda>_. \<lparr>t_state = TASK_READY, t_pid = pid, t_parent_pid = -1, t_tgid = pid, t_pgid = -1,
        t_flags = 0, t_priority = b, t_static_priority = b, t_ticks = 2, t_timeslice = 2,
        t_elapsed_ticks = 0, t_exit_status = 0\<rparr>) s1)"

definition task_add_to_global_list :: "tid \<Rightarrow> kst \<Rightarrow> kst option" where
  "task_add_to_global_list t s =
     (if t \<in> set (k_global s) then None else Some (s\<lparr>k_global := k_global s @ [t]\<rparr>))"

text \<open>
  \<open>alloc\<close> is the result of \<^verbatim>\<open>mem_alloc\<close> for the task structure and \<open>fd_ok\<close> whether
  \<^verbatim>\<open>fs_fd_init\<close> succeeds; the result is the new task or a null pointer.
\<close>

definition task_create :: "tid option \<Rightarrow> bool \<Rightarrow> nat \<Rightarrow> kst \<Rightarrow> (tid res \<times> kst) option" where
  "task_create alloc fd_ok prio_level s =
     (case alloc of
        None \<Rightarrow> Some (Inl E_FAIL, s)
      | Some t \<Rightarrow>
          (let s1 = upd_task t (t_flags_update (\<lambda>f. f OR THREAD_FLAG_KERNEL)) (task_init t prio_level s) in
           if \<not> fd_ok then Some (Inl E_FAIL, s1)
           else do {
             s2 \<leftarrow> task_add_to_global_list t s1;
             s3 \<leftarrow> sched_queue_add_tail t s2;
             Some (Inr t, s3) }))"

definition task_set_timeslice :: "tid \<Rightarrow> u32 \<Rightarrow> kst \<Rightarrow> kst" where
  "task_set_timeslice t ts s =
     (let a = (if ts < 1 then 1 else ts); b = (if a > 100 then 100 else a)
      in upd_task t (t_timeslice_update (\<lambda>_. b)) s)"

definition task_find_by_pid :: "int \<Rightarrow> kst \<Rightarrow> tid option" where
  "task_find_by_pid pid s = find (\<lambda>t. t_pid (k_task s t) = pid) (k_global s)"

definition task_is_child :: "int \<Rightarrow> int \<Rightarrow> kst \<Rightarrow> bool" where
  "task_is_child pid child_pid s =
     (case task_find_by_pid child_pid s of None \<Rightarrow> False | Some c \<Rightarrow> t_parent_pid (k_task s c) = pid)"

definition sys_set_pgid :: "int \<Rightarrow> int \<Rightarrow> kst \<Rightarrow> unit res \<times> kst" where
  "sys_set_pgid pid pgid s =
     (if pid < 0 \<or> pgid < -1 then (Inl E_INVAL, s)
      else case (if pid = 0 then Some (task_current s) else task_find_by_pid pid s) of
        None \<Rightarrow> (Inl E_SRCH, s)
      | Some t \<Rightarrow>
          (let pgid' = (if pgid = 0 then t_pid (k_task s t) else pgid);
               cur = k_task s (task_current s) in
           if t_pid (k_task s t) \<noteq> t_pid cur \<and> \<not> task_is_child (t_pid cur) (t_pid (k_task s t)) s
           then (Inl E_PERM, s)
           else (Inr (), upd_task t (t_pgid_update (\<lambda>_. pgid')) s)))"

definition sys_get_pgid :: "int \<Rightarrow> kst \<Rightarrow> int res" where
  "sys_get_pgid pid s =
     (if pid < 0 then Inl E_INVAL
      else case (if pid = 0 then Some (task_current s) else task_find_by_pid pid s) of
        None \<Rightarrow> Inl E_SRCH
      | Some t \<Rightarrow> Inr (t_pgid (k_task s t)))"

text \<open>\<^verbatim>\<open>sched_softirq_handler\<close> of \<^verbatim>\<open>src/kernel/clock.c\<close>: the tick accounting that preempts.\<close>

definition sched_softirq_handler :: "kst \<Rightarrow> kst option" where
  "sched_softirq_handler s =
     (let c = task_current s; s1 = upd_task c (\<lambda>t. t\<lparr>t_elapsed_ticks := t_elapsed_ticks t + 1\<rparr>) s in
      if t_ticks (k_task s1 c) \<le> 0 then schedule s1
      else Some (upd_task c (\<lambda>t. t\<lparr>t_ticks := t_ticks t - 1\<rparr>) s1))"


section \<open>Invariant\<close>

abbreviation rq :: "kst \<Rightarrow> nat \<Rightarrow> tid list" where
  "rq s i \<equiv> q_list (su_queue (k_su s) ! i)"

definition prio_ok :: "task_t \<Rightarrow> bool" where
  "prio_ok t \<longleftrightarrow> 0 \<le> t_static_priority t \<and> t_static_priority t \<le> 3 \<and> 0 \<le> t_priority t \<and> t_priority t \<le> 3"

definition queues_ok :: "kst \<Rightarrow> bool" where
  "queues_ok s \<longleftrightarrow> length (su_queue (k_su s)) = 4
     \<and> (\<forall>i < 4. q_length (su_queue (k_su s) ! i) = length (rq s i) \<and> distinct (rq s i)
          \<and> (\<forall>t \<in> set (rq s i). t_state (k_task s t) = TASK_READY \<and> t_priority (k_task s t) = int i))
     \<and> su_dynamic_priority (k_su s) < 4
     \<and> (\<forall>i < 4. su_dynamic_priority (k_su s) < i \<longrightarrow> rq s i = [])
     \<and> su_tasknr (k_su s) = of_nat (sum_list (map (\<lambda>q. length (q_list q)) (su_queue (k_su s))))
     \<and> (\<forall>t. prio_ok (k_task s t))"

definition queued :: "kst \<Rightarrow> tid set" where
  "queued s = (\<Union>i < 4. set (rq s i))"

definition sched_inv :: "kst \<Rightarrow> bool" where
  "sched_inv s \<longleftrightarrow> queues_ok s \<and> task_current s \<notin> queued s"

lemma queues_okD:
  assumes "queues_ok s"
  shows "length (su_queue (k_su s)) = 4" "su_dynamic_priority (k_su s) < 4"
    "i < 4 \<Longrightarrow> q_length (su_queue (k_su s) ! i) = length (rq s i)" "i < 4 \<Longrightarrow> distinct (rq s i)"
    "i < 4 \<Longrightarrow> t \<in> set (rq s i) \<Longrightarrow> t_state (k_task s t) = TASK_READY"
    "i < 4 \<Longrightarrow> t \<in> set (rq s i) \<Longrightarrow> t_priority (k_task s t) = int i"
    "i < 4 \<Longrightarrow> su_dynamic_priority (k_su s) < i \<Longrightarrow> rq s i = []"
    "prio_ok (k_task s t)"
  using assms by (auto simp: queues_ok_def)

lemma sum_list_map_update:
  fixes f :: "'a \<Rightarrow> nat"
  assumes "i < length xs"
  shows "sum_list (map f (xs[i := y])) = sum_list (map f xs) + f y - f (xs ! i)"
  using assms by (simp add: map_update sum_list_update)

lemma le_sum_list_map: "i < length xs \<Longrightarrow> f (xs ! i) \<le> sum_list (map f xs :: nat list)"
  using elem_le_sum_list[of i "map f xs"] by simp

lemma add_head_eq_tail: "sched_queue_add_head = sched_queue_add_tail"
  by (rule ext, rule ext) (simp only: sched_queue_add_head_def sched_queue_add_tail_def)

lemma sched_queue_add_tail_ok:
  assumes ok: "queues_ok s" and st: "t_state (k_task s t) = TASK_READY" and new: "t \<notin> queued s"
  defines "p \<equiv> nat (t_priority (k_task s t))"
  obtains s' where "sched_queue_add_tail t s = Some s'" "queues_ok s'"
    "p < 4" "\<And>i. i < 4 \<Longrightarrow> rq s' i = (if i = p then rq s i @ [t] else rq s i)"
    "k_task s' = k_task s" "k_wait s' = k_wait s" "task_current s' = task_current s"
    "k_global s' = k_global s" "k_next_pid s' = k_next_pid s"
proof -
  have p: "0 \<le> t_priority (k_task s t)" "p < 4" "int p = t_priority (k_task s t)"
    using queues_okD(8)[OF ok, of t] by (auto simp: prio_ok_def p_def)
  have notin: "t \<notin> set (rq s p)" using new p(2) by (auto simp: queued_def)
  let ?q = "su_queue (k_su s) ! p"
  let ?q' = "?q\<lparr>q_list := q_list ?q @ [t], q_length := q_length ?q + 1\<rparr>"
  define s' where "s' = s\<lparr>k_tasknr := k_tasknr s + 1,
          k_su := (k_su s)\<lparr>su_queue := (su_queue (k_su s))[p := ?q'],
                     su_tasknr := su_tasknr (k_su s) + 1,
                     su_dynamic_priority := (if t_priority (k_task s t) > int (su_dynamic_priority (k_su s))
                        then p else su_dynamic_priority (k_su s))\<rparr>\<rparr>"
  have len: "length (su_queue (k_su s)) = 4" using ok by (rule queues_okD)
  have add: "sched_queue_add_tail t s = Some s'"
    using p(1,2) notin len by (simp add: sched_queue_add_tail_def s'_def Let_def p_def)
  have rq: "rq s' i = (if i = p then rq s i @ [t] else rq s i)" if "i < 4" for i
    using that len p by (simp add: s'_def nth_list_update)
  have frame: "k_task s' = k_task s" "k_wait s' = k_wait s" "task_current s' = task_current s"
    "k_global s' = k_global s" "k_next_pid s' = k_next_pid s" by (simp_all add: s'_def)
  have "queues_ok s'"
    unfolding queues_ok_def
  proof (intro conjI allI impI)
    show "length (su_queue (k_su s')) = 4" using len by (simp add: s'_def)
    fix i :: nat assume i: "i < 4"
    show "q_length (su_queue (k_su s') ! i) = length (rq s' i)"
      using i len p queues_okD(3)[OF ok i] by (simp add: s'_def nth_list_update)
    show "distinct (rq s' i)" using queues_okD(4)[OF ok i] notin by (auto simp: rq[OF i])
    show "\<forall>u \<in> set (rq s' i). t_state (k_task s' u) = TASK_READY \<and> t_priority (k_task s' u) = int i"
      using queues_okD(5,6)[OF ok i] st p by (auto simp: rq[OF i] frame)
  next
    show "su_dynamic_priority (k_su s') < 4" using queues_okD(2)[OF ok] p by (simp add: s'_def)
  next
    fix i :: nat assume i: "i < 4" and dp: "su_dynamic_priority (k_su s') < i"
    have "su_dynamic_priority (k_su s) < i" "i \<noteq> p" using dp p by (auto simp: s'_def split: if_splits)
    with queues_okD(7)[OF ok i] show "rq s' i = []" by (simp add: rq[OF i])
  next
    show "su_tasknr (k_su s') = of_nat (sum_list (map (\<lambda>q. length (q_list q)) (su_queue (k_su s'))))"
      using ok p(2) len le_sum_list_map[of p "su_queue (k_su s)" "\<lambda>q. length (q_list q)"]
      by (simp add: s'_def queues_ok_def sum_list_map_update)
  next
    fix u show "prio_ok (k_task s' u)" using queues_okD(8)[OF ok] by (simp add: frame)
  qed
  from that[OF add this p(2) rq frame] show ?thesis .
qed

lemma fetch_priority_spec:
  assumes "length qs = 4" "dp < 4" "\<And>i. i < 4 \<Longrightarrow> q_length (qs ! i) = length (q_list (qs ! i))"
  shows "(\<forall>p. fetch_priority qs dp = Some p \<longleftrightarrow>
      p \<le> dp \<and> q_list (qs ! p) \<noteq> [] \<and> (\<forall>j. p < j \<and> j \<le> dp \<longrightarrow> q_list (qs ! j) = []))"
  using assms
proof (induction qs dp rule: fetch_priority.induct)
  case (1 qs)
  then show ?case by (auto intro: gr0I)
next
  case (2 qs d)
  have q: "(q_length (qs ! Suc d) = 0) = (q_list (qs ! Suc d) = [])" using 2(4)[of "Suc d"] 2(3) by simp
  show ?case
  proof (cases "q_list (qs ! Suc d) = []")
    case True
    with 2 q show ?thesis by (auto simp: le_Suc_eq)
  next
    case False
    with 2 q show ?thesis by (auto simp: le_Suc_eq)
  qed
qed

text \<open>\<open>top_queue s p\<close>: \<open>p\<close> is the highest priority with a ready task.\<close>

definition top_queue :: "kst \<Rightarrow> nat \<Rightarrow> bool" where
  "top_queue s p \<longleftrightarrow> p < 4 \<and> rq s p \<noteq> [] \<and> (\<forall>j. p < j \<and> j < 4 \<longrightarrow> rq s j = [])"

lemma top_queue_ex: "i < 4 \<Longrightarrow> rq s i \<noteq> [] \<Longrightarrow> \<exists>p \<ge> i. top_queue s p"
proof -
  assume i: "i < 4" "rq s i \<noteq> []"
  let ?S = "{j. j < 4 \<and> rq s j \<noteq> []}"
  have fin: "finite ?S" and ne: "i \<in> ?S" using i by auto
  then have "Max ?S \<in> ?S" by (intro Max_in) auto
  moreover have "rq s j = []" if "Max ?S < j" "j < 4" for j
  proof (rule ccontr)
    assume "rq s j \<noteq> []"
    with that have "j \<in> ?S" by simp
    from Max_ge[OF fin this] that show False by simp
  qed
  moreover have "i \<le> Max ?S" using fin ne by (rule Max_ge)
  ultimately show ?thesis unfolding top_queue_def by blast
qed

lemma sched_queue_fetch_first_ok:
  assumes ok: "queues_ok s" and top: "top_queue s p"
  obtains t s' where "sched_queue_fetch_first s = Some (t, s')" "rq s p = t # rq s' p" "queues_ok s'"
    "\<And>i. i < 4 \<Longrightarrow> i \<noteq> p \<Longrightarrow> rq s' i = rq s i"
    "k_task s' = k_task s" "k_wait s' = k_wait s" "task_current s' = task_current s"
    "k_global s' = k_global s" "k_next_pid s' = k_next_pid s"
proof -
  note len = queues_okD(1)[OF ok] and dp = queues_okD(2)[OF ok] and ql = queues_okD(3)[OF ok]
  have p: "p < 4" "rq s p \<noteq> []" "\<And>j. p < j \<Longrightarrow> j < 4 \<Longrightarrow> rq s j = []" using top by (auto simp: top_queue_def)
  have "p \<le> su_dynamic_priority (k_su s)" using p queues_okD(7)[OF ok p(1)] by force
  with p dp have fp: "fetch_priority (su_queue (k_su s)) (su_dynamic_priority (k_su s)) = Some p"
    using fetch_priority_spec[OF len dp ql] by auto
  obtain t ts where t: "rq s p = t # ts" using p(2) by (cases "rq s p") auto
  let ?q = "su_queue (k_su s) ! p"
  define s' where "s' = s\<lparr>k_su := (k_su s)\<lparr>su_dynamic_priority := p,
      su_queue := (su_queue (k_su s))[p := ?q\<lparr>q_list := ts, q_length := q_length ?q - 1\<rparr>],
      su_tasknr := su_tasknr (k_su s) - 1\<rparr>\<rparr>"
  have get: "sched_queue_fetch_first s = Some (t, s')"
    using fp t by (simp add: sched_queue_fetch_first_def s'_def Let_def)
  have rqp: "rq s' p = ts" using len p by (simp add: s'_def)
  have rqi: "rq s' i = rq s i" if "i < 4" "i \<noteq> p" for i using that len by (simp add: s'_def)
  have frame: "k_task s' = k_task s" "k_wait s' = k_wait s" "task_current s' = task_current s"
    "k_global s' = k_global s" "k_next_pid s' = k_next_pid s" by (simp_all add: s'_def)
  have sub: "set (rq s' i) \<subseteq> set (rq s i)" if "i < 4" for i
    using that rqi[of i] rqp t by (cases "i = p") auto
  have "queues_ok s'"
    unfolding queues_ok_def
  proof (intro conjI allI impI)
    show "length (su_queue (k_su s')) = 4" using len by (simp add: s'_def)
    show "su_dynamic_priority (k_su s') < 4" using p by (simp add: s'_def)
    fix i :: nat assume i: "i < 4"
    show "q_length (su_queue (k_su s') ! i) = length (rq s' i)"
      using i len ql[OF i] t by (cases "i = p") (simp_all add: s'_def)
    show "distinct (rq s' i)" using queues_okD(4)[OF ok i] rqi[OF i] rqp t by (cases "i = p") auto
    show "\<forall>u \<in> set (rq s' i). t_state (k_task s' u) = TASK_READY \<and> t_priority (k_task s' u) = int i"
      using queues_okD(5,6)[OF ok i] sub[OF i] by (auto simp: frame)
  next
    fix i :: nat assume i: "i < 4" and d: "su_dynamic_priority (k_su s') < i"
    then show "rq s' i = []" using p rqi[OF i] by (simp add: s'_def)
  next
    have "length (rq s p) \<le> sum_list (map (\<lambda>q. length (q_list q)) (su_queue (k_su s)))"
      using le_sum_list_map[of p "su_queue (k_su s)" "\<lambda>q. length (q_list q)"] p len by simp
    then show "su_tasknr (k_su s') = of_nat (sum_list (map (\<lambda>q. length (q_list q)) (su_queue (k_su s'))))"
      using ok p(1) len t by (simp add: s'_def queues_ok_def sum_list_map_update of_nat_diff algebra_simps)
  next
    fix u show "prio_ok (k_task s' u)" using queues_okD(8)[OF ok] by (simp add: frame)
  qed
  from that[OF get _ this rqi frame] t rqp show ?thesis by simp
qed


section \<open>What the scheduler does\<close>

lemma lower_priority_simps [simp]:
  "t_state (lower_priority t) = t_state t" "t_static_priority (lower_priority t) = t_static_priority t"
  "prio_ok t \<Longrightarrow> prio_ok (lower_priority t)"
  by (auto simp: lower_priority_def prio_ok_def)

lemma prio_ok_simps [simp]:
  "prio_ok (t\<lparr>t_ticks := a\<rparr>) = prio_ok t" "prio_ok (t\<lparr>t_state := st\<rparr>) = prio_ok t"
  "prio_ok (t\<lparr>t_flags := fl\<rparr>) = prio_ok t"
  by (simp_all add: prio_ok_def)

lemma upd_task_simps [simp]:
  "k_su (upd_task t f s) = k_su s" "k_wait (upd_task t f s) = k_wait s"
  "k_task (upd_task t f s) = (k_task s)(t := f (k_task s t))"
  "k_global (upd_task t f s) = k_global s" "k_next_pid (upd_task t f s) = k_next_pid s"
  "queued (upd_task t f s) = queued s"
  by (simp_all add: upd_task_def queued_def)

lemma queues_ok_upd_task:
  assumes "queues_ok s" "t \<notin> queued s" "prio_ok (f (k_task s t))"
  shows "queues_ok (upd_task t f s)"
  using assms by (auto simp: queues_ok_def queued_def)

text \<open>
  The current task as it is put back: \<open>requeue\<close> is what \<^verbatim>\<open>get_next_task\<close> does to it before it
  is appended to its queue.
\<close>

definition requeue :: "task_t \<Rightarrow> task_t" where
  "requeue t = (if t_state t = TASK_RUNNING
     then lower_priority (t\<lparr>t_ticks := t_timeslice t, t_state := TASK_READY\<rparr>) else lower_priority t)"

definition runnable :: "kst \<Rightarrow> bool" where
  "runnable s \<longleftrightarrow> t_state (k_task s (task_current s)) \<in> {TASK_RUNNING, TASK_READY}"

text \<open>The ready queues after the current task has been put back, if it is still runnable.\<close>

definition offered :: "kst \<Rightarrow> nat \<Rightarrow> tid list" where
  "offered s i = (if runnable s \<and> i = nat (t_priority (requeue (k_task s (task_current s))))
     then rq s i @ [task_current s] else rq s i)"

lemma get_next_task_ok:
  assumes inv: "sched_inv s" and some: "i < 4" "offered s i \<noteq> []"
  obtains p t s' where "get_next_task s = Some (t, s')" "queues_ok s'" "p < 4"
    "offered s p = t # rq s' p" "\<And>j. j < 4 \<Longrightarrow> j \<noteq> p \<Longrightarrow> rq s' j = offered s j"
    "\<And>j. p < j \<Longrightarrow> j < 4 \<Longrightarrow> offered s j = []"
    "k_task s' = (if runnable s then (k_task s)(task_current s := requeue (k_task s (task_current s)))
                  else k_task s)" "k_wait s' = k_wait s"
    "k_global s' = k_global s" "k_next_pid s' = k_next_pid s"
    "t \<notin> queued s'" "t_priority (k_task s' t) = int p" "t_state (k_task s' t) = TASK_READY"
proof -
  let ?c = "task_current s"
  from inv have ok: "queues_ok s" and c: "?c \<notin> queued s" by (auto simp: sched_inv_def)
  define s0 where "s0 = (if runnable s then upd_task ?c requeue s else s)"
  obtain s1 where s1: "(if runnable s then sched_queue_add_tail ?c s0 else Some s0) = Some s1"
    and ok1: "queues_ok s1" and rq1: "\<And>j. j < 4 \<Longrightarrow> rq s1 j = offered s j"
    and fr: "k_task s1 = k_task s0" "k_wait s1 = k_wait s0" "k_global s1 = k_global s0"
      "k_next_pid s1 = k_next_pid s0"
  proof (cases "runnable s")
    case True
    have "prio_ok (requeue (k_task s ?c))" using queues_okD(8)[OF ok] by (simp add: requeue_def)
    then have "queues_ok s0" using ok c True by (simp add: s0_def queues_ok_upd_task)
    moreover have "t_state (k_task s0 ?c) = TASK_READY" using True by (auto simp: s0_def requeue_def runnable_def)
    moreover have "?c \<notin> queued s0" using c True by (simp add: s0_def)
    ultimately obtain s' where "sched_queue_add_tail ?c s0 = Some s'" "queues_ok s'"
      "\<And>j. j < 4 \<Longrightarrow> rq s' j = (if j = nat (t_priority (k_task s0 ?c)) then rq s0 j @ [?c] else rq s0 j)"
      "k_task s' = k_task s0" "k_wait s' = k_wait s0" "k_global s' = k_global s0" "k_next_pid s' = k_next_pid s0"
      by (rule sched_queue_add_tail_ok) blast
    with True show ?thesis by (intro that[of s']) (auto simp: offered_def s0_def)
  next
    case False
    with ok show ?thesis by (intro that[of s0]) (auto simp: offered_def s0_def)
  qed
  have gn: "get_next_task s = sched_queue_fetch_first s1"
    using s1 by (auto simp: get_next_task_def Let_def runnable_def s0_def requeue_def
        upd_task_def fun_upd_def split: if_splits cong: if_cong)
  from top_queue_ex[of i s1] some rq1 obtain p where top: "top_queue s1 p" by auto
  then have p: "p < 4" "\<And>j. p < j \<Longrightarrow> j < 4 \<Longrightarrow> rq s1 j = []" by (auto simp: top_queue_def)
  from ok1 top obtain t s' where "sched_queue_fetch_first s1 = Some (t, s')" "rq s1 p = t # rq s' p"
    "queues_ok s'" "\<And>i. i < 4 \<Longrightarrow> i \<noteq> p \<Longrightarrow> rq s' i = rq s1 i" "k_task s' = k_task s1" "k_wait s' = k_wait s1"
    "k_global s' = k_global s1" "k_next_pid s' = k_next_pid s1"
    by (rule sched_queue_fetch_first_ok) blast
  note f = this
  have t1: "t \<in> set (rq s1 p)" using f(2) by simp
  have pr: "t_priority (k_task s' t) = int p" "t_state (k_task s' t) = TASK_READY"
    using queues_okD(5,6)[OF ok1 p(1) t1] f(5) by simp_all
  have "t \<notin> set (rq s' j)" if "j < 4" for j
    using queues_okD(4)[OF ok1 p(1)] f(2) queues_okD(6)[OF f(3) that, of t] pr that by (cases "j = p") auto
  then have nq: "t \<notin> queued s'" by (auto simp: queued_def)
  show ?thesis
  proof (rule that[of t s' p])
    show "k_task s' = (if runnable s then (k_task s)(?c := requeue (k_task s ?c)) else k_task s)"
      using f(5) fr(1) by (simp add: s0_def)
    show "k_wait s' = k_wait s" "k_global s' = k_global s" "k_next_pid s' = k_next_pid s"
      using f(6-8) fr by (simp_all add: s0_def)
  qed (use f p gn rq1 pr nq in auto)
qed

lemma schedule_ok:
  assumes inv: "sched_inv s" and some: "i < 4" "offered s i \<noteq> []"
  obtains p s' where "schedule s = Some s'" "sched_inv s'" "p < 4"
    "offered s p = task_current s' # rq s' p" "\<And>j. j < 4 \<Longrightarrow> j \<noteq> p \<Longrightarrow> rq s' j = offered s j"
    "\<And>j. p < j \<Longrightarrow> j < 4 \<Longrightarrow> offered s j = []"
    "t_state (k_task s' (task_current s')) = TASK_RUNNING"
    "t_priority (k_task s' (task_current s')) = int p"
    "k_wait s' = k_wait s" "k_global s' = k_global s" "k_next_pid s' = k_next_pid s"
    "\<And>t. t \<noteq> task_current s' \<Longrightarrow> t \<noteq> task_current s \<or> \<not> runnable s \<Longrightarrow> k_task s' t = k_task s t"
proof -
  from inv some obtain p t s1 where n: "get_next_task s = Some (t, s1)" "queues_ok s1" "p < 4"
    "offered s p = t # rq s1 p" "\<And>j. j < 4 \<Longrightarrow> j \<noteq> p \<Longrightarrow> rq s1 j = offered s j"
    "\<And>j. p < j \<Longrightarrow> j < 4 \<Longrightarrow> offered s j = []" "k_wait s1 = k_wait s" "k_global s1 = k_global s"
    "k_next_pid s1 = k_next_pid s" "t \<notin> queued s1" "t_priority (k_task s1 t) = int p"
    "k_task s1 = (if runnable s then (k_task s)(task_current s := requeue (k_task s (task_current s)))
                  else k_task s)"
    by (rule get_next_task_ok) blast
  define s2 where "s2 = s1\<lparr>k_su := (k_su s1)\<lparr>su_cur := t\<rparr>\<rparr>"
  have q2: "queues_ok s2" "t \<notin> queued s2" using n(2,10) by (simp_all add: s2_def queues_ok_def queued_def)
  define s' where "s' = sched_set_next_task t s1"
  have s': "s' = set_state t TASK_RUNNING s2" by (simp add: s'_def s2_def sched_set_next_task_def)
  have "queues_ok s'" unfolding s' using q2 queues_okD(8)[OF q2(1)] by (intro queues_ok_upd_task) auto
  then have "sched_inv s'" using q2(2) by (simp add: s' sched_inv_def) (simp add: s2_def)
  moreover have "schedule s = Some s'" using n(1) by (simp add: schedule_def s'_def)
  ultimately show ?thesis using n by (intro that[of s' p]) (simp_all add: s' s2_def split: if_splits)
qed

lemma task_block_ok:
  assumes inv: "sched_inv s" and some: "i < 4" "rq s i \<noteq> []"
    and st: "st \<in> {TASK_BLOCKED, TASK_WAITING, TASK_STOPPED, TASK_HANGING, TASK_ZOMBIE}"
  obtains s' where "task_block st s = Some s'" "sched_inv s'" "task_current s' \<in> queued s"
    "t_state (k_task s' (task_current s')) = TASK_RUNNING" "k_wait s' = k_wait s"
    "\<And>t. t \<noteq> task_current s' \<Longrightarrow>
       k_task s' t = (if t = task_current s then (k_task s t)\<lparr>t_state := st\<rparr> else k_task s t)"
proof -
  let ?c = "task_current s"
  define s1 where "s1 = set_state ?c st s"
  from inv have ok: "queues_ok s" and c: "?c \<notin> queued s" by (auto simp: sched_inv_def)
  have inv1: "sched_inv s1"
    using queues_ok_upd_task[OF ok c] queues_okD(8)[OF ok] c by (simp add: s1_def sched_inv_def)
  have nr: "\<not> runnable s1" and off: "offered s1 = rq s"
    using st by (auto simp: s1_def runnable_def offered_def fun_eq_iff)
  have "offered s1 i \<noteq> []" using some(2) off by simp
  from inv1 some(1) this obtain p s' where s': "schedule s1 = Some s'" "sched_inv s'" "p < 4"
    "offered s1 p = task_current s' # rq s' p" "t_state (k_task s' (task_current s')) = TASK_RUNNING"
    "k_wait s' = k_wait s1"
    "\<And>t. t \<noteq> task_current s' \<Longrightarrow> t \<noteq> task_current s1 \<or> \<not> runnable s1 \<Longrightarrow> k_task s' t = k_task s1 t"
    by (rule schedule_ok) blast
  have "task_current s' \<in> queued s" using s'(3,4) off by (auto simp: queued_def intro!: bexI[of _ p])
  moreover have "task_block st s = Some s'" using s'(1) st by (simp add: task_block_def s1_def)
  ultimately show ?thesis using s' nr by (intro that[of s']) (auto simp: s1_def)
qed

lemma offered_runnable:
  assumes "sched_inv s" "runnable s"
  shows "\<exists>i < 4. offered s i \<noteq> []"
proof -
  have "prio_ok (requeue (k_task s (task_current s)))"
    using assms queues_okD(8)[of s] by (simp add: sched_inv_def requeue_def)
  with assms(2) show ?thesis
    by (intro exI[of _ "nat (t_priority (requeue (k_task s (task_current s))))"])
      (auto simp: offered_def prio_ok_def)
qed

lemma to_char_id: "-128 \<le> n \<Longrightarrow> n < 128 \<Longrightarrow> to_char n = n"
  by (simp add: to_char_def signed_take_bit_int_eq_self)

lemma sched_calc_new_priority_ok:
  assumes "prio_ok t"
  shows "\<exists>p. sched_calc_new_priority t 1 = Some p \<and> prio_ok (t\<lparr>t_priority := p\<rparr>)"
  using assms by (auto simp: sched_calc_new_priority_def prio_ok_def Let_def to_char_id)

lemma blocked_not_queued:
  assumes "queues_ok s" "t_state (k_task s t) \<noteq> TASK_READY"
  shows "t \<notin> queued s"
  using assms by (auto simp: queued_def dest: queues_okD(5))

lemma task_unblock_ok:
  assumes inv: "sched_inv s" and st: "t_state (k_task s t) \<in> {TASK_BLOCKED, TASK_WAITING, TASK_STOPPED}"
    and nc: "t \<noteq> task_current s"
  obtains s' p where "task_unblock t s = Some s'" "sched_inv s'" "p < 4"
    "\<And>i. i < 4 \<Longrightarrow> rq s' i = (if i = p then rq s i @ [t] else rq s i)"
    "k_task s' = (k_task s)(t := (k_task s t)\<lparr>t_state := TASK_READY, t_priority := int p\<rparr>)"
    "k_wait s' = k_wait s" "task_current s' = task_current s"
    "k_global s' = k_global s" "k_next_pid s' = k_next_pid s"
proof -
  from inv have ok: "queues_ok s" and c: "task_current s \<notin> queued s" by (auto simp: sched_inv_def)
  have nq: "t \<notin> queued s" using st by (intro blocked_not_queued[OF ok]) auto
  have no: "\<not> sched_queue_has_task (k_su s) t"
    using nq queues_okD(2)[OF ok] by (auto simp: sched_queue_has_task_def queued_def)
  have "prio_ok ((k_task s t)\<lparr>t_state := TASK_READY\<rparr>)" using queues_okD(8)[OF ok] by simp
  then obtain q where q: "sched_calc_new_priority ((k_task s t)\<lparr>t_state := TASK_READY\<rparr>) 1 = Some q"
    "prio_ok ((k_task s t)\<lparr>t_state := TASK_READY, t_priority := q\<rparr>)"
    using sched_calc_new_priority_ok by blast
  define s1 where "s1 = upd_task t (\<lambda>x. x\<lparr>t_state := TASK_READY, t_priority := q\<rparr>) s"
  have ok1: "queues_ok s1" unfolding s1_def using ok nq q(2) by (intro queues_ok_upd_task) auto
  from ok1 obtain s' where s': "sched_queue_add_tail t s1 = Some s'" "queues_ok s'"
    "nat q < 4" "\<And>i. i < 4 \<Longrightarrow> rq s' i = (if i = nat q then rq s1 i @ [t] else rq s1 i)"
    "k_task s' = k_task s1" "k_wait s' = k_wait s1" "task_current s' = task_current s1"
    "k_global s' = k_global s1" "k_next_pid s' = k_next_pid s1"
    by (rule sched_queue_add_tail_ok[of s1 t]) (use nq in \<open>auto simp: s1_def\<close>)
  have "task_unblock t s = Some s'"
    using st no q(1) s'(1) by (auto simp: task_unblock_def add_head_eq_tail s1_def upd_task_def)
  moreover have "sched_inv s'"
    using s' c nc by (auto simp: sched_inv_def queued_def s1_def split: if_splits)
  moreover have "int (nat q) = q" using q(2) by (simp add: prio_ok_def)
  ultimately show ?thesis using s' by (intro that[of s' "nat q"]) (auto simp: s1_def)
qed


section \<open>Properties\<close>

text \<open>C2: if a task is ready or the current one can go on, \<^verbatim>\<open>schedule\<close> does not crash; it puts a
  runnable current task at the tail of the queue of its (possibly lowered) priority, runs
  the head of the highest non-empty queue, leaves every other queue as it was, and keeps
  the scheduler invariant.\<close>

theorem schedule_picks_highest:
  assumes "sched_inv s" and "\<exists>i < 4. offered s i \<noteq> []"
  shows "\<exists>s' p. schedule s = Some s' \<and> sched_inv s' \<and> p < 4
    \<and> offered s p = task_current s' # rq s' p
    \<and> (\<forall>j. p < j \<and> j < 4 \<longrightarrow> offered s j = []) \<and> (\<forall>j < 4. j \<noteq> p \<longrightarrow> rq s' j = offered s j)
    \<and> t_state (k_task s' (task_current s')) = TASK_RUNNING \<and> k_wait s' = k_wait s"
  using assms(2)
proof (elim exE conjE)
  fix i assume "i < 4" "offered s i \<noteq> []"
  with assms(1) show ?thesis by (rule schedule_ok) blast
qed

definition demo_task :: "task_t" where
  "demo_task = \<lparr>t_state = TASK_BLOCKED, t_pid = 0, t_parent_pid = -1, t_tgid = 0, t_pgid = -1, t_flags = 0,
     t_priority = 1, t_static_priority = 1, t_ticks = 2, t_timeslice = 2, t_elapsed_ticks = 0, t_exit_status = 0\<rparr>"

definition demo_state :: "kst" where
  "demo_state = \<lparr>k_task = (\<lambda>_. demo_task)(7 := demo_task\<lparr>t_state := TASK_RUNNING, t_priority := 3, t_pid := 7\<rparr>,
       8 := demo_task\<lparr>t_state := TASK_READY, t_priority := 3, t_pid := 8\<rparr>,
       9 := demo_task\<lparr>t_state := TASK_READY, t_pid := 9, t_parent_pid := 7\<rparr>),
     k_global = [7, 8, 9], k_next_pid = 10,
     k_su = \<lparr>su_tasknr = 2, su_dynamic_priority = 3, su_idle = 0, su_cur = 7,
       su_queue = [\<lparr>q_list = [], q_length = 0, q_priority = 0\<rparr>, \<lparr>q_list = [9], q_length = 1, q_priority = 1\<rparr>,
                   \<lparr>q_list = [], q_length = 0, q_priority = 2\<rparr>, \<lparr>q_list = [8], q_length = 1, q_priority = 3\<rparr>]\<rparr>,
     k_tasknr = 2, k_wait = (\<lambda>_. [])\<rparr>"

lemma less_4_cases: "(\<forall>i < (4::nat). P i) \<longleftrightarrow> P 0 \<and> P 1 \<and> P 2 \<and> P 3"
  by (auto simp: numeral_eq_Suc less_Suc_eq)

lemma demo_state_inv: "sched_inv demo_state"
  unfolding sched_inv_def queues_ok_def less_4_cases
  by (auto simp: demo_state_def demo_task_def prio_ok_def queued_def less_Suc_eq numeral_eq_Suc)

theorem schedule_picks_highest_witness:
  "\<exists>s' p. schedule demo_state = Some s' \<and> sched_inv s' \<and> p < 4 \<and> offered demo_state p = task_current s' # rq s' p
    \<and> (\<forall>j. p < j \<and> j < 4 \<longrightarrow> offered demo_state j = [])"
proof -
  have "\<exists>i < 4. offered demo_state i \<noteq> []"
    by (intro exI[of _ 1]) (simp add: offered_def demo_state_def)
  from schedule_picks_highest[OF demo_state_inv this] show ?thesis by blast
qed

fun schedule_times :: "nat \<Rightarrow> kst \<Rightarrow> kst option" where
  "schedule_times 0 s = Some s"
| "schedule_times (Suc k) s = do { s1 \<leftarrow> schedule s; schedule_times k s1 }"

text \<open>C28: round robin among real-time tasks. While the current task and \<open>ts\<close> are the runnable
  real-time tasks, \<open>k\<close> calls of \<^verbatim>\<open>schedule\<close> rotate them by \<open>k\<close>: each gets the processor in
  turn within \<open>length ts\<close> calls, and no lower queue is touched.\<close>

theorem schedule_round_robin:
  assumes "sched_inv s" and "runnable s" and "t_priority (k_task s (task_current s)) = 3"
  shows "\<exists>s'. schedule_times k s = Some s' \<and> sched_inv s'
    \<and> task_current s' # rq s' 3 = rotate k (task_current s # rq s 3) \<and> (\<forall>j < 3. rq s' j = rq s j)"
  using assms
proof (induction k arbitrary: s)
  case 0
  then show ?case by auto
next
  case (Suc k)
  have pr: "t_priority (requeue (k_task s (task_current s))) = 3"
    using Suc.prems(3) by (simp add: requeue_def lower_priority_def)
  have off3: "offered s 3 = rq s 3 @ [task_current s]" using Suc.prems(2) pr by (simp add: offered_def)
  have offj: "offered s j = rq s j" if "j < 3" for j using that pr by (simp add: offered_def)
  from Suc.prems(1) obtain p s1 where s1: "schedule s = Some s1" "sched_inv s1" "p < 4"
    "offered s p = task_current s1 # rq s1 p" "\<And>j. j < 4 \<Longrightarrow> j \<noteq> p \<Longrightarrow> rq s1 j = offered s j"
    "\<And>j. p < j \<Longrightarrow> j < 4 \<Longrightarrow> offered s j = []"
    "t_state (k_task s1 (task_current s1)) = TASK_RUNNING"
    "t_priority (k_task s1 (task_current s1)) = int p"
    by (rule schedule_ok[of s 3]) (auto simp: off3)
  have p3: "p = 3" using s1(3) s1(6)[of 3] off3 by (cases "p < 3") auto
  have "runnable s1" "t_priority (k_task s1 (task_current s1)) = 3"
    using s1(7,8) p3 by (simp_all add: runnable_def)
  from Suc.IH[OF s1(2) this] obtain s' where s': "schedule_times k s1 = Some s'" "sched_inv s'"
    "task_current s' # rq s' 3 = rotate k (task_current s1 # rq s1 3)" "\<forall>j < 3. rq s' j = rq s1 j" by blast
  have "rotate (Suc k) (task_current s # rq s 3) = rotate k (rotate1 (task_current s # rq s 3))"
    by (simp add: rotate1_rotate_swap)
  also have "rotate1 (task_current s # rq s 3) = task_current s1 # rq s1 3"
    using s1(4) off3 p3 by simp
  finally show ?case using s' s1(1) s1(5) p3 offj by auto
qed

theorem schedule_round_robin_witness:
  "\<exists>s'. schedule_times 5 demo_state = Some s' \<and> task_current s' # rq s' 3 = [8, 7]"
proof -
  have "runnable demo_state" by (simp add: runnable_def demo_state_def demo_task_def)
  moreover have "t_priority (k_task demo_state (task_current demo_state)) = 3"
    by (simp add: demo_state_def demo_task_def)
  ultimately obtain s' where "schedule_times 5 demo_state = Some s'"
    "task_current s' # rq s' 3 = rotate 5 (task_current demo_state # rq demo_state 3)"
    using schedule_round_robin[OF demo_state_inv] by blast
  moreover have "task_current demo_state # rq demo_state 3 = [7, 8]" by (simp add: demo_state_def)
  moreover have "rotate 5 [7, 8] = [8, 7 :: tid]" by (simp add: numeral_eq_Suc)
  ultimately show ?thesis by metis
qed

end
