(* ===== verification/Sync.thy ===== *)
theory Sync
  imports Sched
begin

text \<open>
  Wait queues, mutex locks and counting semaphores: \<^verbatim>\<open>src/task/waitqueue.c\<close>,
  \<^verbatim>\<open>src/task/mutexlock.c\<close>, \<^verbatim>\<open>src/task/semaphore.c\<close> and their headers. A wait list is the
  list \<open>k_wait s w\<close> of the tasks linked on the list head with name \<open>w\<close>. A call that gives up
  the processor is modelled up to that point: \<open>Blocked\<close> comes with the state in which
  \<^verbatim>\<open>schedule\<close> has switched to the next task.
\<close>

section \<open>Wait queues\<close>

definition wait_list_add_tail :: "nat \<Rightarrow> tid \<Rightarrow> kst \<Rightarrow> kst" where
  "wait_list_add_tail w t s = s\<lparr>k_wait := (k_wait s)(w := k_wait s w @ [t])\<rparr>"

definition wait_list_del :: "nat \<Rightarrow> tid \<Rightarrow> kst \<Rightarrow> kst" where
  "wait_list_del w t s = s\<lparr>k_wait := (k_wait s)(w := remove1 t (k_wait s w))\<rparr>"

definition wait_queue_init :: "nat \<Rightarrow> kst \<Rightarrow> kst" where
  "wait_queue_init w s = s\<lparr>k_wait := (k_wait s)(w := [])\<rparr>"

definition wait_queue_length :: "nat \<Rightarrow> kst \<Rightarrow> nat" where
  "wait_queue_length w s = length (k_wait s w)"

definition wait_queue_add :: "nat \<Rightarrow> tid \<Rightarrow> kst \<Rightarrow> kst option" where
  "wait_queue_add w t s =
     (if t \<in> set (k_wait s w) then None
      else Some (TASK_ENTER_WAITLIST t (wait_list_add_tail w t s)))"

definition wait_queue_sleepon :: "nat \<Rightarrow> kst \<Rightarrow> kst option" where
  "wait_queue_sleepon w s = do {
     s1 \<leftarrow> wait_queue_add w (task_current s) s;
     task_block TASK_BLOCKED s1 }"

definition wait_queue_remove :: "nat \<Rightarrow> tid \<Rightarrow> kst \<Rightarrow> kst" where
  "wait_queue_remove w t s =
     (if t \<in> set (k_wait s w) then TASK_LEAVE_WAITLIST t (wait_list_del w t s) else s)"

definition wait_queue_wakeup :: "nat \<Rightarrow> kst \<Rightarrow> kst option" where
  "wait_queue_wakeup w s =
     (case k_wait s w of
        [] \<Rightarrow> Some s
      | t # _ \<Rightarrow> task_wakeup t (TASK_LEAVE_WAITLIST t (wait_list_del w t s)))"

fun wakeup_each :: "nat \<Rightarrow> tid list \<Rightarrow> kst \<Rightarrow> kst option" where
  "wakeup_each w [] s = Some s"
| "wakeup_each w (t # ts) s = do {
     s1 \<leftarrow> task_wakeup t (TASK_LEAVE_WAITLIST t (wait_list_del w t s));
     wakeup_each w ts s1 }"

definition wait_queue_wakeup_all :: "nat \<Rightarrow> kst \<Rightarrow> kst option" where
  "wait_queue_wakeup_all w s = wakeup_each w (k_wait s w) s"


section \<open>Mutex locks\<close>

record mutexlock_t =
  wait_lock :: nat
  m_wait_list :: nat
  waiters :: int

definition mutexlock_init :: "nat \<Rightarrow> kst \<Rightarrow> mutexlock_t \<times> kst" where
  "mutexlock_init w s = (\<lparr>wait_lock = 0, m_wait_list = w, waiters = 0\<rparr>, wait_queue_init w s)"

definition spin_try_lock :: "mutexlock_t \<Rightarrow> nat \<times> mutexlock_t" where
  "spin_try_lock m = (wait_lock m, m\<lparr>wait_lock := 1\<rparr>)"

text \<open>
  One round of the loop of \<^verbatim>\<open>mutex_lock\<close>: a task that was blocked starts the next round when
  it is woken.
\<close>

definition mutex_lock :: "mutexlock_t \<Rightarrow> kst \<Rightarrow> (unit outcome \<times> mutexlock_t \<times> kst) option" where
  "mutex_lock m s =
     (let (old, m1) = spin_try_lock m in
      if old = 0 then Some (Done (), m1, s)
      else do {
        let c = task_current s;
        s' \<leftarrow> task_block TASK_BLOCKED (TASK_ENTER_WAITLIST c (wait_list_add_tail (m_wait_list m) c s));
        Some (Blocked, m1\<lparr>waiters := waiters m1 + 1\<rparr>, s') })"

definition mutex_try_lock :: "mutexlock_t \<Rightarrow> nat \<times> mutexlock_t" where
  "mutex_try_lock m = spin_try_lock m"

definition mutex_is_locked :: "mutexlock_t \<Rightarrow> bool" where
  "mutex_is_locked m \<longleftrightarrow> wait_lock m > 0"

text \<open>The flag is cleared in the calling task, not in the task that is woken.\<close>

definition mutex_unlock :: "mutexlock_t \<Rightarrow> kst \<Rightarrow> (mutexlock_t \<times> kst) option" where
  "mutex_unlock m s =
     (let m1 = m\<lparr>wait_lock := 0\<rparr> in
      if waiters m1 < 1 then Some (m1, s)
      else case k_wait s (m_wait_list m) of
        [] \<Rightarrow> Some (m1, s)
      | t # _ \<Rightarrow> do {
          s' \<leftarrow> task_wakeup t (TASK_LEAVE_WAITLIST (task_current s) (wait_list_del (m_wait_list m) t s));
          Some (m1\<lparr>waiters := waiters m1 - 1\<rparr>, s') })"


section \<open>Semaphores\<close>

record semaphore_t =
  counter :: int
  sem_lock :: mutexlock_t
  sem_waiter :: nat

text \<open>How a call of \<^verbatim>\<open>semaphore_down\<close> ends its first run: it holds a unit, it sleeps on the
  mutex and will start again, or it sleeps on the semaphore and will return when woken.\<close>

datatype down_result = Down_taken | Down_lock_wait | Down_sleep

definition semaphore_init :: "int \<Rightarrow> nat \<Rightarrow> nat \<Rightarrow> kst \<Rightarrow> semaphore_t \<times> kst" where
  "semaphore_init value mw w s =
     (let (m, s1) = mutexlock_init mw s
      in (\<lparr>counter = value, sem_lock = m, sem_waiter = w\<rparr>, wait_queue_init w s1))"

definition semaphore_alloc :: "bool \<Rightarrow> int \<Rightarrow> nat \<Rightarrow> nat \<Rightarrow> kst \<Rightarrow> semaphore_t option \<times> kst" where
  "semaphore_alloc mem_ok value mw w s =
     (if \<not> mem_ok then (None, s)
      else let (sema, s1) = semaphore_init value mw w s in (Some sema, s1))"

definition semaphore_destroy :: "semaphore_t \<Rightarrow> kst \<Rightarrow> (semaphore_t \<times> kst) option" where
  "semaphore_destroy sema s = do {
     (m, s1) \<leftarrow> mutex_unlock (sem_lock sema) s;
     s2 \<leftarrow> (if counter sema > 0 then wait_queue_wakeup_all (sem_waiter sema) s1 else Some s1);
     Some (sema\<lparr>sem_lock := m, counter := 0\<rparr>, s2) }"

definition semaphore_down_slow :: "semaphore_t \<Rightarrow> kst \<Rightarrow> (semaphore_t \<times> kst) option" where
  "semaphore_down_slow sema s = do {
     let c = task_current s;
     (m, s1) \<leftarrow> mutex_unlock (sem_lock sema) (TASK_ENTER_WAITLIST c (wait_list_add_tail (sem_waiter sema) c s));
     s2 \<leftarrow> task_block TASK_BLOCKED s1;
     Some (sema\<lparr>sem_lock := m\<rparr>, s2) }"

definition semaphore_up_slow :: "semaphore_t \<Rightarrow> kst \<Rightarrow> (semaphore_t \<times> kst) option" where
  "semaphore_up_slow sema s = do {
     s1 \<leftarrow> (case k_wait s (sem_waiter sema) of
              [] \<Rightarrow> Some s
            | t # _ \<Rightarrow> sched_queue_add_head t
                (set_state t TASK_READY (TASK_LEAVE_WAITLIST t (wait_list_del (sem_waiter sema) t s))));
     (m, s2) \<leftarrow> mutex_unlock (sem_lock sema) s1;
     Some (sema\<lparr>sem_lock := m\<rparr>, s2) }"

definition semaphore_down :: "semaphore_t \<Rightarrow> kst \<Rightarrow> (down_result \<times> semaphore_t \<times> kst) option" where
  "semaphore_down sema s = do {
     (r, m, s1) \<leftarrow> mutex_lock (sem_lock sema) s;
     let sema1 = sema\<lparr>sem_lock := m\<rparr>;
     case r of
       Blocked \<Rightarrow> Some (Down_lock_wait, sema1, s1)
     | Done _ \<Rightarrow>
         if counter sema1 > 0 then do {
           (m2, s2) \<leftarrow> mutex_unlock m s1;
           Some (Down_taken, sema1\<lparr>counter := counter sema1 - 1, sem_lock := m2\<rparr>, s2) }
         else do {
           (sema2, s2) \<leftarrow> semaphore_down_slow sema1 s1;
           Some (Down_sleep, sema2, s2) } }"

definition semaphore_try_down :: "semaphore_t \<Rightarrow> kst \<Rightarrow> (bool outcome \<times> semaphore_t \<times> kst) option" where
  "semaphore_try_down sema s = do {
     (r, m, s1) \<leftarrow> mutex_lock (sem_lock sema) s;
     let sema1 = sema\<lparr>sem_lock := m\<rparr>;
     case r of
       Blocked \<Rightarrow> Some (Blocked, sema1, s1)
     | Done _ \<Rightarrow>
         if counter sema1 > 0 then do {
           (m2, s2) \<leftarrow> mutex_unlock m s1;
           Some (Done True, sema1\<lparr>counter := counter sema1 - 1, sem_lock := m2\<rparr>, s2) }
         else do {
           (m2, s2) \<leftarrow> mutex_unlock m s1;
           Some (Done False, sema1\<lparr>sem_lock := m2\<rparr>, s2) } }"

definition semaphore_up :: "semaphore_t \<Rightarrow> kst \<Rightarrow> (unit outcome \<times> semaphore_t \<times> kst) option" where
  "semaphore_up sema s = do {
     (r, m, s1) \<leftarrow> mutex_lock (sem_lock sema) s;
     let sema1 = sema\<lparr>sem_lock := m\<rparr>;
     case r of
       Blocked \<Rightarrow> Some (Blocked, sema1, s1)
     | Done _ \<Rightarrow>
         if k_wait s1 (sem_waiter sema1) = [] then do {
           (m2, s2) \<leftarrow> mutex_unlock m s1;
           Some (Done (), sema1\<lparr>counter := counter sema1 + 1, sem_lock := m2\<rparr>, s2) }
         else do {
           (sema2, s2) \<leftarrow> semaphore_up_slow sema1 s1;
           Some (Done (), sema2, s2) } }"


section \<open>Wait lists\<close>

text \<open>The tasks linked on the list \<open>w\<close> are blocked, none is linked twice and none is running.\<close>

definition wait_ok :: "nat \<Rightarrow> kst \<Rightarrow> bool" where
  "wait_ok w s \<longleftrightarrow> distinct (k_wait s w)
     \<and> (\<forall>t \<in> set (k_wait s w). t_state (k_task s t) = TASK_BLOCKED \<and> t \<noteq> task_current s)"

lemma waitlist_flag [simp]:
  "\<not> TASK_IN_WAITLIST (t_flags_update (\<lambda>f. f AND - 65) t)"
proof -
  have "(- 65 :: u32) AND 64 = 0" by simp
  then show ?thesis by (simp add: TASK_IN_WAITLIST_def and.assoc)
qed

lemma wait_list_simps [simp]:
  "k_task (wait_list_del w t s) = k_task s" "k_su (wait_list_del w t s) = k_su s"
  "k_task (wait_list_add_tail w t s) = k_task s" "k_su (wait_list_add_tail w t s) = k_su s"
  "k_wait (wait_list_add_tail w t s) = (k_wait s)(w := k_wait s w @ [t])"
  "k_wait (wait_list_del w t s) = (k_wait s)(w := remove1 t (k_wait s w))"
  by (simp_all add: wait_list_del_def wait_list_add_tail_def)

lemma queues_ok_cong:
  "k_su s' = k_su s \<Longrightarrow> k_task s' = k_task s \<Longrightarrow> queues_ok s' = queues_ok s"
  "k_su s' = k_su s \<Longrightarrow> queued s' = queued s"
  by (simp_all add: queues_ok_def queued_def)

lemma queues_ok_wait_list [simp]:
  "queues_ok (wait_list_add_tail w t s) = queues_ok s" "queued (wait_list_add_tail w t s) = queued s"
  "queues_ok (wait_list_del w t s) = queues_ok s" "queued (wait_list_del w t s) = queued s"
  by (rule queues_ok_cong; simp)+

lemma sched_inv_flags:
  assumes "sched_inv s" "t \<notin> queued s"
  shows "sched_inv (upd_task t (t_flags_update f) s)"
  using assms queues_ok_upd_task[of s t "t_flags_update f"] queues_okD(8)[of s]
  by (simp add: sched_inv_def prio_ok_def)

lemma enter_waitlist_ok:
  assumes "sched_inv s"
  shows "sched_inv (TASK_ENTER_WAITLIST (task_current s) (wait_list_add_tail w (task_current s) s))"
proof -
  have "sched_inv (wait_list_add_tail w (task_current s) s)" "task_current s \<notin> queued (wait_list_add_tail w (task_current s) s)"
    using assms by (simp_all add: sched_inv_def)
  then show ?thesis unfolding TASK_ENTER_WAITLIST_def by (rule sched_inv_flags)
qed

text \<open>Taking a blocked task off its list and waking it appends it to one ready queue.\<close>

lemma unlink_wakeup_ok:
  assumes inv: "sched_inv s" and t: "t_state (k_task s t) = TASK_BLOCKED" "t \<noteq> task_current s"
  obtains s' p where "task_wakeup t (TASK_LEAVE_WAITLIST t (wait_list_del w t s)) = Some s'" "sched_inv s'"
    "p < 4" "\<And>i. i < 4 \<Longrightarrow> rq s' i = (if i = p then rq s i @ [t] else rq s i)"
    "t_state (k_task s' t) = TASK_READY" "\<And>u. u \<noteq> t \<Longrightarrow> k_task s' u = k_task s u"
    "k_wait s' = (k_wait s)(w := remove1 t (k_wait s w))" "task_current s' = task_current s"
proof -
  define s1 where "s1 = TASK_LEAVE_WAITLIST t (wait_list_del w t s)"
  have k1: "k_su s1 = k_su s" "k_task s1 = (k_task s)(t := t_flags_update (\<lambda>f. f AND - 65) (k_task s t))"
    "k_wait s1 = (k_wait s)(w := remove1 t (k_wait s w))"
    by (simp_all add: s1_def TASK_LEAVE_WAITLIST_def)
  have nq: "t \<notin> queued s" using inv t by (intro blocked_not_queued) (auto simp: sched_inv_def)
  then have "sched_inv s1" unfolding s1_def TASK_LEAVE_WAITLIST_def
    using inv by (intro sched_inv_flags) (simp_all add: sched_inv_def)
  moreover have "t_state (k_task s1 t) \<in> {TASK_BLOCKED, TASK_WAITING, TASK_STOPPED}" "t \<noteq> task_current s1"
    using t k1 by simp_all
  ultimately obtain s' p where s': "task_unblock t s1 = Some s'" "sched_inv s'" "p < 4"
    "\<And>i. i < 4 \<Longrightarrow> rq s' i = (if i = p then rq s1 i @ [t] else rq s1 i)"
    "k_task s' = (k_task s1)(t := (k_task s1 t)\<lparr>t_state := TASK_READY, t_priority := int p\<rparr>)"
    "k_wait s' = k_wait s1" "task_current s' = task_current s1"
    by (rule task_unblock_ok) blast
  have "task_wakeup t s1 = Some s'"
    using s'(1) t k1 by (simp add: task_wakeup_def TASK_NOT_READY_def)
  then show ?thesis using s' k1 by (intro that[of s' p]) (auto simp: s1_def[symmetric])
qed

lemma wakeup_each_ok:
  assumes "sched_inv s" "wait_ok w s" "k_wait s w = ts"
  shows "\<exists>s'. wakeup_each w ts s = Some s' \<and> sched_inv s' \<and> k_wait s' = (k_wait s)(w := [])
    \<and> queued s' = queued s \<union> set ts \<and> (\<forall>t \<in> set ts. t_state (k_task s' t) = TASK_READY)
    \<and> (\<forall>t. t \<notin> set ts \<longrightarrow> k_task s' t = k_task s t) \<and> task_current s' = task_current s"
  using assms
proof (induction ts arbitrary: s)
  case Nil
  then show ?case by (auto simp: fun_upd_idem)
next
  case (Cons t ts)
  from Cons.prems have t: "t_state (k_task s t) = TASK_BLOCKED" "t \<noteq> task_current s" "t \<notin> set ts"
    by (auto simp: wait_ok_def)
  from unlink_wakeup_ok[OF Cons.prems(1) t(1,2), of w] obtain s1 p
    where s1: "task_wakeup t (TASK_LEAVE_WAITLIST t (wait_list_del w t s)) = Some s1" "sched_inv s1"
    "p < 4" "\<forall>i. i < 4 \<longrightarrow> rq s1 i = (if i = p then rq s i @ [t] else rq s i)"
    "t_state (k_task s1 t) = TASK_READY" "\<forall>u. u \<noteq> t \<longrightarrow> k_task s1 u = k_task s u"
    "k_wait s1 = (k_wait s)(w := remove1 t (k_wait s w))" "task_current s1 = task_current s" by metis
  have w1: "k_wait s1 w = ts" using s1(7) Cons.prems(3) by simp
  have "wait_ok w s1" using Cons.prems(2,3) s1(6,8) w1 t(3) by (auto simp: wait_ok_def)
  from Cons.IH[OF s1(2) this w1] obtain s' where s': "wakeup_each w ts s1 = Some s'" "sched_inv s'"
    "k_wait s' = (k_wait s1)(w := [])" "queued s' = queued s1 \<union> set ts"
    "\<forall>t \<in> set ts. t_state (k_task s' t) = TASK_READY" "\<forall>t. t \<notin> set ts \<longrightarrow> k_task s' t = k_task s1 t"
    "task_current s' = task_current s1" by blast
  have q1: "queued s1 = insert t (queued s)" using s1(3,4) by (auto simp: queued_def split: if_splits)
  show ?case using s1 s' q1 t(3) by auto
qed

lemma wait_queue_wakeup_ok:
  assumes "sched_inv s" "wait_ok w s"
  shows "\<exists>s'. wait_queue_wakeup w s = Some s' \<and> sched_inv s' \<and> wait_ok w s' \<and> task_current s' = task_current s"
proof (cases "k_wait s w")
  case Nil
  with assms show ?thesis by (simp add: wait_queue_wakeup_def)
next
  case (Cons t ts)
  with assms(2) have t: "t_state (k_task s t) = TASK_BLOCKED" "t \<noteq> task_current s" "t \<notin> set ts"
    by (auto simp: wait_ok_def)
  from unlink_wakeup_ok[OF assms(1) t(1,2), of w] obtain s' where
    s': "task_wakeup t (TASK_LEAVE_WAITLIST t (wait_list_del w t s)) = Some s'" "sched_inv s'"
    "\<forall>u. u \<noteq> t \<longrightarrow> k_task s' u = k_task s u" "k_wait s' = (k_wait s)(w := remove1 t (k_wait s w))"
    "task_current s' = task_current s" by metis
  then have "wait_ok w s'" using assms(2) Cons t(3) by (auto simp: wait_ok_def)
  with s' Cons show ?thesis by (simp add: wait_queue_wakeup_def)
qed


section \<open>The semaphore contract\<close>

text \<open>What a counting semaphore promises: units are taken while there are any, otherwise the
  caller queues; a returned unit goes to the oldest caller in the queue.\<close>

fun sem_spec_down :: "tid \<Rightarrow> int \<times> tid list \<Rightarrow> bool \<times> int \<times> tid list" where
  "sem_spec_down t (n, ws) = (if n > 0 then (True, n - 1, ws) else (False, n, ws @ [t]))"

fun sem_spec_up :: "int \<times> tid list \<Rightarrow> tid option \<times> int \<times> tid list" where
  "sem_spec_up (n, []) = (None, n + 1, [])"
| "sem_spec_up (n, w # ws) = (Some w, n, ws)"

definition sem_abs :: "semaphore_t \<Rightarrow> kst \<Rightarrow> int \<times> tid list" where
  "sem_abs sema s = (counter sema, k_wait s (sem_waiter sema))"

definition mutex_idle :: "mutexlock_t \<Rightarrow> bool" where
  "mutex_idle m \<longleftrightarrow> wait_lock m = 0 \<and> waiters m = 0"

definition sem_inv :: "semaphore_t \<Rightarrow> kst \<Rightarrow> bool" where
  "sem_inv sema s \<longleftrightarrow> sched_inv s \<and> mutex_idle (sem_lock sema) \<and> wait_ok (sem_waiter sema) s
     \<and> counter sema \<ge> 0 \<and> (counter sema > 0 \<longrightarrow> k_wait s (sem_waiter sema) = [])"

lemma mutex_idle_lock:
  assumes "mutex_idle m"
  shows "mutex_lock m s = Some (Done (), m\<lparr>wait_lock := Suc 0\<rparr>, s)"
    "mutex_unlock (m\<lparr>wait_lock := Suc 0\<rparr>) s = Some (m, s)" "mutex_unlock m s = Some (m, s)"
proof -
  have "m\<lparr>wait_lock := 0\<rparr> = m" using assms by (cases m) (simp add: mutex_idle_def)
  with assms show "mutex_lock m s = Some (Done (), m\<lparr>wait_lock := Suc 0\<rparr>, s)"
    "mutex_unlock (m\<lparr>wait_lock := Suc 0\<rparr>) s = Some (m, s)" "mutex_unlock m s = Some (m, s)"
    by (simp_all add: mutex_lock_def mutex_unlock_def mutex_idle_def spin_try_lock_def Let_def)
qed

lemma sem_lock_idem [simp]: "sema\<lparr>sem_lock := m, sem_lock := n\<rparr> = sema\<lparr>sem_lock := n\<rparr>"
  "sem_lock (sema\<lparr>sem_lock := m\<rparr>) = m" "sema\<lparr>sem_lock := sem_lock sema\<rparr> = sema"
  by (cases sema; simp)+

lemma sleep_on_ok:
  assumes inv: "sched_inv s" "wait_ok w s" and run: "runnable s" and some: "i < 4" "rq s i \<noteq> []"
  defines "s1 \<equiv> TASK_ENTER_WAITLIST (task_current s) (wait_list_add_tail w (task_current s) s)"
  shows "\<exists>s'. task_block TASK_BLOCKED s1 = Some s' \<and> sched_inv s' \<and> wait_ok w s'
    \<and> k_wait s' = (k_wait s)(w := k_wait s w @ [task_current s]) \<and> task_current s' \<in> queued s"
proof -
  let ?c = "task_current s"
  have s1: "k_su s1 = k_su s" "k_wait s1 = (k_wait s)(w := k_wait s w @ [?c])" "queued s1 = queued s"
    "\<And>t. t_state (k_task s1 t) = t_state (k_task s t)"
    by (simp_all add: s1_def TASK_ENTER_WAITLIST_def)
  have "sched_inv s1" unfolding s1_def using inv(1) by (rule enter_waitlist_ok)
  moreover have "rq s1 i \<noteq> []" using some s1 by simp
  moreover have "TASK_BLOCKED \<in> {TASK_BLOCKED, TASK_WAITING, TASK_STOPPED, TASK_HANGING, TASK_ZOMBIE}" by simp
  ultimately obtain s' where s': "task_block TASK_BLOCKED s1 = Some s'" "sched_inv s'"
    "task_current s' \<in> queued s1" "k_wait s' = k_wait s1"
    "\<And>t. t \<noteq> task_current s' \<Longrightarrow>
       k_task s' t = (if t = task_current s1 then (k_task s1 t)\<lparr>t_state := TASK_BLOCKED\<rparr> else k_task s1 t)"
    by (rule task_block_ok[OF _ some(1)]) blast
  have c: "?c \<notin> set (k_wait s w)" using run inv(2) by (auto simp: wait_ok_def)
  have q: "t_state (k_task s (task_current s')) = TASK_READY" "task_current s' \<noteq> ?c"
    using s'(3) s1(3) inv(1) queues_okD(5)[of s] by (auto simp: sched_inv_def queued_def)
  have "t_state (k_task s' t) = TASK_BLOCKED \<and> t \<noteq> task_current s'" if "t \<in> set (k_wait s w @ [?c])" for t
  proof -
    have "t \<noteq> task_current s'" using that q inv(2) by (auto simp: wait_ok_def)
    with that s'(5) s1 inv(2) show ?thesis by (auto simp: wait_ok_def)
  qed
  then have "wait_ok w s'" using s'(4) s1(2) inv(2) c by (auto simp: wait_ok_def)
  with s' s1 show ?thesis by auto
qed


section \<open>Properties\<close>

text \<open>\<^verbatim>\<open>wait_queue_wakeup_all\<close> does not crash; it empties its list, makes every task that was
  on it ready and puts it on a ready queue, changes no other task and no other list, and
  keeps the scheduler invariant.\<close>

theorem wait_queue_wakeup_all_wakes:
  assumes "sched_inv s" "wait_ok w s"
  shows "\<exists>s'. wait_queue_wakeup_all w s = Some s' \<and> sched_inv s' \<and> k_wait s' = (k_wait s)(w := [])
    \<and> queued s' = queued s \<union> set (k_wait s w)
    \<and> (\<forall>t \<in> set (k_wait s w). t_state (k_task s' t) = TASK_READY)
    \<and> (\<forall>t. t \<notin> set (k_wait s w) \<longrightarrow> k_task s' t = k_task s t) \<and> task_current s' = task_current s"
  unfolding wait_queue_wakeup_all_def using wakeup_each_ok[OF assms refl] .

definition demo_wait :: "kst" where
  "demo_wait = demo_state\<lparr>k_wait := (\<lambda>_. [])(50 := [20, 21])\<rparr>"

lemma demo_wait_ok: "sched_inv demo_wait" "wait_ok 50 demo_wait"
proof -
  have "k_su demo_wait = k_su demo_state" "k_task demo_wait = k_task demo_state"
    by (simp_all add: demo_wait_def)
  then show "sched_inv demo_wait"
    using demo_state_inv queues_ok_cong[of demo_wait demo_state] by (simp add: sched_inv_def)
  show "wait_ok 50 demo_wait" by (simp add: wait_ok_def demo_wait_def demo_state_def demo_task_def)
qed

theorem wait_queue_wakeup_all_wakes_witness:
  "\<exists>s'. wait_queue_wakeup_all 50 demo_wait = Some s' \<and> k_wait s' 50 = []
    \<and> t_state (k_task s' 20) = TASK_READY \<and> t_state (k_task s' 21) = TASK_READY"
proof -
  have "k_wait demo_wait 50 = [20, 21]" by (simp add: demo_wait_def)
  with wait_queue_wakeup_all_wakes[OF demo_wait_ok] show ?thesis by auto
qed

text \<open>C5: \<^verbatim>\<open>semaphore_down\<close> implements the contract: with its lock free and some task ready to
  run it does not crash; it takes a unit exactly when the contract grants one, otherwise
  the caller is queued last and asleep while another task runs.\<close>

theorem semaphore_down_refines:
  assumes "sem_inv sema s" and "runnable s" and "\<exists>i < 4. rq s i \<noteq> []"
  shows "\<exists>r sema' s'. semaphore_down sema s = Some (r, sema', s') \<and> sem_inv sema' s'
    \<and> sem_spec_down (task_current s) (sem_abs sema s) = (r = Down_taken, sem_abs sema' s')
    \<and> (r = Down_taken \<longrightarrow> s' = s)
    \<and> (r \<noteq> Down_taken \<longrightarrow> r = Down_sleep \<and> task_current s' \<in> queued s)"
proof (cases "counter sema > 0")
  case True
  from assms(1) have m: "mutex_idle (sem_lock sema)" by (simp add: sem_inv_def)
  from True assms(1) show ?thesis
    by (auto simp: semaphore_down_def mutex_idle_lock[OF m] sem_inv_def sem_abs_def Let_def)
next
  case False
  from assms(1) have inv: "sched_inv s" "wait_ok (sem_waiter sema) s" and m: "mutex_idle (sem_lock sema)"
    and c: "counter sema = 0" using False by (auto simp: sem_inv_def)
  from assms(3) obtain i where "i < 4" "rq s i \<noteq> []" by blast
  from sleep_on_ok[OF inv assms(2) this] obtain s' where
    "task_block TASK_BLOCKED (TASK_ENTER_WAITLIST (task_current s)
       (wait_list_add_tail (sem_waiter sema) (task_current s) s)) = Some s'" "sched_inv s'"
    "wait_ok (sem_waiter sema) s'" "task_current s' \<in> queued s"
    "k_wait s' = (k_wait s)(sem_waiter sema := k_wait s (sem_waiter sema) @ [task_current s])" by blast
  with m c show ?thesis
    by (auto simp: semaphore_down_def semaphore_down_slow_def mutex_idle_lock[OF m] sem_inv_def
        sem_abs_def Let_def)
qed

definition demo_sema :: "int \<Rightarrow> semaphore_t" where
  "demo_sema n = \<lparr>counter = n, sem_lock = \<lparr>wait_lock = 0, m_wait_list = 60, waiters = 0\<rparr>, sem_waiter = 50\<rparr>"

lemma demo_sema_inv: "sem_inv (demo_sema 0) demo_wait" "runnable demo_wait" "\<exists>i < 4. rq demo_wait i \<noteq> []"
  using demo_wait_ok
  by (auto simp: sem_inv_def demo_sema_def mutex_idle_def runnable_def demo_wait_def demo_state_def
      demo_task_def intro!: exI[of _ 3])

theorem semaphore_down_refines_witness:
  "\<exists>r sema' s'. semaphore_down (demo_sema 0) demo_wait = Some (r, sema', s') \<and> sem_inv sema' s'
    \<and> (r = Down_taken, sem_abs sema' s') = (False, 0, [20, 21, 7])"
  using semaphore_down_refines[OF demo_sema_inv]
  by (force simp: sem_abs_def demo_sema_def demo_wait_def demo_state_def)

lemma semaphore_up_ok:
  assumes "sem_inv sema s"
  shows "\<exists>sema' s' woken. semaphore_up sema s = Some (Done (), sema', s') \<and> sem_inv sema' s'
    \<and> sem_spec_up (sem_abs sema s) = (woken, sem_abs sema' s') \<and> task_current s' = task_current s
    \<and> queued s' = queued s \<union> set_option woken
    \<and> (\<forall>t \<in> set_option woken. t_state (k_task s' t) = TASK_READY)
    \<and> (\<forall>t. t \<notin> set_option woken \<longrightarrow> k_task s' t = k_task s t)
    \<and> (\<forall>w. w \<noteq> sem_waiter sema \<longrightarrow> k_wait s' w = k_wait s w) \<and> sem_waiter sema' = sem_waiter sema"
proof (cases "k_wait s (sem_waiter sema)")
  case Nil
  from assms have m: "mutex_idle (sem_lock sema)" by (simp add: sem_inv_def)
  from Nil assms show ?thesis
    by (auto simp: semaphore_up_def mutex_idle_lock[OF m] sem_inv_def sem_abs_def Let_def intro!: exI[of _ None])
next
  case (Cons t ts)
  let ?w = "sem_waiter sema"
  from assms have inv: "sched_inv s" "wait_ok ?w s" and m: "mutex_idle (sem_lock sema)"
    by (auto simp: sem_inv_def)
  from assms Cons have c: "counter sema = 0" by (auto simp: sem_inv_def)
  from inv(2) Cons have t: "t_state (k_task s t) = TASK_BLOCKED" "t \<noteq> task_current s" "t \<notin> set ts"
    by (auto simp: wait_ok_def)
  define s1 where "s1 = set_state t TASK_READY (TASK_LEAVE_WAITLIST t (wait_list_del ?w t s))"
  from inv(1) have ok: "queues_ok s" by (simp add: sched_inv_def)
  have nq: "t \<notin> queued s" using ok t(1) by (intro blocked_not_queued) auto
  have k1: "k_su s1 = k_su s" "k_wait s1 = (k_wait s)(?w := ts)" "\<And>u. u \<noteq> t \<Longrightarrow> k_task s1 u = k_task s u"
    "t_state (k_task s1 t) = TASK_READY" "queued s1 = queued s"
    using Cons by (simp_all add: s1_def TASK_LEAVE_WAITLIST_def)
  have "queues_ok s1" unfolding s1_def TASK_LEAVE_WAITLIST_def
    using ok nq queues_okD(8)[OF ok, of t]
    by (intro queues_ok_upd_task) (simp_all add: prio_ok_def)
  then obtain s' where s': "sched_queue_add_tail t s1 = Some s'" "queues_ok s'"
    "nat (t_priority (k_task s1 t)) < 4"
    "\<And>i. i < 4 \<Longrightarrow> rq s' i = (if i = nat (t_priority (k_task s1 t)) then rq s1 i @ [t] else rq s1 i)"
    "k_task s' = k_task s1" "k_wait s' = k_wait s1" "task_current s' = task_current s1"
    by (rule sched_queue_add_tail_ok[of s1 t]) (use nq k1 in auto)
  have q: "queued s' = insert t (queued s)" using s'(3,4) k1 by (auto simp: queued_def split: if_splits)
  have "sched_inv s'" using s'(2,7) q t(2) inv(1) k1(1) by (auto simp: sched_inv_def)
  moreover have "k_task s1 u = k_task s u" if "u \<in> set ts" for u using that t(3) by (intro k1(3)) auto
  then have "wait_ok ?w s'" using inv(2) Cons s'(5-7) k1(1,2) by (auto simp: wait_ok_def)
  moreover have "semaphore_up sema s = Some (Done (), sema, s')"
    using Cons s'(1) by (simp add: semaphore_up_def semaphore_up_slow_def mutex_idle_lock[OF m] Let_def
        add_head_eq_tail s1_def)
  ultimately show ?thesis using Cons m c s' k1 q
    by (intro exI[of _ sema] exI[of _ s'] exI[of _ "Some t"]) (simp add: sem_inv_def sem_abs_def)
qed

text \<open>C6: \<^verbatim>\<open>semaphore_up\<close> implements the contract: it never blocks while the lock is free; with
  no sleeper it adds a unit and changes nothing else, otherwise the oldest sleeper is
  taken off the list and becomes ready to run without a unit passing through the counter.\<close>

theorem semaphore_up_refines:
  assumes "sem_inv sema s"
  shows "\<exists>sema' s' woken. semaphore_up sema s = Some (Done (), sema', s') \<and> sem_inv sema' s'
    \<and> sem_spec_up (sem_abs sema s) = (woken, sem_abs sema' s') \<and> task_current s' = task_current s
    \<and> queued s' = queued s \<union> set_option woken
    \<and> (\<forall>t \<in> set_option woken. t_state (k_task s' t) = TASK_READY)
    \<and> (\<forall>t. t \<notin> set_option woken \<longrightarrow> k_task s' t = k_task s t)"
  using semaphore_up_ok[OF assms] by blast

theorem semaphore_up_refines_witness:
  "\<exists>sema' s'. semaphore_up (demo_sema 0) demo_wait = Some (Done (), sema', s') \<and> sem_inv sema' s'
    \<and> sem_abs sema' s' = (0, [21]) \<and> t_state (k_task s' 20) = TASK_READY"
  using semaphore_up_refines[OF demo_sema_inv(1)]
  by (force simp: sem_abs_def demo_sema_def demo_wait_def demo_state_def)


lemma list_unlink_unqueued:
  assumes "queues_ok s" "t \<notin> queued s"
  shows "list_unlink t s = s\<lparr>k_wait := (\<lambda>w. removeAll t (k_wait s w))\<rparr>"
proof -
  have "q_list_update (removeAll t) q = q" if "q \<in> set (su_queue (k_su s))" for q
  proof -
    from that queues_okD(1)[OF assms(1)] obtain i where "i < 4" "q = su_queue (k_su s) ! i"
      by (auto simp: in_set_conv_nth)
    with assms(2) have "removeAll t (q_list q) = q_list q" by (auto simp: queued_def)
    then show ?thesis by (cases q) simp
  qed
  then have "map (q_list_update (removeAll t)) (su_queue (k_su s)) = su_queue (k_su s)" by (rule map_idI)
  then show ?thesis by (simp add: list_unlink_def)
qed

lemma wakeup_linked_ok:
  assumes inv: "sched_inv s" and t: "TASK_NOT_READY (k_task s t)" "t \<noteq> task_current s"
  shows "\<exists>s'. task_wakeup t s = Some s' \<and> sched_inv s' \<and> t_state (k_task s' t) = TASK_READY
    \<and> queued s' = insert t (queued s) \<and> t_flags (k_task s' t) = t_flags (k_task s t)
    \<and> k_wait s' = (if TASK_IN_WAITLIST (k_task s t) then (\<lambda>w. removeAll t (k_wait s w)) else k_wait s)
    \<and> task_current s' = task_current s \<and> (\<forall>u. u \<noteq> t \<longrightarrow> k_task s' u = k_task s u)"
proof -
  define s1 where "s1 = (if TASK_IN_WAITLIST (k_task s t) then list_unlink t s else s)"
  have ok: "queues_ok s" using inv by (simp add: sched_inv_def)
  have nq: "t \<notin> queued s" using ok t by (intro blocked_not_queued) (auto simp: TASK_NOT_READY_def)
  have s1: "k_su s1 = k_su s" "k_task s1 = k_task s" 
    "k_wait s1 = (if TASK_IN_WAITLIST (k_task s t) then (\<lambda>w. removeAll t (k_wait s w)) else k_wait s)"
    by (simp_all add: s1_def list_unlink_unqueued[OF ok nq])
  have "sched_inv s1" using inv s1(1,2) queues_ok_cong[of s1 s] by (simp add: sched_inv_def)
  moreover have "t_state (k_task s1 t) \<in> {TASK_BLOCKED, TASK_WAITING, TASK_STOPPED}" "t \<noteq> task_current s1"
    using t s1 by (simp_all add: TASK_NOT_READY_def)
  ultimately obtain s' p where s': "task_unblock t s1 = Some s'" "sched_inv s'" "p < 4"
    "\<And>i. i < 4 \<Longrightarrow> rq s' i = (if i = p then rq s1 i @ [t] else rq s1 i)"
    "k_task s' = (k_task s1)(t := (k_task s1 t)\<lparr>t_state := TASK_READY, t_priority := int p\<rparr>)"
    "k_wait s' = k_wait s1" "task_current s' = task_current s1"
    by (rule task_unblock_ok) blast
  have "task_wakeup t s = Some s'" using s'(1) t by (simp add: task_wakeup_def s1_def)
  moreover have "queued s' = insert t (queued s1)" using s'(3,4) by (auto simp: queued_def split: if_splits)
  moreover have "queued s1 = queued s" using s1(1) by (rule queues_ok_cong(2))
  ultimately show ?thesis using s' s1 by auto
qed

text \<open>\<^verbatim>\<open>mutex_unlock\<close> frees the lock and hands the processor to the oldest waiter: that task
  leaves the mutex's list and becomes ready. It clears the wait-list mark of the calling
  task and not of the woken one, which stays marked as linked although it is on no list.\<close>

theorem mutex_unlock_wakes_oldest:
  assumes "sched_inv s" and "wait_ok (m_wait_list m) s" and "k_wait s (m_wait_list m) = t # ts" and "waiters m \<ge> 1"
  shows "\<exists>s'. mutex_unlock m s = Some (m\<lparr>wait_lock := 0, waiters := waiters m - 1\<rparr>, s') \<and> sched_inv s'
    \<and> t_state (k_task s' t) = TASK_READY \<and> t \<in> queued s' \<and> k_wait s' (m_wait_list m) = ts
    \<and> TASK_IN_WAITLIST (k_task s' t) = TASK_IN_WAITLIST (k_task s t)"
proof -
  let ?w = "m_wait_list m" and ?c = "task_current s"
  define s1 where "s1 = TASK_LEAVE_WAITLIST ?c (wait_list_del ?w t s)"
  from assms(2,3) have t: "t_state (k_task s t) = TASK_BLOCKED" "t \<noteq> ?c" "t \<notin> set ts" by (auto simp: wait_ok_def)
  have k1: "k_su s1 = k_su s" "k_task s1 t = k_task s t" "k_wait s1 ?w = ts"
    using t assms(3) by (simp_all add: s1_def TASK_LEAVE_WAITLIST_def)
  have "sched_inv s1" unfolding s1_def TASK_LEAVE_WAITLIST_def
    using assms(1) by (intro sched_inv_flags) (simp_all add: sched_inv_def)
  from wakeup_linked_ok[OF this, of t] t k1 obtain s' where s': "task_wakeup t s1 = Some s'" "sched_inv s'"
    "t_state (k_task s' t) = TASK_READY" "queued s' = insert t (queued s1)" "t_flags (k_task s' t) = t_flags (k_task s t)"
    "k_wait s' = (if TASK_IN_WAITLIST (k_task s1 t) then (\<lambda>w. removeAll t (k_wait s1 w)) else k_wait s1)"
    by (auto simp: TASK_NOT_READY_def)
  have "k_wait s' ?w = ts" using s'(6) k1(3) t(3) by (simp add: removeAll_id)
  moreover have "mutex_unlock m s = Some (m\<lparr>wait_lock := 0, waiters := waiters m - 1\<rparr>, s')"
    using assms(3,4) s'(1) by (simp add: mutex_unlock_def Let_def s1_def)
  ultimately show ?thesis using s' by (auto simp: TASK_IN_WAITLIST_def)
qed

definition demo_mutex :: "mutexlock_t" where
  "demo_mutex = \<lparr>wait_lock = 1, m_wait_list = 50, waiters = 2\<rparr>"

theorem mutex_unlock_wakes_oldest_witness:
  "\<exists>m' s'. mutex_unlock demo_mutex demo_wait = Some (m', s') \<and> wait_lock m' = 0
    \<and> t_state (k_task s' 20) = TASK_READY \<and> k_wait s' 50 = [21]"
proof -
  have "k_wait demo_wait (m_wait_list demo_mutex) = 20 # [21]" "wait_ok (m_wait_list demo_mutex) demo_wait"
    "waiters demo_mutex \<ge> 1" using demo_wait_ok by (simp_all add: demo_wait_def demo_mutex_def)
  from mutex_unlock_wakes_oldest[OF demo_wait_ok(1) this(2,1,3)] show ?thesis
    by (auto simp: demo_mutex_def)
qed

end
