(* ===== verification/Msgpool.thy ===== *)
theory Msgpool
  imports Queue_Interface Sync
begin

text \<open>
  Fixed-size message pools: \<^verbatim>\<open>src/lib/msgpool.c\<close>. The buffer is a list of bytes; \<^verbatim>\<open>head\<close> and
  \<^verbatim>\<open>tail\<close> are offsets from \<^verbatim>\<open>msgbuf\<close>. Sizes are 32-bit words, so the products
  \<^verbatim>\<open>msgcount * msgsz\<close> wrap as they do in the code.
\<close>

section \<open>Definitions\<close>

record msgpool_t =
  msgsz :: u32
  msgcount :: u32
  msgmaxcnt :: u32
  head :: nat
  tail :: nat
  msgbuf :: "u8 list"
  mp_mutex :: mutexlock_t
  mp_waiters :: nat

definition msgpool_empty :: "msgpool_t \<Rightarrow> bool" where
  "msgpool_empty p \<longleftrightarrow> msgcount p \<le> 0"

definition msgpool_full :: "msgpool_t \<Rightarrow> bool" where
  "msgpool_full p \<longleftrightarrow> msgcount p \<ge> msgmaxcnt p"

definition msgpool_count :: "msgpool_t \<Rightarrow> u32" where
  "msgpool_count p = msgcount p"

text \<open>\<open>pool_ok\<close> and \<open>buf_ok\<close> are the outcomes of the two allocations.\<close>

definition msgpool_create :: "bool \<Rightarrow> bool \<Rightarrow> u32 \<Rightarrow> u32 \<Rightarrow> nat \<Rightarrow> nat \<Rightarrow> kst \<Rightarrow> msgpool_t option \<times> kst" where
  "msgpool_create pool_ok buf_ok sz cnt mw w s =
     (if sz = 0 \<or> cnt = 0 \<or> \<not> pool_ok \<or> \<not> buf_ok then (None, s)
      else let (m, s1) = mutexlock_init mw s in
        (Some \<lparr>msgsz = sz, msgcount = 0, msgmaxcnt = cnt, head = 0, tail = 0,
               msgbuf = replicate (unat (cnt * sz)) 0, mp_mutex = m, mp_waiters = w\<rparr>,
         wait_queue_init w s1))"

definition msgpool_destroy :: "msgpool_t \<Rightarrow> kst \<Rightarrow> kst option" where
  "msgpool_destroy p s =
     (if wait_queue_length (mp_waiters p) s > 0 then wait_queue_wakeup_all (mp_waiters p) s else Some s)"

text \<open>Advance of a cursor by one slot, with the check against the end of the buffer.\<close>

definition slot_next :: "msgpool_t \<Rightarrow> nat \<Rightarrow> nat" where
  "slot_next p h = (if h + unat (msgsz p) \<ge> unat (msgmaxcnt p * msgsz p) then 0 else h + unat (msgsz p))"

definition slot_put :: "u8 list \<Rightarrow> u32 \<Rightarrow> msgpool_t \<Rightarrow> msgpool_t option" where
  "slot_put buf sz0 p = do {
     xs \<leftarrow> mem_load 0 (unat (min (msgsz p) sz0)) buf;
     m \<leftarrow> mem_store (head p) xs (msgbuf p);
     Some (p\<lparr>msgbuf := m, head := slot_next p (head p), msgcount := msgcount p + 1\<rparr>) }"

text \<open>\<open>buf\<close> tells whether a destination was passed; \<open>callback p\<close> is what the caller's function
  leaves there.\<close>

definition slot_get :: "bool \<Rightarrow> (msgpool_t \<Rightarrow> u8 list) option \<Rightarrow> msgpool_t \<Rightarrow> (u8 list \<times> msgpool_t) option" where
  "slot_get buf callback p = do {
     xs \<leftarrow> (if buf then (case callback of
               Some f \<Rightarrow> Some (f p)
             | None \<Rightarrow> mem_load (tail p) (unat (msgsz p)) (msgbuf p))
           else Some []);
     Some (xs, p\<lparr>tail := slot_next p (tail p), msgcount := msgcount p - 1\<rparr>) }"

definition wake_one :: "msgpool_t \<Rightarrow> kst \<Rightarrow> kst option" where
  "wake_one p s = (if wait_queue_length (mp_waiters p) s > 0 then wait_queue_wakeup (mp_waiters p) s else Some s)"

definition msgpool_try_put :: "msgpool_t \<Rightarrow> u8 list \<Rightarrow> u32 \<Rightarrow> kst \<Rightarrow> (unit res outcome \<times> msgpool_t \<times> kst) option" where
  "msgpool_try_put p buf sz0 s = do {
     (r, m, s1) \<leftarrow> mutex_lock (mp_mutex p) s;
     case r of
       Blocked \<Rightarrow> Some (Blocked, p\<lparr>mp_mutex := m\<rparr>, s1)
     | Done _ \<Rightarrow>
         if msgpool_full p then do {
           (m2, s2) \<leftarrow> mutex_unlock m s1;
           Some (Done (Inl E_FAIL), p\<lparr>mp_mutex := m2\<rparr>, s2) }
         else do {
           p1 \<leftarrow> slot_put buf sz0 p;
           (m2, s2) \<leftarrow> mutex_unlock m s1;
           s3 \<leftarrow> wake_one p1 s2;
           Some (Done (Inr ()), p1\<lparr>mp_mutex := m2\<rparr>, s3) } }"

definition msgpool_try_get :: "msgpool_t \<Rightarrow> bool \<Rightarrow> (msgpool_t \<Rightarrow> u8 list) option \<Rightarrow> kst
    \<Rightarrow> (u8 list res outcome \<times> msgpool_t \<times> kst) option" where
  "msgpool_try_get p buf callback s = do {
     (r, m, s1) \<leftarrow> mutex_lock (mp_mutex p) s;
     case r of
       Blocked \<Rightarrow> Some (Blocked, p\<lparr>mp_mutex := m\<rparr>, s1)
     | Done _ \<Rightarrow>
         if msgpool_empty p then do {
           (m2, s2) \<leftarrow> mutex_unlock m s1;
           Some (Done (Inl E_FAIL), p\<lparr>mp_mutex := m2\<rparr>, s2) }
         else do {
           (xs, p1) \<leftarrow> slot_get buf callback p;
           s2 \<leftarrow> wake_one p1 s1;
           (m2, s3) \<leftarrow> mutex_unlock m s2;
           Some (Done (Inr xs), p1\<lparr>mp_mutex := m2\<rparr>, s3) } }"

text \<open>
  In the blocking calls \<open>env\<close> is what the other tasks do to the pool and the kernel until the
  yielding task runs again. \<^verbatim>\<open>msgpool_put\<close> tests for room once, with an \<^verbatim>\<open>if\<close>;
  \<^verbatim>\<open>msgpool_get\<close> repeats its test.
\<close>

type_synonym pool_env = "msgpool_t \<times> kst \<Rightarrow> msgpool_t \<times> kst"

definition msgpool_put :: "pool_env \<Rightarrow> msgpool_t \<Rightarrow> u8 list \<Rightarrow> u32 \<Rightarrow> kst \<Rightarrow> (unit outcome \<times> msgpool_t \<times> kst) option" where
  "msgpool_put env p buf sz0 s = do {
     (r, m, s1) \<leftarrow> mutex_lock (mp_mutex p) s;
     case r of
       Blocked \<Rightarrow> Some (Blocked, p\<lparr>mp_mutex := m\<rparr>, s1)
     | Done _ \<Rightarrow> do {
         (r', p1, s2) \<leftarrow>
           (if msgpool_full p then do {
              (m2, s2) \<leftarrow> mutex_unlock m s1;
              s3 \<leftarrow> task_yield s2;
              let (p', s4) = env (p\<lparr>mp_mutex := m2\<rparr>, s3);
              (r', m3, s5) \<leftarrow> mutex_lock (mp_mutex p') s4;
              Some (r', p'\<lparr>mp_mutex := m3\<rparr>, s5) }
            else Some (Done (), p\<lparr>mp_mutex := m\<rparr>, s1));
         case r' of
           Blocked \<Rightarrow> Some (Blocked, p1, s2)
         | Done _ \<Rightarrow> do {
             p2 \<leftarrow> slot_put buf sz0 p1;
             s3 \<leftarrow> wake_one p2 s2;
             (m2, s4) \<leftarrow> mutex_unlock (mp_mutex p2) s3;
             Some (Done (), p2\<lparr>mp_mutex := m2\<rparr>, s4) } } }"

partial_function (option) msgpool_get_wait :: "pool_env \<Rightarrow> msgpool_t \<Rightarrow> kst \<Rightarrow> (unit outcome \<times> msgpool_t \<times> kst) option" where
  "msgpool_get_wait env p s =
     (case mutex_lock (mp_mutex p) s of
        None \<Rightarrow> None
      | Some (r, m, s1) \<Rightarrow>
          if r = Blocked \<or> \<not> msgpool_empty p then Some (r, p\<lparr>mp_mutex := m\<rparr>, s1)
          else case do { (m2, s2) \<leftarrow> mutex_unlock m s1; s3 \<leftarrow> task_yield s2; Some (m2, s3) } of
            None \<Rightarrow> None
          | Some (m2, s3) \<Rightarrow> (case env (p\<lparr>mp_mutex := m2\<rparr>, s3) of (p', s4) \<Rightarrow> msgpool_get_wait env p' s4))"

definition msgpool_get :: "pool_env \<Rightarrow> msgpool_t \<Rightarrow> bool \<Rightarrow> (msgpool_t \<Rightarrow> u8 list) option \<Rightarrow> kst
    \<Rightarrow> (u8 list outcome \<times> msgpool_t \<times> kst) option" where
  "msgpool_get env p buf callback s = do {
     (r, p1, s1) \<leftarrow> msgpool_get_wait env p s;
     case r of
       Blocked \<Rightarrow> Some (Blocked, p1, s1)
     | Done _ \<Rightarrow> do {
         (xs, p2) \<leftarrow> slot_get buf callback p1;
         s2 \<leftarrow> wake_one p2 s1;
         (m2, s3) \<leftarrow> mutex_unlock (mp_mutex p2) s2;
         Some (Done xs, p2\<lparr>mp_mutex := m2\<rparr>, s3) } }"


section \<open>The buffer as a ring of slots\<close>

definition slots :: "nat \<Rightarrow> nat \<Rightarrow> 'a list \<Rightarrow> 'a list list" where
  "slots sz n m = map (\<lambda>k. take sz (drop (k * sz) m)) [0..<n]"

lemma length_slots [simp]: "length (slots sz n m) = n"
  by (simp add: slots_def)

lemma slot_in_range: "k < n \<Longrightarrow> k * sz + sz \<le> n * sz" for k :: nat
  using mult_le_mono1[of "Suc k" n sz] by simp

lemma slots_store:
  assumes st: "mem_store (h * sz) x m = Some m'" and len: "length x = sz" "length m = n * sz" "h < n"
  shows "slots sz n m' = (slots sz n m)[h := x]"
proof (rule nth_equalityI, simp)
  fix k assume "k < length (slots sz n m')"
  then have k: "k < n" by simp
  have ln: "length m' = n * sz" using mem_store_length[OF st] len by simp
  have "take sz (drop (k * sz) m') = (if k = h then x else take sz (drop (k * sz) m))"
  proof (cases "k = h")
    case True
    with mem_load_store[OF st] len(1) show ?thesis by (simp add: mem_load_Some_iff)
  next
    case False
    have "m' ! (k * sz + j) = m ! (k * sz + j)" if j: "j < sz" for j
    proof -
      have "k * sz + j < h * sz \<or> h * sz + sz \<le> k * sz + j"
        using False slot_in_range[of k h sz] slot_in_range[of h k sz] j by (cases "k < h") auto
      then show ?thesis using mem_store_nth[OF st, of "k * sz + j"] slot_in_range[OF k, of sz] j len by auto
    qed
    moreover have "k * sz \<le> n * sz" using k by simp
    ultimately show ?thesis using False slot_in_range[OF k, of sz] ln len(2)
      by (auto intro!: nth_equalityI simp: nth_drop)
  qed
  then show "slots sz n m' ! k = (slots sz n m)[h := x] ! k"
    using k len(3) by (auto simp: slots_def nth_list_update)
qed

definition mp_inv :: "msgpool_t \<Rightarrow> bool" where
  "mp_inv p \<longleftrightarrow> (let sz = unat (msgsz p); n = unat (msgmaxcnt p); c = unat (msgcount p) in
     sz > 0 \<and> n > 0 \<and> n * sz < 2 ^ 32 \<and> length (msgbuf p) = n * sz \<and> c \<le> n
     \<and> (\<exists>ti < n. tail p = ti * sz \<and> head p = (ti + c) mod n * sz))"

definition mp_content :: "msgpool_t \<Rightarrow> u8 list list" where
  "mp_content p = ring_read (slots (unat (msgsz p)) (unat (msgmaxcnt p)) (msgbuf p))
     (tail p div unat (msgsz p)) (unat (msgcount p))"

lemma mp_invD:
  assumes "mp_inv p"
  obtains ti where "unat (msgsz p) > 0" "unat (msgmaxcnt p) > 0" "unat (msgmaxcnt p) * unat (msgsz p) < 2 ^ 32"
    "length (msgbuf p) = unat (msgmaxcnt p) * unat (msgsz p)" "unat (msgcount p) \<le> unat (msgmaxcnt p)"
    "ti < unat (msgmaxcnt p)" "tail p = ti * unat (msgsz p)"
    "head p = (ti + unat (msgcount p)) mod unat (msgmaxcnt p) * unat (msgsz p)"
    "unat (msgmaxcnt p * msgsz p) = unat (msgmaxcnt p) * unat (msgsz p)"
proof -
  from assms obtain ti where r: "unat (msgsz p) > 0" "unat (msgmaxcnt p) > 0" "unat (msgmaxcnt p) * unat (msgsz p) < 2 ^ 32"
    "length (msgbuf p) = unat (msgmaxcnt p) * unat (msgsz p)" "unat (msgcount p) \<le> unat (msgmaxcnt p)"
    "ti < unat (msgmaxcnt p)" "tail p = ti * unat (msgsz p)"
    "head p = (ti + unat (msgcount p)) mod unat (msgmaxcnt p) * unat (msgsz p)"
    unfolding mp_inv_def Let_def by blast
  have "unat (msgmaxcnt p * msgsz p) = unat (msgmaxcnt p) * unat (msgsz p)"
    using r(3) by (simp add: unat_word_ariths)
  with r show ?thesis by (rule that)
qed

lemma slot_next_mod:
  assumes "unat (msgmaxcnt p * msgsz p) = unat (msgmaxcnt p) * unat (msgsz p)" "unat (msgsz p) > 0"
    and "k < unat (msgmaxcnt p)"
  shows "slot_next p (k * unat (msgsz p)) = Suc k mod unat (msgmaxcnt p) * unat (msgsz p)"
proof (cases "Suc k = unat (msgmaxcnt p)")
  case True
  then have "k * unat (msgsz p) + unat (msgsz p) = unat (msgmaxcnt p) * unat (msgsz p)" by (metis add.commute mult_Suc)
  then show ?thesis using assms True by (simp add: slot_next_def)
next
  case False
  with assms(3) have k: "Suc k < unat (msgmaxcnt p)" by simp
  then have "Suc k * unat (msgsz p) < unat (msgmaxcnt p) * unat (msgsz p)"
    using assms(2) by (rule mult_less_mono1)
  then show ?thesis using assms k by (simp add: slot_next_def add.commute)
qed

lemma slot_put_ok:
  assumes inv: "mp_inv p" and room: "msgcount p < msgmaxcnt p"
    and x: "length x = unat (msgsz p)" "sz0 \<ge> msgsz p"
  shows "\<exists>p'. slot_put x sz0 p = Some p' \<and> mp_inv p' \<and> mp_content p' = mp_content p @ [x]
    \<and> msgsz p' = msgsz p \<and> msgmaxcnt p' = msgmaxcnt p \<and> mp_mutex p' = mp_mutex p \<and> mp_waiters p' = mp_waiters p"
proof -
  let ?sz = "unat (msgsz p)" and ?n = "unat (msgmaxcnt p)" and ?c = "unat (msgcount p)"
  from inv obtain ti where i: "?sz > 0" "?n > 0" "?n * ?sz < 2 ^ 32" "length (msgbuf p) = ?n * ?sz" "?c \<le> ?n"
    "ti < ?n" "tail p = ti * ?sz" "head p = (ti + ?c) mod ?n * ?sz" "unat (msgmaxcnt p * msgsz p) = ?n * ?sz"
    by (rule mp_invD)
  have c: "?c < ?n" using room by (simp add: word_less_nat_alt)
  define h where "h = (ti + ?c) mod ?n"
  have h: "h < ?n" using i(2) by (simp add: h_def)
  have mn: "min (msgsz p) sz0 = msgsz p" using x(2) by (simp add: min_def)
  from slot_in_range[OF h, of ?sz] obtain m where m: "mem_store (head p) x (msgbuf p) = Some m"
    using i x by (auto simp: mem_store_def h_def)
  define p' where "p' = p\<lparr>msgbuf := m, head := slot_next p (head p), msgcount := msgcount p + 1\<rparr>"
  have put: "slot_put x sz0 p = Some p'" using m x(1) by (simp add: slot_put_def mn mem_load_def p'_def)
  have c1: "unat (msgcount p + 1) = Suc ?c"
    using c unat_lt_32[of "msgmaxcnt p"] by (subst unat_add_no_overflow) auto
  have "slot_next p (head p) = Suc h mod ?n * ?sz"
    using slot_next_mod[OF i(9,1) h] i(8) by (simp add: h_def)
  also have "Suc h mod ?n = (ti + Suc ?c) mod ?n" by (simp add: h_def mod_Suc_eq)
  finally have hd: "slot_next p (head p) = (ti + Suc ?c) mod ?n * ?sz" .
  have "mp_inv p'" unfolding mp_inv_def Let_def p'_def
    using i c c1 hd mem_store_length[OF m] by auto
  moreover have "mp_content p' = mp_content p @ [x]"
  proof -
    have "slots ?sz ?n m = (slots ?sz ?n (msgbuf p))[h := x]"
      using slots_store[of h ?sz x "msgbuf p" m ?n] m i(4,8) x(1) h by (simp add: h_def)
    then show ?thesis
      using ring_read_update[of ?c "slots ?sz ?n (msgbuf p)" ti x] i(1,7) c c1
      by (simp add: mp_content_def p'_def h_def)
  qed
  ultimately show ?thesis using put by (auto simp: p'_def)
qed

lemma slot_get_ok:
  assumes inv: "mp_inv p" and some: "mp_content p = x # xs"
  shows "\<exists>p'. slot_get True None p = Some (x, p') \<and> mp_inv p' \<and> mp_content p' = xs
    \<and> msgsz p' = msgsz p \<and> msgmaxcnt p' = msgmaxcnt p \<and> mp_mutex p' = mp_mutex p \<and> mp_waiters p' = mp_waiters p"
proof -
  let ?sz = "unat (msgsz p)" and ?n = "unat (msgmaxcnt p)" and ?c = "unat (msgcount p)"
  from inv obtain ti where i: "?sz > 0" "?n > 0" "?n * ?sz < 2 ^ 32" "length (msgbuf p) = ?n * ?sz" "?c \<le> ?n"
    "ti < ?n" "tail p = ti * ?sz" "head p = (ti + ?c) mod ?n * ?sz" "unat (msgmaxcnt p * msgsz p) = ?n * ?sz"
    by (rule mp_invD)
  have "length (mp_content p) = ?c" by (simp add: mp_content_def)
  with some obtain c where c: "?c = Suc c" by (cases ?c) auto
  then have "msgcount p \<noteq> 0" by auto
  then have c1: "unat (msgcount p - 1) = c" using c by (simp add: unat_minus_one)
  have rr: "x # xs = slots ?sz ?n (msgbuf p) ! ti # ring_read (slots ?sz ?n (msgbuf p)) (Suc ti) c"
    using some i(1,6,7) c ring_read_Suc[of "slots ?sz ?n (msgbuf p)" ti c] by (simp add: mp_content_def)
  define p' where "p' = p\<lparr>tail := slot_next p (tail p), msgcount := msgcount p - 1\<rparr>"
  have "mem_load (tail p) ?sz (msgbuf p) = Some x"
    using slot_in_range[OF i(6), of ?sz] i rr by (simp add: mem_load_def slots_def)
  then have get: "slot_get True None p = Some (x, p')" by (simp add: slot_get_def p'_def)
  have tl: "tail p' = Suc ti mod ?n * ?sz" using slot_next_mod[OF i(9,1,6)] i(7) by (simp add: p'_def)
  have "(Suc ti mod ?n + c) mod ?n = (ti + ?c) mod ?n" using c by (simp add: mod_add_left_eq)
  then have "mp_inv p'" unfolding mp_inv_def Let_def
    using i c c1 tl by (auto simp: p'_def intro!: exI[of _ "Suc ti mod ?n"])
  moreover have "mp_content p' = xs"
    using rr c1 tl i(1) ring_read_mod[of "slots ?sz ?n (msgbuf p)" "Suc ti" c] by (simp add: mp_content_def p'_def)
  ultimately show ?thesis using get by (auto simp: p'_def)
qed


section \<open>The pool as a bounded queue\<close>

text \<open>The non-blocking calls on a pool whose mutex is free, as queue operations.\<close>

definition mp_put1 :: "u8 list \<Rightarrow> msgpool_t \<times> kst \<Rightarrow> bool \<times> msgpool_t \<times> kst" where
  "mp_put1 x q = (case msgpool_try_put (fst q) x (msgsz (fst q)) (snd q) of
     Some (Done (Inr _), q') \<Rightarrow> (True, q') | Some (_, q') \<Rightarrow> (False, q') | None \<Rightarrow> (False, q))"

definition mp_get1 :: "msgpool_t \<times> kst \<Rightarrow> u8 list option \<times> msgpool_t \<times> kst" where
  "mp_get1 q = (case msgpool_try_get (fst q) True None (snd q) of
     Some (Done (Inr x), q') \<Rightarrow> (Some x, q') | Some (_, q') \<Rightarrow> (None, q') | None \<Rightarrow> (None, q))"

definition mpk_inv :: "msgpool_t \<times> kst \<Rightarrow> bool" where
  "mpk_inv q \<longleftrightarrow> mp_inv (fst q) \<and> mutex_idle (mp_mutex (fst q)) \<and> sched_inv (snd q)
     \<and> wait_ok (mp_waiters (fst q)) (snd q)"

lemma mp_mutex_upd [simp]: "mp_inv (p\<lparr>mp_mutex := m\<rparr>) = mp_inv p" "mp_content (p\<lparr>mp_mutex := m\<rparr>) = mp_content p"
  by (simp_all add: mp_inv_def mp_content_def)

lemma mp_mutex_same [simp]: "p\<lparr>mp_mutex := mp_mutex p\<rparr> = p"
  by (cases p) simp

lemma wake_one_ok:
  assumes "sched_inv s" "wait_ok (mp_waiters p) s"
  shows "\<exists>s'. wake_one p s = Some s' \<and> sched_inv s' \<and> wait_ok (mp_waiters p) s'"
  using wait_queue_wakeup_ok[OF assms] assms by (auto simp: wake_one_def)

lemma length_mp_content: "length (mp_content p) = unat (msgcount p)"
  by (simp add: mp_content_def)

lemma try_put_full:
  assumes "mpk_inv (p, s)" "msgcount p \<ge> msgmaxcnt p"
  shows "msgpool_try_put p x sz0 s = Some (Done (Inl E_FAIL), p, s)"
  using assms by (auto simp: msgpool_try_put_def mpk_inv_def mutex_idle_lock msgpool_full_def)

lemma try_put_room:
  assumes "mpk_inv (p, s)" "msgcount p < msgmaxcnt p" "length x = unat (msgsz p)" "sz0 \<ge> msgsz p"
  shows "\<exists>p' s'. msgpool_try_put p x sz0 s = Some (Done (Inr ()), p', s') \<and> mpk_inv (p', s')
    \<and> mp_content p' = mp_content p @ [x] \<and> msgsz p' = msgsz p \<and> msgmaxcnt p' = msgmaxcnt p"
proof -
  from assms(1) have i: "mp_inv p" "mutex_idle (mp_mutex p)" "sched_inv s" "wait_ok (mp_waiters p) s"
    by (auto simp: mpk_inv_def)
  from slot_put_ok[OF i(1) assms(2-4)] obtain p' where p': "slot_put x sz0 p = Some p'" "mp_inv p'"
    "mp_content p' = mp_content p @ [x]" "msgsz p' = msgsz p" "msgmaxcnt p' = msgmaxcnt p"
    "mp_mutex p' = mp_mutex p" "mp_waiters p' = mp_waiters p" by blast
  from wake_one_ok[of s p'] i p' obtain s' where "wake_one p' s = Some s'" "sched_inv s'"
    "wait_ok (mp_waiters p') s'" by auto
  with p' i assms(2) show ?thesis
    by (auto simp: msgpool_try_put_def mutex_idle_lock msgpool_full_def mpk_inv_def)
qed

lemma try_get_ok:
  assumes "mpk_inv (p, s)" "mp_content p = x # xs"
  shows "\<exists>p' s'. msgpool_try_get p True None s = Some (Done (Inr x), p', s') \<and> mpk_inv (p', s')
    \<and> mp_content p' = xs \<and> msgsz p' = msgsz p \<and> msgmaxcnt p' = msgmaxcnt p"
proof -
  from assms(1) have i: "mp_inv p" "mutex_idle (mp_mutex p)" "sched_inv s" "wait_ok (mp_waiters p) s"
    by (auto simp: mpk_inv_def)
  from slot_get_ok[OF i(1) assms(2)] obtain p' where p': "slot_get True None p = Some (x, p')" "mp_inv p'"
    "mp_content p' = xs" "msgsz p' = msgsz p" "msgmaxcnt p' = msgmaxcnt p"
    "mp_mutex p' = mp_mutex p" "mp_waiters p' = mp_waiters p" by blast
  have "msgcount p \<noteq> 0" using assms(2) length_mp_content[of p] by auto
  moreover from wake_one_ok[of s p'] i p' obtain s' where "wake_one p' s = Some s'" "sched_inv s'"
    "wait_ok (mp_waiters p') s'" by auto
  ultimately show ?thesis using p' i
    by (auto simp: msgpool_try_get_def mutex_idle_lock msgpool_empty_def mpk_inv_def)
qed

lemma try_get_empty:
  assumes "mpk_inv (p, s)" "mp_content p = []"
  shows "msgpool_try_get p True None s = Some (Done (Inl E_FAIL), p, s)"
  using assms length_mp_content[of p]
  by (auto simp: msgpool_try_get_def mpk_inv_def mutex_idle_lock msgpool_empty_def unat_eq_zero)

interpretation mpq: bounded_queue mpk_inv "\<lambda>q. mp_content (fst q)" "\<lambda>q. unat (msgmaxcnt (fst q))"
  mp_put1 mp_get1 "\<lambda>q x. length x = unat (msgsz (fst q))"
proof (unfold_locales, goal_cases)
  case (1 q)
  then show ?case by (auto simp: mpk_inv_def mp_inv_def Let_def length_mp_content)
next
  case (2 q x)
  obtain p s where q: "q = (p, s)" by force
  have "msgcount p < msgmaxcnt p" using 2(3) q by (simp add: word_less_nat_alt length_mp_content)
  with try_put_room[of p s x "msgsz p"] 2 q show ?case by (auto simp: mp_put1_def)
next
  case (3 q x)
  obtain p s where q: "q = (p, s)" by force
  have "msgmaxcnt p \<le> msgcount p" using 3(3) q by (simp add: word_le_nat_alt length_mp_content)
  with try_put_full[of p s x "msgsz p"] 3 q show ?case by (auto simp: mp_put1_def)
next
  case (4 q x xs)
  then show ?case using try_get_ok[of "fst q" "snd q" x xs] by (auto simp: mp_get1_def)
next
  case (5 q)
  then show ?case using try_get_empty[of "fst q" "snd q"] by (auto simp: mp_get1_def)
qed


section \<open>Properties\<close>

text \<open>C27: over any sequence of \<^verbatim>\<open>msgpool_try_put\<close> and \<^verbatim>\<open>msgpool_try_get\<close> calls with messages of the
  pool's size, the messages delivered followed by those still stored are the messages
  found at the start followed by those accepted: none is lost, duplicated, torn or
  reordered, and the invariant holds throughout.\<close>

theorem msgpool_run_fifo:
  assumes "mpk_inv (p, s)" and "\<forall>x. QPut x \<in> set ops \<longrightarrow> length x = unat (msgsz p)"
    and "q_run mp_put1 mp_get1 ops (p, s) = (ins, outs, q')"
  shows "mpk_inv q' \<and> mp_content p @ ins = outs @ mp_content (fst q')
    \<and> length (mp_content (fst q')) \<le> unat (msgmaxcnt p)"
  using mpq.run_fifo[OF assms(1) _ assms(3)] mpq.within_cap[of q'] assms(2) by auto

definition demo_pool :: "msgpool_t" where
  "demo_pool = \<lparr>msgsz = 2, msgcount = 2, msgmaxcnt = 2, head = 2, tail = 2, msgbuf = [1, 2, 3, 4],
     mp_mutex = \<lparr>wait_lock = 0, m_wait_list = 60, waiters = 0\<rparr>, mp_waiters = 50\<rparr>"

lemma demo_pool_inv: "mpk_inv (demo_pool, demo_wait)" "mp_content demo_pool = [[3, 4], [1, 2]]"
proof -
  have "mp_inv demo_pool" by (auto simp: mp_inv_def demo_pool_def intro!: exI[of _ 1])
  then show "mpk_inv (demo_pool, demo_wait)"
    using demo_wait_ok by (simp add: mpk_inv_def) (simp add: demo_pool_def mutex_idle_def)
  show "mp_content demo_pool = [[3, 4], [1, 2]]"
    by (simp add: mp_content_def demo_pool_def slots_def ring_read_def upt_conv_Cons)
qed

theorem msgpool_run_fifo_witness:
  "\<exists>ins outs q'. q_run mp_put1 mp_get1 [QGet, QPut [5, 6], QGet] (demo_pool, demo_wait) = (ins, outs, q')
    \<and> [[3, 4], [1, 2]] @ ins = outs @ mp_content (fst q')"
proof -
  obtain ins outs q' where r: "q_run mp_put1 mp_get1 [QGet, QPut [5, 6], QGet] (demo_pool, demo_wait) = (ins, outs, q')"
    by (cases "q_run mp_put1 mp_get1 [QGet, QPut [5, 6], QGet] (demo_pool, demo_wait)") auto
  have "\<forall>x. QPut x \<in> set [QGet, QPut [5, 6], QGet] \<longrightarrow> length x = unat (msgsz demo_pool)"
    by (auto simp: demo_pool_def)
  from msgpool_run_fifo[OF demo_pool_inv(1) this r] r show ?thesis by (auto simp: demo_pool_inv(2))
qed

text \<open>\<^verbatim>\<open>msgpool_put\<close> tests for room only once. When the pool is still full after the yield,
  it stores all the same: the count exceeds the capacity, and the oldest unread message
  is overwritten by the new one.\<close>

theorem msgpool_put_overfills:
  assumes "mpk_inv (p, s)" and "msgcount p = msgmaxcnt p" and "task_yield s = Some s1"
    and "env (p, s1) = (p, s2)" and "mpk_inv (p, s2)" and "length x = unat (msgsz p)"
  shows "\<exists>p' s'. msgpool_put env p x (msgsz p) s = Some (Done (), p', s')
    \<and> msgcount p' = msgmaxcnt p + 1 \<and> tail p' = tail p \<and> mem_load (tail p') (unat (msgsz p)) (msgbuf p') = Some x"
proof -
  let ?sz = "unat (msgsz p)" and ?n = "unat (msgmaxcnt p)"
  from assms(1) have inv: "mp_inv p" "mutex_idle (mp_mutex p)" by (auto simp: mpk_inv_def)
  from inv(1) obtain ti where i: "length (msgbuf p) = ?n * ?sz" "ti < ?n" "tail p = ti * ?sz"
    "head p = (ti + unat (msgcount p)) mod ?n * ?sz" by (rule mp_invD)
  have hd: "head p = tail p" using i assms(2) by simp
  have "tail p + ?sz \<le> length (msgbuf p)" using slot_in_range[OF i(2), of ?sz] i by simp
  with assms(6) obtain m where m: "mem_store (head p) x (msgbuf p) = Some m" by (auto simp: mem_store_def hd)
  define p1 where "p1 = p\<lparr>msgbuf := m, head := slot_next p (head p), msgcount := msgcount p + 1\<rparr>"
  have put: "slot_put x (msgsz p) p = Some p1" using m assms(6) by (simp add: slot_put_def mem_load_def p1_def)
  have put': "slot_put x (msgsz p) (p\<lparr>mp_mutex := mm\<rparr>) = Some (p1\<lparr>mp_mutex := mm\<rparr>)" for mm
    using m assms(6) by (simp add: slot_put_def mem_load_def p1_def slot_next_def)
  from wake_one_ok[of s2 p] assms(5) obtain s3 where s3: "wake_one p s2 = Some s3" by (auto simp: mpk_inv_def)
  have s3': "wake_one (p1\<lparr>mp_mutex := mm\<rparr>) s2 = Some s3" for mm using s3 by (auto simp: wake_one_def p1_def split: if_splits)
  have "msgpool_put env p x (msgsz p) s = Some (Done (), p1, s3)"
    using assms(2-4) inv(2) put' s3' by (simp add: msgpool_put_def mutex_idle_lock msgpool_full_def)
      (simp add: p1_def)
  moreover have "mem_load (tail p) ?sz m = Some x" using mem_load_store[OF m] assms(6) hd by simp
  ultimately show ?thesis using assms(2) by (auto simp: p1_def)
qed

theorem msgpool_put_overfills_witness:
  "\<exists>env p' s'. msgpool_put env demo_pool [5, 6] 2 demo_wait = Some (Done (), p', s')
    \<and> msgcount p' = 3 \<and> mem_load (tail p') 2 (msgbuf p') = Some [5, 6]"
proof -
  have r: "sched_inv (set_state (task_current demo_wait) TASK_READY demo_wait)"
    using demo_wait_ok(1) queues_ok_upd_task[of demo_wait] queues_okD(8)[of demo_wait]
    by (simp add: sched_inv_def)
  have "\<exists>i < 4. offered (set_state (task_current demo_wait) TASK_READY demo_wait) i \<noteq> []"
    by (rule offered_runnable[OF r]) (simp add: runnable_def)
  with r obtain s1 where y: "task_yield demo_wait = Some s1"
    unfolding task_yield_def by (metis schedule_ok)
  have c: "msgcount demo_pool = msgmaxcnt demo_pool" "length [5, 6 :: u8] = unat (msgsz demo_pool)"
    by (simp_all add: demo_pool_def)
  show ?thesis
    using msgpool_put_overfills[OF demo_pool_inv(1) c(1) y, of "\<lambda>_. (demo_pool, demo_wait)" demo_wait, OF refl demo_pool_inv(1) c(2)]
    by (auto simp: demo_pool_def)
qed

end
