(* ===== verification/Fifoio.thy ===== *)
theory Fifoio
  imports Fifobuf Msgpool
begin

text \<open>
  The blocking byte queue of the input drivers: \<^verbatim>\<open>src/lib/fifoio.c\<close> and
  \<^verbatim>\<open>src/include/xbook/fifoio.h\<close>. Two semaphores count the free and the filled cells. The
  header declares \<^verbatim>\<open>fifo_io_len\<close> and \<^verbatim>\<open>fifo_io_avali\<close> as \<^verbatim>\<open>bool\<close>, which \<^verbatim>\<open>stdbool.h\<close>
  defines as \<^verbatim>\<open>char\<close>, so both keep only the low eight bits of the number they return.
\<close>

section \<open>Definitions\<close>

record fifo_io_t =
  fio_buffer :: "u8 list"
  fio_size :: u32
  fio_head :: nat
  fio_tail :: nat
  fio_count :: u32
  fio_full :: semaphore_t
  fio_empty :: semaphore_t
  fio_mutex :: mutexlock_t

definition fifo_io_len :: "fifo_io_t \<Rightarrow> int" where
  "fifo_io_len f = to_char (uint (fio_count f))"

definition fifo_io_avali :: "fifo_io_t \<Rightarrow> int" where
  "fifo_io_avali f = to_char (uint (fio_size f - fio_count f))"

text \<open>\<open>ws\<close> names the wait lists of the two semaphores (each has one for its lock) and the mutex.\<close>

definition fifo_io_init :: "u8 list \<Rightarrow> u32 \<Rightarrow> nat \<times> nat \<times> nat \<times> nat \<times> nat \<Rightarrow> kst \<Rightarrow> fifo_io_t option \<times> kst" where
  "fifo_io_init buffer sz ws s =
     (if \<not> is_power_of_2 sz then (None, s)
      else case ws of (e1, e2, f1, f2, mw) \<Rightarrow>
        (let (empty, s1) = semaphore_init (sint sz) e1 e2 s;
             (full, s2) = semaphore_init 0 f1 f2 s1;
             (m, s3) = mutexlock_init mw s2
         in (Some \<lparr>fio_buffer = replicate (unat sz) 0 @ drop (unat sz) buffer, fio_size = sz, fio_head = 0,
                   fio_tail = 0, fio_count = 0, fio_full = full, fio_empty = empty, fio_mutex = m\<rparr>, s3)))"

definition cursor_next :: "fifo_io_t \<Rightarrow> nat \<Rightarrow> nat" where
  "cursor_next f i = (if Suc i \<ge> unat (fio_size f) then 0 else Suc i)"

definition fifo_io_store :: "u8 \<Rightarrow> fifo_io_t \<Rightarrow> fifo_io_t option" where
  "fifo_io_store data f =
     (if fifo_io_avali f > 0 then do {
        b \<leftarrow> mem_store (fio_head f) [data] (fio_buffer f);
        Some (f\<lparr>fio_buffer := b, fio_head := cursor_next f (fio_head f), fio_count := fio_count f + 1\<rparr>) }
      else Some f)"

definition fifo_io_take :: "fifo_io_t \<Rightarrow> (u8 \<times> fifo_io_t) option" where
  "fifo_io_take f =
     (if fifo_io_len f > 0 then do {
        d \<leftarrow> mem_load (fio_tail f) 1 (fio_buffer f);
        Some (hd d, f\<lparr>fio_tail := cursor_next f (fio_tail f), fio_count := fio_count f - 1\<rparr>) }
      else Some (0, f))"

text \<open>What follows the first \<^verbatim>\<open>semaphore_down\<close>; a task that slept there goes on here when woken.\<close>

definition fifo_io_put_body :: "fifo_io_t \<Rightarrow> u8 \<Rightarrow> kst \<Rightarrow> (unit outcome \<times> fifo_io_t \<times> kst) option" where
  "fifo_io_put_body f data s = do {
     (r, m, s1) \<leftarrow> mutex_lock (fio_mutex f) s;
     case r of
       Blocked \<Rightarrow> Some (Blocked, f\<lparr>fio_mutex := m\<rparr>, s1)
     | Done _ \<Rightarrow> do {
         f1 \<leftarrow> fifo_io_store data f;
         (m2, s2) \<leftarrow> mutex_unlock m s1;
         (r2, full, s3) \<leftarrow> semaphore_up (fio_full f1) s2;
         Some (r2, f1\<lparr>fio_mutex := m2, fio_full := full\<rparr>, s3) } }"

definition fifo_io_put :: "fifo_io_t \<Rightarrow> u8 \<Rightarrow> kst \<Rightarrow> (unit outcome \<times> fifo_io_t \<times> kst) option" where
  "fifo_io_put f data s = do {
     (r, e, s1) \<leftarrow> semaphore_down (fio_empty f) s;
     if r = Down_taken then fifo_io_put_body (f\<lparr>fio_empty := e\<rparr>) data s1
     else Some (Blocked, f\<lparr>fio_empty := e\<rparr>, s1) }"

definition fifo_io_get_body :: "fifo_io_t \<Rightarrow> kst \<Rightarrow> (u8 outcome \<times> fifo_io_t \<times> kst) option" where
  "fifo_io_get_body f s = do {
     (r, m, s1) \<leftarrow> mutex_lock (fio_mutex f) s;
     case r of
       Blocked \<Rightarrow> Some (Blocked, f\<lparr>fio_mutex := m\<rparr>, s1)
     | Done _ \<Rightarrow> do {
         (d, f1) \<leftarrow> fifo_io_take f;
         (m2, s2) \<leftarrow> mutex_unlock m s1;
         (r2, empty, s3) \<leftarrow> semaphore_up (fio_empty f1) s2;
         Some (case r2 of Done _ \<Rightarrow> Done d | Blocked \<Rightarrow> Blocked, f1\<lparr>fio_mutex := m2, fio_empty := empty\<rparr>, s3) } }"

definition fifo_io_get :: "fifo_io_t \<Rightarrow> kst \<Rightarrow> (u8 outcome \<times> fifo_io_t \<times> kst) option" where
  "fifo_io_get f s = do {
     (r, fl, s1) \<leftarrow> semaphore_down (fio_full f) s;
     if r = Down_taken then fifo_io_get_body (f\<lparr>fio_full := fl\<rparr>) s1
     else Some (Blocked, f\<lparr>fio_full := fl\<rparr>, s1) }"


section \<open>Invariant\<close>

definition sem_quiet :: "semaphore_t \<Rightarrow> kst \<Rightarrow> bool" where
  "sem_quiet sema s \<longleftrightarrow> mutex_idle (sem_lock sema) \<and> k_wait s (sem_waiter sema) = []"

text \<open>No task sleeps in a call on the queue, and the semaphores agree with the ring.\<close>

definition fio_inv :: "fifo_io_t \<times> kst \<Rightarrow> bool" where
  "fio_inv q = (case q of (f, s) \<Rightarrow>
     let n = unat (fio_size f); c = unat (fio_count f) in
     n > 0 \<and> length (fio_buffer f) = n \<and> c \<le> n \<and> fio_tail f < n \<and> fio_head f = (fio_tail f + c) mod n
     \<and> mutex_idle (fio_mutex f) \<and> sem_quiet (fio_full f) s \<and> sem_quiet (fio_empty f) s
     \<and> counter (fio_full f) = int c \<and> counter (fio_empty f) = int n - int c)"

definition fio_small :: "fifo_io_t \<times> kst \<Rightarrow> bool" where
  "fio_small q \<longleftrightarrow> fio_inv q \<and> unat (fio_size (fst q)) < 128"

definition fio_content :: "fifo_io_t \<Rightarrow> u8 list" where
  "fio_content f = ring_read (fio_buffer f) (fio_tail f) (unat (fio_count f))"

lemma sem_quiet_ops:
  assumes "sem_quiet sema s"
  shows "counter sema > 0 \<Longrightarrow> semaphore_down sema s = Some (Down_taken, sema\<lparr>counter := counter sema - 1\<rparr>, s)"
    "semaphore_up sema s = Some (Done (), sema\<lparr>counter := counter sema + 1\<rparr>, s)"
    "counter sema \<le> 0 \<Longrightarrow> semaphore_down sema s = Some (r, q) \<Longrightarrow> r = Down_sleep"
proof -
  have "sema\<lparr>counter := n, sem_lock := sem_lock sema\<rparr> = sema\<lparr>counter := n\<rparr>" for n by (cases sema) simp
  moreover have m: "mutex_idle (sem_lock sema)" using assms by (simp add: sem_quiet_def)
  ultimately show "counter sema > 0 \<Longrightarrow> semaphore_down sema s = Some (Down_taken, sema\<lparr>counter := counter sema - 1\<rparr>, s)"
    "semaphore_up sema s = Some (Done (), sema\<lparr>counter := counter sema + 1\<rparr>, s)"
    using assms by (simp_all add: semaphore_down_def semaphore_up_def sem_quiet_def mutex_idle_lock[OF m] Let_def)
  show "counter sema \<le> 0 \<Longrightarrow> semaphore_down sema s = Some (r, q) \<Longrightarrow> r = Down_sleep"
    by (auto simp: semaphore_down_def mutex_idle_lock[OF m] Let_def split: bind_splits)
qed

lemma cursor_next_mod:
  assumes "i < unat (fio_size f)"
  shows "cursor_next f i = Suc i mod unat (fio_size f)"
  using assms by (auto simp: cursor_next_def mod_Suc)

lemma fio_upd_same [simp]:
  "f\<lparr>fio_mutex := fio_mutex f\<rparr> = f" "f\<lparr>fio_full := fio_full f\<rparr> = f" "f\<lparr>fio_empty := fio_empty f\<rparr> = f"
  by (cases f; simp)+

definition fio_quiet :: "fifo_io_t \<Rightarrow> kst \<Rightarrow> bool" where
  "fio_quiet f s \<longleftrightarrow> mutex_idle (fio_mutex f) \<and> sem_quiet (fio_full f) s \<and> sem_quiet (fio_empty f) s"

lemma fio_inv_quiet: "fio_inv (f, s) \<Longrightarrow> fio_quiet f s"
  by (auto simp: fio_inv_def fio_quiet_def Let_def)

text \<open>A call that finds its semaphore free runs to its end; the ring step is its effect.\<close>

lemma fifo_io_put_run:
  assumes "fio_quiet f s" "counter (fio_empty f) > 0"
    and "fifo_io_store data (f\<lparr>fio_empty := (fio_empty f)\<lparr>counter := counter (fio_empty f) - 1\<rparr>\<rparr>) = Some f1"
    and "fio_full f1 = fio_full f" "fio_mutex f1 = fio_mutex f"
  shows "fifo_io_put f data s =
    Some (Done (), f1\<lparr>fio_full := (fio_full f)\<lparr>counter := counter (fio_full f) + 1\<rparr>\<rparr>, s)"
proof -
  have q: "sem_quiet (fio_full f) s" "sem_quiet (fio_empty f) s" and m: "mutex_idle (fio_mutex f)"
    using assms(1) by (auto simp: fio_quiet_def)
  note ops = sem_quiet_ops(1)[OF q(2) assms(2)] sem_quiet_ops(2)[OF q(1)] mutex_idle_lock[OF m]
  have "f1\<lparr>fio_mutex := fio_mutex f1, fio_full := x\<rparr> = f1\<lparr>fio_full := x\<rparr>" for x by simp
  then have e: "f1\<lparr>fio_mutex := fio_mutex f, fio_full := x\<rparr> = f1\<lparr>fio_full := x\<rparr>" for x by (simp only: assms(5))
  define f0 where "f0 = f\<lparr>fio_empty := (fio_empty f)\<lparr>counter := counter (fio_empty f) - 1\<rparr>\<rparr>"
  have f0: "fio_mutex f0 = fio_mutex f" "fifo_io_store data f0 = Some f1" using assms(3) by (simp_all add: f0_def)
  have "fifo_io_put_body f0 data s =
    Some (Done (), f1\<lparr>fio_mutex := fio_mutex f, fio_full := (fio_full f)\<lparr>counter := counter (fio_full f) + 1\<rparr>\<rparr>, s)"
    unfolding fifo_io_put_body_def f0 ops bind.simps prod.case outcome.case assms(4) by (rule refl)
  then show ?thesis unfolding fifo_io_put_def ops bind.simps prod.case f0_def e by simp
qed

lemma fifo_io_get_run:
  assumes "fio_quiet f s" "counter (fio_full f) > 0"
    and "fifo_io_take (f\<lparr>fio_full := (fio_full f)\<lparr>counter := counter (fio_full f) - 1\<rparr>\<rparr>) = Some (d, f1)"
    and "fio_empty f1 = fio_empty f" "fio_mutex f1 = fio_mutex f"
  shows "fifo_io_get f s =
    Some (Done d, f1\<lparr>fio_empty := (fio_empty f)\<lparr>counter := counter (fio_empty f) + 1\<rparr>\<rparr>, s)"
proof -
  have q: "sem_quiet (fio_full f) s" "sem_quiet (fio_empty f) s" and m: "mutex_idle (fio_mutex f)"
    using assms(1) by (auto simp: fio_quiet_def)
  note ops = sem_quiet_ops(1)[OF q(1) assms(2)] sem_quiet_ops(2)[OF q(2)] mutex_idle_lock[OF m]
  have "f1\<lparr>fio_mutex := fio_mutex f1, fio_empty := x\<rparr> = f1\<lparr>fio_empty := x\<rparr>" for x by simp
  then have e: "f1\<lparr>fio_mutex := fio_mutex f, fio_empty := x\<rparr> = f1\<lparr>fio_empty := x\<rparr>" for x by (simp only: assms(5))
  define f0 where "f0 = f\<lparr>fio_full := (fio_full f)\<lparr>counter := counter (fio_full f) - 1\<rparr>\<rparr>"
  have f0: "fio_mutex f0 = fio_mutex f" "fifo_io_take f0 = Some (d, f1)" using assms(3) by (simp_all add: f0_def)
  have "fifo_io_get_body f0 s =
    Some (Done d, f1\<lparr>fio_mutex := fio_mutex f, fio_empty := (fio_empty f)\<lparr>counter := counter (fio_empty f) + 1\<rparr>\<rparr>, s)"
    unfolding fifo_io_get_body_def f0 ops bind.simps prod.case outcome.case assms(4) by (rule refl)
  then show ?thesis unfolding fifo_io_get_def ops bind.simps prod.case f0_def e by simp
qed

lemma to_char_pos:
  fixes n :: u32
  assumes "0 < unat n" "unat n < 128"
  shows "to_char (uint n) > 0"
proof -
  have "- 128 \<le> int (unat n)" "int (unat n) < 128" using assms(2) by linarith+
  then have "to_char (int (unat n)) = int (unat n)" by (rule to_char_id)
  with assms(1) show ?thesis by (simp only: uint_nat of_nat_0_less_iff)
qed

lemma fifo_io_put_ok:
  assumes "fio_small (f, s)" "unat (fio_count f) < unat (fio_size f)"
  shows "\<exists>f'. fifo_io_put f data s = Some (Done (), f', s) \<and> fio_small (f', s)
    \<and> fio_content f' = fio_content f @ [data] \<and> fio_size f' = fio_size f"
proof -
  let ?n = "unat (fio_size f)" and ?c = "unat (fio_count f)"
  have inv: "fio_inv (f, s)" and n: "?n < 128" using assms(1) by (auto simp: fio_small_def)
  then have i: "?n > 0" "length (fio_buffer f) = ?n" "fio_tail f < ?n" "fio_head f = (fio_tail f + ?c) mod ?n"
    "counter (fio_full f) = int ?c" "counter (fio_empty f) = int ?n - int ?c"
    "mutex_idle (fio_mutex f)" "sem_quiet (fio_full f) s" "sem_quiet (fio_empty f) s"
    by (auto simp: fio_inv_def Let_def)
  have "fio_count f \<le> fio_size f" using assms(2) by (simp add: word_le_nat_alt)
  then have "unat (fio_size f - fio_count f) = ?n - ?c" by (rule unat_sub)
  then have av: "to_char (uint (fio_size f - fio_count f)) > 0"
    using assms(2) n by (intro to_char_pos) linarith+
  have h: "fio_head f < ?n" using i by simp
  have c1: "unat (fio_count f + 1) = Suc ?c"
    using assms(2) unat_lt_32[of "fio_size f"] by (subst unat_add_no_overflow) auto
  have cu: "uint (fio_count f + 1) = int (Suc ?c)" using c1 by (simp only: uint_nat)
  define b where "b = (fio_buffer f)[fio_head f := data]"
  have st: "mem_store (fio_head f) [data] (fio_buffer f) = Some b"
    using h i(2) by (simp add: mem_store_def b_def upd_conv_take_nth_drop)
  define f1 where "f1 = f\<lparr>fio_empty := (fio_empty f)\<lparr>counter := counter (fio_empty f) - 1\<rparr>, fio_buffer := b,
    fio_head := cursor_next f (fio_head f), fio_count := fio_count f + 1\<rparr>"
  have store: "fifo_io_store data (f\<lparr>fio_empty := (fio_empty f)\<lparr>counter := counter (fio_empty f) - 1\<rparr>\<rparr>) = Some f1"
    using st av by (simp add: fifo_io_store_def fifo_io_avali_def f1_def cursor_next_def)
  define f' where "f' = f1\<lparr>fio_full := (fio_full f)\<lparr>counter := counter (fio_full f) + 1\<rparr>\<rparr>"
  have pos: "counter (fio_empty f) > 0" unfolding i(6) using assms(2) by linarith
  have "fifo_io_put f data s = Some (Done (), f', s)" unfolding f'_def
    using pos by (intro fifo_io_put_run[OF fio_inv_quiet[OF inv] _ store]) (simp_all add: f1_def)
  moreover have "cursor_next f (fio_head f) = (fio_tail f + Suc ?c) mod ?n"
    using cursor_next_mod[OF h] i(4) by (simp add: mod_Suc_eq)
  then have "fio_small (f', s)" using i c1 assms(2) n cu
    by (simp add: fio_small_def fio_inv_def Let_def f'_def f1_def b_def sem_quiet_def)
  moreover have "fio_content f' = fio_content f @ [data]"
    using ring_read_update[of ?c "fio_buffer f" "fio_tail f" data] i assms(2) c1
    by (simp add: fio_content_def f'_def f1_def b_def)
  ultimately show ?thesis by (auto simp: f'_def f1_def)
qed

lemma fifo_io_get_ok:
  assumes "fio_small (f, s)" "fio_content f = x # xs"
  shows "\<exists>f'. fifo_io_get f s = Some (Done x, f', s) \<and> fio_small (f', s)
    \<and> fio_content f' = xs \<and> fio_size f' = fio_size f"
proof -
  let ?n = "unat (fio_size f)" and ?c = "unat (fio_count f)"
  have inv: "fio_inv (f, s)" and n: "?n < 128" using assms(1) by (auto simp: fio_small_def)
  then have i: "?n > 0" "length (fio_buffer f) = ?n" "fio_tail f < ?n" "fio_head f = (fio_tail f + ?c) mod ?n"
    "counter (fio_full f) = int ?c" "counter (fio_empty f) = int ?n - int ?c" "?c \<le> ?n"
    "mutex_idle (fio_mutex f)" "sem_quiet (fio_full f) s" "sem_quiet (fio_empty f) s"
    by (auto simp: fio_inv_def Let_def)
  from assms(2) have "length (fio_content f) = Suc (length xs)" by simp
  then have c: "?c = Suc (length xs)" by (simp add: fio_content_def)
  then have "fio_count f \<noteq> 0" by auto
  then have c1: "unat (fio_count f - 1) = length xs" using c by (simp add: unat_minus_one)
  have cu: "uint (fio_count f - 1) = int (length xs)" using c1 by (simp only: uint_nat)
  have len: "to_char (uint (fio_count f)) > 0" using c i(7) n by (intro to_char_pos) linarith+
  have rr: "x = fio_buffer f ! fio_tail f" "xs = ring_read (fio_buffer f) (Suc (fio_tail f)) (length xs)"
    using assms(2) c i(2,3) ring_read_Suc[of "fio_buffer f" "fio_tail f" "length xs"] by (simp_all add: fio_content_def)
  have ld: "mem_load (fio_tail f) 1 (fio_buffer f) = Some [x]"
    using i(2,3) rr(1) by (simp add: mem_load_def take_Suc_conv_app_nth hd_drop_conv_nth take_Suc drop_eq_Nil)
  define f1 where "f1 = f\<lparr>fio_full := (fio_full f)\<lparr>counter := counter (fio_full f) - 1\<rparr>,
    fio_tail := cursor_next f (fio_tail f), fio_count := fio_count f - 1\<rparr>"
  have take: "fifo_io_take (f\<lparr>fio_full := (fio_full f)\<lparr>counter := counter (fio_full f) - 1\<rparr>\<rparr>) = Some (x, f1)"
    using ld len by (simp add: fifo_io_take_def fifo_io_len_def f1_def cursor_next_def)
  define f' where "f' = f1\<lparr>fio_empty := (fio_empty f)\<lparr>counter := counter (fio_empty f) + 1\<rparr>\<rparr>"
  have "fifo_io_get f s = Some (Done x, f', s)" unfolding f'_def
    using c i by (intro fifo_io_get_run[OF fio_inv_quiet[OF inv] _ take]) (simp_all add: f1_def)
  moreover have tl: "cursor_next f (fio_tail f) = Suc (fio_tail f) mod ?n" using i(3) by (rule cursor_next_mod)
  have "fio_head f = (Suc (fio_tail f) mod ?n + length xs) mod ?n" using i(4) c by (simp add: mod_add_left_eq)
  then have "fio_small (f', s)" using i c c1 n tl cu
    by (simp add: fio_small_def fio_inv_def Let_def f'_def f1_def sem_quiet_def)
  moreover have "fio_content f' = xs"
    using rr(2) c1 tl i(2) ring_read_mod[of "fio_buffer f" "Suc (fio_tail f)" "length xs"]
    by (simp add: fio_content_def f'_def f1_def)
  ultimately show ?thesis by (auto simp: f'_def f1_def)
qed


text \<open>A call that would put the caller to sleep is not performed by these two.\<close>

definition fio_put1 :: "u8 \<Rightarrow> fifo_io_t \<times> kst \<Rightarrow> bool \<times> fifo_io_t \<times> kst" where
  "fio_put1 x q = (case fifo_io_put (fst q) x (snd q) of Some (Done _, q') \<Rightarrow> (True, q') | _ \<Rightarrow> (False, q))"

definition fio_get1 :: "fifo_io_t \<times> kst \<Rightarrow> u8 option \<times> fifo_io_t \<times> kst" where
  "fio_get1 q = (case fifo_io_get (fst q) (snd q) of Some (Done x, q') \<Rightarrow> (Some x, q') | _ \<Rightarrow> (None, q))"

lemma fio_sleeps:
  assumes "sem_quiet (fio_empty f) s" "counter (fio_empty f) \<le> 0" "fifo_io_put f x s = Some (r, q)"
  shows "r = Blocked"
  using assms sem_quiet_ops(3)[OF assms(1,2)] by (auto simp: fifo_io_put_def split: bind_splits if_splits)

lemma fio_get_sleeps:
  assumes "sem_quiet (fio_full f) s" "counter (fio_full f) \<le> 0" "fifo_io_get f s = Some (r, q)"
  shows "r = Blocked"
  using assms sem_quiet_ops(3)[OF assms(1,2)] by (auto simp: fifo_io_get_def split: bind_splits if_splits)

interpretation fioq: bounded_queue fio_small "\<lambda>q. fio_content (fst q)" "\<lambda>q. unat (fio_size (fst q))"
  fio_put1 fio_get1 "\<lambda>_ _. True"
proof (unfold_locales, goal_cases)
  case (1 q)
  then show ?case by (auto simp: fio_small_def fio_inv_def fio_content_def Let_def)
next
  case (2 q x)
  then show ?case using fifo_io_put_ok[of "fst q" "snd q" x] by (auto simp: fio_put1_def fio_content_def)
next
  case (3 q x)
  obtain f s where q: "q = (f, s)" by force
  with 3 have "fio_count f = fio_size f" by (simp add: fio_content_def word_unat_eq_iff)
  with 3 q have e: "sem_quiet (fio_empty f) s" "counter (fio_empty f) \<le> 0"
    by (auto simp: fio_small_def fio_inv_def Let_def)
  from fio_sleeps[OF this, of x] have "fio_put1 x q = (False, q)"
    by (auto simp: fio_put1_def q split: option.splits outcome.splits)
  with 3 show ?case by auto
next
  case (4 q x xs)
  then show ?case using fifo_io_get_ok[of "fst q" "snd q" x xs] by (auto simp: fio_get1_def)
next
  case (5 q)
  obtain f s where q: "q = (f, s)" by force
  with 5 have "unat (fio_count f) = 0" by (metis fio_content_def fst_conv length_ring_read list.size(3))
  then have "fio_count f = 0" by (simp add: unat_eq_zero)
  with 5 q have e: "sem_quiet (fio_full f) s" "counter (fio_full f) \<le> 0"
    by (auto simp: fio_small_def fio_inv_def Let_def)
  from fio_get_sleeps[OF this] have "fio_get1 q = (None, q)"
    by (auto simp: fio_get1_def q split: option.splits outcome.splits)
  with 5 show ?case by auto
qed


section \<open>Properties\<close>


definition demo_fio :: "u32 \<Rightarrow> fifo_io_t" where
  "demo_fio n = \<lparr>fio_buffer = replicate (unat n) 0, fio_size = n, fio_head = 0, fio_tail = 0, fio_count = 0,
     fio_full = (demo_sema 0)\<lparr>sem_waiter := 51\<rparr>, fio_empty = (demo_sema (uint n))\<lparr>sem_waiter := 52\<rparr>,
     fio_mutex = \<lparr>wait_lock = 0, m_wait_list = 61, waiters = 0\<rparr>\<rparr>"

lemma demo_fio_inv: "n \<noteq> 0 \<Longrightarrow> fio_inv (demo_fio n, demo_state)"
  by (simp add: fio_inv_def demo_fio_def Let_def sem_quiet_def demo_sema_def mutex_idle_def demo_state_def unat_gt_0)


text \<open>A byte put into an empty queue whose size is a power of two from 128 on is dropped: the
  free space, cut to a signed byte, is not positive. The call still counts a filled cell,
  and the next \<^verbatim>\<open>fifo_io_get\<close> delivers 0 instead of the byte.\<close>

theorem fifo_io_put_drops:
  assumes "fio_inv (f, s)" and "fio_count f = 0" and "fio_size f = 2 ^ k" and "7 \<le> k" and "k < 32"
  shows "\<exists>f1 f2. fifo_io_put f x s = Some (Done (), f1, s) \<and> fio_buffer f1 = fio_buffer f \<and> fio_count f1 = 0
    \<and> counter (fio_full f1) = 1 \<and> fifo_io_get f1 s = Some (Done 0, f2, s)"
proof -
  have i: "counter (fio_full f) = 0" "counter (fio_empty f) = uint (fio_size f)" "mutex_idle (fio_mutex f)"
    "sem_quiet (fio_full f) s" "sem_quiet (fio_empty f) s" "unat (fio_size f) > 0"
    using assms(1,2) by (auto simp: fio_inv_def Let_def)
  have "unat (2 ^ k :: u32) = 2 ^ k" using assms(5) by (intro unat_pow2) simp
  then have sz: "uint (fio_size f) = 2 ^ k" unfolding assms(3) uint_nat by simp
  have "signed_take_bit 7 (2 ^ k :: int) \<le> 0"
  proof (cases "k = 7")
    case True
    then show ?thesis by (simp add: signed_take_bit_eq_take_bit_shift)
  next
    case False
    then have "(2 :: int) ^ 8 dvd 2 ^ k" using assms(4) by (intro le_imp_power_dvd) simp
    then have "take_bit 8 (2 ^ k :: int) = 0" by (simp add: take_bit_eq_mod)
    moreover have "signed_take_bit 7 (2 ^ k :: int) = signed_take_bit 7 (take_bit 8 (2 ^ k))"
      by (simp only: signed_take_bit_take_bit) simp
    ultimately show ?thesis by simp
  qed
  with sz have av: "\<not> to_char (uint (fio_size f)) > 0" by (simp add: to_char_def)
  define f0 where "f0 = f\<lparr>fio_empty := (fio_empty f)\<lparr>counter := counter (fio_empty f) - 1\<rparr>\<rparr>"
  have "fifo_io_store x f0 = Some f0" using av assms(2) by (simp add: fifo_io_store_def fifo_io_avali_def f0_def)
  moreover have "counter (fio_empty f) > 0" using i(2) sz by simp
  ultimately have put: "fifo_io_put f x s = Some (Done (), f0\<lparr>fio_full := (fio_full f)\<lparr>counter := counter (fio_full f) + 1\<rparr>\<rparr>, s)"
    unfolding f0_def using fio_inv_quiet[OF assms(1)] by (intro fifo_io_put_run) simp_all
  define f1 where "f1 = f0\<lparr>fio_full := (fio_full f)\<lparr>counter := counter (fio_full f) + 1\<rparr>\<rparr>"
  have q1: "fio_quiet f1 s" using fio_inv_quiet[OF assms(1)]
    by (simp add: fio_quiet_def f1_def f0_def sem_quiet_def)
  have c1: "counter (fio_full f1) = 1" "fio_count f1 = 0" "fio_buffer f1 = fio_buffer f"
    using i(1) assms(2) by (simp_all add: f1_def f0_def)
  define f2 where "f2 = f1\<lparr>fio_full := (fio_full f1)\<lparr>counter := counter (fio_full f1) - 1\<rparr>\<rparr>"
  have "fifo_io_take f2 = Some (0, f2)" using c1 by (simp add: fifo_io_take_def fifo_io_len_def f2_def to_char_def)
  then have "fifo_io_get f1 s = Some (Done 0, f2\<lparr>fio_empty := (fio_empty f1)\<lparr>counter := counter (fio_empty f1) + 1\<rparr>\<rparr>, s)"
    unfolding f2_def using q1 c1(1) by (intro fifo_io_get_run) simp_all
  with put c1 show ?thesis by (auto simp: f1_def)
qed

theorem fifo_io_put_drops_witness:
  "\<exists>f1 f2. fifo_io_put (demo_fio 256) 65 demo_state = Some (Done (), f1, demo_state)
    \<and> fifo_io_get f1 demo_state = Some (Done 0, f2, demo_state)"
proof -
  have "fio_inv (demo_fio 256, demo_state)" "fio_count (demo_fio 256) = 0" "fio_size (demo_fio 256) = 2 ^ 8"
    using demo_fio_inv[of 256] by simp_all (simp_all add: demo_fio_def)
  from fifo_io_put_drops[OF this, of 65] show ?thesis by auto
qed

end
