(* ===== verification/Kstring.thy ===== *)
theory Kstring
  imports OS_Prelude "HOL-Library.Signed_Division"
begin

text \<open>
  The kernel's string and memory functions: \<^verbatim>\<open>src/lib/string.c\<close>. Memory is a list of bytes and
  a pointer is an offset into it, so that overlapping arguments are visible. \<open>None\<close> is an
  access outside the memory, or a call that never returns. Characters are compared as
  signed bytes, as \<^verbatim>\<open>char\<close> is on i386.
\<close>

type_synonym mem = "u8 list"

definition rd :: "mem \<Rightarrow> nat \<Rightarrow> u8 option" where
  "rd m p = (if p < length m then Some (m ! p) else None)"

definition wr :: "mem \<Rightarrow> nat \<Rightarrow> u8 \<Rightarrow> mem option" where
  "wr m p c = (if p < length m then Some (m[p := c]) else None)"

section \<open>Length, comparison, search\<close>

function strlen_loop :: "mem \<Rightarrow> nat \<Rightarrow> nat option" where
  "strlen_loop m p = (if p < length m then (if m ! p = 0 then Some p else strlen_loop m (Suc p)) else None)"
  by pat_completeness auto
termination by (relation "measure (\<lambda>(m, p). length m - p)") auto

definition strlen :: "mem \<Rightarrow> nat \<Rightarrow> u32 option" where
  "strlen m str = do { p \<leftarrow> strlen_loop m str; Some (of_nat (p - str)) }"

text \<open>The loop test \<^verbatim>\<open>--n && *s1 && *s1 == *s2\<close>, then the final difference.\<close>

function strncmp_loop :: "mem \<Rightarrow> int \<Rightarrow> nat \<Rightarrow> nat \<Rightarrow> int option" where
  "strncmp_loop m n s1 s2 =
     (if \<not> (s1 < length m \<and> s2 < length m) then None
      else if n - 1 \<noteq> 0 \<and> m ! s1 \<noteq> 0 \<and> m ! s1 = m ! s2 then strncmp_loop m (n - 1) (Suc s1) (Suc s2)
      else Some (sint (m ! s1) - sint (m ! s2)))"
  by pat_completeness auto
termination by (relation "measure (\<lambda>(m, n, p, q). length m - p)") auto

definition strncmp :: "mem \<Rightarrow> nat \<Rightarrow> nat \<Rightarrow> int \<Rightarrow> int option" where
  "strncmp m s1 s2 n = (if n = 0 then Some 0 else strncmp_loop m n s1 s2)"

function strcmp :: "mem \<Rightarrow> nat \<Rightarrow> nat \<Rightarrow> int option" where
  "strcmp m a b =
     (if \<not> (a < length m \<and> b < length m) then None
      else if m ! a \<noteq> 0 \<and> m ! a = m ! b then strcmp m (Suc a) (Suc b)
      else Some (if sint (m ! a) < sint (m ! b) then -1 else if sint (m ! a) > sint (m ! b) then 1 else 0))"
  by pat_completeness auto
termination by (relation "measure (\<lambda>(m, a, b). length m - a)") auto

definition strcoll :: "mem \<Rightarrow> nat \<Rightarrow> nat \<Rightarrow> int option" where
  "strcoll m str1 str2 = strcmp m str1 str2"

function strrchr_loop :: "mem \<Rightarrow> nat \<Rightarrow> u8 \<Rightarrow> nat option \<Rightarrow> nat option option" where
  "strrchr_loop m str c ret =
     (if \<not> str < length m then None
      else if m ! str \<noteq> 0 then strrchr_loop m (Suc str) c (if m ! str = c then Some str else ret)
      else Some (if c = m ! str then Some str else ret))"
  by pat_completeness auto
termination by (relation "measure (\<lambda>(m, p, c, r). length m - p)") auto

definition strrchr :: "mem \<Rightarrow> nat \<Rightarrow> u8 \<Rightarrow> nat option option" where
  "strrchr m str c = strrchr_loop m str c None"

function strpos_loop :: "mem \<Rightarrow> nat \<Rightarrow> u8 \<Rightarrow> int \<Rightarrow> int option" where
  "strpos_loop m str ch i =
     (if \<not> str < length m then None
      else if m ! str = 0 then Some (-1)
      else if m ! str = ch then Some i
      else strpos_loop m (Suc str) ch (i + 1))"
  by pat_completeness auto
termination by (relation "measure (\<lambda>(m, p, c, i). length m - p)") auto

definition strpos :: "mem \<Rightarrow> nat \<Rightarrow> u8 \<Rightarrow> int option" where
  "strpos m str ch = strpos_loop m str ch 0"

function strchr :: "mem \<Rightarrow> nat \<Rightarrow> u8 \<Rightarrow> nat option option" where
  "strchr m s c =
     (if \<not> s < length m then None
      else if m ! s = 0 then Some None
      else if m ! s = c then Some (Some s)
      else strchr m (Suc s) c)"
  by pat_completeness auto
termination by (relation "measure (\<lambda>(m, p, c). length m - p)") auto

function accept_loop :: "mem \<Rightarrow> u8 \<Rightarrow> nat \<Rightarrow> bool option" where
  "accept_loop m c a =
     (if \<not> a < length m then None
      else if m ! a = 0 then Some False
      else if m ! a = c then Some True
      else accept_loop m c (Suc a))"
  by pat_completeness auto
termination by (relation "measure (\<lambda>(m, c, p). length m - p)") auto

function strspn_loop :: "mem \<Rightarrow> nat \<Rightarrow> nat \<Rightarrow> u32 \<Rightarrow> u32 option" where
  "strspn_loop m p accept count =
     (if \<not> p < length m then None
      else if m ! p = 0 then Some count
      else case accept_loop m (m ! p) accept of
        None \<Rightarrow> None
      | Some False \<Rightarrow> Some count
      | Some True \<Rightarrow> strspn_loop m (Suc p) accept (count + 1))"
  by pat_completeness auto
termination by (relation "measure (\<lambda>(m, p, a, c). length m - p)") auto

definition strspn :: "mem \<Rightarrow> nat \<Rightarrow> nat \<Rightarrow> u32 option" where
  "strspn m s accept = strspn_loop m s accept 0"

function strpbrk :: "mem \<Rightarrow> nat \<Rightarrow> nat \<Rightarrow> nat option option" where
  "strpbrk m str1 str2 =
     (if \<not> str1 < length m then None
      else if m ! str1 = 0 then Some None
      else case accept_loop m (m ! str1) str2 of
        None \<Rightarrow> None
      | Some True \<Rightarrow> Some (Some str1)
      | Some False \<Rightarrow> strpbrk m (Suc str1) str2)"
  by pat_completeness auto
termination by (relation "measure (\<lambda>(m, p, q). length m - p)") auto

text \<open>
  \<^verbatim>\<open>strstr\<close>: \<^verbatim>\<open>strlen(x) - 1\<close> is unsigned and wraps to the largest word for an empty string; the
  loop variables are converted to unsigned for the comparison.
\<close>

partial_function (option) strstr_loop :: "mem \<Rightarrow> nat \<Rightarrow> nat \<Rightarrow> u32 \<Rightarrow> u32 \<Rightarrow> u32 \<Rightarrow> u32 \<Rightarrow> (u32 \<times> u32) option" where
  "strstr_loop m dest src ld ls i j =
     (if i \<le> ld - 1 \<and> j \<le> ls - 1 then
        (case rd m (dest + unat i) of None \<Rightarrow> None | Some a \<Rightarrow>
         case rd m (src + unat j) of None \<Rightarrow> None | Some b \<Rightarrow>
           if a = b then strstr_loop m dest src ld ls (i + 1) (j + 1)
           else strstr_loop m dest src ld ls (i - j + 1) 0)
      else Some (i, j))"

definition strstr :: "mem \<Rightarrow> nat \<Rightarrow> nat \<Rightarrow> nat option option" where
  "strstr m dest src = do {
     ld \<leftarrow> strlen m dest;
     ls \<leftarrow> strlen m src;
     (i, j) \<leftarrow> strstr_loop m dest src ld ls 0 0;
     Some (if j = ls then Some (dest + unat (i - ls)) else None) }"

section \<open>Copying\<close>

function strcpy_loop :: "mem \<Rightarrow> nat \<Rightarrow> nat \<Rightarrow> mem option" where
  "strcpy_loop m dst src =
     (if \<not> (src < length m \<and> dst < length m) then None
      else let c = m ! src; m1 = m[dst := c]
           in if c = 0 then Some m1 else strcpy_loop m1 (Suc dst) (Suc src))"
  by pat_completeness auto
termination by (relation "measure (\<lambda>(m, d, s). length m - s)") (auto simp: Let_def)

definition strcpy :: "mem \<Rightarrow> nat \<Rightarrow> nat \<Rightarrow> mem option" where
  "strcpy m dst src = strcpy_loop m dst src"

text \<open>The test \<^verbatim>\<open>n > 0\<close> of \<^verbatim>\<open>strncpy\<close> comes after the character has been stored.\<close>

function strncpy :: "mem \<Rightarrow> nat \<Rightarrow> nat \<Rightarrow> int \<Rightarrow> mem option" where
  "strncpy m dst src n =
     (if \<not> (src < length m \<and> dst < length m) then None
      else let c = m ! src; m1 = m[dst := c]
           in if c \<noteq> 0 \<and> n > 0 then strncpy m1 (Suc dst) (Suc src) (n - 1) else Some m1)"
  by pat_completeness auto
termination by (relation "measure (\<lambda>(m, d, s, n). length m - s)") (auto simp: Let_def)

definition strcat :: "mem \<Rightarrow> nat \<Rightarrow> nat \<Rightarrow> mem option" where
  "strcat m dest src = do { e \<leftarrow> strlen_loop m dest; strcpy_loop m e src }"

function strncat_loop :: "mem \<Rightarrow> nat \<Rightarrow> nat \<Rightarrow> int \<Rightarrow> (mem \<times> nat) option" where
  "strncat_loop m dst src n =
     (if n = 0 then Some (m, dst)
      else if \<not> (src < length m \<and> dst < length m) then None
      else let c = m ! src; m1 = m[dst := c]
           in if c \<noteq> 0 then strncat_loop m1 (Suc dst) (Suc src) (n - 1) else Some (m1, Suc dst))"
  by pat_completeness auto
termination by (relation "measure (\<lambda>(m, d, s, n). length m - s)") (auto simp: Let_def)

definition strncat :: "mem \<Rightarrow> nat \<Rightarrow> nat \<Rightarrow> int \<Rightarrow> mem option" where
  "strncat m dst src n = do {
     e \<leftarrow> strlen_loop m dst;
     (m1, d) \<leftarrow> strncat_loop m e src n;
     wr m1 d 0 }"

function strmet_loop :: "mem \<Rightarrow> nat \<Rightarrow> nat \<Rightarrow> u8 \<Rightarrow> (mem \<times> nat \<times> nat) option" where
  "strmet_loop m p buf ch =
     (if \<not> p < length m then None
      else if m ! p \<noteq> 0 \<and> m ! p \<noteq> ch then
        (if buf < length m then strmet_loop (m[buf := m ! p]) (Suc p) (Suc buf) ch else None)
      else Some (m, p, buf))"
  by pat_completeness auto
termination by (relation "measure (\<lambda>(m, p, b, c). length m - p)") auto

definition strmet :: "mem \<Rightarrow> nat \<Rightarrow> nat \<Rightarrow> u8 \<Rightarrow> (nat \<times> mem) option" where
  "strmet m src buf ch = do {
     (m1, p, b) \<leftarrow> strmet_loop m src buf ch;
     m2 \<leftarrow> wr m1 b 0;
     Some (p - src, m2) }"

fun memset :: "mem \<Rightarrow> nat \<Rightarrow> u8 \<Rightarrow> nat \<Rightarrow> mem option" where
  "memset m s v 0 = Some m"
| "memset m s v (Suc n) = do { m1 \<leftarrow> wr m s v; memset m1 (Suc s) v n }"

text \<open>Multi-byte stores are little endian.\<close>

fun memset16 :: "mem \<Rightarrow> nat \<Rightarrow> u16 \<Rightarrow> nat \<Rightarrow> mem option" where
  "memset16 m s v 0 = Some m"
| "memset16 m s v (Suc n) = do {
     m1 \<leftarrow> wr m s (ucast v);
     m2 \<leftarrow> wr m1 (s + 1) (ucast (drop_bit 8 v));
     memset16 m2 (s + 2) v n }"

fun memset32 :: "mem \<Rightarrow> nat \<Rightarrow> u32 \<Rightarrow> nat \<Rightarrow> mem option" where
  "memset32 m s v 0 = Some m"
| "memset32 m s v (Suc n) = do {
     m1 \<leftarrow> wr m s (ucast v);
     m2 \<leftarrow> wr m1 (s + 1) (ucast (drop_bit 8 v));
     m3 \<leftarrow> wr m2 (s + 2) (ucast (drop_bit 16 v));
     m4 \<leftarrow> wr m3 (s + 3) (ucast (drop_bit 24 v));
     memset32 m4 (s + 4) v n }"

fun memcpy :: "mem \<Rightarrow> nat \<Rightarrow> nat \<Rightarrow> nat \<Rightarrow> mem option" where
  "memcpy m dst src 0 = Some m"
| "memcpy m dst src (Suc n) = do {
     c \<leftarrow> rd m src;
     m1 \<leftarrow> wr m dst c;
     memcpy m1 (Suc dst) (Suc src) n }"

fun memcmp_loop :: "mem \<Rightarrow> nat \<Rightarrow> nat \<Rightarrow> nat \<Rightarrow> int option" where
  "memcmp_loop m p1 p2 0 = Some 0"
| "memcmp_loop m p1 p2 (Suc n) = do {
     a \<leftarrow> rd m p1;
     b \<leftarrow> rd m p2;
     if a \<noteq> b then Some (sint a - sint b) else memcmp_loop m (Suc p1) (Suc p2) n }"

definition memcmp :: "mem \<Rightarrow> nat \<Rightarrow> nat \<Rightarrow> int \<Rightarrow> int option" where
  "memcmp m s1 s2 n = memcmp_loop m s1 s2 (nat n)"

text \<open>The downward loop of \<^verbatim>\<open>memmove\<close>: \<open>n\<close> bytes are left to copy, the last of them first.\<close>

fun memmove_down :: "mem \<Rightarrow> nat \<Rightarrow> nat \<Rightarrow> nat \<Rightarrow> mem option" where
  "memmove_down m dst src 0 = Some m"
| "memmove_down m dst src (Suc n) = do {
     c \<leftarrow> rd m (src + n);
     m1 \<leftarrow> wr m (dst + n) c;
     memmove_down m1 dst src n }"

definition memmove :: "mem \<Rightarrow> nat \<Rightarrow> nat \<Rightarrow> nat \<Rightarrow> mem option" where
  "memmove m dst src n =
     (if dst \<le> src \<or> dst \<ge> src + n then memcpy m dst src n else memmove_down m dst src n)"

section \<open>Numbers\<close>

text \<open>C's \<^verbatim>\<open>/\<close> and \<^verbatim>\<open>%\<close> truncate; dividing by 0 traps. The result is the advanced pointer.\<close>

partial_function (option) itoa :: "mem \<Rightarrow> nat \<Rightarrow> int \<Rightarrow> int \<Rightarrow> (nat \<times> mem) option" where
  "itoa m ps val base =
     (if base = 0 then None
      else Option.bind (if val sdiv base \<noteq> 0 then itoa m ps (val sdiv base) base else Some (ps, m))
        (\<lambda>(p, m1). let d = val smod base in
           Option.bind (wr m1 p (word_of_int (if d < 10 then d + 48 else d - 10 + 65)))
             (\<lambda>m2. Some (Suc p, m2))))"

function skip_blanks :: "mem \<Rightarrow> nat \<Rightarrow> nat option" where
  "skip_blanks m p = (if \<not> p < length m then None else if m ! p = 32 then skip_blanks m (Suc p) else Some p)"
  by pat_completeness auto
termination by (relation "measure (\<lambda>(m, p). length m - p)") auto

definition is_dec :: "u8 \<Rightarrow> bool" where
  "is_dec c \<longleftrightarrow> \<not> (sint c < 48 \<or> sint c > 57)"

function atoi_loop :: "mem \<Rightarrow> nat \<Rightarrow> u32 \<Rightarrow> u32 option" where
  "atoi_loop m p s =
     (if \<not> p < length m then None
      else if is_dec (m ! p) then atoi_loop m (Suc p) (s * 10 + scast (m ! p) - 48)
      else Some s)"
  by pat_completeness auto
termination by (relation "measure (\<lambda>(m, p, s). length m - p)") auto

definition atoi :: "mem \<Rightarrow> nat \<Rightarrow> int option" where
  "atoi m src = do {
     p \<leftarrow> skip_blanks m src;
     let c = m ! p;
     if c = 43 \<or> c = 45 then do {
       s \<leftarrow> atoi_loop m (Suc p) 0;
       Some (sint (s * (if c = 45 then -1 else 1))) }
     else if \<not> is_dec c then Some 2147483647
     else do { s \<leftarrow> atoi_loop m p 0; Some (sint s) } }"

text \<open>\<^verbatim>\<open>itoa16_align\<close>: the eight hexadecimal digits, most significant first.\<close>

fun hex_loop :: "mem \<Rightarrow> nat \<Rightarrow> u32 \<Rightarrow> nat \<Rightarrow> (nat \<times> mem) option" where
  "hex_loop m p num 0 = Some (p, m)"
| "hex_loop m p num (Suc k) = do {
     let ch = (ucast (drop_bit (4 * k) num AND 15) :: u8) + 48;
     m1 \<leftarrow> wr m p (if ch > 57 then ch + 7 else ch);
     hex_loop m1 (Suc p) num k }"

definition itoa16_align :: "mem \<Rightarrow> nat \<Rightarrow> u32 \<Rightarrow> mem option" where
  "itoa16_align m str num = do {
     (p, m1) \<leftarrow> (if num = 0 then do { m1 \<leftarrow> wr m str 48; Some (Suc str, m1) } else hex_loop m str num 8);
     wr m1 p 0 }"

section \<open>Duplicates and string objects\<close>

text \<open>\<open>alloc\<close> is the pointer \<^verbatim>\<open>mem_alloc\<close> returns, if any.\<close>

definition strdup :: "nat option \<Rightarrow> mem \<Rightarrow> nat \<Rightarrow> (nat option \<times> mem) option" where
  "strdup alloc m s = do {
     l \<leftarrow> strlen m s;
     case alloc of
       None \<Rightarrow> Some (None, m)
     | Some p \<Rightarrow> do { m1 \<leftarrow> memcpy m p s (unat (l + 1)); Some (Some p, m1) } }"

definition strndup :: "nat option \<Rightarrow> mem \<Rightarrow> nat \<Rightarrow> u32 \<Rightarrow> (nat option \<times> mem) option" where
  "strndup alloc m s n = do {
     l0 \<leftarrow> strlen m s;
     let l = (if l0 > n then n else l0);
     case alloc of
       None \<Rightarrow> Some (None, m)
     | Some p \<Rightarrow> do {
         m1 \<leftarrow> memcpy m p s (unat l);
         m2 \<leftarrow> wr m1 (p + unat l) 0;
         Some (Some p, m2) } }"

record string_t =
  str_length :: u32
  str_max_length :: u32
  str_text :: "nat option"

abbreviation (input) STRING_MAX_LEN :: u32 where "STRING_MAX_LEN \<equiv> 256"

definition string_init :: "string_t" where
  "string_init = \<lparr>str_length = 0, str_max_length = STRING_MAX_LEN, str_text = None\<rparr>"

definition string_new :: "nat option \<Rightarrow> mem \<Rightarrow> string_t \<Rightarrow> nat \<Rightarrow> u32 \<Rightarrow> (bool \<times> string_t \<times> mem) option" where
  "string_new alloc m st text maxlen =
     (if maxlen < 1 then Some (False, st, m)
      else case alloc of
        None \<Rightarrow> Some (False, st\<lparr>str_text := None\<rparr>, m)
      | Some p \<Rightarrow> do {
          let mx = (if maxlen \<ge> STRING_MAX_LEN then STRING_MAX_LEN - 1 else maxlen);
          l0 \<leftarrow> strlen m text;
          let l = (if l0 > mx then mx else l0);
          m1 \<leftarrow> memset m p 0 (unat mx);
          m2 \<leftarrow> memcpy m1 p text (unat l);
          m3 \<leftarrow> wr m2 (p + unat l) 0;
          Some (True, \<lparr>str_length = l, str_max_length = mx, str_text = Some p\<rparr>, m3) })"

definition string_del :: "string_t \<Rightarrow> string_t" where
  "string_del st = \<lparr>str_length = 0, str_max_length = STRING_MAX_LEN, str_text = None\<rparr>"

definition string_copy :: "mem \<Rightarrow> string_t \<Rightarrow> nat \<Rightarrow> (string_t \<times> mem) option" where
  "string_copy m st text = do {
     l0 \<leftarrow> strlen m text;
     let l = (if l0 > str_max_length st then str_max_length st else l0);
     p \<leftarrow> str_text st;
     m1 \<leftarrow> memcpy m p text (unat l);
     m2 \<leftarrow> wr m1 (p + unat l) 0;
     Some (st\<lparr>str_length := l\<rparr>, m2) }"

definition string_empty :: "mem \<Rightarrow> string_t \<Rightarrow> mem option" where
  "string_empty m st = do { p \<leftarrow> str_text st; memset m p 0 (unat (str_max_length st)) }"


declare strlen_loop.simps [simp del] strncmp_loop.simps [simp del] strcmp.simps [simp del]
  strrchr_loop.simps [simp del] strpos_loop.simps [simp del] strchr.simps [simp del]
  accept_loop.simps [simp del] strspn_loop.simps [simp del] strpbrk.simps [simp del]
  strcpy_loop.simps [simp del] strncpy.simps [simp del] strncat_loop.simps [simp del]
  strmet_loop.simps [simp del] skip_blanks.simps [simp del] atoi_loop.simps [simp del]

section \<open>Copying: lemmas\<close>

text \<open>\<open>copied\<close>: the \<open>n\<close> bytes at \<open>dst\<close> are the old ones at \<open>src\<close>, all others are unchanged.\<close>

definition copied :: "mem \<Rightarrow> nat \<Rightarrow> nat \<Rightarrow> nat \<Rightarrow> mem \<Rightarrow> bool" where
  "copied m dst src n m' \<longleftrightarrow> length m' = length m \<and> (\<forall>i < n. m' ! (dst + i) = m ! (src + i))
     \<and> (\<forall>k < length m. k < dst \<or> dst + n \<le> k \<longrightarrow> m' ! k = m ! k)"

lemma memcpy_up:
  assumes "src + n \<le> length m" "dst + n \<le> length m" "dst \<le> src \<or> src + n \<le> dst"
  shows "\<exists>m'. memcpy m dst src n = Some m' \<and> copied m dst src n m'"
  using assms
proof (induction n arbitrary: m dst src)
  case 0
  then show ?case by (simp add: copied_def)
next
  case (Suc n)
  let ?m1 = "m[dst := m ! src]"
  from Suc.prems obtain m' where m': "memcpy ?m1 (Suc dst) (Suc src) n = Some m'"
    "copied ?m1 (Suc dst) (Suc src) n m'" using Suc.IH[of "Suc src" ?m1 "Suc dst"] by auto
  have "m' ! (dst + i) = m ! (src + i)" if "i < Suc n" for i
  proof (cases i)
    case 0
    with m'(2) Suc.prems show ?thesis by (auto simp: copied_def)
  next
    case (Suc j)
    with that m'(2) have "m' ! (dst + i) = ?m1 ! (src + i)" by (auto simp: copied_def)
    moreover have "dst \<noteq> src + i" using Suc that Suc.prems by auto
    ultimately show ?thesis by simp
  qed
  moreover have "m' ! k = m ! k" if "k < length m" "k < dst \<or> dst + Suc n \<le> k" for k
  proof -
    have "m' ! k = ?m1 ! k" using m'(2) that by (auto simp: copied_def)
    then show ?thesis using that by auto
  qed
  ultimately have "copied m dst src (Suc n) m'" using m'(2) by (auto simp: copied_def)
  with m'(1) Suc.prems show ?case by (simp add: rd_def wr_def)
qed

lemma memmove_down_ok:
  assumes "src + n \<le> length m" "dst + n \<le> length m" "src \<le> dst"
  shows "\<exists>m'. memmove_down m dst src n = Some m' \<and> copied m dst src n m'"
  using assms
proof (induction n arbitrary: m)
  case 0
  then show ?case by (simp add: copied_def)
next
  case (Suc n)
  let ?m1 = "m[dst + n := m ! (src + n)]"
  from Suc.prems obtain m' where m': "memmove_down ?m1 dst src n = Some m'" "copied ?m1 dst src n m'"
    using Suc.IH[of ?m1] by auto
  have "m' ! (dst + i) = m ! (src + i)" if "i < Suc n" for i
    using m'(2) that Suc.prems by (cases "i = n") (auto simp: copied_def)
  moreover have "m' ! k = m ! k" if "k < length m" "k < dst \<or> dst + Suc n \<le> k" for k
    using m'(2) that by (auto simp: copied_def)
  ultimately have "copied m dst src (Suc n) m'" using m'(2) by (auto simp: copied_def)
  with m'(1) Suc.prems show ?case by (simp add: rd_def wr_def)
qed

lemma strlen_loopD:
  assumes "strlen_loop m p = Some e"
  shows "p \<le> e \<and> e < length m \<and> m ! e = 0 \<and> (\<forall>i. p \<le> i \<and> i < e \<longrightarrow> m ! i \<noteq> 0)"
  using assms
proof (induction m p rule: strlen_loop.induct)
  case (1 m p)
  show ?case
  proof (cases "p < length m \<and> m ! p \<noteq> 0")
    case True
    with 1(2) have "strlen_loop m (Suc p) = Some e" by (simp add: strlen_loop.simps[of m p])
    with 1(1) True have "Suc p \<le> e \<and> e < length m \<and> m ! e = 0 \<and> (\<forall>i. Suc p \<le> i \<and> i < e \<longrightarrow> m ! i \<noteq> 0)" by auto
    with True show ?thesis by (metis Suc_leD Suc_leI le_neq_implies_less)
  next
    case False
    with 1(2) show ?thesis by (auto simp: strlen_loop.simps[of m p] split: if_splits)
  qed
qed

text \<open>Both string copies are a byte copy of a known length when the regions do not overlap.\<close>

lemma strcpy_loop_memcpy:
  assumes "src + n < length m" "dst + n < length m" "dst + n < src \<or> src + n < dst"
    and "m ! (src + n) = 0" "\<forall>i < n. m ! (src + i) \<noteq> 0"
  shows "strcpy_loop m dst src = memcpy m dst src (Suc n)"
  using assms
proof (induction n arbitrary: m dst src)
  case 0
  then show ?case by (simp add: strcpy_loop.simps[of m dst src] rd_def wr_def)
next
  case (Suc n)
  let ?m1 = "m[dst := m ! src]"
  have "m ! src \<noteq> 0" using Suc.prems(5) by force
  moreover have "strcpy_loop ?m1 (Suc dst) (Suc src) = memcpy ?m1 (Suc dst) (Suc src) (Suc n)"
    using Suc.prems by (intro Suc.IH) (auto simp: nth_list_update)
  ultimately show ?case
    using Suc.prems by (simp add: strcpy_loop.simps[of m dst src] rd_def wr_def Let_def)
qed

lemma strncpy_memcpy:
  assumes "src + n < length m" "dst + n < length m" "dst + n < src \<or> src + n < dst"
    and "\<forall>i < n. m ! (src + i) \<noteq> 0"
  shows "strncpy m dst src (int n) = memcpy m dst src (Suc n)"
  using assms
proof (induction n arbitrary: m dst src)
  case 0
  then show ?case by (simp add: strncpy.simps[of m dst src 0] rd_def wr_def Let_def)
next
  case (Suc n)
  let ?m1 = "m[dst := m ! src]"
  have "m ! src \<noteq> 0" using Suc.prems(4) by force
  moreover have "strncpy ?m1 (Suc dst) (Suc src) (int n) = memcpy ?m1 (Suc dst) (Suc src) (Suc n)"
    using Suc.prems by (intro Suc.IH) (auto simp: nth_list_update)
  ultimately show ?case
    using Suc.prems by (simp add: strncpy.simps[of m dst src "1 + int n"] rd_def wr_def Let_def)
qed

section \<open>Numbers: lemmas\<close>

fun dec_digits :: "nat \<Rightarrow> u8 list" where
  "dec_digits n = (if n < 10 then [of_nat (48 + n)] else dec_digits (n div 10) @ [of_nat (48 + n mod 10)])"

declare dec_digits.simps [simp del]

lemma sdiv_smod_nat: "int n sdiv 10 = int (n div 10)" "int n smod 10 = int (n mod 10)"
  by (simp_all add: signed_divide_int_def signed_modulo_int_def zdiv_int zmod_int sgn_if)

lemma mem_store_append:
  "Option.bind (mem_store p xs m) (\<lambda>m1. wr m1 (p + length xs) c) = mem_store p (xs @ [c]) m"
proof (cases "p + length xs < length m")
  case True
  then have "drop (p + length xs) m = m ! (p + length xs) # drop (Suc (p + length xs)) m"
    by (rule Cons_nth_drop_Suc[symmetric])
  with True show ?thesis by (simp add: mem_store_def wr_def list_update_append)
qed (auto simp: mem_store_def wr_def)

lemma itoa_dec:
  "itoa m p (int n) 10 = Option.bind (mem_store p (dec_digits n) m) (\<lambda>m'. Some (p + length (dec_digits n), m'))"
proof (induction n rule: less_induct)
  case (less n)
  have d: "(if int (n mod 10) < 10 then int (n mod 10) + 48 else int (n mod 10) - 10 + 65) = int (48 + n mod 10)"
    by simp
  show ?case
  proof (cases "n < 10")
    case True
    then have "dec_digits n = [of_nat (48 + n)]" by (simp add: dec_digits.simps[of n])
    with True show ?thesis
      by (subst itoa.simps) (auto simp: sdiv_smod_nat Let_def mem_store_def wr_def upd_conv_take_nth_drop add.commute)
  next
    case False
    then have ds: "dec_digits n = dec_digits (n div 10) @ [of_nat (48 + n mod 10)]"
      by (subst dec_digits.simps) simp
    have IH: "itoa m p (int (n div 10)) 10 =
      Option.bind (mem_store p (dec_digits (n div 10)) m) (\<lambda>m'. Some (p + length (dec_digits (n div 10)), m'))"
      using False by (intro less.IH) simp
    from False have nz: "int (n div 10) \<noteq> 0" by simp
    show ?thesis
      apply (subst itoa.simps)
      unfolding sdiv_smod_nat Let_def d ds mem_store_append[symmetric]
      using nz by (simp add: IH Option.bind_assoc)
  qed
qed

lemma digit_char:
  assumes "k < 10"
  shows "is_dec (of_nat (48 + k))" "(scast (of_nat (48 + k) :: u8) :: u32) - 48 = of_nat k"
proof -
  have "sint (of_nat (48 + k) :: u8) = signed_take_bit 7 (int (48 + k))" by (simp only: signed_of_nat) simp
  also have "\<dots> = int (48 + k)" using assms by (intro signed_take_bit_int_eq_self) simp_all
  finally have "sint (of_nat (48 + k) :: u8) = int (48 + k)" .
  then show "is_dec (of_nat (48 + k))" "(scast (of_nat (48 + k) :: u8) :: u32) - 48 = of_nat k"
    using assms by (simp_all add: is_dec_def scast_eq)
qed

lemma dec_digits_is_dec: "c \<in> set (dec_digits n) \<Longrightarrow> is_dec c"
proof (induction n rule: dec_digits.induct)
  case (1 n)
  then show ?case using digit_char(1)[of n] digit_char(1)[of "n mod 10"]
    by (subst (asm) (2) dec_digits.simps) (auto split: if_splits)
qed

definition dec_value :: "u32 \<Rightarrow> u8 list \<Rightarrow> u32" where
  "dec_value = foldl (\<lambda>s c. s * 10 + scast c - 48)"

lemma dec_value_digits: "dec_value 0 (dec_digits n) = of_nat n"
proof (induction n rule: dec_digits.induct)
  case (1 n)
  show ?case
  proof (cases "n < 10")
    case True
    then show ?thesis using digit_char(2)[of n] by (subst dec_digits.simps) (simp add: dec_value_def)
  next
    case False
    then have "dec_value 0 (dec_digits n) = of_nat (n div 10) * 10 + (scast (of_nat (48 + n mod 10) :: u8) - 48)"
      using 1 by (subst dec_digits.simps) (simp add: dec_value_def)
    also have "\<dots> = of_nat (n div 10 * 10 + n mod 10)" 
      unfolding digit_char(2)[OF mod_less_divisor[of 10 n, OF zero_less_numeral]]
      by (simp only: of_nat_add of_nat_mult of_nat_numeral)
    finally show ?thesis by (simp only: div_mult_mod_eq)
  qed
qed

lemma atoi_loop_digits:
  assumes "drop p m = ds @ c # rest" "\<forall>d \<in> set ds. is_dec d" "\<not> is_dec c"
  shows "atoi_loop m p s = Some (dec_value s ds)"
  using assms
proof (induction ds arbitrary: p s)
  case Nil
  then have "p < length m" "m ! p = c" by (metis append_Nil drop_eq_Nil leI list.distinct(1), metis append_Nil nth_via_drop)
  with Nil.prems(3) show ?case by (simp add: atoi_loop.simps[of m p] dec_value_def)
next
  case (Cons d ds)
  then have "p < length m" "m ! p = d" "drop (Suc p) m = ds @ c # rest"
    by (metis append_Cons drop_eq_Nil leI list.distinct(1), metis append_Cons nth_via_drop,
        metis append_Cons drop_Suc list.sel(3) tl_drop)
  with Cons show ?case by (simp add: atoi_loop.simps[of m p] dec_value_def)
qed

lemma dec_digits_Cons: "\<exists>c cs. dec_digits n = c # cs"
  by (cases "dec_digits n") (subst (asm) dec_digits.simps, auto split: if_splits)

section \<open>Properties\<close>

text \<open>C35: \<^verbatim>\<open>memmove\<close> copies correctly whatever the overlap of the two regions: inside the memory it
  does not fault, the destination holds what the source held before the call, and no other
  byte changes.\<close>

theorem memmove_correct:
  assumes "src + n \<le> length m" and "dst + n \<le> length m"
  shows "\<exists>m'. memmove m dst src n = Some m' \<and> copied m dst src n m'"
  using memcpy_up[OF assms] memmove_down_ok[OF assms] by (auto simp: memmove_def)

theorem memmove_correct_witness: "memmove [1, 2, 3, 4] 1 0 3 = Some [1, 1, 2, 3] \<and> copied [1, 2, 3, 4] 1 0 3 [1, 1, 2, 3]"
proof -
  have "memmove [1, 2, 3, 4] 1 0 3 = Some [1, 1, 2, 3]" by (simp add: memmove_def numeral_3_eq_3 rd_def wr_def)
  then show ?thesis using memmove_correct[of 0 3 "[1, 2, 3, 4]" 1] by simp
qed

text \<open>\<^verbatim>\<open>strcpy\<close> of a string that ends at \<open>e\<close> to a region that does not overlap it copies the
  string with its terminator and changes nothing else.\<close>

theorem strcpy_copies:
  assumes "strlen_loop m src = Some e" and "dst + (e - src) < length m" and "dst + (e - src) < src \<or> e < dst"
  shows "\<exists>m'. strcpy m dst src = Some m' \<and> copied m dst src (Suc (e - src)) m'"
proof -
  from strlen_loopD[OF assms(1)] have e: "src \<le> e" "e < length m" "m ! e = 0"
    "\<forall>i. src \<le> i \<and> i < e \<longrightarrow> m ! i \<noteq> 0" by auto
  then have "strcpy m dst src = memcpy m dst src (Suc (e - src))"
    unfolding strcpy_def using assms(2,3) by (intro strcpy_loop_memcpy) auto
  moreover have "\<exists>m'. memcpy m dst src (Suc (e - src)) = Some m' \<and> copied m dst src (Suc (e - src)) m'"
    using assms(2,3) e by (intro memcpy_up) auto
  ultimately show ?thesis by simp
qed

theorem strcpy_copies_witness: "\<exists>m'. strcpy [9, 9, 9, 65, 66, 0] 0 3 = Some m' \<and> copied [9, 9, 9, 65, 66, 0] 0 3 3 m'"
proof -
  have "strlen_loop [9, 9, 9, 65, 66, 0] 3 = Some 5" by (simp add: strlen_loop.simps)
  from strcpy_copies[OF this, of 0] show ?thesis by (simp add: numeral_3_eq_3)
qed

text \<open>C38: \<^verbatim>\<open>strncpy\<close> writes up to \<open>n + 1\<close> bytes: when the source has no terminator in its first
  \<open>n\<close> characters, the character at \<open>dst + n\<close> is overwritten as well.\<close>

theorem strncpy_writes_past:
  assumes "src + n < length m" and "dst + n < length m" and "dst + n < src \<or> src + n < dst"
    and "\<forall>i < n. m ! (src + i) \<noteq> 0"
  shows "\<exists>m'. strncpy m dst src (int n) = Some m' \<and> copied m dst src (Suc n) m' \<and> m' ! (dst + n) = m ! (src + n)"
proof -
  obtain m' where "strncpy m dst src (int n) = Some m'" "copied m dst src (Suc n) m'"
    using strncpy_memcpy[OF assms] memcpy_up[of src "Suc n" m dst] assms by auto
  then show ?thesis by (auto simp: copied_def)
qed

theorem strncpy_writes_past_witness: "\<exists>m'. strncpy [1, 2, 3, 65, 66, 67] 0 3 2 = Some m' \<and> m' ! 2 = 67"
proof -
  have "\<forall>i < 2. [1, 2, 3, 65, 66, 67 :: u8] ! (3 + i) \<noteq> 0" by (auto simp: less_2_cases_iff)
  from strncpy_writes_past[OF _ _ _ this, of 0] show ?thesis by (auto simp: numeral_2_eq_2)
qed

text \<open>C36: \<^verbatim>\<open>itoa\<close> in base 10 followed by \<^verbatim>\<open>atoi\<close> gives the number back, for every non-negative 32-bit
  number and a buffer with room for its digits and the terminator.\<close>

theorem atoi_itoa:
  assumes "n < 2 ^ 31" and "p + length (dec_digits n) < length m"
  shows "\<exists>q m1 m2. itoa m p (int n) 10 = Some (q, m1) \<and> wr m1 q 0 = Some m2 \<and> atoi m2 p = Some (int n)"
proof -
  let ?ds = "dec_digits n"
  obtain m1 where m1: "mem_store p ?ds m = Some m1" using assms(2) by (auto simp: mem_store_def)
  then have it: "itoa m p (int n) 10 = Some (p + length ?ds, m1)" by (simp add: itoa_dec)
  obtain m2 where m2: "mem_store p (?ds @ [0]) m = Some m2" using assms(2) by (auto simp: mem_store_def)
  with m1 have w: "wr m1 (p + length ?ds) 0 = Some m2" using mem_store_append[of p ?ds m 0] by simp
  have dr: "drop p m2 = ?ds @ 0 # drop (p + length ?ds + 1) m" using m2 by (auto simp: mem_store_def min_def split: if_splits)
  obtain c cs where c: "?ds = c # cs" using dec_digits_Cons by blast
  then have dc: "is_dec c" using dec_digits_is_dec[of c n] by simp
  have mp: "p < length m2" "m2 ! p = c" using dr c
    by (metis append_Cons drop_eq_Nil leI list.distinct(1), metis append_Cons nth_via_drop)
  have nz: "c \<noteq> 32" "c \<noteq> 43" "c \<noteq> 45" using dc by (auto simp: is_dec_def)
  have "skip_blanks m2 p = Some p" using mp nz by (simp add: skip_blanks.simps)
  moreover have "atoi_loop m2 p 0 = Some (of_nat n)"
    using atoi_loop_digits[OF dr, of 0] dec_digits_is_dec dec_value_digits by (simp add: is_dec_def)
  moreover have "sint (of_nat n :: u32) = int n"
    using assms(1) by (subst sint_small) (simp_all add: unat_of_nat)
  ultimately have "atoi m2 p = Some (int n)" using mp nz dc by (simp add: atoi_def Let_def)
  with it w show ?thesis by blast
qed

theorem atoi_itoa_witness:
  "\<exists>q m1 m2. itoa [7, 7, 7, 7] 0 (int 42) 10 = Some (q, m1) \<and> wr m1 q 0 = Some m2 \<and> atoi m2 0 = Some (int 42)"
proof -
  have "dec_digits 42 = [52, 50]" by (simp add: dec_digits.simps)
  then show ?thesis by (intro atoi_itoa) simp_all
qed

end
