(* ===== verification/Ipc_Table.thy ===== *)
theory Ipc_Table
  imports OS_Prelude
begin

text \<open>
  The tables of named objects behind the semaphore, message-queue and shared-memory system
  calls. The three files \<^verbatim>\<open>src/ipc/sem.c\<close>, \<^verbatim>\<open>src/ipc/msgqueue.c\<close> and \<^verbatim>\<open>src/ipc/sharemem.c\<close> search and
  fill their tables in the same way; the searches are written here once, on records that
  start with the identifier and the 24 bytes of the name. An entry whose name starts with
  a zero byte is free. The contract the three tables share, and what follows from it, is
  the locale \<open>ipc_objects\<close>.

  A global semaphore serialises the calls on a table; each call on the table is therefore
  one atomic step here.
\<close>

section \<open>Named entries\<close>

abbreviation (input) IPC_CREAT :: u32 where "IPC_CREAT \<equiv> 1"
abbreviation (input) IPC_EXCL :: u32 where "IPC_EXCL \<equiv> 2"
abbreviation (input) IPC_NOWAIT :: u32 where "IPC_NOWAIT \<equiv> 4"
abbreviation (input) IPC_NOERROR :: u32 where "IPC_NOERROR \<equiv> 8"
abbreviation (input) IPC_EXCEPT :: u32 where "IPC_EXCEPT \<equiv> 16"
abbreviation (input) IPC_READER :: u32 where "IPC_READER \<equiv> 32"
abbreviation (input) IPC_WRITER :: u32 where "IPC_WRITER \<equiv> 64"
abbreviation (input) IPC_RND :: u32 where "IPC_RND \<equiv> 256"
abbreviation (input) IPC_REMAP :: u32 where "IPC_REMAP \<equiv> 512"

definition flag :: "u32 \<Rightarrow> u32 \<Rightarrow> bool" where
  "flag flags f \<longleftrightarrow> flags AND f \<noteq> 0"

record ipc_ent =
  ent_id :: u16
  ent_name :: "u8 list"

text \<open>The string in a buffer; \<^verbatim>\<open>!strcmp(a, b)\<close> holds when the two are equal.\<close>

definition cstr :: "u8 list \<Rightarrow> u8 list" where
  "cstr xs = takeWhile (\<lambda>c. c \<noteq> 0) xs"

definition in_use :: "'a ipc_ent_scheme \<Rightarrow> bool" where
  "in_use e \<longleftrightarrow> cstr (ent_name e) \<noteq> []"

definition find_by_name :: "u8 list \<Rightarrow> 'a ipc_ent_scheme list \<Rightarrow> nat option" where
  "find_by_name name tbl = scan_index (\<lambda>e. in_use e \<and> cstr (ent_name e) = cstr name) tbl"

definition find_by_id :: "int \<Rightarrow> 'a ipc_ent_scheme list \<Rightarrow> nat option" where
  "find_by_id k tbl = scan_index (\<lambda>e. uint (ent_id e) = k \<and> in_use e) tbl"

definition find_free :: "'a ipc_ent_scheme list \<Rightarrow> nat option" where
  "find_free tbl = scan_index (\<lambda>e. \<not> in_use e) tbl"

text \<open>\<^verbatim>\<open>memcpy\<close> of 24 bytes of the argument, then a zero in the last one.\<close>

definition name_field :: "u8 list \<Rightarrow> u8 list" where
  "name_field name = take 23 name @ [0]"

definition name_clear :: "u8 list" where
  "name_clear = replicate 24 0"

section \<open>The table as a map from names to identifiers\<close>

definition tbl_inv :: "'a ipc_ent_scheme list \<Rightarrow> bool" where
  "tbl_inv tbl \<longleftrightarrow> distinct (map ent_id tbl)
     \<and> (\<forall>i < length tbl. \<forall>j < length tbl. in_use (tbl ! i) \<and> in_use (tbl ! j)
          \<and> cstr (ent_name (tbl ! i)) = cstr (ent_name (tbl ! j)) \<longrightarrow> i = j)"

definition tbl_map :: "'a ipc_ent_scheme list \<Rightarrow> u8 list \<Rightarrow> int option" where
  "tbl_map tbl n = map_option (\<lambda>i. uint (ent_id (tbl ! i)))
     (scan_index (\<lambda>e. in_use e \<and> cstr (ent_name e) = n) tbl)"

definition name_ok :: "u8 list \<Rightarrow> bool" where
  "name_ok name \<longleftrightarrow> length name \<ge> 24 \<and> cstr name \<noteq> [] \<and> length (cstr name) < 24"

lemma cstr_name_field:
  assumes "name_ok name"
  shows "cstr (name_field name) = cstr name"
proof -
  let ?l = "length (cstr name)"
  have l: "?l \<le> 23" "?l < length name" using assms by (auto simp: name_ok_def)
  then have z: "name ! ?l = 0" using nth_length_takeWhile[of "\<lambda>c. c \<noteq> 0" name] by (simp add: cstr_def)
  have "cstr name = take ?l name" unfolding cstr_def by (rule takeWhile_eq_take)
  moreover have "\<forall>i < ?l. name ! i \<noteq> 0"
  proof (intro allI impI)
    fix i assume i: "i < ?l"
    then have "cstr name ! i \<in> set (cstr name)" by simp
    then have "cstr name ! i \<noteq> 0" unfolding cstr_def by (auto dest: set_takeWhileD)
    with i show "name ! i \<noteq> 0" by (simp add: cstr_def takeWhile_nth)
  qed
  ultimately show ?thesis
  proof -
    have "cstr (take 23 name @ [0]) = take ?l (take 23 name @ [0])"
      unfolding cstr_def
    proof (rule takeWhile_eq_take_P_nth)
      fix i assume "i < length (takeWhile (\<lambda>c. c \<noteq> 0) name)" "i < length (take 23 name @ [0])"
      then show "(take 23 name @ [0]) ! i \<noteq> 0"
        using \<open>\<forall>i < ?l. name ! i \<noteq> 0\<close> l by (simp add: nth_append cstr_def)
    next
      assume "length (takeWhile (\<lambda>c. c \<noteq> 0) name) < length (take 23 name @ [0])"
      show "\<not> (take 23 name @ [0]) ! length (takeWhile (\<lambda>c. c \<noteq> 0) name) \<noteq> 0"
        using z l by (auto simp: nth_append cstr_def)
    qed
    also have "\<dots> = take ?l name" using l by (simp add: min_def)
    finally show ?thesis using \<open>cstr name = take ?l name\<close> by (simp add: name_field_def)
  qed
qed

lemma name_clear_free [simp]: "cstr name_clear = []"
  by (simp add: cstr_def name_clear_def)

lemma tbl_map_Some:
  assumes "tbl_inv tbl"
  shows "tbl_map tbl n = Some k \<longleftrightarrow>
    (\<exists>i < length tbl. in_use (tbl ! i) \<and> cstr (ent_name (tbl ! i)) = n \<and> uint (ent_id (tbl ! i)) = k)" (is "?L \<longleftrightarrow> ?R")
proof
  assume ?L
  then show ?R by (auto simp: tbl_map_def dest!: scan_index_Some)
next
  assume ?R
  then obtain i where i: "i < length tbl" "in_use (tbl ! i)" "cstr (ent_name (tbl ! i)) = n" "uint (ent_id (tbl ! i)) = k"
    by blast
  have "scan_index (\<lambda>e. in_use e \<and> cstr (ent_name e) = n) tbl = Some i"
    unfolding scan_index_Some_iff
  proof (intro conjI allI impI i(1))
    fix j assume "j < i"
    then show "\<not> (in_use (tbl ! j) \<and> cstr (ent_name (tbl ! j)) = n)"
      using assms i unfolding tbl_inv_def by (metis less_irrefl order_less_trans)
  qed (use i in auto)
  with i(4) show ?L by (simp add: tbl_map_def)
qed

lemma find_by_name_map: "map_option (\<lambda>i. uint (ent_id (tbl ! i))) (find_by_name name tbl) = tbl_map tbl (cstr name)"
  by (simp add: find_by_name_def tbl_map_def)

lemma find_by_name_None: "find_by_name name tbl = None \<longleftrightarrow> tbl_map tbl (cstr name) = None"
  by (simp add: find_by_name_def tbl_map_def)

lemma find_by_id_iff:
  assumes "tbl_inv tbl"
  shows "find_by_id k tbl = Some i \<longleftrightarrow> i < length tbl \<and> in_use (tbl ! i) \<and> uint (ent_id (tbl ! i)) = k"
proof -
  have "j = i" if "i < length tbl" "j < length tbl" "uint (ent_id (tbl ! i)) = uint (ent_id (tbl ! j))" for j
    using assms that by (auto simp: tbl_inv_def distinct_conv_nth word_uint_eq_iff)
  then show ?thesis unfolding find_by_id_def scan_index_Some_iff by (auto, metis less_irrefl order_less_trans)
qed

text \<open>Filling a free entry adds a name, clearing a used one removes its name.\<close>

lemma tbl_fill:
  assumes inv: "tbl_inv tbl" and i: "find_free tbl = Some i" and new: "tbl_map tbl n = None"
    and e: "ent_id e = ent_id (tbl ! i)" "cstr (ent_name e) = n" "n \<noteq> []"
  shows "tbl_inv (tbl[i := e])" "tbl_map (tbl[i := e]) = (tbl_map tbl)(n \<mapsto> uint (ent_id (tbl ! i)))"
    "uint (ent_id (tbl ! i)) \<notin> ran (tbl_map tbl)"
proof -
  have il: "i < length tbl" "\<not> in_use (tbl ! i)" using scan_index_Some[of _ tbl i] i by (auto simp: find_free_def)
  have no: "\<not> (in_use (tbl ! j) \<and> cstr (ent_name (tbl ! j)) = n)" if "j < length tbl" for j
    using new tbl_map_Some[OF inv] that by (metis option.distinct(1))
  have ids: "map ent_id (tbl[i := e]) = map ent_id tbl" using e(1) il(1) by (metis list_update_id map_update nth_map)
  show inv': "tbl_inv (tbl[i := e])"
    unfolding tbl_inv_def ids using inv no e(2) il
    by (simp add: tbl_inv_def nth_list_update) (metis (no_types, lifting))
  show "tbl_map (tbl[i := e]) = (tbl_map tbl)(n \<mapsto> uint (ent_id (tbl ! i)))"
  proof (rule ext)
    fix x
    have ue: "in_use e" using e by (simp add: in_use_def)
    have "tbl_map (tbl[i := e]) x = Some k \<longleftrightarrow> ((tbl_map tbl)(n \<mapsto> uint (ent_id (tbl ! i)))) x = Some k" for k
    proof -
      have st: "in_use (tbl[i := e] ! j) \<and> cstr (ent_name (tbl[i := e] ! j)) = x \<and> uint (ent_id (tbl[i := e] ! j)) = k
        \<longleftrightarrow> j = i \<and> x = n \<and> uint (ent_id (tbl ! i)) = k \<or>
          x \<noteq> n \<and> in_use (tbl ! j) \<and> cstr (ent_name (tbl ! j)) = x \<and> uint (ent_id (tbl ! j)) = k"
        if "j < length tbl" for j
        using that il(2) e ue no[OF that] by (cases "j = i") auto
      show ?thesis
      proof (cases "x = n")
        case True
        then show ?thesis unfolding tbl_map_Some[OF inv'] using st il(1) by auto
      next
        case False
        then show ?thesis unfolding tbl_map_Some[OF inv'] using st tbl_map_Some[OF inv, of x k] by auto
      qed
    qed
    then show "tbl_map (tbl[i := e]) x = ((tbl_map tbl)(n \<mapsto> uint (ent_id (tbl ! i)))) x"
      by (metis option.exhaust)
  qed
  show "uint (ent_id (tbl ! i)) \<notin> ran (tbl_map tbl)"
  proof
    assume "uint (ent_id (tbl ! i)) \<in> ran (tbl_map tbl)"
    then obtain j where "j < length tbl" "in_use (tbl ! j)" "ent_id (tbl ! j) = ent_id (tbl ! i)"
      using tbl_map_Some[OF inv] by (auto simp: ran_def word_uint_eq_iff)
    with inv il show False by (auto simp: tbl_inv_def distinct_conv_nth)
  qed
qed

lemma tbl_clear:
  assumes inv: "tbl_inv tbl" and i: "i < length tbl" "in_use (tbl ! i)"
    and e: "ent_id e = ent_id (tbl ! i)" "\<not> in_use e"
  shows "tbl_inv (tbl[i := e])" "tbl_map (tbl[i := e]) = (tbl_map tbl)(cstr (ent_name (tbl ! i)) := None)"
proof -
  have ids: "map ent_id (tbl[i := e]) = map ent_id tbl" using e(1) i(1) by (metis list_update_id map_update nth_map)
  show inv': "tbl_inv (tbl[i := e])"
    unfolding tbl_inv_def ids using inv e(2) i by (auto simp: tbl_inv_def nth_list_update)
  show "tbl_map (tbl[i := e]) = (tbl_map tbl)(cstr (ent_name (tbl ! i)) := None)"
  proof (rule ext)
    fix x
    have u: "j = i" if "j < length tbl" "in_use (tbl ! j)" "cstr (ent_name (tbl ! j)) = cstr (ent_name (tbl ! i))" for j
      using inv i that by (auto simp: tbl_inv_def)
    have "tbl_map (tbl[i := e]) x = Some k \<longleftrightarrow> ((tbl_map tbl)(cstr (ent_name (tbl ! i)) := None)) x = Some k" for k
      unfolding tbl_map_Some[OF inv'] using tbl_map_Some[OF inv, of x k] i e(2) u
      by (cases "x = cstr (ent_name (tbl ! i))") (auto simp: nth_list_update, metis)
    then show "tbl_map (tbl[i := e]) x = ((tbl_map tbl)(cstr (ent_name (tbl ! i)) := None)) x"
      by (metis option.exhaust)
  qed
qed

lemma find_free_None: "find_free tbl = None \<longleftrightarrow> (\<forall>e \<in> set tbl. in_use e)"
  by (auto simp: find_free_def scan_index_None)

text \<open>The identifiers the three tables are initialised with.\<close>

lemma table_ids_distinct: "distinct (map (\<lambda>i. of_nat (1 + i + i * 2) :: u16) [0..<128])"
proof -
  have "inj_on (\<lambda>i. of_nat (1 + i + i * 2) :: u16) {0..<128}"
  proof (rule inj_onI)
    fix x y :: nat
    assume xy: "x \<in> {0..<128}" "y \<in> {0..<128}" "(of_nat (1 + x + x * 2) :: u16) = of_nat (1 + y + y * 2)"
    have "unat (of_nat (1 + z + z * 2) :: u16) = 1 + z + z * 2" if "z \<in> {0..<128}" for z
      using that by (simp only: unat_of_nat) simp
    from this[OF xy(1)] this[OF xy(2)] have "1 + x + x * 2 = 1 + y + y * 2" unfolding xy(3) by (rule trans[OF sym])
    then show "x = y" by simp
  qed
  then show ?thesis by (simp add: distinct_map)
qed

lemma empty_table_inv:
  assumes "map ent_id tbl = map (\<lambda>i. of_nat (1 + i + i * 2)) [0..<128]" "\<forall>e \<in> set tbl. \<not> in_use e"
  shows "tbl_inv tbl"
  unfolding tbl_inv_def assms(1) using assms(2) table_ids_distinct by auto


section \<open>The contract\<close>

text \<open>
  \<open>names t\<close> maps the names in use to identifiers. \<open>create\<close> is the \<^verbatim>\<open>_get\<close> call with
  \<^verbatim>\<open>IPC_CREAT\<close>, \<open>create_excl\<close> the one with \<^verbatim>\<open>IPC_CREAT | IPC_EXCL\<close>, \<open>remove\<close> the \<^verbatim>\<open>_put\<close> call of
  an object that is not in use any more; -1 is failure.
\<close>

locale ipc_objects =
  fixes inv :: "'t \<Rightarrow> bool"
    and names :: "'t \<Rightarrow> u8 list \<Rightarrow> int option"
    and create :: "u8 list \<Rightarrow> 't \<Rightarrow> int \<times> 't"
    and create_excl :: "u8 list \<Rightarrow> 't \<Rightarrow> int \<times> 't"
    and remove :: "int \<Rightarrow> 't \<Rightarrow> int \<times> 't"
  assumes ids_valid: "inv t \<Longrightarrow> names t n = Some i \<Longrightarrow> i \<ge> 0"
    and ids_inj: "inv t \<Longrightarrow> names t n = Some i \<Longrightarrow> names t n' = Some i \<Longrightarrow> n = n'"
    and create_old: "inv t \<Longrightarrow> name_ok nm \<Longrightarrow> names t (cstr nm) = Some i \<Longrightarrow> create nm t = (i, t)"
    and create_new: "inv t \<Longrightarrow> name_ok nm \<Longrightarrow> names t (cstr nm) = None \<Longrightarrow>
      create nm t = (-1, t) \<or> (\<exists>i t'. create nm t = (i, t') \<and> inv t' \<and> names t' = (names t)(cstr nm \<mapsto> i)
        \<and> i \<notin> ran (names t))"
    and excl_old: "inv t \<Longrightarrow> name_ok nm \<Longrightarrow> names t (cstr nm) = Some i \<Longrightarrow> create_excl nm t = (-1, t)"
    and excl_new: "inv t \<Longrightarrow> name_ok nm \<Longrightarrow> names t (cstr nm) = None \<Longrightarrow> create_excl nm t = create nm t"
    and remove_used: "inv t \<Longrightarrow> names t n = Some i \<Longrightarrow>
      \<exists>t'. remove i t = (0, t') \<and> inv t' \<and> names t' = (names t)(n := None)"
begin

lemma create_again:
  assumes "inv t" "name_ok nm" "create nm t = (i, t')" "i \<noteq> -1"
  shows "inv t' \<and> names t' (cstr nm) = Some i \<and> create nm t' = (i, t') \<and> create_excl nm t' = (-1, t')"
proof (cases "names t (cstr nm)")
  case None
  with create_new[OF assms(1,2)] assms have "inv t'" "names t' (cstr nm) = Some i" by auto
  then show ?thesis using create_old excl_old assms(2) by blast
next
  case (Some k)
  with create_old[OF assms(1,2) Some] excl_old[OF assms(1,2) Some] assms(1,3) show ?thesis by auto
qed

lemma create_distinct:
  assumes "inv t" "name_ok a" "name_ok b" "cstr a \<noteq> cstr b"
    and "create a t = (i, t1)" "create b t1 = (j, t2)" "i \<noteq> -1" "j \<noteq> -1"
  shows "i \<noteq> j"
proof -
  from create_again[OF assms(1,2,5,7)] have a: "inv t1" "names t1 (cstr a) = Some i" by auto
  from create_again[OF a(1) assms(3,6,8)] have b: "inv t2" "names t2 (cstr b) = Some j" by auto
  have "names t2 (cstr a) = Some i"
  proof (cases "names t1 (cstr b)")
    case None
    with create_new[OF a(1) assms(3)] assms(4,6,8) a(2) show ?thesis by auto
  next
    case (Some k)
    with create_old[OF a(1) assms(3) Some] assms(6) a(2) show ?thesis by auto
  qed
  with b assms(4) ids_inj show ?thesis by blast
qed

lemma remove_frees:
  assumes "inv t" "name_ok nm" "create nm t = (i, t1)" "i \<noteq> -1"
  shows "\<exists>t2. remove i t1 = (0, t2) \<and> inv t2 \<and> names t2 (cstr nm) = None"
  using create_again[OF assms] remove_used[of t1 "cstr nm" i] by auto

end

end
