(* ===== verification/Ipc_Sem.thy ===== *)
theory Ipc_Sem
  imports Ipc_Table Sync
begin

text \<open>
  Named user semaphores: \<^verbatim>\<open>src/ipc/sem.c\<close>. The state is the table together with the kernel
  state, since the semaphores of the entries put tasks to sleep.
\<close>

section \<open>Definitions\<close>

record sem_t = ipc_ent +
  sem_sema :: semaphore_t

abbreviation (input) SEM_MAX_NR :: nat where "SEM_MAX_NR \<equiv> 128"

type_synonym sem_state = "sem_t list \<times> kst"

definition sem_find_by_name :: "u8 list \<Rightarrow> sem_t list \<Rightarrow> nat option" where
  "sem_find_by_name = find_by_name"

definition sem_find_by_id :: "int \<Rightarrow> sem_t list \<Rightarrow> nat option" where
  "sem_find_by_id = find_by_id"

definition sem_alloc :: "u8 list \<Rightarrow> int \<Rightarrow> sem_state \<Rightarrow> nat option \<times> sem_state" where
  "sem_alloc name value st =
     (case st of (tbl, s) \<Rightarrow>
      case find_free tbl of
        None \<Rightarrow> (None, tbl, s)
      | Some i \<Rightarrow>
          (let old = sem_sema (tbl ! i);
               (sema, s1) = semaphore_init value (m_wait_list (sem_lock old)) (sem_waiter old) s
           in (Some i, tbl[i := (tbl ! i)\<lparr>ent_name := name_field name, sem_sema := sema\<rparr>], s1)))"

definition sem_free :: "nat \<Rightarrow> sem_t list \<Rightarrow> sem_t list" where
  "sem_free i tbl = tbl[i := (tbl ! i)\<lparr>ent_name := name_clear\<rparr>]"

definition sem_get :: "u8 list \<Rightarrow> int \<Rightarrow> u32 \<Rightarrow> sem_state \<Rightarrow> int \<times> sem_state" where
  "sem_get name value semflg st =
     (if flag semflg IPC_CREAT then
        (let craete_new = flag semflg IPC_EXCL in
         case sem_find_by_name name (fst st) of
           Some i \<Rightarrow> if craete_new then (-1, st) else (uint (ent_id (fst st ! i)), st)
         | None \<Rightarrow>
             (case sem_alloc name value st of
                (None, st') \<Rightarrow> (-1, st')
              | (Some i, st') \<Rightarrow> (uint (ent_id (fst st' ! i)), st')))
      else (-1, st))"

definition sem_put :: "int \<Rightarrow> sem_state \<Rightarrow> int \<times> sem_state" where
  "sem_put semid st =
     (case sem_find_by_id semid (fst st) of
        Some i \<Rightarrow> (0, sem_free i (fst st), snd st)
      | None \<Rightarrow> (-1, st))"

text \<open>A call that sleeps on the semaphore returns 0 when it is woken.\<close>

definition sem_down :: "int \<Rightarrow> u32 \<Rightarrow> sem_state \<Rightarrow> (int outcome \<times> sem_state) option" where
  "sem_down semid semflg st =
     (case st of (tbl, s) \<Rightarrow>
      case sem_find_by_id semid tbl of
        None \<Rightarrow> Some (Done (-1), tbl, s)
      | Some i \<Rightarrow>
          if flag semflg IPC_NOWAIT then do {
            (r, sema, s1) \<leftarrow> semaphore_try_down (sem_sema (tbl ! i)) s;
            let tbl1 = tbl[i := (tbl ! i)\<lparr>sem_sema := sema\<rparr>];
            Some (case r of Blocked \<Rightarrow> Blocked | Done ok \<Rightarrow> Done (if ok then 0 else -1), tbl1, s1) }
          else do {
            (r, sema, s1) \<leftarrow> semaphore_down (sem_sema (tbl ! i)) s;
            let tbl1 = tbl[i := (tbl ! i)\<lparr>sem_sema := sema\<rparr>];
            Some (if r = Down_taken then Done 0 else Blocked, tbl1, s1) })"

definition sem_up :: "int \<Rightarrow> sem_state \<Rightarrow> (int outcome \<times> sem_state) option" where
  "sem_up semid st =
     (case st of (tbl, s) \<Rightarrow>
      case sem_find_by_id semid tbl of
        None \<Rightarrow> Some (Done (-1), tbl, s)
      | Some i \<Rightarrow> do {
          (r, sema, s1) \<leftarrow> semaphore_up (sem_sema (tbl ! i)) s;
          Some (case r of Blocked \<Rightarrow> Blocked | Done _ \<Rightarrow> Done 0, tbl[i := (tbl ! i)\<lparr>sem_sema := sema\<rparr>], s1) })"

text \<open>\<open>name\<close> is \<open>None\<close> for a null pointer; \<open>readable\<close> is the outcome of the check of the user's bytes.\<close>

definition sys_sem_get :: "u8 list option \<Rightarrow> bool \<Rightarrow> int \<Rightarrow> u32 \<Rightarrow> sem_state \<Rightarrow> int res \<times> sem_state" where
  "sys_sem_get name readable value semflg st =
     (case name of
        None \<Rightarrow> (Inl E_INVAL, st)
      | Some nm \<Rightarrow> if \<not> readable then (Inl E_INVAL, st)
                  else let (r, st') = sem_get nm value semflg st in (Inr r, st'))"

definition sys_sem_put :: "int \<Rightarrow> sem_state \<Rightarrow> int \<times> sem_state" where
  "sys_sem_put = sem_put"

definition sys_sem_down :: "int \<Rightarrow> u32 \<Rightarrow> sem_state \<Rightarrow> (int outcome \<times> sem_state) option" where
  "sys_sem_down = sem_down"

definition sys_sem_up :: "int \<Rightarrow> sem_state \<Rightarrow> (int outcome \<times> sem_state) option" where
  "sys_sem_up = sem_up"

text \<open>\<open>w0\<close> is the first of the names given to the wait lists of the table.\<close>

definition sem_init :: "nat \<Rightarrow> sem_t list" where
  "sem_init w0 = map (\<lambda>i. \<lparr>ent_id = of_nat (1 + i + i * 2), ent_name = name_clear,
     sem_sema = \<lparr>counter = 0, sem_lock = \<lparr>wait_lock = 0, m_wait_list = w0 + 2 * i, waiters = 0\<rparr>,
                sem_waiter = w0 + 2 * i + 1\<rparr>\<rparr>) [0..<SEM_MAX_NR]"


section \<open>Lemmas\<close>

lemma sem_alloc_cases:
  assumes "tbl_inv tbl" "name_ok nm" "tbl_map tbl (cstr nm) = None"
  obtains "sem_alloc nm v (tbl, s) = (None, tbl, s)"
  | i tbl' s' where "sem_alloc nm v (tbl, s) = (Some i, tbl', s')" "tbl_inv tbl'" "ent_id (tbl' ! i) = ent_id (tbl ! i)"
      "tbl_map tbl' = (tbl_map tbl)(cstr nm \<mapsto> uint (ent_id (tbl ! i)))" "uint (ent_id (tbl ! i)) \<notin> ran (tbl_map tbl)"
proof (cases "find_free tbl")
  case None
  then show thesis using that(1) by (simp add: sem_alloc_def)
next
  case (Some i)
  obtain sema s1 where si: "semaphore_init v (m_wait_list (sem_lock (sem_sema (tbl ! i)))) (sem_waiter (sem_sema (tbl ! i))) s = (sema, s1)"
    by force
  let ?e = "(tbl ! i)\<lparr>ent_name := name_field nm, sem_sema := sema\<rparr>"
  have il: "i < length tbl" using Some scan_index_Some[of _ tbl i] by (auto simp: find_free_def)
  have "cstr nm \<noteq> []" "cstr (ent_name ?e) = cstr nm" using assms(2) cstr_name_field by (auto simp: name_ok_def)
  note f = tbl_fill[OF assms(1) Some assms(3), of ?e, OF _ this(2,1)]
  show thesis using f il that(2)[of i "tbl[i := ?e]" s1] Some si by (simp add: sem_alloc_def)
qed

lemma flags_simps [simp]: "flag 1 IPC_CREAT" "\<not> flag 1 IPC_EXCL" "flag 3 IPC_CREAT" "flag 3 IPC_EXCL"
  by (simp_all add: flag_def)

interpretation semo: ipc_objects "\<lambda>st. tbl_inv (fst st)" "\<lambda>st. tbl_map (fst st)"
  "\<lambda>nm. sem_get nm v 1" "\<lambda>nm. sem_get nm v 3" sem_put for v
proof (unfold_locales, goal_cases)
  case (1 t n i)
  then show ?case by (auto simp: tbl_map_Some)
next
  case (2 t n i n')
  then show ?case by (auto simp: tbl_map_Some tbl_inv_def distinct_conv_nth word_uint_eq_iff)
next
  case (3 t nm i)
  then show ?case using find_by_name_map[of "fst t" nm] by (auto simp: sem_get_def sem_find_by_name_def split: option.splits)
next
  case (4 t nm)
  obtain tbl s where t: "t = (tbl, s)" by force
  with 4 have n: "sem_find_by_name nm tbl = None" by (simp add: sem_find_by_name_def find_by_name_None)
  from 4 t have "tbl_inv tbl" "name_ok nm" "tbl_map tbl (cstr nm) = None" by auto
  then show ?case
    by (cases rule: sem_alloc_cases[where v = v and s = s]) (auto simp: sem_get_def t n)
next
  case (5 t nm i)
  then show ?case using find_by_name_map[of "fst t" nm] by (auto simp: sem_get_def sem_find_by_name_def split: option.splits)
next
  case (6 t nm)
  then show ?case by (simp add: sem_get_def sem_find_by_name_def find_by_name_None[symmetric])
next
  case (7 t n i)
  from 7 obtain j where j: "j < length (fst t)" "in_use (fst t ! j)" "cstr (ent_name (fst t ! j)) = n" "uint (ent_id (fst t ! j)) = i"
    by (auto simp: tbl_map_Some)
  then have f: "sem_find_by_id i (fst t) = Some j" using 7 by (simp add: sem_find_by_id_def find_by_id_iff)
  have "\<not> in_use ((fst t ! j)\<lparr>ent_name := name_clear\<rparr>)" by (simp add: in_use_def)
  from tbl_clear[OF 7(1) j(1,2) _ this] j(3) f show ?case by (simp add: sem_put_def sem_free_def)
qed

lemma sem_init_inv: "tbl_inv (sem_init w0)" "\<forall>e \<in> set (sem_init w0). \<not> in_use e" "length (sem_init w0) = 128"
proof -
  show u: "\<forall>e \<in> set (sem_init w0). \<not> in_use e" by (auto simp: sem_init_def in_use_def)
  show "length (sem_init w0) = 128" by (simp add: sem_init_def)
  have "map ent_id (sem_init w0) = map (\<lambda>i. of_nat (1 + i + i * 2)) [0..<128]" by (simp add: sem_init_def comp_def)
  then show "tbl_inv (sem_init w0)" using u by (rule empty_table_inv)
qed

lemma sem_get_new:
  assumes "sem_find_by_name nm tbl = None"
  shows "find_free tbl = None \<Longrightarrow> sem_get nm v 1 (tbl, s) = (-1, tbl, s)"
    "find_free tbl = Some k \<Longrightarrow> \<exists>sema s1. sem_get nm v 1 (tbl, s) =
       (uint (ent_id (tbl ! k)), tbl[k := (tbl ! k)\<lparr>ent_name := name_field nm, sem_sema := sema\<rparr>], s1)"
proof -
  show "find_free tbl = None \<Longrightarrow> sem_get nm v 1 (tbl, s) = (-1, tbl, s)"
    using assms by (simp add: sem_get_def sem_alloc_def)
  assume k: "find_free tbl = Some k"
  obtain sema s1 where "semaphore_init v (m_wait_list (sem_lock (sem_sema (tbl ! k)))) (sem_waiter (sem_sema (tbl ! k))) s = (sema, s1)"
    by force
  moreover have "k < length tbl" using k scan_index_Some[of _ tbl k] by (auto simp: find_free_def)
  ultimately show "\<exists>sema s1. sem_get nm v 1 (tbl, s) =
       (uint (ent_id (tbl ! k)), tbl[k := (tbl ! k)\<lparr>ent_name := name_field nm, sem_sema := sema\<rparr>], s1)"
    using assms k by (auto simp: sem_get_def sem_alloc_def)
qed

lemma sem_get_first:
  assumes "\<forall>e \<in> set tbl. \<not> in_use e" "tbl \<noteq> []"
  shows "\<exists>st'. sem_get nm v 1 (tbl, s) = (uint (ent_id (tbl ! 0)), st')"
proof -
  have "sem_find_by_name nm tbl = None" using assms(1) by (auto simp: sem_find_by_name_def find_by_name_def scan_index_None)
  moreover have "find_free tbl = Some 0" using assms by (cases tbl) (auto simp: find_free_def)
  ultimately show ?thesis using sem_get_new(2)[of nm tbl 0 v s] by auto
qed

section \<open>Properties\<close>

text \<open>C29: a name of 1 to 23 characters names one semaphore: after a \<^verbatim>\<open>sem_get\<close> with \<^verbatim>\<open>IPC_CREAT\<close>
  succeeds, the same call returns the same identifier and changes nothing, the call with
  \<^verbatim>\<open>IPC_EXCL\<close> fails, another name gets another identifier, and \<^verbatim>\<open>sem_put\<close> of the identifier
  succeeds and forgets the name.\<close>

theorem sem_get_names:
  assumes "tbl_inv (fst st)" and "name_ok a" and "name_ok b" and "cstr a \<noteq> cstr b"
    and "sem_get a v 1 st = (i, st1)" and "i \<noteq> -1"
  shows "sem_get a v 1 st1 = (i, st1) \<and> sem_get a v 3 st1 = (-1, st1)
    \<and> (\<forall>j st2. sem_get b v 1 st1 = (j, st2) \<and> j \<noteq> -1 \<longrightarrow> i \<noteq> j)
    \<and> (\<exists>st2. sem_put i st1 = (0, st2) \<and> tbl_inv (fst st2) \<and> sem_find_by_name a (fst st2) = None)"
  using semo.create_again[OF assms(1,2,5,6)] semo.create_distinct[OF assms(1-5) _ assms(6)]
    semo.remove_frees[OF assms(1,2,5,6)]
  by (auto simp: sem_find_by_name_def find_by_name_None)

definition demo_name :: "u8 \<Rightarrow> u8 list" where
  "demo_name c = c # replicate 23 0"

lemma demo_name_ok: "c \<noteq> 0 \<Longrightarrow> name_ok (demo_name c)" "c \<noteq> 0 \<Longrightarrow> cstr (demo_name c) = [c]"
  by (simp_all add: name_ok_def demo_name_def cstr_def)

theorem sem_get_names_witness:
  "\<exists>i st1. sem_get (demo_name 65) 1 1 (sem_init 100, demo_state) = (i, st1)
    \<and> sem_get (demo_name 65) 1 1 st1 = (i, st1) \<and> fst (sem_put i st1) = 0"
proof -
  have "sem_init 100 \<noteq> []" using sem_init_inv(3) by (metis length_0_conv zero_neq_numeral)
  from sem_get_first[OF sem_init_inv(2) this, of "demo_name 65" 1 demo_state] obtain st1
    where g: "sem_get (demo_name 65) 1 1 (sem_init 100, demo_state) = (uint (ent_id (sem_init 100 ! 0)), st1)" by blast
  have "0 \<le> uint (ent_id (sem_init 100 ! 0))" by simp
  then have "uint (ent_id (sem_init 100 ! 0)) \<noteq> -1" by linarith
  with sem_get_names[OF _ _ _ _ g, of "demo_name 66"] sem_init_inv(1) demo_name_ok show ?thesis
    using g by auto
qed

text \<open>A name of 24 or more characters is cut when it is stored and compared uncut, so it is
  never found: two calls with \<^verbatim>\<open>IPC_CREAT\<close> and the same name create two semaphores.\<close>

theorem sem_get_long_name_duplicates:
  assumes "tbl_inv tbl" and "\<forall>e \<in> set tbl. length (cstr (ent_name e)) < 24" and "length (cstr nm) \<ge> 24"
    and "sem_get nm v 1 (tbl, s) = (i, st1)" and "i \<noteq> -1"
    and "sem_get nm v 1 st1 = (j, st2)" and "j \<noteq> -1"
  shows "i \<noteq> j"
proof -
  have no: "sem_find_by_name nm t = None" if "\<forall>e \<in> set t. length (cstr (ent_name e)) < 24" for t
    using that assms(3) by (auto simp: sem_find_by_name_def find_by_name_def scan_index_None)
  obtain k where k: "find_free tbl = Some k" "i = uint (ent_id (tbl ! k))" "ent_id (fst st1 ! k) = ent_id (tbl ! k)"
    and st1: "fst st1 = tbl[k := fst st1 ! k]" "ent_name (fst st1 ! k) = name_field nm" "k < length tbl"
  proof (cases "find_free tbl")
    case None
    with assms(4,5) sem_get_new(1)[OF no[OF assms(2)]] show thesis by simp
  next
    case (Some k)
    then have "k < length tbl" using scan_index_Some[of _ tbl k] by (auto simp: find_free_def)
    with sem_get_new(2)[OF no[OF assms(2)] Some, of v s] assms(4) Some show thesis
      by (intro that[of k]) auto
  qed
  have l24: "length nm \<ge> 24" using assms(3) length_takeWhile_le[of _ nm] by (auto simp: cstr_def intro: order_trans)
  have nz: "nm ! n \<noteq> 0" if "n < 24" for n
  proof -
    have "cstr nm ! n \<in> set (cstr nm)" using that assms(3) by simp
    then have "cstr nm ! n \<noteq> 0" unfolding cstr_def by (auto dest: set_takeWhileD)
    then show ?thesis using that assms(3) by (simp add: cstr_def takeWhile_nth)
  qed
  have "cstr (name_field nm) = take 23 nm"
    unfolding cstr_def name_field_def using nz l24
    by (subst takeWhile_append2) (auto simp: in_set_conv_nth)
  then have c: "length (cstr (name_field nm)) < 24" "cstr (name_field nm) \<noteq> []" using l24 by auto
  have all1: "\<forall>e \<in> set (fst st1). length (cstr (ent_name e)) < 24"
    using st1 assms(2) c(1) by (metis in_set_conv_nth length_list_update nth_list_update nth_mem)
  have u: "in_use (fst st1 ! k)" using st1(2) c(2) by (simp add: in_use_def)
  have ids: "map ent_id (fst st1) = map ent_id tbl" using st1(1,3) k(3) by (metis list_update_id map_update nth_map)
  obtain l where l: "find_free (fst st1) = Some l" "j = uint (ent_id (fst st1 ! l))"
    using assms(6,7) sem_get_new(1)[OF no[OF all1], of v "snd st1"]
      sem_get_new(2)[OF no[OF all1], of _ v "snd st1"] by (cases "find_free (fst st1)") auto
  then have "l < length (fst st1)" "\<not> in_use (fst st1 ! l)"
    using scan_index_Some[of _ "fst st1" l] by (auto simp: find_free_def)
  with u have "l \<noteq> k" "l < length tbl" using st1(1) by (auto, metis length_list_update)
  moreover have "ent_id (fst st1 ! l) = ent_id (tbl ! l)" using ids \<open>l < length tbl\<close> by (metis length_map nth_map)
  ultimately show ?thesis using assms(1) k(2) l(2) st1(3) by (auto simp: tbl_inv_def distinct_conv_nth word_uint_eq_iff)
qed

theorem sem_get_long_name_duplicates_witness:
  "\<exists>i j st1 st2. sem_get (replicate 24 65) 1 1 (take 2 (sem_init 100), demo_state) = (i, st1)
    \<and> sem_get (replicate 24 65) 1 1 st1 = (j, st2) \<and> i \<noteq> j \<and> i \<noteq> -1 \<and> j \<noteq> -1"
proof -
  let ?nm = "replicate 24 65 :: u8 list"
  obtain e0 e1 where t: "take 2 (sem_init 100) = [e0, e1]" "ent_id e0 = 1" "ent_id e1 = 4" "ent_name e0 = name_clear" "ent_name e1 = name_clear"
    by (simp add: sem_init_def take_map upt_conv_Cons)
  have inv: "tbl_inv [e0, e1]" "\<forall>e \<in> set [e0, e1]. length (cstr (ent_name e)) < 24"
    using t by (auto simp: tbl_inv_def less_Suc_eq in_use_def)
  have nm: "length (cstr ?nm) \<ge> 24" "cstr (name_field ?nm) = replicate 23 65" 
    by (simp add: cstr_def, simp add: cstr_def name_field_def, subst takeWhile_append2, auto)
  have no: "sem_find_by_name ?nm tbl = None" if "\<forall>e \<in> set tbl. length (cstr (ent_name e)) < 24" for tbl
    using that nm(1) by (auto simp: sem_find_by_name_def find_by_name_def scan_index_None)
  have "find_free [e0, e1] = Some 0" using t by (simp add: find_free_def in_use_def)
  from sem_get_new(2)[OF no[OF inv(2)] this, of 1 demo_state] obtain e0' s1 where
    g1: "sem_get ?nm 1 1 ([e0, e1], demo_state) = (uint (1 :: u16), [e0', e1], s1)" "ent_name e0' = name_field ?nm"
    using t(2) by auto
  have u: "\<forall>e \<in> set [e0', e1]. length (cstr (ent_name e)) < 24" using g1(2) nm(2) t(5) by auto
  have "find_free [e0', e1] = Some 1" using t(5) g1(2) nm(2) by (simp add: find_free_def in_use_def)
  from sem_get_new(2)[OF no[OF u] this, of 1 s1] obtain st2 where
    g2: "sem_get ?nm 1 1 ([e0', e1], s1) = (uint (ent_id e1), st2)" by auto
  have "uint (1 :: u16) \<noteq> -1" "uint (ent_id e1) \<noteq> -1" using t(3) by simp_all
  with sem_get_long_name_duplicates[OF inv nm(1) g1(1) _ g2] g1(1) g2 t(1) show ?thesis by auto
qed

end
