(* ===== verification/Ipc_Msgqueue.thy ===== *)
theory Ipc_Msgqueue
  imports Ipc_Table Sync
begin

text \<open>
  Named message queues: \<^verbatim>\<open>src/ipc/msgqueue.c\<close>. The semaphore of a queue serialises the calls
  on it, as the global one does for the table; a call is one atomic step up to the point
  where it puts the caller to sleep, and one from there on.
\<close>

section \<open>Definitions\<close>

record msg_t =
  m_type :: int
  m_length :: u16
  m_buf :: "u8 list"

record msg_queue_t = ipc_ent +
  msg_list :: "msg_t list"
  msgs :: u8
  mq_msgsz :: u16
  senders :: nat
  receivers :: nat

abbreviation (input) MSG_MAX_LEN :: nat where "MSG_MAX_LEN \<equiv> 1000"
abbreviation (input) MSGQ_MAX_NR :: nat where "MSGQ_MAX_NR \<equiv> 128"
abbreviation (input) MSGQ_MAX_MSGS :: nat where "MSGQ_MAX_MSGS \<equiv> 128"

type_synonym mq_state = "msg_queue_t list \<times> kst"

definition msg_queue_find_by_name :: "u8 list \<Rightarrow> msg_queue_t list \<Rightarrow> nat option" where
  "msg_queue_find_by_name = find_by_name"

definition msg_queue_find_by_id :: "int \<Rightarrow> msg_queue_t list \<Rightarrow> nat option" where
  "msg_queue_find_by_id = find_by_id"

definition msg_queue_alloc :: "u8 list \<Rightarrow> mq_state \<Rightarrow> nat option \<times> mq_state" where
  "msg_queue_alloc name st =
     (case st of (tbl, s) \<Rightarrow>
      case find_free tbl of
        None \<Rightarrow> (None, tbl, s)
      | Some i \<Rightarrow>
          (let q = tbl ! i in
           (Some i, tbl[i := q\<lparr>ent_name := name_field name, msg_list := [], msgs := 0, mq_msgsz := of_nat MSG_MAX_LEN\<rparr>],
            wait_queue_init (receivers q) (wait_queue_init (senders q) s))))"

definition msg_queue_free :: "nat \<Rightarrow> msg_queue_t list \<Rightarrow> msg_queue_t list" where
  "msg_queue_free i tbl = tbl[i := (tbl ! i)\<lparr>ent_name := name_clear\<rparr>]"

definition msg_queue_get :: "u8 list \<Rightarrow> u32 \<Rightarrow> mq_state \<Rightarrow> int \<times> mq_state" where
  "msg_queue_get name flags st =
     (if flag flags IPC_CREAT then
        (let craete_new = flag flags IPC_EXCL in
         case msg_queue_find_by_name name (fst st) of
           Some i \<Rightarrow> if craete_new then (-1, st) else (uint (ent_id (fst st ! i)), st)
         | None \<Rightarrow>
             (case msg_queue_alloc name st of
                (None, st') \<Rightarrow> (-1, st')
              | (Some i, st') \<Rightarrow> (uint (ent_id (fst st' ! i)), st')))
      else (-1, st))"

definition msg_queue_put :: "int \<Rightarrow> mq_state \<Rightarrow> int \<times> mq_state" where
  "msg_queue_put msgid st =
     (case msg_queue_find_by_id msgid (fst st) of
        Some i \<Rightarrow> (0, msg_queue_free i (fst st), snd st)
      | None \<Rightarrow> (-1, st))"

definition msg_init :: "int \<Rightarrow> u8 list \<Rightarrow> u32 \<Rightarrow> msg_t option" where
  "msg_init type text len = do {
     b \<leftarrow> mem_load 0 (unat len) text;
     Some \<lparr>m_type = type, m_length = ucast len, m_buf = b\<rparr> }"

text \<open>The part of \<^verbatim>\<open>msg_queue_send\<close> that follows the wait for room; \<open>alloc_ok\<close> tells whether
  \<^verbatim>\<open>mem_alloc\<close> succeeds. \<^verbatim>\<open>list_add\<close> puts the message at the front of the list.\<close>

definition msg_send_body :: "nat \<Rightarrow> int \<times> u8 list \<Rightarrow> u32 \<Rightarrow> bool \<Rightarrow> mq_state \<Rightarrow> (int outcome \<times> mq_state) option" where
  "msg_send_body i msgbuf len alloc_ok st =
     (case st of (tbl, s) \<Rightarrow>
      if \<not> alloc_ok then Some (Done (-1), tbl, s)
      else do {
        msg \<leftarrow> msg_init (fst msgbuf) (snd msgbuf) len;
        let q = tbl ! i;
        s1 \<leftarrow> wait_queue_wakeup (receivers q) s;
        Some (Done 0, tbl[i := q\<lparr>msg_list := msg # msg_list q, msgs := msgs q + 1\<rparr>], s1) })"

definition msg_queue_send :: "int \<Rightarrow> int \<times> u8 list \<Rightarrow> u32 \<Rightarrow> u32 \<Rightarrow> bool \<Rightarrow> mq_state \<Rightarrow> (int outcome \<times> mq_state) option" where
  "msg_queue_send msgid msgbuf len msgflg alloc_ok st =
     (case st of (tbl, s) \<Rightarrow>
      case msg_queue_find_by_id msgid tbl of
        None \<Rightarrow> Some (Done (-1), tbl, s)
      | Some i \<Rightarrow>
          (let q = tbl ! i; len1 = (if len > ucast (mq_msgsz q) then ucast (mq_msgsz q) else len) in
           if msgs q > of_nat MSGQ_MAX_MSGS then
             (if flag msgflg IPC_NOWAIT then Some (Done (-1), tbl, s)
              else do {
                s1 \<leftarrow> wait_queue_add (senders q) (task_current s) s;
                s2 \<leftarrow> task_block TASK_BLOCKED s1;
                Some (Blocked, tbl, s2) })
           else msg_send_body i msgbuf len1 alloc_ok (tbl, s)))"

text \<open>The first message of the list that the requested type admits.\<close>

definition msg_wanted :: "int \<Rightarrow> u32 \<Rightarrow> msg_t \<Rightarrow> bool" where
  "msg_wanted msgtype msgflg m \<longleftrightarrow>
     (if msgtype > 0 then (if flag msgflg IPC_EXCEPT then m_type m \<noteq> msgtype else m_type m = msgtype)
      else if msgtype = 0 then True
      else m_type m \<le> abs msgtype)"

definition recv_len :: "u32 \<Rightarrow> u32 \<Rightarrow> msg_t \<Rightarrow> u16" where
  "recv_len msgflg msgsz msg =
     (if flag msgflg IPC_NOERROR \<and> ucast (m_length msg) > msgsz then ucast msgsz else m_length msg)"

definition msg_recv_body :: "nat \<Rightarrow> u32 \<Rightarrow> int \<Rightarrow> u32 \<Rightarrow> mq_state
    \<Rightarrow> ((int \<times> (int \<times> u8 list) option) outcome \<times> mq_state) option" where
  "msg_recv_body i msgsz msgtype msgflg st =
     (case st of (tbl, s) \<Rightarrow>
      let q = tbl ! i in
      case scan_index (msg_wanted msgtype msgflg) (msg_list q) of
        None \<Rightarrow> Some (Done (-1, None), tbl, s)
      | Some k \<Rightarrow> do {
          let msg = msg_list q ! k;
          let len = recv_len msgflg msgsz msg;
          b \<leftarrow> mem_load 0 (unat len) (m_buf msg);
          s1 \<leftarrow> wait_queue_wakeup (senders q) s;
          Some (Done (uint len, Some (m_type msg, b)),
            tbl[i := q\<lparr>msg_list := take k (msg_list q) @ drop (Suc k) (msg_list q), msgs := msgs q - 1\<rparr>], s1) })"

definition msg_queue_recv :: "int \<Rightarrow> u32 \<Rightarrow> int \<Rightarrow> u32 \<Rightarrow> mq_state
    \<Rightarrow> ((int \<times> (int \<times> u8 list) option) outcome \<times> mq_state) option" where
  "msg_queue_recv msgid msgsz msgtype msgflg st =
     (case st of (tbl, s) \<Rightarrow>
      case msg_queue_find_by_id msgid tbl of
        None \<Rightarrow> Some (Done (-1, None), tbl, s)
      | Some i \<Rightarrow>
          if msgs (tbl ! i) = 0 then
            (if flag msgflg IPC_NOWAIT then Some (Done (-1, None), tbl, s)
             else do {
               s1 \<leftarrow> wait_queue_add (receivers (tbl ! i)) (task_current s) s;
               s2 \<leftarrow> task_block TASK_BLOCKED s1;
               Some (Blocked, tbl, s2) })
          else msg_recv_body i msgsz msgtype msgflg (tbl, s))"

definition sys_msgque_get :: "u8 list option \<Rightarrow> bool \<Rightarrow> u32 \<Rightarrow> mq_state \<Rightarrow> int res \<times> mq_state" where
  "sys_msgque_get name readable flags st =
     (case name of
        None \<Rightarrow> (Inl E_INVAL, st)
      | Some nm \<Rightarrow> if \<not> readable then (Inl E_INVAL, st)
                  else let (r, st') = msg_queue_get nm flags st in (Inr r, st'))"

definition sys_msgque_put :: "int \<Rightarrow> mq_state \<Rightarrow> int \<times> mq_state" where
  "sys_msgque_put = msg_queue_put"

definition sys_msgque_send :: "int \<Rightarrow> (int \<times> u8 list) option \<Rightarrow> bool \<Rightarrow> u32 \<Rightarrow> u32 \<Rightarrow> bool \<Rightarrow> mq_state
    \<Rightarrow> (int res outcome \<times> mq_state) option" where
  "sys_msgque_send msgid msgbuf readable len msgflg alloc_ok st =
     (case msgbuf of
        None \<Rightarrow> Some (Done (Inl E_INVAL), st)
      | Some b \<Rightarrow> if \<not> readable then Some (Done (Inl E_INVAL), st)
          else do {
            (r, st') \<leftarrow> msg_queue_send msgid b len msgflg alloc_ok st;
            Some (case r of Done x \<Rightarrow> Done (Inr x) | Blocked \<Rightarrow> Blocked, st') })"

text \<open>The requested type is read from the start of the user's buffer.\<close>

definition sys_msgque_recv :: "int \<Rightarrow> int option \<Rightarrow> bool \<Rightarrow> u32 \<Rightarrow> u32 \<Rightarrow> mq_state
    \<Rightarrow> ((int \<times> (int \<times> u8 list) option) res outcome \<times> mq_state) option" where
  "sys_msgque_recv msgid msgbuf writable msgsz msgflg st =
     (case msgbuf of
        None \<Rightarrow> Some (Done (Inl E_INVAL), st)
      | Some ty \<Rightarrow> if \<not> writable then Some (Done (Inl E_INVAL), st)
          else do {
            (r, st') \<leftarrow> msg_queue_recv msgid msgsz ty msgflg st;
            Some (case r of Done x \<Rightarrow> Done (Inr x) | Blocked \<Rightarrow> Blocked, st') })"

definition msg_queue_init :: "nat \<Rightarrow> msg_queue_t list" where
  "msg_queue_init w0 = map (\<lambda>i. \<lparr>ent_id = of_nat (1 + i + i * 2), ent_name = name_clear, msg_list = [], msgs = 0,
     mq_msgsz = 0, senders = w0 + 2 * i, receivers = w0 + 2 * i + 1\<rparr>) [0..<MSGQ_MAX_NR]"


section \<open>Lemmas\<close>

lemma msg_queue_alloc_cases:
  assumes "tbl_inv tbl" "name_ok nm" "tbl_map tbl (cstr nm) = None"
  obtains "msg_queue_alloc nm (tbl, s) = (None, tbl, s)"
  | i tbl' s' where "msg_queue_alloc nm (tbl, s) = (Some i, tbl', s')" "tbl_inv tbl'" "ent_id (tbl' ! i) = ent_id (tbl ! i)"
      "tbl_map tbl' = (tbl_map tbl)(cstr nm \<mapsto> uint (ent_id (tbl ! i)))" "uint (ent_id (tbl ! i)) \<notin> ran (tbl_map tbl)"
proof (cases "find_free tbl")
  case None
  then show thesis using that(1) by (simp add: msg_queue_alloc_def)
next
  case (Some i)
  let ?e = "(tbl ! i)\<lparr>ent_name := name_field nm, msg_list := [], msgs := 0, mq_msgsz := of_nat MSG_MAX_LEN\<rparr>"
  have il: "i < length tbl" using Some scan_index_Some[of _ tbl i] by (auto simp: find_free_def)
  have "cstr nm \<noteq> []" "cstr (ent_name ?e) = cstr nm" using assms(2) cstr_name_field by (auto simp: name_ok_def)
  note f = tbl_fill[OF assms(1) Some assms(3), of ?e, OF _ this(2,1)]
  show thesis using f il that(2)[of i "tbl[i := ?e]"] Some by (simp add: msg_queue_alloc_def Let_def)
qed

interpretation mqo: ipc_objects "\<lambda>st. tbl_inv (fst st)" "\<lambda>st. tbl_map (fst st)"
  "\<lambda>nm. msg_queue_get nm 1" "\<lambda>nm. msg_queue_get nm 3" msg_queue_put
proof (unfold_locales, goal_cases)
  case (1 t n i)
  then show ?case by (auto simp: tbl_map_Some)
next
  case (2 t n i n')
  then show ?case by (auto simp: tbl_map_Some tbl_inv_def distinct_conv_nth word_uint_eq_iff)
next
  case (3 t nm i)
  then show ?case using find_by_name_map[of "fst t" nm]
    by (auto simp: msg_queue_get_def msg_queue_find_by_name_def flag_def split: option.splits)
next
  case (4 t nm)
  obtain tbl s where t: "t = (tbl, s)" by force
  with 4 have n: "msg_queue_find_by_name nm tbl = None" by (simp add: msg_queue_find_by_name_def find_by_name_None)
  from 4 t have "tbl_inv tbl" "name_ok nm" "tbl_map tbl (cstr nm) = None" by auto
  then show ?case
    by (cases rule: msg_queue_alloc_cases[where s = s]) (auto simp: msg_queue_get_def t n flag_def)
next
  case (5 t nm i)
  then show ?case using find_by_name_map[of "fst t" nm]
    by (auto simp: msg_queue_get_def msg_queue_find_by_name_def flag_def split: option.splits)
next
  case (6 t nm)
  then show ?case by (simp add: msg_queue_get_def msg_queue_find_by_name_def find_by_name_None[symmetric] flag_def)
next
  case (7 t n i)
  from 7 obtain j where j: "j < length (fst t)" "in_use (fst t ! j)" "cstr (ent_name (fst t ! j)) = n" "uint (ent_id (fst t ! j)) = i"
    by (auto simp: tbl_map_Some)
  then have f: "msg_queue_find_by_id i (fst t) = Some j" using 7 by (simp add: msg_queue_find_by_id_def find_by_id_iff)
  have "\<not> in_use ((fst t ! j)\<lparr>ent_name := name_clear\<rparr>)" by (simp add: in_use_def)
  from tbl_clear[OF 7(1) j(1,2) _ this] j(3) f show ?case by (simp add: msg_queue_put_def msg_queue_free_def)
qed

text \<open>The count agrees with the list, the list has at most 129 messages, and a message's length
  is that of its data.\<close>

definition mq_inv :: "msg_queue_t \<Rightarrow> bool" where
  "mq_inv q \<longleftrightarrow> unat (msgs q) = length (msg_list q) \<and> length (msg_list q) \<le> MSGQ_MAX_MSGS + 1
     \<and> unat (mq_msgsz q) \<le> MSG_MAX_LEN \<and> (\<forall>m \<in> set (msg_list q). unat (m_length m) = length (m_buf m))"

lemma tbl_inv_update:
  assumes "tbl_inv tbl" "i < length tbl" "ent_id e = ent_id (tbl ! i)" "ent_name e = ent_name (tbl ! i)"
  shows "tbl_inv (tbl[i := e])" "find_by_id k (tbl[i := e]) = find_by_id k tbl"
proof -
  have ids: "map ent_id (tbl[i := e]) = map ent_id tbl" using assms(2,3) by (metis list_update_id map_update nth_map)
  have u: "in_use (tbl[i := e] ! j) = in_use (tbl ! j)" "ent_name (tbl[i := e] ! j) = ent_name (tbl ! j)"
    "ent_id (tbl[i := e] ! j) = ent_id (tbl ! j)" for j
    using assms by (cases "j = i"; simp add: in_use_def)+
  show i: "tbl_inv (tbl[i := e])" unfolding tbl_inv_def ids u using assms(1) by (simp add: tbl_inv_def)
  show "find_by_id k (tbl[i := e]) = find_by_id k tbl"
    using find_by_id_iff[OF i, of k] find_by_id_iff[OF assms(1), of k] u
    by (metis length_list_update option.exhaust)
qed


lemma mem_load_all: "n = length xs \<Longrightarrow> mem_load 0 n xs = Some xs"
  by (simp add: mem_load_def)

lemma unat_ucast_16_32: "unat (ucast x :: u32) = unat x" for x :: u16
  using unsigned_less[of x, where 'a = nat] by (simp add: unsigned_ucast_eq take_bit_nat_eq_self)

lemma mq_inv_remove:
  assumes "mq_inv q" "k < length (msg_list q)"
  shows "mq_inv (q\<lparr>msg_list := take k (msg_list q) @ drop (Suc k) (msg_list q), msgs := msgs q - 1\<rparr>)"
proof -
  have "msgs q \<noteq> 0" using assms by (auto simp: mq_inv_def)
  then have "unat (msgs q - 1) = unat (msgs q) - 1" by (simp add: unat_minus_one)
  with assms show ?thesis
    unfolding mq_inv_def by (auto dest: in_set_takeD in_set_dropD)
qed

section \<open>Properties\<close>

text \<open>C30: on a queue with a message of the requested kind \<^verbatim>\<open>msg_queue_recv\<close> does not block: it delivers
  the first such message of the list (cut to the buffer when \<^verbatim>\<open>IPC_NOERROR\<close> is given),
  removes exactly that message, and keeps the count right.\<close>

theorem msg_queue_recv_takes:
  assumes "sched_inv s" and "wait_ok (senders (tbl ! i)) s" and "msg_queue_find_by_id msgid tbl = Some i"
    and "i < length tbl" and "mq_inv (tbl ! i)" and "\<exists>m \<in> set (msg_list (tbl ! i)). msg_wanted ty fl m"
  shows "\<exists>xs m ys n tbl' s'. msg_list (tbl ! i) = xs @ m # ys \<and> msg_wanted ty fl m
    \<and> (\<forall>x \<in> set xs. \<not> msg_wanted ty fl x)
    \<and> n = (if flag fl IPC_NOERROR then min (length (m_buf m)) (unat msgsz) else length (m_buf m))
    \<and> msg_queue_recv msgid msgsz ty fl (tbl, s) = Some (Done (int n, Some (m_type m, take n (m_buf m))), tbl', s')
    \<and> msg_list (tbl' ! i) = xs @ ys \<and> mq_inv (tbl' ! i) \<and> sched_inv s'"
proof -
  let ?q = "tbl ! i"
  obtain k where k: "scan_index (msg_wanted ty fl) (msg_list ?q) = Some k"
    using assms(6) scan_index_None[of "msg_wanted ty fl" "msg_list ?q"] by fastforce
  from scan_index_Some[OF k] have kl: "k < length (msg_list ?q)" "msg_wanted ty fl (msg_list ?q ! k)"
    "\<forall>j < k. \<not> msg_wanted ty fl (msg_list ?q ! j)" by auto
  define m where "m = msg_list ?q ! k"
  define xs where "xs = take k (msg_list ?q)"
  define ys where "ys = drop (Suc k) (msg_list ?q)"
  define n where "n = (if flag fl IPC_NOERROR then min (length (m_buf m)) (unat msgsz) else length (m_buf m))"
  define len where "len = recv_len fl msgsz m"
  have split: "msg_list ?q = xs @ m # ys" using kl(1) by (simp add: xs_def m_def ys_def id_take_nth_drop)
  have mb: "unat (m_length m) = length (m_buf m)" using assms(5) kl(1) by (simp add: mq_inv_def m_def)
  have len: "unat len = n"
  proof (cases "flag fl IPC_NOERROR \<and> ucast (m_length m) > msgsz")
    case True
    then have lt: "unat msgsz < unat (m_length m)" by (simp add: word_less_nat_alt unat_ucast_16_32)
    then have "unat msgsz < 2 ^ 16" using unsigned_less[of "m_length m", where 'a = nat] by simp
    then have "unat (ucast msgsz :: u16) = unat msgsz" by (simp add: unsigned_ucast_eq take_bit_nat_eq_self)
    with True lt mb show ?thesis by (simp add: len_def recv_len_def n_def)
  next
    case False
    then have "flag fl IPC_NOERROR \<Longrightarrow> unat (m_length m) \<le> unat msgsz"
      by (simp add: word_less_nat_alt not_less unat_ucast_16_32)
    with False mb show ?thesis by (auto simp: len_def recv_len_def n_def)
  qed
  have nb: "n \<le> length (m_buf m)" by (simp add: n_def)
  have "msgs ?q \<noteq> 0" using assms(5) kl(1) by (auto simp: mq_inv_def)
  obtain s' where s': "wait_queue_wakeup (senders ?q) s = Some s'" "sched_inv s'"
    using wait_queue_wakeup_ok[OF assms(1,2)] by blast
  let ?q' = "?q\<lparr>msg_list := xs @ ys, msgs := msgs ?q - 1\<rparr>"
  have ld: "mem_load 0 (unat len) (m_buf m) = Some (take n (m_buf m))" using nb by (simp add: mem_load_def len)
  have ui: "uint len = int n" using len by (simp only: uint_nat)
  have "msg_recv_body i msgsz ty fl (tbl, s) = Some (Done (uint len, Some (m_type m, take n (m_buf m))), tbl[i := ?q'], s')"
    using k s'(1) ld unfolding msg_recv_body_def Let_def
    by (simp add: m_def[symmetric] len_def[symmetric] xs_def ys_def)
  then have "msg_queue_recv msgid msgsz ty fl (tbl, s) = Some (Done (int n, Some (m_type m, take n (m_buf m))), tbl[i := ?q'], s')"
    using assms(3) \<open>msgs ?q \<noteq> 0\<close> ui by (simp add: msg_queue_recv_def)
  moreover have "mq_inv ?q'" using mq_inv_remove[OF assms(5) kl(1)] by (simp add: xs_def ys_def)
  moreover have "\<forall>x \<in> set xs. \<not> msg_wanted ty fl x" using kl by (auto simp: xs_def in_set_conv_nth)
  moreover have "msg_wanted ty fl m" using kl(2) by (simp add: m_def)
  ultimately show ?thesis using split s'(2) n_def assms(4)
    apply -
    apply (rule exI[of _ xs], rule exI[of _ m], rule exI[of _ ys], rule exI[of _ n],
        rule exI[of _ "tbl[i := ?q']"], rule exI[of _ s'])
    apply simp
    done
qed

definition demo_mq :: "msg_queue_t list" where
  "demo_mq = [\<lparr>ent_id = 1, ent_name = 65 # replicate 23 0,
     msg_list = [\<lparr>m_type = 7, m_length = 2, m_buf = [1, 2]\<rparr>, \<lparr>m_type = 3, m_length = 1, m_buf = [9]\<rparr>],
     msgs = 2, mq_msgsz = 1000, senders = 70, receivers = 71\<rparr>]"

lemma demo_mq_props: "msg_queue_find_by_id 1 demo_mq = Some 0" "mq_inv (demo_mq ! 0)" "senders (demo_mq ! 0) = 70"
  "tbl_inv demo_mq" "receivers (demo_mq ! 0) = 71"
  by (auto simp: msg_queue_find_by_id_def find_by_id_def demo_mq_def in_use_def cstr_def mq_inv_def tbl_inv_def)

lemma demo_state_wait: "k_wait demo_state w = []" "wait_ok w demo_state"
  by (simp_all add: demo_state_def wait_ok_def)

theorem msg_queue_recv_takes_witness:
  "\<exists>st'. msg_queue_recv 1 100 3 0 (demo_mq, demo_state) = Some (Done (1, Some (3, [9])), st')
    \<and> msg_list (fst st' ! 0) = [\<lparr>m_type = 7, m_length = 2, m_buf = [1, 2]\<rparr>]"
proof -
  let ?a = "\<lparr>m_type = 7, m_length = 2, m_buf = [1, 2]\<rparr>" and ?b = "\<lparr>m_type = 3, m_length = 1, m_buf = [9]\<rparr> :: msg_t"
  have l: "msg_list (demo_mq ! 0) = [?a, ?b]" by (simp add: demo_mq_def)
  have w: "\<exists>m \<in> set (msg_list (demo_mq ! 0)). msg_wanted 3 0 m" by (simp add: l msg_wanted_def flag_def)
  have "0 < length demo_mq" by (simp add: demo_mq_def)
  from msg_queue_recv_takes[OF demo_state_inv demo_state_wait(2) demo_mq_props(1) this demo_mq_props(2) w, of 100]
  obtain xs m ys n tbl' s' where r: "[?a, ?b] = xs @ m # ys" "msg_wanted 3 0 m" "n = length (m_buf m)"
    "msg_queue_recv 1 100 3 0 (demo_mq, demo_state) = Some (Done (int n, Some (m_type m, take n (m_buf m))), tbl', s')"
    "msg_list (tbl' ! 0) = xs @ ys" by (auto simp: l flag_def)
  then have "xs = [?a] \<and> m = ?b \<and> ys = []"
    by (auto simp: msg_wanted_def flag_def Cons_eq_append_conv)
  with r show ?thesis by auto
qed

text \<open>A message queue is a stack: a message that \<^verbatim>\<open>msg_queue_send\<close> accepts goes to the front of the
  list, so the next \<^verbatim>\<open>msg_queue_recv\<close> of any type delivers it, before all messages that were
  sent earlier, and leaves the list as it was.\<close>

theorem msg_queue_is_lifo:
  assumes "tbl_inv tbl" and "msg_queue_find_by_id msgid tbl = Some i" and "mq_inv (tbl ! i)"
    and "length (msg_list (tbl ! i)) \<le> MSGQ_MAX_MSGS" and "k_wait s (senders (tbl ! i)) = []"
    and "k_wait s (receivers (tbl ! i)) = []" and "unat len \<le> unat (mq_msgsz (tbl ! i))" and "unat len \<le> length text"
  shows "\<exists>tbl1 tbl2. msg_queue_send msgid (ty, text) len fl True (tbl, s) = Some (Done 0, tbl1, s)
    \<and> mq_inv (tbl1 ! i)
    \<and> msg_queue_recv msgid len 0 0 (tbl1, s) = Some (Done (uint len, Some (ty, take (unat len) text)), tbl2, s)
    \<and> msg_list (tbl2 ! i) = msg_list (tbl ! i)"
proof -
  let ?q = "tbl ! i"
  define msg where "msg = \<lparr>m_type = ty, m_length = ucast len, m_buf = take (unat len) text\<rparr>"
  define q1 where "q1 = ?q\<lparr>msg_list := msg # msg_list ?q, msgs := msgs ?q + 1\<rparr>"
  have il: "i < length tbl" using assms(1,2) by (simp add: msg_queue_find_by_id_def find_by_id_iff)
  have l: "unat len \<le> 1000" using assms(3,7) by (simp add: mq_inv_def)
  then have ul: "unat (ucast len :: u16) = unat len" by (simp add: unsigned_ucast_eq take_bit_nat_eq_self)
  have ms: "unat (msgs ?q) = length (msg_list ?q)" using assms(3) by (simp add: mq_inv_def)
  then have m1: "unat (msgs ?q + 1) = Suc (unat (msgs ?q))"
    using assms(4) by (subst unat_add_no_overflow) auto
  have nf: "\<not> msgs ?q > of_nat MSGQ_MAX_MSGS" using ms assms(4) by (simp add: word_less_nat_alt)
  have nl: "\<not> len > ucast (mq_msgsz ?q)" using assms(7) by (simp add: word_less_nat_alt unat_ucast_16_32)
  have init: "msg_init ty text len = Some msg" using assms(8) by (simp add: msg_init_def mem_load_def msg_def)
  have wk: "wait_queue_wakeup w s = Some s" if "k_wait s w = []" for w using that by (simp add: wait_queue_wakeup_def)
  have send: "msg_queue_send msgid (ty, text) len fl True (tbl, s) = Some (Done 0, tbl[i := q1], s)"
    unfolding msg_queue_send_def msg_send_body_def using nf nl init assms(2) wk[OF assms(6)]
    by (simp add: Let_def q1_def)
  have "mq_inv q1" using assms(3,4) ms m1 ul assms(8) by (auto simp: mq_inv_def q1_def msg_def)
  moreover have f1: "msg_queue_find_by_id msgid (tbl[i := q1]) = Some i"
    using tbl_inv_update(2)[OF assms(1) il, of q1 msgid] assms(2) by (simp add: q1_def msg_queue_find_by_id_def)
  have nz: "msgs q1 \<noteq> 0" using m1 by (auto simp: q1_def)
  have ld: "mem_load 0 (unat (ucast len :: u16)) (take (unat len) text) = Some (take (unat len) text)"
    unfolding ul using assms(8) by (intro mem_load_all) simp
  have ui: "uint (ucast len :: u16) = uint len" using ul by (simp only: uint_nat)
  have "msg_queue_recv msgid len 0 0 (tbl[i := q1], s) = Some (Done (uint len, Some (ty, take (unat len) text)),
      tbl[i := q1\<lparr>msg_list := msg_list ?q, msgs := msgs q1 - 1\<rparr>], s)"
    unfolding msg_queue_recv_def msg_recv_body_def Let_def
    using f1 nz il wk[OF assms(5)] ld ui by (simp add: q1_def msg_wanted_def flag_def msg_def recv_len_def)
  ultimately show ?thesis using send il by (intro exI) (auto simp: q1_def)
qed

theorem msg_queue_is_lifo_witness:
  "\<exists>tbl1 tbl2. msg_queue_send 1 (5, [8, 8, 8]) 2 0 True (demo_mq, demo_state) = Some (Done 0, tbl1, demo_state)
    \<and> msg_queue_recv 1 2 0 0 (tbl1, demo_state) = Some (Done (2, Some (5, [8, 8])), tbl2, demo_state)"
proof -
  have "length (msg_list (demo_mq ! 0)) \<le> 128" "unat (2 :: u32) \<le> unat (mq_msgsz (demo_mq ! 0))" "unat (2 :: u32) \<le> length [8, 8, 8 :: u8]"
    by (simp_all add: demo_mq_def)
  note h = demo_mq_props(4,1,2) this(1) demo_state_wait(1) demo_state_wait(1) this(2,3)
  from msg_queue_is_lifo[OF h, of 5 0] show ?thesis by auto
qed

end
