(* ===== verification/Memspace.thy ===== *)
theory Memspace
  imports OS_Prelude
begin

text \<open>
  The address spaces of processes: \<^verbatim>\<open>src/vmm/memspace.c\<close> and \<^verbatim>\<open>src/include/xbook/memspace.h\<close>.
  The singly linked list of mapped ranges is a list of nodes; each node has the address it
  was allocated at (\<open>sp_id\<close>), and \<open>freed\<close> collects the nodes handed to \<^verbatim>\<open>mem_free\<close>. Calls into
  the page tables are recorded in \<open>page_ops\<close>. Addresses are 32-bit words with the limits of
  the default configuration (\<^verbatim>\<open>CONFIG_KERN_LOWMEM\<close> is 0). \<open>Inl E_FAIL\<close> is the result -1.
\<close>

section \<open>Definitions\<close>

abbreviation (input) MEM_SPACE_MAP_FIXED :: u32 where "MEM_SPACE_MAP_FIXED \<equiv> 0x10"
abbreviation (input) MEM_SPACE_MAP_STACK :: u32 where "MEM_SPACE_MAP_STACK \<equiv> 0x20"
abbreviation (input) MEM_SPACE_MAP_HEAP :: u32 where "MEM_SPACE_MAP_HEAP \<equiv> 0x40"
abbreviation (input) MEM_SPACE_MAP_SHARED :: u32 where "MEM_SPACE_MAP_SHARED \<equiv> 0x80"
abbreviation (input) MEM_SPACE_MAP_REMAP :: u32 where "MEM_SPACE_MAP_REMAP \<equiv> 0x100"
abbreviation (input) PROT_REMAP :: u32 where "PROT_REMAP \<equiv> 0x20"
abbreviation (input) USER_VMM_SIZE :: u32 where "USER_VMM_SIZE \<equiv> 0x80000000"
abbreviation (input) USER_VMM_BASE_ADDR :: u32 where "USER_VMM_BASE_ADDR \<equiv> 0"
abbreviation (input) USER_VMM_TOP_ADDR :: u32 where "USER_VMM_TOP_ADDR \<equiv> 0x80000000"
abbreviation (input) MAX_MEM_SPACE_HEAP_SIZE :: u32 where "MAX_MEM_SPACE_HEAP_SIZE \<equiv> 0x20000000"
abbreviation (input) PAGE_SIZE :: u32 where "PAGE_SIZE \<equiv> 0x1000"
abbreviation (input) PAGE_LIMIT :: u32 where "PAGE_LIMIT \<equiv> 0xfff"

definition PAGE_ALIGN :: "u32 \<Rightarrow> u32" where
  "PAGE_ALIGN v = (v + PAGE_LIMIT) AND NOT PAGE_LIMIT"

record mem_space_t =
  sp_id :: nat
  sp_start :: u32
  sp_end :: u32
  page_prot :: u32
  sp_flags :: u32

datatype page_op =
    Map_fixed u32 u32 u32 u32
  | Map_safe u32 u32 u32
  | Unmap_safe u32 u32 bool

record vmm_t =
  mem_space_head :: "mem_space_t list"
  heap_start :: u32
  heap_end :: u32
  map_start :: u32
  map_end :: u32
  freed :: "nat list"
  page_ops :: "page_op list"

definition mem_space_init :: "nat \<Rightarrow> u32 \<Rightarrow> u32 \<Rightarrow> u32 \<Rightarrow> u32 \<Rightarrow> mem_space_t" where
  "mem_space_init n st en prot fl = \<lparr>sp_id = n, sp_start = st, sp_end = en, page_prot = prot, sp_flags = fl\<rparr>"

text \<open>The first node that ends behind \<open>addr\<close> with those behind it, and the nodes before it.\<close>

definition spaces_from :: "u32 \<Rightarrow> mem_space_t list \<Rightarrow> mem_space_t list" where
  "spaces_from addr sps = dropWhile (\<lambda>sp. \<not> addr < sp_end sp) sps"

definition mem_space_find :: "vmm_t \<Rightarrow> u32 \<Rightarrow> mem_space_t option" where
  "mem_space_find vmm addr = (case spaces_from addr (mem_space_head vmm) of [] \<Rightarrow> None | sp # _ \<Rightarrow> Some sp)"

definition mem_space_find_prev :: "vmm_t \<Rightarrow> u32 \<Rightarrow> mem_space_t option \<times> mem_space_t list" where
  "mem_space_find_prev vmm addr =
     (mem_space_find vmm addr, takeWhile (\<lambda>sp. \<not> addr < sp_end sp) (mem_space_head vmm))"

definition mem_space_find_intersection :: "vmm_t \<Rightarrow> u32 \<Rightarrow> u32 \<Rightarrow> mem_space_t option" where
  "mem_space_find_intersection vmm st en =
     (case mem_space_find vmm st of
        None \<Rightarrow> None
      | Some sp \<Rightarrow> if sp_start sp \<ge> en then None else Some sp)"

definition same_kind :: "mem_space_t \<Rightarrow> mem_space_t \<Rightarrow> bool" where
  "same_kind a b \<longleftrightarrow> page_prot a = page_prot b \<and> sp_flags a = sp_flags b"

text \<open>
  \<^verbatim>\<open>mem_space_insert\<close>. In the second merge the code frees \<^verbatim>\<open>space\<close>, the node that stays in the
  list, and not \<^verbatim>\<open>p\<close>, the node that was taken out.
\<close>

definition merge_prev :: "mem_space_t list \<Rightarrow> mem_space_t \<Rightarrow> mem_space_t list \<times> mem_space_t \<times> nat list" where
  "merge_prev pre space =
     (if pre \<noteq> [] \<and> sp_end (last pre) = sp_start space \<and> same_kind (last pre) space
      then (butlast pre, (last pre)\<lparr>sp_end := sp_end space\<rparr>, [sp_id space])
      else (pre, space, []))"

definition merge_next :: "mem_space_t \<Rightarrow> mem_space_t list \<Rightarrow> mem_space_t list \<times> nat list" where
  "merge_next space post =
     (case post of
        [] \<Rightarrow> ([space], [])
      | p # ps \<Rightarrow>
          if sp_end space = sp_start p \<and> same_kind space p
          then (space\<lparr>sp_end := sp_end p\<rparr> # ps, [sp_id space])
          else (space # post, []))"

definition mem_space_insert :: "vmm_t \<Rightarrow> mem_space_t \<Rightarrow> vmm_t" where
  "mem_space_insert vmm space =
     (let before = (\<lambda>p. \<not> sp_end space \<le> sp_start p);
          pre = takeWhile before (mem_space_head vmm); post = dropWhile before (mem_space_head vmm)
      in if sp_flags space AND MEM_SPACE_MAP_SHARED \<noteq> 0
         then vmm\<lparr>mem_space_head := pre @ space # post\<rparr>
         else let (pre1, space1, fr1) = merge_prev pre space; (post1, fr2) = merge_next space1 post
              in vmm\<lparr>mem_space_head := pre1 @ post1, freed := freed vmm @ fr1 @ fr2\<rparr>)"

fun unmaped_loop :: "mem_space_t list \<Rightarrow> u32 \<Rightarrow> u32 \<Rightarrow> u32 \<Rightarrow> u32 option" where
  "unmaped_loop [] addr len mend = Some addr"
| "unmaped_loop (sp # sps) addr len mend =
     (if USER_VMM_SIZE - len < addr + USER_VMM_BASE_ADDR then None
      else if addr + len \<ge> mend then None
      else if addr + len \<le> sp_start sp then Some addr
      else unmaped_loop sps (sp_end sp) len mend)"

definition mem_space_get_unmaped :: "vmm_t \<Rightarrow> u32 \<Rightarrow> u32 option" where
  "mem_space_get_unmaped vmm len =
     unmaped_loop (spaces_from (map_start vmm) (mem_space_head vmm)) (map_start vmm) len (map_end vmm)"

text \<open>
  The checks the two mapping functions share: the aligned length and the address to map at.
  \<open>new\<close> is the node \<^verbatim>\<open>mem_alloc\<close> returns, if any.
\<close>

definition map_checks :: "vmm_t \<Rightarrow> u32 \<Rightarrow> u32 \<Rightarrow> u32 \<Rightarrow> u32 \<Rightarrow> (u32 \<times> u32) option" where
  "map_checks vmm addr len0 prot fl =
     (let len = PAGE_ALIGN len0 in
      if prot = 0 then None
      else if len = 0 then None
      else if len > USER_VMM_SIZE \<or> addr > USER_VMM_TOP_ADDR \<or> addr > USER_VMM_TOP_ADDR - len \<or> addr < USER_VMM_BASE_ADDR
      then None
      else if fl AND MEM_SPACE_MAP_FIXED \<noteq> 0 then
        (if addr AND PAGE_LIMIT \<noteq> 0 then None
         else case mem_space_find vmm addr of
           Some p \<Rightarrow> if addr + len > sp_start p then None else Some (addr, len)
         | None \<Rightarrow> Some (addr, len))
      else map_option (\<lambda>a. (a, len)) (mem_space_get_unmaped vmm len))"

definition do_mem_space_map :: "vmm_t \<Rightarrow> u32 \<Rightarrow> u32 \<Rightarrow> u32 \<Rightarrow> u32 \<Rightarrow> u32 \<Rightarrow> nat option \<Rightarrow> u32 res \<times> vmm_t" where
  "do_mem_space_map vmm addr0 paddr len0 prot0 fl new =
     (case map_checks vmm addr0 len0 prot0 fl of
        None \<Rightarrow> (Inl E_FAIL, vmm)
      | Some (addr, len) \<Rightarrow>
          (let prot = (if fl AND MEM_SPACE_MAP_REMAP \<noteq> 0 then prot0 OR PROT_REMAP else prot0) in
           case new of
             None \<Rightarrow> (Inl E_FAIL, vmm)
           | Some n \<Rightarrow>
               (let vmm1 = mem_space_insert vmm (mem_space_init n addr (addr + len) prot fl);
                    op = (if fl AND MEM_SPACE_MAP_SHARED \<noteq> 0 then Map_fixed addr paddr len prot
                          else Map_safe addr len prot)
                in (Inr addr, vmm1\<lparr>page_ops := page_ops vmm1 @ [op]\<rparr>))))"

text \<open>The page-wise mapping of a shared kernel range; \<open>v2p\<close> is \<^verbatim>\<open>kern_vir_addr2phy_addr\<close>.\<close>

definition map_pages :: "(u32 \<Rightarrow> u32) \<Rightarrow> u32 \<Rightarrow> u32 \<Rightarrow> u32 \<Rightarrow> u32 \<Rightarrow> page_op list" where
  "map_pages v2p vstart vaddr len prot =
     map (\<lambda>k. Map_fixed (vstart + of_nat k * PAGE_SIZE) (v2p (vaddr + of_nat k * PAGE_SIZE)) PAGE_SIZE prot)
       [0..<(if vaddr < vaddr + len then unat len div 4096 else 0)]"

definition do_mem_space_map_viraddr ::
    "(u32 \<Rightarrow> u32) \<Rightarrow> vmm_t \<Rightarrow> u32 \<Rightarrow> u32 \<Rightarrow> u32 \<Rightarrow> u32 \<Rightarrow> u32 \<Rightarrow> nat option \<Rightarrow> u32 res \<times> vmm_t" where
  "do_mem_space_map_viraddr v2p vmm addr0 vaddr len0 prot0 fl new =
     (case map_checks vmm addr0 len0 prot0 fl of
        None \<Rightarrow> (Inl E_FAIL, vmm)
      | Some (addr, len) \<Rightarrow>
          (let prot = (if fl AND MEM_SPACE_MAP_REMAP \<noteq> 0 then prot0 OR PROT_REMAP else prot0) in
           case new of
             None \<Rightarrow> (Inl E_FAIL, vmm)
           | Some n \<Rightarrow>
               (let vmm1 = mem_space_insert vmm (mem_space_init n addr (addr + len) prot fl);
                    ops = (if fl AND MEM_SPACE_MAP_SHARED \<noteq> 0 then map_pages v2p addr vaddr len prot
                           else [Map_safe addr len prot])
                in (Inr addr, vmm1\<lparr>page_ops := page_ops vmm1 @ ops\<rparr>))))"

text \<open>
  \<^verbatim>\<open>do_mem_space_unmap\<close>. The second half of the split node gets its bounds but neither its
  protection nor its flags: it keeps \<open>junk\<close>, what the allocated memory held.
\<close>

definition do_mem_space_unmap :: "vmm_t \<Rightarrow> u32 \<Rightarrow> u32 \<Rightarrow> nat option \<Rightarrow> u32 \<times> u32 \<Rightarrow> u32 res \<times> vmm_t" where
  "do_mem_space_unmap vmm addr len0 new junk =
     (if addr AND PAGE_LIMIT \<noteq> 0 \<or> addr > USER_VMM_TOP_ADDR \<or> addr > USER_VMM_TOP_ADDR - len0 \<or> addr < USER_VMM_BASE_ADDR
      then (Inl E_FAIL, vmm)
      else let len = PAGE_ALIGN len0 in
        if len = 0 then (Inl E_FAIL, vmm)
        else case spaces_from addr (mem_space_head vmm) of
          [] \<Rightarrow> (Inl E_FAIL, vmm)
        | space # post \<Rightarrow>
            if addr < sp_start space \<or> addr + len > sp_end space then (Inr 0, vmm)
            else
              (let vmm1 = vmm\<lparr>page_ops := page_ops vmm @ [Unmap_safe addr len (sp_flags space AND MEM_SPACE_MAP_SHARED \<noteq> 0)]\<rparr> in
               case new of
                 None \<Rightarrow> (Inl E_FAIL, vmm1)
               | Some n \<Rightarrow>
                   (let pre = snd (mem_space_find_prev vmm addr);
                        space_new = \<lparr>sp_id = n, sp_start = addr + len, sp_end = sp_end space,
                                     page_prot = fst junk, sp_flags = snd junk\<rparr>;
                        space1 = space\<lparr>sp_end := addr\<rparr>;
                        (l1, f1) = (if sp_start space1 = sp_end space1 then ([], [sp_id space1]) else ([space1], []));
                        (l2, f2) = (if sp_start space_new = sp_end space_new then ([], [n]) else ([space_new], []))
                    in (Inr 0, vmm1\<lparr>mem_space_head := pre @ l1 @ l2 @ post, freed := freed vmm @ f1 @ f2\<rparr>))))"

definition mem_space_mmap :: "vmm_t \<Rightarrow> u32 \<Rightarrow> u32 \<Rightarrow> u32 \<Rightarrow> u32 \<Rightarrow> u32 \<Rightarrow> nat option \<Rightarrow> u32 res \<times> vmm_t" where
  "mem_space_mmap = do_mem_space_map"

definition mem_space_unmmap :: "vmm_t \<Rightarrow> u32 \<Rightarrow> u32 \<Rightarrow> nat option \<Rightarrow> u32 \<times> u32 \<Rightarrow> u32 res \<times> vmm_t" where
  "mem_space_unmmap = do_mem_space_unmap"

text \<open>\<open>n1\<close> and \<open>n2\<close> are the nodes the two allocations on the way return.\<close>

definition do_mem_space_expend_heap :: "vmm_t \<Rightarrow> u32 \<Rightarrow> u32 \<Rightarrow> nat option \<Rightarrow> nat option \<Rightarrow> u32 \<times> u32 \<Rightarrow> u32 res \<times> vmm_t" where
  "do_mem_space_expend_heap vmm addr len0 n1 n2 junk =
     (let len = PAGE_ALIGN len0 in
      if len = 0 then (Inr addr, vmm)
      else case do_mem_space_unmap vmm addr len n1 junk of
        (Inl e, vmm1) \<Rightarrow> (Inl e, vmm1)
      | (Inr _, vmm1) \<Rightarrow>
          (case (if addr = 0 then [] else spaces_from (addr - 1) (mem_space_head vmm1)) of
             sp # post \<Rightarrow>
               if sp_end sp = addr \<and> sp_flags sp = MEM_SPACE_MAP_HEAP
               then (Inr addr, vmm1\<lparr>mem_space_head :=
                      takeWhile (\<lambda>sp. \<not> addr - 1 < sp_end sp) (mem_space_head vmm1) @ sp\<lparr>sp_end := addr + len\<rparr> # post\<rparr>)
               else (case n2 of
                  None \<Rightarrow> (Inl E_FAIL, vmm1)
                | Some n \<Rightarrow> (Inr addr, mem_space_insert vmm1 (mem_space_init n addr (addr + len) 0x16 MEM_SPACE_MAP_HEAP)))
           | [] \<Rightarrow> (case n2 of
                  None \<Rightarrow> (Inl E_FAIL, vmm1)
                | Some n \<Rightarrow> (Inr addr, mem_space_insert vmm1 (mem_space_init n addr (addr + len) 0x16 MEM_SPACE_MAP_HEAP)))))"

definition sys_mem_space_expend_heap :: "vmm_t \<Rightarrow> u32 \<Rightarrow> nat option \<Rightarrow> nat option \<Rightarrow> u32 \<times> u32 \<Rightarrow> u32 \<times> vmm_t" where
  "sys_mem_space_expend_heap vmm heap n1 n2 junk =
     (if heap < heap_start vmm then (heap_end vmm, vmm)
      else let new_heap = PAGE_ALIGN heap; old_heap = PAGE_ALIGN (heap_end vmm) in
        if new_heap = old_heap then (heap, vmm\<lparr>heap_end := heap\<rparr>)
        else if heap \<le> heap_end vmm \<and> heap \<ge> heap_start vmm then
          (case do_mem_space_unmap vmm new_heap (old_heap - new_heap) n1 junk of
             (Inr r, vmm1) \<Rightarrow> if r = 0 then (heap, vmm1\<lparr>heap_end := heap\<rparr>) else (heap_end vmm1, vmm1)
           | (Inl _, vmm1) \<Rightarrow> (heap_end vmm1, vmm1))
        else if heap > heap_start vmm + MAX_MEM_SPACE_HEAP_SIZE then (heap_end vmm, vmm)
        else if mem_space_find_intersection vmm old_heap (new_heap + PAGE_SIZE) \<noteq> None then (heap_end vmm, vmm)
        else case do_mem_space_expend_heap vmm old_heap (new_heap - old_heap) n1 n2 junk of
          (Inr r, vmm1) \<Rightarrow> if r = old_heap then (heap, vmm1\<lparr>heap_end := heap\<rparr>) else (heap_end vmm1, vmm1)
        | (Inl _, vmm1) \<Rightarrow> (heap_end vmm1, vmm1))"


section \<open>Well-formed address spaces\<close>

definition spaces_wf :: "mem_space_t list \<Rightarrow> bool" where
  "spaces_wf sps \<longleftrightarrow> (\<forall>sp \<in> set sps. sp_start sp < sp_end sp) \<and> sorted_wrt (\<lambda>a b. sp_end a \<le> sp_start b) sps"

definition covers :: "mem_space_t list \<Rightarrow> u32 set" where
  "covers sps = (\<Union>sp \<in> set sps. {sp_start sp..<sp_end sp})"

lemma covers_simps [simp]:
  "covers [] = {}" "covers (sp # sps) = {sp_start sp..<sp_end sp} \<union> covers sps"
  "covers (xs @ ys) = covers xs \<union> covers ys"
  by (auto simp: covers_def)

lemma spaces_wf_simps:
  "spaces_wf (sp # sps) \<longleftrightarrow> sp_start sp < sp_end sp \<and> (\<forall>q \<in> set sps. sp_end sp \<le> sp_start q) \<and> spaces_wf sps"
  "spaces_wf (xs @ ys) \<longleftrightarrow> spaces_wf xs \<and> spaces_wf ys \<and> (\<forall>x \<in> set xs. \<forall>y \<in> set ys. sp_end x \<le> sp_start y)"
  "spaces_wf []"
  by (auto simp: spaces_wf_def sorted_wrt_append)

lemma merge_ok:
  assumes "spaces_wf (xs @ a # b # ys)" "sp_end a = sp_start b"
  shows "spaces_wf (xs @ a\<lparr>sp_end := sp_end b\<rparr> # ys)"
    "covers (xs @ a\<lparr>sp_end := sp_end b\<rparr> # ys) = covers (xs @ a # b # ys)"
  using assms by (auto simp: spaces_wf_simps)

lemma wf_insert:
  assumes wf: "spaces_wf sps" and ne: "sp_start sp < sp_end sp"
    and dis: "\<forall>q \<in> set sps. sp_end q \<le> sp_start sp \<or> sp_end sp \<le> sp_start q"
  defines "pre \<equiv> takeWhile (\<lambda>p. \<not> sp_end sp \<le> sp_start p) sps"
    and "post \<equiv> dropWhile (\<lambda>p. \<not> sp_end sp \<le> sp_start p) sps"
  shows "spaces_wf (pre @ sp # post)" "covers (pre @ sp # post) = covers sps \<union> {sp_start sp..<sp_end sp}"
proof -
  have sps: "pre @ post = sps" by (simp add: pre_def post_def)
  have wf': "spaces_wf (pre @ post)" using wf sps by simp
  have 1: "sp_end q \<le> sp_start sp" if "q \<in> set pre" for q
    using that dis by (auto simp: pre_def dest: set_takeWhileD)
  have 2: "sp_end sp \<le> sp_start q" if "q \<in> set post" for q
  proof (cases post)
    case (Cons p ps)
    then have "sp_end sp \<le> sp_start p" unfolding post_def by (metis hd_dropWhile list.discI list.sel(1))
    moreover have "sp_start p < sp_end p" "\<forall>q \<in> set ps. sp_end p \<le> sp_start q"
      using wf' Cons by (auto simp: spaces_wf_simps)
    ultimately show ?thesis using that Cons by (auto dest: order_trans order_less_imp_le)
  qed (use that in simp)
  show "spaces_wf (pre @ sp # post)" using wf' ne 1 2 by (auto simp: spaces_wf_simps)
  have "covers sps = covers pre \<union> covers post" by (metis sps covers_simps(3))
  then show "covers (pre @ sp # post) = covers sps \<union> {sp_start sp..<sp_end sp}" by auto
qed

lemma merge_prev_ok:
  assumes "spaces_wf (pre @ sp # post)" "merge_prev pre sp = (pre1, sp1, fr)"
  shows "spaces_wf (pre1 @ sp1 # post)" "covers (pre1 @ sp1 # post) = covers (pre @ sp # post)"
proof -
  have "spaces_wf (pre1 @ sp1 # post) \<and> covers (pre1 @ sp1 # post) = covers (pre @ sp # post)"
  proof (cases "pre \<noteq> [] \<and> sp_end (last pre) = sp_start sp \<and> same_kind (last pre) sp")
    case True
    then have e: "pre @ sp # post = butlast pre @ last pre # sp # post" by simp
    have r: "pre1 = butlast pre" "sp1 = (last pre)\<lparr>sp_end := sp_end sp\<rparr>" using True assms(2) by (auto simp: merge_prev_def)
    show ?thesis unfolding e r using merge_ok[of "butlast pre" "last pre" sp post] True assms(1) e by metis
  qed (use assms in \<open>auto simp: merge_prev_def\<close>)
  then show "spaces_wf (pre1 @ sp1 # post)" "covers (pre1 @ sp1 # post) = covers (pre @ sp # post)" by auto
qed

lemma merge_next_ok:
  assumes "spaces_wf (pre @ sp # post)" "merge_next sp post = (post1, fr)"
  shows "spaces_wf (pre @ post1)" "covers (pre @ post1) = covers (pre @ sp # post)"
proof -
  have "spaces_wf (pre @ post1) \<and> covers (pre @ post1) = covers (pre @ sp # post)"
  proof (cases "\<exists>p ps. post = p # ps \<and> sp_end sp = sp_start p \<and> same_kind sp p")
    case True
    then obtain p ps where p: "post = p # ps" "sp_end sp = sp_start p" "same_kind sp p" by blast
    then have r: "post1 = sp\<lparr>sp_end := sp_end p\<rparr> # ps" using assms(2) by (auto simp: merge_next_def)
    show ?thesis unfolding r p(1) using merge_ok[of pre sp p ps] p assms(1) by metis
  next
    case False
    then have "post1 = sp # post" using assms(2) by (auto simp: merge_next_def split: list.splits if_splits)
    with assms(1) show ?thesis by simp
  qed
  then show "spaces_wf (pre @ post1)" "covers (pre @ post1) = covers (pre @ sp # post)" by auto
qed

lemma mem_space_insert_ok:
  assumes "spaces_wf (mem_space_head vmm)" "sp_start sp < sp_end sp"
    and "\<forall>q \<in> set (mem_space_head vmm). sp_end q \<le> sp_start sp \<or> sp_end sp \<le> sp_start q"
  shows "spaces_wf (mem_space_head (mem_space_insert vmm sp))"
    "covers (mem_space_head (mem_space_insert vmm sp)) = covers (mem_space_head vmm) \<union> {sp_start sp..<sp_end sp}"
proof -
  define pre where "pre = takeWhile (\<lambda>p. \<not> sp_end sp \<le> sp_start p) (mem_space_head vmm)"
  define post where "post = dropWhile (\<lambda>p. \<not> sp_end sp \<le> sp_start p) (mem_space_head vmm)"
  note w = wf_insert[OF assms, folded pre_def post_def]
  obtain pre1 sp1 fr1 where m1: "merge_prev pre sp = (pre1, sp1, fr1)" by (cases "merge_prev pre sp") auto
  obtain post1 fr2 where m2: "merge_next sp1 post = (post1, fr2)" by (cases "merge_next sp1 post") auto
  note p = merge_prev_ok[OF w(1) m1]
  note n = merge_next_ok[OF p(1) m2]
  have "mem_space_head (mem_space_insert vmm sp) = pre @ sp # post
    \<or> mem_space_head (mem_space_insert vmm sp) = pre1 @ post1"
    using m1 m2 by (simp add: mem_space_insert_def Let_def pre_def[symmetric] post_def[symmetric])
  then show "spaces_wf (mem_space_head (mem_space_insert vmm sp))"
    "covers (mem_space_head (mem_space_insert vmm sp)) = covers (mem_space_head vmm) \<union> {sp_start sp..<sp_end sp}"
    using w p n by auto
qed


lemma spaces_from_split:
  "sps = takeWhile (\<lambda>sp. \<not> addr < sp_end sp) sps @ spaces_from addr sps"
  by (simp add: spaces_from_def)

lemma spaces_from_Cons:
  assumes "spaces_wf sps" "spaces_from addr sps = sp # post"
  shows "sps = takeWhile (\<lambda>sp. \<not> addr < sp_end sp) sps @ sp # post" "addr < sp_end sp"
    "\<forall>q \<in> set sps. addr < sp_end q \<longrightarrow> sp_start sp \<le> sp_start q"
proof -
  let ?pre = "takeWhile (\<lambda>sp. \<not> addr < sp_end sp) sps"
  show e: "sps = ?pre @ sp # post" using spaces_from_split[of sps addr] assms(2) by simp
  show "addr < sp_end sp" using assms(2) unfolding spaces_from_def by (metis hd_dropWhile list.discI list.sel(1))
  have "\<forall>q \<in> set post. sp_start sp \<le> sp_start q"
    using assms(1) by (subst (asm) e) (auto simp: spaces_wf_simps intro: order_trans order_less_imp_le)
  moreover have "\<forall>q \<in> set ?pre. \<not> addr < sp_end q" by (auto dest: set_takeWhileD)
  ultimately show "\<forall>q \<in> set sps. addr < sp_end q \<longrightarrow> sp_start sp \<le> sp_start q" by (subst e) auto
qed

lemma spaces_from_Nil: "spaces_from addr sps = [] \<Longrightarrow> q \<in> set sps \<Longrightarrow> sp_end q \<le> addr"
  by (auto simp: spaces_from_def)

text \<open>The test for a fixed address leaves room before the next range.\<close>

lemma fixed_checks_disjoint:
  assumes wf: "spaces_wf (mem_space_head vmm)" and fx: "fl AND MEM_SPACE_MAP_FIXED \<noteq> 0"
    and ok: "map_checks vmm addr len0 prot fl = Some (a, len)"
  shows "a = addr \<and> a < a + len \<and> a + len \<le> USER_VMM_TOP_ADDR
    \<and> (\<forall>q \<in> set (mem_space_head vmm). sp_end q \<le> a \<or> a + len \<le> sp_start q)"
proof -
  from ok fx have len: "len = PAGE_ALIGN len0" "len \<noteq> 0" "\<not> len > USER_VMM_SIZE" "\<not> addr > USER_VMM_TOP_ADDR - len" "a = addr"
    and fd: "\<forall>p. mem_space_find vmm addr = Some p \<longrightarrow> a + len \<le> sp_start p"
    by (auto simp: map_checks_def Let_def split: if_splits option.splits)
  have s: "addr + len \<le> 0x80000000" "addr < addr + len"
  proof -
    have l: "unat len \<le> 0x80000000" using len(3) by (simp add: word_le_nat_alt not_less)
    have "unat (0x80000000 - len) = 0x80000000 - unat len" using len(3) by (subst unat_sub) auto
    then have ua: "unat addr + unat len \<le> 0x80000000" using len(4) l by (simp add: word_le_nat_alt not_less)
    then have "unat (addr + len) = unat addr + unat len" by (intro unat_add_no_overflow) simp
    moreover have "unat len > 0" using len(2) by (simp add: unat_gt_0)
    ultimately show "addr + len \<le> 0x80000000" "addr < addr + len"
      using ua by (simp_all add: word_le_nat_alt word_less_nat_alt)
  qed
  have "\<forall>q \<in> set (mem_space_head vmm). sp_end q \<le> a \<or> a + len \<le> sp_start q"
  proof (cases "spaces_from addr (mem_space_head vmm)")
    case Nil
    then show ?thesis using spaces_from_Nil len(5) by auto
  next
    case (Cons p ps)
    then have "a + len \<le> sp_start p" using fd by (simp add: mem_space_find_def)
    then show ?thesis using spaces_from_Cons(3)[OF wf Cons] len(5) by (meson leI order_trans)
  qed
  with s len(5) show ?thesis by auto
qed

section \<open>Properties\<close>

text \<open>C10: mapping at a fixed address adds exactly the requested range: when \<^verbatim>\<open>do_mem_space_map\<close> with
  \<^verbatim>\<open>MEM_SPACE_MAP_FIXED\<close> succeeds, the range was free, lies in user space, is mapped
  afterwards together with everything that was mapped before, and the list of ranges
  stays sorted and free of overlaps.\<close>

theorem do_mem_space_map_fixed:
  assumes "spaces_wf (mem_space_head vmm)" and "fl AND MEM_SPACE_MAP_FIXED \<noteq> 0"
    and "do_mem_space_map vmm addr paddr len prot fl new = (Inr a, vmm')"
  shows "a = addr \<and> spaces_wf (mem_space_head vmm') \<and> a + PAGE_ALIGN len \<le> USER_VMM_TOP_ADDR
    \<and> covers (mem_space_head vmm) \<inter> {a..<a + PAGE_ALIGN len} = {}
    \<and> covers (mem_space_head vmm') = covers (mem_space_head vmm) \<union> {a..<a + PAGE_ALIGN len}"
proof -
  obtain l n where c: "map_checks vmm addr len prot fl = Some (a, l)" "new = Some n" "l = PAGE_ALIGN len"
    using assms(3) by (auto simp: do_mem_space_map_def map_checks_def Let_def split: option.splits if_splits)
  note d = fixed_checks_disjoint[OF assms(1,2) c(1)]
  define p where "p = (if fl AND MEM_SPACE_MAP_REMAP \<noteq> 0 then prot OR PROT_REMAP else prot)"
  let ?sp = "mem_space_init n a (a + l) p fl"
  have h: "mem_space_head vmm' = mem_space_head (mem_space_insert vmm ?sp)"
    using assms(3) c by (auto simp: do_mem_space_map_def Let_def p_def)
  have sp: "sp_start ?sp = a" "sp_end ?sp = a + l" by (simp_all add: mem_space_init_def)
  note i = mem_space_insert_ok[OF assms(1), of ?sp, unfolded sp]
  have "covers (mem_space_head vmm) \<inter> {a..<a + l} = {}"
    using d by (fastforce simp: covers_def)
  with d i c(3) show ?thesis unfolding h by blast
qed

definition demo_vmm :: "vmm_t" where
  "demo_vmm = \<lparr>mem_space_head = [mem_space_init 1 0x1000 0x3000 0x12 0, mem_space_init 2 0x8000 0x9000 0x12 0],
     heap_start = 0x20000, heap_end = 0x20000, map_start = 0x60000000, map_end = 0x70000000, freed = [], page_ops = []\<rparr>"

lemma demo_vmm_wf: "spaces_wf (mem_space_head demo_vmm)"
  by (simp add: demo_vmm_def spaces_wf_simps mem_space_init_def)

theorem do_mem_space_map_fixed_witness:
  "\<exists>vmm'. do_mem_space_map demo_vmm 0x4000 0 0x800 0x12 0x10 (Some 3) = (Inr 0x4000, vmm')
    \<and> covers (mem_space_head vmm') = covers (mem_space_head demo_vmm) \<union> {0x4000..<0x5000}"
proof -
  have "fst (do_mem_space_map demo_vmm 0x4000 0 0x800 0x12 0x10 (Some 3)) = Inr 0x4000"
    by (simp add: do_mem_space_map_def map_checks_def PAGE_ALIGN_def Let_def mem_space_find_def spaces_from_def
        demo_vmm_def mem_space_init_def)
  then obtain vmm' where r: "do_mem_space_map demo_vmm 0x4000 0 0x800 0x12 0x10 (Some 3) = (Inr 0x4000, vmm')"
    by (metis prod.collapse)
  have "PAGE_ALIGN 0x800 = 0x1000" "(0x10 :: u32) AND 0x10 \<noteq> 0" by (simp_all add: PAGE_ALIGN_def)
  with do_mem_space_map_fixed[OF demo_vmm_wf _ r] r show ?thesis by simp
qed

lemma PAGE_ALIGN_le:
  assumes "unat len \<le> 0x80000000"
  shows "unat (PAGE_ALIGN len) \<le> unat len + 4095"
proof -
  have "unat (PAGE_ALIGN len) \<le> unat (len + 0xfff)" unfolding PAGE_ALIGN_def word_le_nat_alt[symmetric] by (rule word_and_le2)
  also have "\<dots> = unat len + 4095" using assms by (subst unat_add_no_overflow) auto
  finally show ?thesis .
qed

lemma unmap_end:
  assumes "unat len0 \<le> 0x80000000" "\<not> addr > 0x80000000 - len0" "PAGE_ALIGN len0 \<noteq> 0"
  shows "addr < addr + PAGE_ALIGN len0"
proof -
  have "len0 \<le> 0x80000000" using assms(1) by (simp add: word_le_nat_alt)
  then have "unat (0x80000000 - len0) = 0x80000000 - unat len0" by (subst unat_sub) auto
  then have "unat addr + unat len0 \<le> 0x80000000" using assms(1,2) by (simp add: word_le_nat_alt not_less)
  then have "unat (addr + PAGE_ALIGN len0) = unat addr + unat (PAGE_ALIGN len0)"
    using PAGE_ALIGN_le[OF assms(1)] by (intro unat_add_no_overflow) simp
  then show ?thesis using assms(3) by (simp add: word_less_nat_alt unat_gt_0)
qed

text \<open>C11: unmapping a range inside one mapped range removes exactly that range, whether it touches
  the ends or splits the range, and the list stays sorted and free of overlaps.\<close>

theorem do_mem_space_unmap_exact:
  assumes "spaces_wf (mem_space_head vmm)" and "unat len \<le> 0x80000000"
    and "spaces_from addr (mem_space_head vmm) = space # post"
    and "sp_start space \<le> addr" and "addr + PAGE_ALIGN len \<le> sp_end space"
    and "do_mem_space_unmap vmm addr len (Some n) junk = (Inr r, vmm')"
  shows "spaces_wf (mem_space_head vmm')
    \<and> covers (mem_space_head vmm') = covers (mem_space_head vmm) - {addr..<addr + PAGE_ALIGN len}"
proof -
  let ?e = "addr + PAGE_ALIGN len"
  let ?pre = "takeWhile (\<lambda>sp. \<not> addr < sp_end sp) (mem_space_head vmm)"
  note sf = spaces_from_Cons[OF assms(1,3)]
  define l1 where "l1 = (if sp_start space = addr then [] else [space\<lparr>sp_end := addr\<rparr>])"
  define l2 where "l2 = (if ?e = sp_end space then [] else
    [\<lparr>sp_id = n, sp_start = ?e, sp_end = sp_end space, page_prot = fst junk, sp_flags = snd junk\<rparr>])"
  from assms(6) have c: "\<not> addr > 0x80000000 - len" "PAGE_ALIGN len \<noteq> 0"
    by (auto simp: do_mem_space_unmap_def Let_def split: if_splits)
  from unmap_end[OF assms(2) c] have lt: "addr < ?e" .
  have h: "mem_space_head vmm' = ?pre @ l1 @ l2 @ post"
    using assms(3-6) unfolding do_mem_space_unmap_def
    by (auto simp: Let_def mem_space_find_prev_def l1_def l2_def not_less split: if_splits)
  have wf: "spaces_wf (?pre @ space # post)" using assms(1) sf(1) by metis
  have cov: "covers (mem_space_head vmm) = covers ?pre \<union> ({sp_start space..<sp_end space} \<union> covers post)"
    by (subst sf(1)) simp
  have out: "x \<notin> covers ?pre" "x \<notin> covers post" if "x \<in> {addr..<?e}" for x
    using that wf assms(4,5) by (auto simp: spaces_wf_simps covers_def dest!: set_takeWhileD)
  have wl: "spaces_wf (?pre @ l1 @ l2 @ post)"
    using wf assms(4,5) lt sf(2) unfolding l1_def l2_def spaces_wf_simps
    by (auto simp: spaces_wf_simps)
  have "covers l1 \<union> covers l2 = {sp_start space..<sp_end space} - {addr..<?e}"
    using assms(4,5) lt by (auto simp: l1_def l2_def)
  then have "covers (mem_space_head vmm') = covers (mem_space_head vmm) - {addr..<?e}"
    unfolding h cov using out by auto
  with wl show ?thesis unfolding h by simp
qed

theorem do_mem_space_unmap_exact_witness:
  "\<exists>vmm'. do_mem_space_unmap demo_vmm 0x1000 0x1000 (Some 3) (0, 0) = (Inr 0, vmm')
    \<and> covers (mem_space_head vmm') = covers (mem_space_head demo_vmm) - {0x1000..<0x2000}"
proof -
  let ?sp = "mem_space_init 1 0x1000 0x3000 0x12 0" and ?post = "[mem_space_init 2 0x8000 0x9000 0x12 0]"
  have al: "PAGE_ALIGN 0x1000 = 0x1000" by (simp add: PAGE_ALIGN_def)
  have sf: "spaces_from 0x1000 (mem_space_head demo_vmm) = ?sp # ?post"
    by (simp add: spaces_from_def demo_vmm_def mem_space_init_def)
  have "fst (do_mem_space_unmap demo_vmm 0x1000 0x1000 (Some 3) (0, 0)) = Inr 0"
    by (simp add: do_mem_space_unmap_def Let_def al sf mem_space_init_def split: prod.splits)
  then obtain vmm' where r: "do_mem_space_unmap demo_vmm 0x1000 0x1000 (Some 3) (0, 0) = (Inr 0, vmm')"
    by (metis prod.collapse)
  have "sp_start ?sp \<le> 0x1000" "0x1000 + PAGE_ALIGN 0x1000 \<le> sp_end ?sp" "unat (0x1000 :: u32) \<le> 0x80000000"
    unfolding al by (simp_all add: mem_space_init_def)
  from do_mem_space_unmap_exact[OF demo_vmm_wf this(3) sf this(1,2) r] r show ?thesis unfolding al by simp
qed

text \<open>The address check of \<^verbatim>\<open>do_mem_space_unmap\<close> wraps around for lengths above the user space: an
  unmap of 0x90000000 bytes at 0x78000000 is accepted, and afterwards addresses far below
  that were never mapped belong to the address space.\<close>

theorem do_mem_space_unmap_wraps:
  "\<exists>vmm'. do_mem_space_unmap (demo_vmm\<lparr>mem_space_head := [mem_space_init 1 0x78000000 0x78002000 0x12 0]\<rparr>)
      0x78000000 0x90000000 (Some 3) junk = (Inr 0, vmm') \<and> 0x10000000 \<in> covers (mem_space_head vmm')"
proof -
  have al: "PAGE_ALIGN 0x90000000 = 0x90000000" by (simp add: PAGE_ALIGN_def)
  show ?thesis
    by (simp add: do_mem_space_unmap_def Let_def al spaces_from_def mem_space_init_def mem_space_find_prev_def)
qed

text \<open>When a new range ends where the next range of the same kind starts, \<^verbatim>\<open>mem_space_insert\<close> merges
  the two and then frees the node that it keeps in the list.\<close>

theorem mem_space_insert_frees_linked:
  assumes "mem_space_head vmm = pre @ p # ps" and "\<forall>q \<in> set pre. sp_end q < sp_start sp"
    and "\<forall>q \<in> set pre. \<not> sp_end sp \<le> sp_start q" and "sp_end sp = sp_start p" and "same_kind sp p"
    and "sp_flags sp AND MEM_SPACE_MAP_SHARED = 0"
  shows "sp\<lparr>sp_end := sp_end p\<rparr> \<in> set (mem_space_head (mem_space_insert vmm sp))
    \<and> sp_id sp \<in> set (freed (mem_space_insert vmm sp))"
proof -
  have tw: "takeWhile (\<lambda>p. \<not> sp_end sp \<le> sp_start p) (pre @ p # ps) = pre"
    "dropWhile (\<lambda>p. \<not> sp_end sp \<le> sp_start p) (pre @ p # ps) = p # ps"
    using assms(3,4) by (simp_all add: takeWhile_append2 dropWhile_append2)
  have "\<not> (pre \<noteq> [] \<and> sp_end (last pre) = sp_start sp \<and> same_kind (last pre) sp)"
    using assms(2) by (metis last_in_set less_irrefl)
  then have "merge_prev pre sp = (pre, sp, [])" by (simp add: merge_prev_def)
  moreover have "merge_next sp (p # ps) = (sp\<lparr>sp_end := sp_end p\<rparr> # ps, [sp_id sp])"
    using assms(4,5) by (simp add: merge_next_def)
  ultimately show ?thesis using tw assms(6) by (simp add: mem_space_insert_def assms(1) Let_def)
qed

theorem mem_space_insert_frees_linked_witness:
  "7 \<in> sp_id ` set (mem_space_head (mem_space_insert demo_vmm (mem_space_init 7 0x7000 0x8000 0x12 0)))
    \<and> 7 \<in> set (freed (mem_space_insert demo_vmm (mem_space_init 7 0x7000 0x8000 0x12 0)))"
proof -
  let ?pre = "[mem_space_init 1 0x1000 0x3000 0x12 0]" and ?p = "mem_space_init 2 0x8000 0x9000 0x12 0"
  let ?sp = "mem_space_init 7 0x7000 0x8000 0x12 0"
  have "mem_space_head demo_vmm = ?pre @ ?p # []" by (simp add: demo_vmm_def)
  moreover have "\<forall>q \<in> set ?pre. sp_end q < sp_start ?sp" "\<forall>q \<in> set ?pre. \<not> sp_end ?sp \<le> sp_start q"
    "sp_end ?sp = sp_start ?p" "same_kind ?sp ?p" "sp_flags ?sp AND MEM_SPACE_MAP_SHARED = 0"
    by (simp_all add: mem_space_init_def same_kind_def)
  ultimately have "?sp\<lparr>sp_end := sp_end ?p\<rparr> \<in> set (mem_space_head (mem_space_insert demo_vmm ?sp))"
    "sp_id ?sp \<in> set (freed (mem_space_insert demo_vmm ?sp))"
    using mem_space_insert_frees_linked[of demo_vmm ?pre ?p "[]" ?sp] by auto
  moreover have "sp_id (?sp\<lparr>sp_end := sp_end ?p\<rparr>) = 7" "sp_id ?sp = 7" by (simp_all add: mem_space_init_def)
  ultimately show ?thesis by (metis image_eqI)
qed

end
