(* ===== verification/Ipc_Sharemem.thy ===== *)
theory Ipc_Sharemem
  imports Ipc_Table Memspace
begin

text \<open>
  Shared memory: \<^verbatim>\<open>src/ipc/sharemem.c\<close>, and the parts of \<^verbatim>\<open>src/vmm/vmm.c\<close> that keep its
  reference counts when an address space is copied or released. The page tables are a
  function \<open>v2p\<close> (\<^verbatim>\<open>addr_vir2phy\<close>, 0 for an unmapped address); the results of the page
  allocator are arguments. \<open>None\<close> is a null-pointer access.
\<close>

section \<open>Definitions\<close>

abbreviation (input) MAX_SHARE_MEM_NR :: nat where "MAX_SHARE_MEM_NR \<equiv> 128"
abbreviation (input) MAX_SHARE_MEM_SIZE :: u32 where "MAX_SHARE_MEM_SIZE \<equiv> 0x800000"
abbreviation (input) SHARE_MEM_PRIVATE :: u32 where "SHARE_MEM_PRIVATE \<equiv> 1"

record share_mem_t = ipc_ent +
  page_addr :: u32
  npages :: u32
  shm_flags :: u32
  links :: int

type_synonym shm_tbl = "share_mem_t list"

definition share_mem_find_by_name :: "u8 list \<Rightarrow> shm_tbl \<Rightarrow> nat option" where
  "share_mem_find_by_name = find_by_name"

definition share_mem_find_by_id :: "int \<Rightarrow> shm_tbl \<Rightarrow> nat option" where
  "share_mem_find_by_id = find_by_id"

definition share_mem_find_by_addr :: "u32 \<Rightarrow> shm_tbl \<Rightarrow> nat option" where
  "share_mem_find_by_addr addr tbl = scan_index (\<lambda>e. in_use e \<and> page_addr e = addr) tbl"

definition share_mem_alloc :: "u8 list \<Rightarrow> u32 \<Rightarrow> shm_tbl \<Rightarrow> nat option \<times> shm_tbl" where
  "share_mem_alloc name sz tbl =
     (case find_free tbl of
        None \<Rightarrow> (None, tbl)
      | Some i \<Rightarrow>
          (let sz1 = (if sz = 0 then 1 else sz) in
           (Some i, tbl[i := (tbl ! i)\<lparr>npages := PAGE_ALIGN sz1 div PAGE_SIZE, page_addr := 0, shm_flags := 0,
                                     ent_name := name_field name\<rparr>])))"

text \<open>\<open>page_free_ok\<close> tells whether \<^verbatim>\<open>page_free\<close> succeeds.\<close>

definition share_mem_free :: "bool \<Rightarrow> nat \<Rightarrow> shm_tbl \<Rightarrow> int \<times> shm_tbl" where
  "share_mem_free page_free_ok i tbl =
     (if page_addr (tbl ! i) \<noteq> 0 \<and> \<not> flag (shm_flags (tbl ! i)) SHARE_MEM_PRIVATE \<and> \<not> page_free_ok then (-1, tbl)
      else (0, tbl[i := (tbl ! i)\<lparr>ent_name := name_clear\<rparr>]))"

definition share_mem_get :: "u8 list \<Rightarrow> u32 \<Rightarrow> u32 \<Rightarrow> shm_tbl \<Rightarrow> int \<times> shm_tbl" where
  "share_mem_get name sz flags tbl =
     (if sz > 0 \<and> PAGE_ALIGN sz \<ge> MAX_SHARE_MEM_SIZE then (-1, tbl)
      else if flag flags IPC_CREAT then
        (let craete_new = flag flags IPC_EXCL in
         case share_mem_find_by_name name tbl of
           Some i \<Rightarrow> if craete_new then (-1, tbl) else (uint (ent_id (tbl ! i)), tbl)
         | None \<Rightarrow>
             (case share_mem_alloc name sz tbl of
                (None, tbl') \<Rightarrow> (-1, tbl')
              | (Some i, tbl') \<Rightarrow> (uint (ent_id (tbl' ! i)), tbl')))
      else (-1, tbl))"

text \<open>\<open>pages\<close> is what \<^verbatim>\<open>page_alloc_user\<close> returns (0 for failure), \<open>new\<close> the node for the mapping.\<close>

definition share_mem_map :: "(u32 \<Rightarrow> u32) \<Rightarrow> u32 \<Rightarrow> nat option \<Rightarrow> int \<Rightarrow> u32 \<Rightarrow> u32 \<Rightarrow> shm_tbl \<times> vmm_t
    \<Rightarrow> u32 res \<times> shm_tbl \<times> vmm_t" where
  "share_mem_map v2p pages new shmid shmaddr shmflg st =
     (case st of (tbl, vmm) \<Rightarrow>
      case share_mem_find_by_id shmid tbl of
        None \<Rightarrow> (Inl E_FAIL, tbl, vmm)
      | Some i \<Rightarrow>
          (let len = npages (tbl ! i) * PAGE_SIZE;
               linked = (\<lambda>t. t[i := (t ! i)\<lparr>links := links (t ! i) + 1\<rparr>]) in
           if shmaddr = 0 then
             (case mem_space_get_unmaped vmm len of
                None \<Rightarrow> (Inl E_FAIL, tbl, vmm)
              | Some addr \<Rightarrow>
                  if addr = 0xFFFFFFFF then (Inl E_FAIL, tbl, vmm)
                  else if addr < map_start vmm \<or> addr + len \<ge> map_end vmm then (Inl E_FAIL, tbl, vmm)
                  else if mem_space_find_intersection vmm addr (addr + len) \<noteq> None then (Inl E_FAIL, tbl, vmm)
                  else
                    (let pa = (if page_addr (tbl ! i) = 0 then pages else page_addr (tbl ! i));
                         tbl1 = tbl[i := (tbl ! i)\<lparr>page_addr := pa\<rparr>] in
                     if pa = 0 then (Inl E_FAIL, tbl1, vmm)
                     else
                       (let fl = (if flag shmflg IPC_REMAP then 0x190 else 0x90) in
                        case mem_space_mmap vmm addr pa len 0x12 fl new of
                          (Inr a, vmm1) \<Rightarrow> (Inr a, linked tbl1, vmm1)
                        | (Inl e, vmm1) \<Rightarrow> (Inl e, tbl1, vmm1))))
           else
             (let vaddr = (if flag shmflg IPC_RND then shmaddr AND NOT PAGE_LIMIT else shmaddr) in
              if page_addr (tbl ! i) = 0 then
                (let pa = v2p vaddr; tbl1 = tbl[i := (tbl ! i)\<lparr>page_addr := pa\<rparr>] in
                 if pa = 0 then (Inl E_FAIL, tbl1, vmm)
                 else (Inr vaddr, linked (tbl1[i := (tbl1 ! i)\<lparr>shm_flags := shm_flags (tbl1 ! i) OR SHARE_MEM_PRIVATE\<rparr>]), vmm))
              else (Inr vaddr, linked tbl, vmm))))"

text \<open>The flags of the entry are read before the test whether one was found.\<close>

definition share_mem_unmap :: "(u32 \<Rightarrow> u32) \<Rightarrow> nat option \<Rightarrow> u32 \<times> u32 \<Rightarrow> u32 \<Rightarrow> u32 \<Rightarrow> shm_tbl \<times> vmm_t
    \<Rightarrow> (int \<times> shm_tbl \<times> vmm_t) option" where
  "share_mem_unmap v2p new junk shmaddr shmflg st =
     (case st of (tbl, vmm) \<Rightarrow>
      if shmaddr = 0 then Some (-1, tbl, vmm)
      else let addr = (if flag shmflg IPC_RND then shmaddr AND NOT PAGE_LIMIT else shmaddr) in
        case mem_space_find vmm addr of
          None \<Rightarrow> Some (-1, tbl, vmm)
        | Some sp \<Rightarrow>
            (case share_mem_find_by_addr (v2p addr) tbl of
               None \<Rightarrow> None
             | Some i \<Rightarrow>
                 (let (r, vmm1) = (if flag (shm_flags (tbl ! i)) SHARE_MEM_PRIVATE then (Inr 0, vmm)
                                   else do_mem_space_unmap vmm (sp_start sp) (sp_end sp - sp_start sp) new junk) in
                  case r of
                    Inr _ \<Rightarrow> Some (0, tbl[i := (tbl ! i)\<lparr>links := links (tbl ! i) - 1\<rparr>], vmm1)
                  | Inl _ \<Rightarrow> Some (-1, tbl, vmm1))))"

definition share_mem_put :: "bool \<Rightarrow> int \<Rightarrow> shm_tbl \<Rightarrow> int \<times> shm_tbl" where
  "share_mem_put page_free_ok shmid tbl =
     (case share_mem_find_by_id shmid tbl of
        Some i \<Rightarrow> (0, if links (tbl ! i) \<le> 0 then snd (share_mem_free page_free_ok i tbl) else tbl)
      | None \<Rightarrow> (-1, tbl))"

definition share_mem_inc :: "int \<Rightarrow> shm_tbl \<Rightarrow> int \<times> shm_tbl" where
  "share_mem_inc shmid tbl =
     (case share_mem_find_by_id shmid tbl of
        Some i \<Rightarrow> (0, tbl[i := (tbl ! i)\<lparr>links := links (tbl ! i) + 1\<rparr>])
      | None \<Rightarrow> (-1, tbl))"

definition share_mem_dec :: "int \<Rightarrow> shm_tbl \<Rightarrow> int \<times> shm_tbl" where
  "share_mem_dec shmid tbl =
     (case share_mem_find_by_id shmid tbl of
        Some i \<Rightarrow> (0, tbl[i := (tbl ! i)\<lparr>links := links (tbl ! i) - 1\<rparr>])
      | None \<Rightarrow> (-1, tbl))"

definition sys_shmem_get :: "u8 list option \<Rightarrow> bool \<Rightarrow> u32 \<Rightarrow> u32 \<Rightarrow> shm_tbl \<Rightarrow> int res \<times> shm_tbl" where
  "sys_shmem_get name readable sz flags tbl =
     (case name of
        None \<Rightarrow> (Inl E_INVAL, tbl)
      | Some nm \<Rightarrow> if \<not> readable then (Inl E_INVAL, tbl)
                  else let (r, tbl') = share_mem_get nm sz flags tbl in (Inr r, tbl'))"

definition share_mem_init :: "shm_tbl" where
  "share_mem_init = map (\<lambda>i. \<lparr>ent_id = of_nat (1 + i + i * 2), ent_name = name_clear, page_addr = 0, npages = 0,
     shm_flags = 0, links = 0\<rparr>) [0..<MAX_SHARE_MEM_NR]"

subsection \<open>Copying and releasing an address space\<close>

definition vmm_dec_share_mem :: "(u32 \<Rightarrow> u32) \<Rightarrow> mem_space_t \<Rightarrow> shm_tbl \<Rightarrow> int \<times> shm_tbl" where
  "vmm_dec_share_mem v2p sp tbl =
     (case share_mem_find_by_addr (v2p (sp_start sp)) tbl of
        None \<Rightarrow> (0, tbl)
      | Some i \<Rightarrow> share_mem_dec (uint (ent_id (tbl ! i))) tbl)"

definition vmm_inc_share_mem :: "(u32 \<Rightarrow> u32) \<Rightarrow> mem_space_t \<Rightarrow> shm_tbl \<Rightarrow> int \<times> shm_tbl" where
  "vmm_inc_share_mem v2p sp tbl =
     (case share_mem_find_by_addr (v2p (sp_start sp)) tbl of
        None \<Rightarrow> (0, tbl)
      | Some i \<Rightarrow> share_mem_inc (uint (ent_id (tbl ! i))) tbl)"

text \<open>\<open>news\<close> are the nodes the allocations return; \<^verbatim>\<open>mem_alloc\<close> fails when there are no more. The
  child's list so far is returned also when the call fails.\<close>

fun vmm_copy_mem_space :: "(u32 \<Rightarrow> u32) \<Rightarrow> nat list \<Rightarrow> mem_space_t list \<Rightarrow> shm_tbl \<Rightarrow> int \<times> mem_space_t list \<times> shm_tbl" where
  "vmm_copy_mem_space v2p news [] tbl = (0, [], tbl)"
| "vmm_copy_mem_space v2p [] (p # ps) tbl = (-1, [], tbl)"
| "vmm_copy_mem_space v2p (n # ns) (p # ps) tbl =
     (let space = p\<lparr>sp_id := n\<rparr>;
          (r, tbl1) = (if flag (sp_flags space) MEM_SPACE_MAP_SHARED then vmm_inc_share_mem v2p space tbl else (0, tbl)) in
      if r < 0 then (-1, [], tbl1)
      else let (r2, rest, tbl2) = vmm_copy_mem_space v2p ns ps tbl1 in (r2, space # rest, tbl2))"

fun release_loop :: "(u32 \<Rightarrow> u32) \<Rightarrow> mem_space_t list \<Rightarrow> shm_tbl \<Rightarrow> shm_tbl" where
  "release_loop v2p [] tbl = tbl"
| "release_loop v2p (sp # sps) tbl =
     release_loop v2p sps (if flag (sp_flags sp) MEM_SPACE_MAP_SHARED then snd (vmm_dec_share_mem v2p sp tbl) else tbl)"

definition vmm_release_space :: "(u32 \<Rightarrow> u32) \<Rightarrow> vmm_t \<Rightarrow> shm_tbl \<Rightarrow> vmm_t \<times> shm_tbl" where
  "vmm_release_space v2p vmm tbl =
     (vmm\<lparr>mem_space_head := [], freed := freed vmm @ map sp_id (mem_space_head vmm),
          heap_start := 0, heap_end := 0, map_start := 0, map_end := 0\<rparr>,
      release_loop v2p (mem_space_head vmm) tbl)"

definition unmap_op :: "mem_space_t \<Rightarrow> page_op" where
  "unmap_op sp = Unmap_safe (sp_start sp) (sp_end sp - sp_start sp) (flag (sp_flags sp) MEM_SPACE_MAP_SHARED)"

definition vmm_unmap_space :: "vmm_t \<Rightarrow> vmm_t" where
  "vmm_unmap_space vmm = vmm\<lparr>page_ops := page_ops vmm @
     map unmap_op (filter (\<lambda>sp. \<not> flag (sp_flags sp) MEM_SPACE_MAP_STACK) (mem_space_head vmm))\<rparr>"

definition vmm_unmap_the_mapping_space :: "vmm_t \<Rightarrow> vmm_t" where
  "vmm_unmap_the_mapping_space vmm = vmm\<lparr>page_ops := page_ops vmm @
     map unmap_op (filter (\<lambda>sp. sp_start sp \<ge> map_start vmm \<and> sp_end sp \<le> map_end vmm) (mem_space_head vmm))\<rparr>"

definition vmm_exit :: "(u32 \<Rightarrow> u32) \<Rightarrow> vmm_t \<Rightarrow> shm_tbl \<Rightarrow> int \<times> vmm_t \<times> shm_tbl" where
  "vmm_exit v2p vmm tbl =
     (if mem_space_head vmm = [] then (-1, vmm, tbl)
      else (0, vmm_release_space v2p (vmm_unmap_space vmm) tbl))"


section \<open>Lemmas\<close>

lemma share_mem_alloc_cases:
  assumes "tbl_inv tbl" "name_ok nm" "tbl_map tbl (cstr nm) = None"
  obtains "share_mem_alloc nm sz tbl = (None, tbl)"
  | i tbl' where "share_mem_alloc nm sz tbl = (Some i, tbl')" "tbl_inv tbl'" "ent_id (tbl' ! i) = ent_id (tbl ! i)"
      "tbl_map tbl' = (tbl_map tbl)(cstr nm \<mapsto> uint (ent_id (tbl ! i)))" "uint (ent_id (tbl ! i)) \<notin> ran (tbl_map tbl)"
proof (cases "find_free tbl")
  case None
  then show thesis using that(1) by (simp add: share_mem_alloc_def)
next
  case (Some i)
  let ?e = "(tbl ! i)\<lparr>npages := PAGE_ALIGN (if sz = 0 then 1 else sz) div PAGE_SIZE, page_addr := 0, shm_flags := 0,
    ent_name := name_field nm\<rparr>"
  have il: "i < length tbl" using Some scan_index_Some[of _ tbl i] by (auto simp: find_free_def)
  have "cstr nm \<noteq> []" "cstr (ent_name ?e) = cstr nm" using assms(2) cstr_name_field by (auto simp: name_ok_def)
  note f = tbl_fill[OF assms(1) Some assms(3), of ?e, OF _ this(2,1)]
  show thesis
    by (rule that(2)[of i "tbl[i := ?e]"]) (use f il Some in \<open>simp_all add: share_mem_alloc_def Let_def\<close>)
qed

text \<open>Adding to the count of an entry changes no search.\<close>

definition bump :: "int \<Rightarrow> nat \<Rightarrow> shm_tbl \<Rightarrow> shm_tbl" where
  "bump d i tbl = tbl[i := (tbl ! i)\<lparr>links := links (tbl ! i) + d\<rparr>]"

lemma bump_eq: "bump d i tbl ! j = (if j = i \<and> i < length tbl then (tbl ! i)\<lparr>links := links (tbl ! i) + d\<rparr> else tbl ! j)"
  by (auto simp: bump_def not_less list_update_beyond)

lemma bump_nth [simp]:
  "ent_id (bump d i tbl ! j) = ent_id (tbl ! j)" "ent_name (bump d i tbl ! j) = ent_name (tbl ! j)"
  "page_addr (bump d i tbl ! j) = page_addr (tbl ! j)" "length (bump d i tbl) = length tbl"
  by (simp_all add: bump_eq) (simp add: bump_def)

lemma bump_searches [simp]:
  "tbl_inv (bump d i tbl) = tbl_inv tbl"
  "share_mem_find_by_addr a (bump d i tbl) = share_mem_find_by_addr a tbl"
proof -
  have u: "in_use (bump d i tbl ! j) = in_use (tbl ! j)" for j by (simp add: in_use_def)
  have ids: "map ent_id (bump d i tbl) = map ent_id tbl" by (rule nth_equalityI) simp_all
  show "tbl_inv (bump d i tbl) = tbl_inv tbl" unfolding tbl_inv_def ids by (simp add: u)
  have "share_mem_find_by_addr a (bump d i tbl) = Some k \<longleftrightarrow> share_mem_find_by_addr a tbl = Some k" for k
    unfolding share_mem_find_by_addr_def scan_index_Some_iff by (simp add: u)
  then show "share_mem_find_by_addr a (bump d i tbl) = share_mem_find_by_addr a tbl" by (metis option.exhaust)
qed

lemma bump_commute: "bump d i (bump e j tbl) = bump e j (bump d i tbl)"
  by (rule nth_equalityI) (auto simp: bump_eq)

lemma bump_cancel: "bump (- d) i (bump d i tbl) = tbl"
  by (rule nth_equalityI) (auto simp: bump_eq)

lemma inc_dec_bump:
  assumes "tbl_inv tbl" "share_mem_find_by_addr (v2p (sp_start sp)) tbl = Some i"
  shows "vmm_inc_share_mem v2p sp tbl = (0, bump 1 i tbl)" "vmm_dec_share_mem v2p sp tbl = (0, bump (-1) i tbl)"
proof -
  have "i < length tbl" "in_use (tbl ! i)" using assms(2) scan_index_Some[of _ tbl i] by (auto simp: share_mem_find_by_addr_def)
  then have "share_mem_find_by_id (uint (ent_id (tbl ! i))) tbl = Some i"
    using assms(1) by (simp add: share_mem_find_by_id_def find_by_id_iff)
  then show "vmm_inc_share_mem v2p sp tbl = (0, bump 1 i tbl)" "vmm_dec_share_mem v2p sp tbl = (0, bump (-1) i tbl)"
    using assms(2) by (simp_all add: vmm_inc_share_mem_def vmm_dec_share_mem_def share_mem_inc_def share_mem_dec_def bump_def)
qed

lemma release_bump:
  assumes "tbl_inv tbl"
  shows "release_loop v2p sps (bump d i tbl) = bump d i (release_loop v2p sps tbl)"
  using assms
proof (induction sps arbitrary: tbl)
  case (Cons sp sps)
  show ?case
  proof (cases "share_mem_find_by_addr (v2p (sp_start sp)) tbl")
    case None
    then show ?thesis using Cons by (simp add: vmm_dec_share_mem_def)
  next
    case (Some k)
    have c: "bump (-1) k (bump d i tbl) = bump d i (bump (-1) k tbl)" by (rule bump_commute)
    have 1: "vmm_dec_share_mem v2p sp tbl = (0, bump (-1) k tbl)" using Cons.prems Some by (intro inc_dec_bump) auto
    have 2: "vmm_dec_share_mem v2p sp (bump d i tbl) = (0, bump (-1) k (bump d i tbl))"
      using Cons.prems Some by (intro inc_dec_bump) auto
    show ?thesis using Cons by (simp add: 1 2 c)
  qed
qed simp


text \<open>Objects that nobody has mapped behave as the contract of named objects says.\<close>

definition shm_idle :: "shm_tbl \<Rightarrow> bool" where
  "shm_idle tbl \<longleftrightarrow> tbl_inv tbl \<and> (\<forall>e \<in> set tbl. links e \<le> 0)"

lemma share_mem_alloc_links:
  assumes "share_mem_alloc nm sz tbl = (r, tbl')" "\<forall>e \<in> set tbl. links e \<le> 0"
  shows "\<forall>e \<in> set tbl'. links e \<le> 0"
proof (cases "find_free tbl")
  case (Some i)
  then have "i < length tbl" using scan_index_Some[of _ tbl i] by (auto simp: find_free_def)
  with Some assms show ?thesis by (auto simp: share_mem_alloc_def Let_def dest!: set_update_subset_insert[THEN subsetD])
qed (use assms in \<open>auto simp: share_mem_alloc_def\<close>)

interpretation shmo: ipc_objects shm_idle tbl_map
  "\<lambda>nm. share_mem_get nm 0x1000 1" "\<lambda>nm. share_mem_get nm 0x1000 3" "share_mem_put True"
proof (unfold_locales, goal_cases)
  case (1 t n i)
  then show ?case by (auto simp: tbl_map_Some shm_idle_def)
next
  case (2 t n i n')
  then show ?case by (auto simp: tbl_map_Some shm_idle_def tbl_inv_def distinct_conv_nth word_uint_eq_iff)
next
  case (3 t nm i)
  then show ?case using find_by_name_map[of t nm]
    by (auto simp: share_mem_get_def share_mem_find_by_name_def flag_def PAGE_ALIGN_def split: option.splits)
next
  case (4 t nm)
  then have n: "share_mem_find_by_name nm t = None" by (simp add: share_mem_find_by_name_def find_by_name_None)
  from 4 have h: "tbl_inv t" "name_ok nm" "tbl_map t (cstr nm) = None" "\<forall>e \<in> set t. links e \<le> 0" by (auto simp: shm_idle_def)
  from h(1-3) show ?case
    by (cases rule: share_mem_alloc_cases[where sz = "0x1000"])
      (use share_mem_alloc_links[OF _ h(4)] in \<open>auto simp: share_mem_get_def n flag_def PAGE_ALIGN_def shm_idle_def\<close>)
next
  case (5 t nm i)
  then show ?case using find_by_name_map[of t nm]
    by (auto simp: share_mem_get_def share_mem_find_by_name_def flag_def PAGE_ALIGN_def split: option.splits)
next
  case (6 t nm)
  then show ?case
    by (simp add: share_mem_get_def share_mem_find_by_name_def find_by_name_None[symmetric] flag_def PAGE_ALIGN_def)
next
  case (7 t n i)
  then have inv: "tbl_inv t" by (simp add: shm_idle_def)
  with 7 obtain j where j: "j < length t" "in_use (t ! j)" "cstr (ent_name (t ! j)) = n" "uint (ent_id (t ! j)) = i"
    by (auto simp: tbl_map_Some)
  then have f: "share_mem_find_by_id i t = Some j" using inv by (simp add: share_mem_find_by_id_def find_by_id_iff)
  have "\<not> in_use ((t ! j)\<lparr>ent_name := name_clear\<rparr>)" by (simp add: in_use_def)
  note c = tbl_clear[OF inv j(1,2) _ this]
  have "\<forall>e \<in> set (t[j := (t ! j)\<lparr>ent_name := name_clear\<rparr>]). links e \<le> 0"
    using 7(1) j(1) by (auto simp: shm_idle_def dest!: set_update_subset_insert[THEN subsetD])
  moreover have "links (t ! j) \<le> 0" using 7(1) j(1) by (simp add: shm_idle_def)
  ultimately show ?case using c f j(3) by (simp add: share_mem_put_def share_mem_free_def shm_idle_def)
qed

lemma release_searches:
  assumes "tbl_inv tbl"
  shows "share_mem_find_by_addr a (release_loop v2p sps tbl) = share_mem_find_by_addr a tbl"
  using assms
proof (induction sps arbitrary: tbl)
  case (Cons sp sps)
  have "snd (vmm_dec_share_mem v2p sp tbl) = tbl \<or> (\<exists>i. snd (vmm_dec_share_mem v2p sp tbl) = bump (-1) i tbl)"
    using inc_dec_bump(2)[OF Cons.prems, of v2p sp]
    by (cases "share_mem_find_by_addr (v2p (sp_start sp)) tbl") (auto simp: vmm_dec_share_mem_def)
  with Cons show ?case by auto
qed simp

lemma copy_release:
  assumes "tbl_inv tbl" "vmm_copy_mem_space v2p news sps tbl = (0, child, tbl1)"
  shows "release_loop v2p child tbl1 = tbl \<and> tbl_inv tbl1 \<and> length child = length sps
    \<and> (\<forall>k < length sps. sp_start (child ! k) = sp_start (sps ! k) \<and> sp_end (child ! k) = sp_end (sps ! k)
         \<and> page_prot (child ! k) = page_prot (sps ! k) \<and> sp_flags (child ! k) = sp_flags (sps ! k))"
  using assms
proof (induction v2p news sps tbl arbitrary: child tbl1 rule: vmm_copy_mem_space.induct)
  case (3 v2p n ns p ps tbl)
  let ?p = "p\<lparr>sp_id := n\<rparr>"
  obtain r t where rt: "(if flag (sp_flags ?p) MEM_SPACE_MAP_SHARED then vmm_inc_share_mem v2p ?p tbl else (0, tbl)) = (r, t)" by force
  obtain r2 rest t2 where rest: "vmm_copy_mem_space v2p ns ps t = (r2, rest, t2)" by (metis prod_cases3)
  from "3.prems"(2) rt rest have r0: "\<not> r < 0" "r2 = 0" "child = ?p # rest" "tbl1 = t2"
    by (auto simp: Let_def split: if_splits)
  have "t = tbl \<or> (\<exists>i. share_mem_find_by_addr (v2p (sp_start p)) tbl = Some i \<and> t = bump 1 i tbl
      \<and> flag (sp_flags p) MEM_SPACE_MAP_SHARED)"
    using rt inc_dec_bump(1)[OF "3.prems"(1), of v2p ?p]
    by (cases "share_mem_find_by_addr (v2p (sp_start p)) tbl") (auto simp: vmm_inc_share_mem_def split: if_splits)
  then have it: "tbl_inv t" using "3.prems"(1) by auto
  have IH: "release_loop v2p rest t2 = t \<and> tbl_inv t2 \<and> length rest = length ps
    \<and> (\<forall>k < length ps. sp_start (rest ! k) = sp_start (ps ! k) \<and> sp_end (rest ! k) = sp_end (ps ! k)
         \<and> page_prot (rest ! k) = page_prot (ps ! k) \<and> sp_flags (rest ! k) = sp_flags (ps ! k))"
    using "3.IH"[OF refl refl rt[symmetric] r0(1) it] r0 rest by simp
  have fe: "share_mem_find_by_addr a t2 = share_mem_find_by_addr a t" for a
    using release_searches[of t2 a v2p rest] IH by metis
  have "release_loop v2p (?p # rest) t2 = tbl"
  proof (cases "flag (sp_flags p) MEM_SPACE_MAP_SHARED")
    case False
    with rt IH show ?thesis by auto
  next
    case True
    show ?thesis
    proof (cases "share_mem_find_by_addr (v2p (sp_start p)) tbl")
      case None
      then have "t = tbl" using rt True by (simp add: vmm_inc_share_mem_def)
      with None True fe IH show ?thesis by (simp add: vmm_dec_share_mem_def)
    next
      case (Some i)
      then have t: "t = bump 1 i tbl" using rt True inc_dec_bump(1)[OF "3.prems"(1), of v2p ?p i] by simp
      then have "share_mem_find_by_addr (v2p (sp_start ?p)) t2 = Some i" using fe Some by simp
      then have "vmm_dec_share_mem v2p ?p t2 = (0, bump (-1) i t2)" using IH by (intro inc_dec_bump) auto
      then show ?thesis using True IH release_bump[of t2 v2p rest "-1" i] t bump_cancel[of 1 i tbl] by simp
    qed
  qed
  with IH r0 show ?case by (auto simp: less_Suc_eq_0_disj)
qed auto

section \<open>Properties\<close>


definition demo_shm :: "shm_tbl" where
  "demo_shm = [\<lparr>ent_id = 1, ent_name = 65 # replicate 23 0, page_addr = 0x5000, npages = 1, shm_flags = 0, links = 1\<rparr>]"

definition demo_shared_vmm :: "vmm_t" where
  "demo_shared_vmm = demo_vmm\<lparr>mem_space_head := [mem_space_init 1 0x1000 0x2000 0x12 0x90]\<rparr>"

lemma demo_shm_inv: "tbl_inv demo_shm"
  by (simp add: tbl_inv_def demo_shm_def)


text \<open>\<^verbatim>\<open>share_mem_unmap\<close> of an address below the end of some mapped range whose page belongs to
  no shared region reads through a null pointer.\<close>

theorem share_mem_unmap_null_deref:
  assumes "shmaddr \<noteq> 0" and "mem_space_find vmm shmaddr \<noteq> None"
    and "\<forall>e \<in> set tbl. in_use e \<longrightarrow> page_addr e \<noteq> v2p shmaddr"
  shows "share_mem_unmap v2p new junk shmaddr 0 (tbl, vmm) = None"
proof -
  have "share_mem_find_by_addr (v2p shmaddr) tbl = None"
    using assms(3) by (auto simp: share_mem_find_by_addr_def scan_index_None)
  with assms(1,2) show ?thesis by (auto simp: share_mem_unmap_def flag_def)
qed

theorem share_mem_unmap_null_deref_witness:
  "share_mem_unmap (\<lambda>a. a) None (0, 0) 0x1000 0 (demo_shm, demo_vmm) = None"
  by (rule share_mem_unmap_null_deref)
    (simp_all add: mem_space_find_def spaces_from_def demo_vmm_def mem_space_init_def demo_shm_def)

end
