(* ===== verification/Walltime.thy ===== *)
theory Walltime
  imports OS_Prelude
begin

text \<open>
  Calendar time and tick conversions: \<^verbatim>\<open>src/kernel/walltime.c\<close> and \<^verbatim>\<open>src/kernel/time.c\<close>. The \<^verbatim>\<open>int\<close>
  fields of \<^verbatim>\<open>walltime_t\<close> are integers (no value comes near the 32-bit limits); conversions
  between ticks and seconds are 32-bit words. \<open>None\<close> is a read outside a table.
\<close>

section \<open>Definitions\<close>

record walltime_t =
  second :: int
  minute :: int
  hour :: int
  day :: int
  month :: int
  year :: int
  week_day :: int
  year_day :: int

definition month_day :: "int list" where
  "month_day = [0, 31, 28, 31, 30, 31, 30, 31, 31, 30, 31, 30, 31]"

definition tbl :: "int list \<Rightarrow> int \<Rightarrow> int option" where
  "tbl xs i = (if 0 \<le> i \<and> i < int (length xs) then Some (xs ! nat i) else None)"

definition walltime_is_leap_year :: "int \<Rightarrow> int" where
  "walltime_is_leap_year y =
     (if y mod 4 \<noteq> 0 then 0 else if y mod 400 \<noteq> 0 then 1 else if y mod 100 \<noteq> 0 then 0 else 1)"

text \<open>For the dates the function is used on, C's truncating division is \<open>div\<close>; the loop that
  adds 7 while the number is negative, followed by \<^verbatim>\<open>% 7\<close>, is \<open>mod 7\<close>.\<close>

definition walltime_get_week_day :: "int \<Rightarrow> int \<Rightarrow> int \<Rightarrow> int" where
  "walltime_get_week_day y0 m0 d =
     (let (y1, m) = (if m0 = 1 \<or> m0 = 2 then (y0 - 1, m0 + 12) else (y0, m0));
          c = y1 div 100; y = y1 - c * 100
      in ((c div 4) - 2 * c + (y + y div 4) + (13 * (m + 1) div 5) + d - 1) mod 7)"

definition walltime_get_month_day :: "walltime_t \<Rightarrow> int option" where
  "walltime_get_month_day w = do {
     d \<leftarrow> tbl month_day (month w);
     Some (if month w = 2 then d + walltime_is_leap_year (year w) else d) }"

fun year_days_loop :: "int list \<Rightarrow> int \<Rightarrow> int \<Rightarrow> int option" where
  "year_days_loop [] y acc = Some acc"
| "year_days_loop (i # is) y acc = do {
     d \<leftarrow> tbl month_day i;
     year_days_loop is y (acc + (if i = 2 then d + walltime_is_leap_year y else d)) }"

definition walltime_get_year_days :: "walltime_t \<Rightarrow> int option" where
  "walltime_get_year_days w = do {
     sum \<leftarrow> year_days_loop [1..month w - 1] (year w) 0;
     let sum1 = sum + day w;
     Some (if month w \<ge> 2 then
             (if month w = 2 then (if day w = 28 then sum1 + walltime_is_leap_year (year w) else sum1)
              else sum1 + walltime_is_leap_year (year w))
           else sum1) }"

text \<open>The part of \<^verbatim>\<open>walltime_update_second\<close> that starts a new day.\<close>

definition new_day :: "walltime_t \<Rightarrow> walltime_t option" where
  "new_day w3 =
     (let w4 = w3\<lparr>day := day w3 + 1, hour := 0,
                 week_day := (if week_day w3 + 1 > 6 then 0 else week_day w3 + 1)\<rparr> in
      do {
        yd \<leftarrow> walltime_get_year_days w4;
        let w5 = w4\<lparr>year_day := yd\<rparr>;
        md \<leftarrow> walltime_get_month_day w5;
        Some (if day w5 > md then
                (let w6 = w5\<lparr>month := month w5 + 1, day := 1\<rparr>
                 in if month w6 > 12 then w6\<lparr>year := year w6 + 1, month := 1\<rparr> else w6)
              else w5) })"

definition walltime_update_second :: "walltime_t \<Rightarrow> walltime_t option" where
  "walltime_update_second w0 =
     (let w1 = w0\<lparr>second := second w0 + 1\<rparr> in
      if \<not> second w1 > 59 then Some w1
      else let w2 = w1\<lparr>minute := minute w1 + 1, second := 0\<rparr> in
      if \<not> minute w2 > 59 then Some w2
      else let w3 = w2\<lparr>hour := hour w2 + 1, minute := 0\<rparr> in
      if \<not> hour w3 > 23 then Some w3
      else new_day w3)"

definition sys_get_walltime :: "walltime_t \<Rightarrow> walltime_t" where
  "sys_get_walltime w = w\<lparr>month := month w - 1\<rparr>"

definition month_secs :: "int list" where
  "month_secs = map (\<lambda>d. 86400 * d) [0, 31, 60, 91, 121, 152, 182, 213, 244, 274, 305, 335]"

definition walltime_make_timestamp :: "walltime_t \<Rightarrow> int option" where
  "walltime_make_timestamp wt = do {
     let y = year wt - 70;
     mo \<leftarrow> tbl month_secs (month wt);
     Some (signed_take_bit 31
       (31536000 * y + 86400 * ((y + 1) div 4) + mo
        - (if month wt > 1 \<and> (y + 2) mod 4 \<noteq> 0 then 86400 else 0)
        + 86400 * (day wt - 1) + 3600 * hour wt + 60 * minute wt + second wt)) }"

text \<open>\<open>cmos\<close> holds what the clock chip returns; \<open>auto\<close> is \<^verbatim>\<open>CONFIG_TIMEZONE_AUTO\<close>.\<close>

definition walltime_sync :: "bool \<Rightarrow> walltime_t \<Rightarrow> walltime_t option" where
  "walltime_sync auto cmos = do {
     let w1 = cmos\<lparr>week_day := walltime_get_week_day (year cmos) (month cmos) (day cmos)\<rparr>;
     yd \<leftarrow> walltime_get_year_days w1;
     let w2 = w1\<lparr>year_day := yd\<rparr>;
     Some (if auto then (if hour w2 \<ge> 16 then w2\<lparr>hour := hour w2 - 16\<rparr> else w2\<lparr>hour := hour w2 + 8\<rparr>) else w2) }"

subsection \<open>Ticks\<close>

abbreviation (input) HZ :: u32 where "HZ \<equiv> 1000"
abbreviation (input) MS_PER_TICKS :: u32 where "MS_PER_TICKS \<equiv> 1"
abbreviation (input) MAX_SYSTICKS_VALUE :: u32 where "MAX_SYSTICKS_VALUE \<equiv> 0x7FFFFFFE"

definition timeval_to_systicks :: "u32 \<times> u32 \<Rightarrow> u32" where
  "timeval_to_systicks tv =
     (case tv of (sec, usec) \<Rightarrow>
      if sec \<ge> MAX_SYSTICKS_VALUE div HZ then MAX_SYSTICKS_VALUE else HZ * sec + usec div (1000000 div HZ))"

definition systicks_to_timeval :: "u32 \<Rightarrow> u32 \<times> u32" where
  "systicks_to_timeval ticks =
     (let sec = ticks div HZ; usec = (ticks mod HZ) * MS_PER_TICKS * 1000
      in (if sec \<ge> MAX_SYSTICKS_VALUE div HZ then MAX_SYSTICKS_VALUE else sec, usec))"

definition timespec_to_systicks :: "u32 \<times> u32 \<Rightarrow> u32" where
  "timespec_to_systicks ts =
     (case ts of (sec, nsec) \<Rightarrow>
      if sec \<ge> MAX_SYSTICKS_VALUE div HZ then MAX_SYSTICKS_VALUE else HZ * sec + nsec div (1000000000 div HZ))"

definition systicks_to_timespec :: "u32 \<Rightarrow> u32 \<times> u32" where
  "systicks_to_timespec ticks =
     (let sec = ticks div HZ; nsec = (ticks mod HZ) * MS_PER_TICKS * 1000000
      in (if sec \<ge> MAX_SYSTICKS_VALUE div HZ then MAX_SYSTICKS_VALUE else sec, nsec))"


section \<open>Lemmas\<close>

text \<open>The code's rule: every fourth year is a leap year.\<close>

lemma leap_rule: "walltime_is_leap_year y = (if 4 dvd y then 1 else 0)"
proof (cases "y mod 400 = 0")
  case True
  then have "y mod 100 = 0" "y mod 4 = 0" by presburger+
  with True show ?thesis by (simp add: walltime_is_leap_year_def dvd_eq_mod_eq_0)
qed (auto simp: walltime_is_leap_year_def dvd_eq_mod_eq_0)

definition mdays :: "int \<Rightarrow> int \<Rightarrow> int" where
  "mdays y m = month_day ! nat m + (if m = 2 \<and> 4 dvd y then 1 else 0)"

definition days_before :: "int \<Rightarrow> int \<Rightarrow> int" where
  "days_before y m = [0, 0, 31, 59, 90, 120, 151, 181, 212, 243, 273, 304, 334, 365] ! nat m + (if m > 2 \<and> 4 dvd y then 1 else 0)"

definition date_ok :: "walltime_t \<Rightarrow> bool" where
  "date_ok w \<longleftrightarrow> 1 \<le> month w \<and> month w \<le> 12 \<and> 1 \<le> day w \<and> day w \<le> mdays (year w) (month w) \<and> year w \<ge> 0"

definition walltime_ok :: "walltime_t \<Rightarrow> bool" where
  "walltime_ok w \<longleftrightarrow> date_ok w \<and> 0 \<le> second w \<and> second w \<le> 59 \<and> 0 \<le> minute w \<and> minute w \<le> 59
     \<and> 0 \<le> hour w \<and> hour w \<le> 23"

text \<open>Days and seconds since the start of year 0, with a leap day every fourth year.\<close>

definition day_count :: "walltime_t \<Rightarrow> int" where
  "day_count w = 365 * year w + (year w + 3) div 4 + days_before (year w) (month w) + day w - 1"

definition second_count :: "walltime_t \<Rightarrow> int" where
  "second_count w = ((day_count w * 24 + hour w) * 60 + minute w) * 60 + second w"

lemma month_cases:
  assumes "1 \<le> m" "m \<le> (12 :: int)"
  obtains "m = 1" | "m = 2" | "m = 3" | "m = 4" | "m = 5" | "m = 6" | "m = 7" | "m = 8" | "m = 9" | "m = 10" | "m = 11" | "m = 12"
proof -
  have "m = 1 \<or> m = 2 \<or> m = 3 \<or> m = 4 \<or> m = 5 \<or> m = 6 \<or> m = 7 \<or> m = 8 \<or> m = 9 \<or> m = 10 \<or> m = 11 \<or> m = 12"
    using assms by presburger
  then show thesis using that by blast
qed

lemma days_before_Suc:
  assumes "1 \<le> m" "m \<le> 12"
  shows "days_before y (m + 1) = days_before y m + mdays y m"
  using assms by (cases rule: month_cases) (auto simp: days_before_def mdays_def month_day_def)

lemma month_day_lookup:
  assumes "1 \<le> m" "m \<le> 12"
  shows "\<exists>d. tbl month_day m = Some d \<and> d + (if m = 2 then walltime_is_leap_year y else 0) = mdays y m"
  using assms by (auto simp: tbl_def mdays_def month_day_def leap_rule)

lemma year_days_loop_total:
  assumes "\<forall>i \<in> set is. 1 \<le> i \<and> i \<le> 12"
  shows "\<exists>s. year_days_loop is y acc = Some s"
  using assms
proof (induction "is" arbitrary: acc)
  case (Cons i "is")
  then have "\<exists>d. tbl month_day i = Some d" using month_day_lookup[of i y] by auto
  with Cons show ?case by auto
qed simp

lemma walltime_get_year_days_total:
  assumes "1 \<le> month w" "month w \<le> 12"
  shows "\<exists>d. walltime_get_year_days w = Some d"
proof -
  have "\<forall>i \<in> set [1..month w - 1]. 1 \<le> i \<and> i \<le> 12" using assms by auto
  from year_days_loop_total[OF this, of "year w" 0] obtain s where "year_days_loop [1..month w - 1] (year w) 0 = Some s" by blast
  then show ?thesis by (simp add: walltime_get_year_days_def Let_def)
qed

lemma walltime_get_month_day_ok:
  assumes "1 \<le> month w" "month w \<le> 12"
  shows "walltime_get_month_day w = Some (mdays (year w) (month w))"
  using month_day_lookup[OF assms, of "year w"] by (auto simp: walltime_get_month_day_def)

lemma year_step: "(y + 4) div 4 = (y + 3) div 4 + (if 4 dvd y then 1 else 0)" for y :: int
  by presburger

lemma mdays_ge_1: "1 \<le> m \<Longrightarrow> m \<le> 12 \<Longrightarrow> mdays y m \<ge> 1"
  by (cases rule: month_cases) (auto simp: mdays_def month_day_def)

lemma new_day_ok:
  assumes ok: "date_ok w"
  shows "\<exists>w'. new_day w = Some w' \<and> date_ok w' \<and> day_count w' = day_count w + 1
    \<and> hour w' = 0 \<and> minute w' = minute w \<and> second w' = second w"
proof -
  have mo: "1 \<le> month w" "month w \<le> 12" "1 \<le> day w" "day w \<le> mdays (year w) (month w)" "year w \<ge> 0"
    using ok by (auto simp: date_ok_def)
  define w4 where "w4 = w\<lparr>day := day w + 1, hour := 0, week_day := (if week_day w + 1 > 6 then 0 else week_day w + 1)\<rparr>"
  have s4: "month w4 = month w" "year w4 = year w" "day w4 = day w + 1" "hour w4 = 0" "minute w4 = minute w" "second w4 = second w"
    by (simp_all add: w4_def)
  obtain yd where yd: "walltime_get_year_days w4 = Some yd" using walltime_get_year_days_total[of w4] mo s4 by auto
  define w5 where "w5 = w4\<lparr>year_day := yd\<rparr>"
  have s5: "month w5 = month w" "year w5 = year w" "day w5 = day w + 1" "hour w5 = 0" "minute w5 = minute w" "second w5 = second w"
    using s4 by (simp_all add: w5_def)
  have md: "walltime_get_month_day w5 = Some (mdays (year w) (month w))"
    using walltime_get_month_day_ok[of w5] mo s5 by simp
  define w' where "w' = (if day w5 > mdays (year w) (month w) then
      (let w6 = w5\<lparr>month := month w5 + 1, day := 1\<rparr>
       in if month w6 > 12 then w6\<lparr>year := year w6 + 1, month := 1\<rparr> else w6) else w5)"
  have up: "new_day w = Some w'"
    unfolding new_day_def Let_def w4_def[symmetric] yd bind.simps w5_def[symmetric] md w'_def by simp
  have "date_ok w' \<and> day_count w' = day_count w + 1"
  proof (cases "day w + 1 > mdays (year w) (month w)")
    case False
    then show ?thesis using mo s5 by (auto simp: w'_def date_ok_def day_count_def)
  next
    case True
    then have d: "day w = mdays (year w) (month w)" using mo by simp
    show ?thesis
    proof (cases "month w = 12")
      case False
      then have "month w + 1 \<le> 12" using mo by simp
      with True False mo d s5 days_before_Suc[OF mo(1,2), of "year w"] mdays_ge_1[of "month w + 1"] show ?thesis
        by (auto simp: w'_def date_ok_def day_count_def Let_def)
    next
      case m12: True
      have "mdays (year w) 12 = 31" "mdays (year w + 1) 1 = 31" by (simp_all add: mdays_def month_day_def)
      moreover have "days_before (year w + 1) 1 = 0" "days_before (year w) 12 = 334 + (if 4 dvd year w then 1 else 0)"
        by (simp_all add: days_before_def)
      ultimately show ?thesis using True d m12 mo s5 year_step[of "year w"]
        by (auto simp: w'_def date_ok_def day_count_def Let_def)
    qed
  qed
  moreover have "hour w' = 0" "minute w' = minute w" "second w' = second w" using s5 by (simp_all add: w'_def Let_def)
  ultimately show ?thesis using up by blast
qed

section \<open>Properties\<close>



text \<open>The leap-year test agrees with the Gregorian calendar from 1901 to 2099, and calls every
  other century year that is not divisible by 400 a leap year, 1900 and 2100 first.\<close>

theorem walltime_leap_gregorian:
  "(1901 \<le> y \<and> y \<le> 2099 \<longrightarrow> (walltime_is_leap_year y = 1 \<longleftrightarrow> 4 dvd y \<and> (\<not> 100 dvd y \<or> 400 dvd y)))
   \<and> (100 dvd y \<and> \<not> 400 dvd y \<longrightarrow> walltime_is_leap_year y = 1)"
proof -
  have "400 dvd y" if "1901 \<le> y" "y \<le> 2099" "100 dvd y"
  proof -
    from that obtain k where "y = 100 * k" by blast
    with that have "k = 20" by simp
    with \<open>y = 100 * k\<close> show ?thesis by simp
  qed
  moreover have "4 dvd y" if "100 dvd y" using that by presburger
  ultimately show ?thesis by (auto simp: leap_rule)
qed

theorem walltime_leap_gregorian_witness: "walltime_is_leap_year 2024 = 1 \<and> walltime_is_leap_year 2100 = 1"
  using walltime_leap_gregorian[of 2024] walltime_leap_gregorian[of 2100] by simp

end
