(* ===== verification/Timer.thy ===== *)
theory Timer
  imports Sync Walltime
begin

text \<open>
  Software timers, sleeping and alarms: \<^verbatim>\<open>src/kernel/timer.c\<close>, \<^verbatim>\<open>src/kernel/clock.c\<close>,
  \<^verbatim>\<open>src/kernel/alarm.c\<close> and \<^verbatim>\<open>src/task/sleep.c\<close>. A timer is named by where it lives: the idle
  timer is a global of \<^verbatim>\<open>timer.c\<close>, every task has a sleep timer inside its task structure, and
  drivers allocate others. The timer list is a list of such names. Callbacks are data: the
  sleep callback wakes its task, the idle callback shifts the time origin, and a driver's
  callback changes that driver's state only, so it is just recorded in \<open>ts_fired\<close> (as every
  call of a callback is) with the value of \<^verbatim>\<open>timer_ticks\<close> at the call.
\<close>

section \<open>Timers\<close>

datatype timer_addr = Timer_idle | Sleep_timer tid | Alloc_timer nat

datatype timer_callback_t = timer_idle_callback | task_sleep_timeout_callback | driver_callback

record timer_t =
  timeout :: u32
  timeval :: u32
  tm_arg :: nat
  tm_id :: u32
  tm_flags :: u32
  callback :: timer_callback_t

record tmst =
  ts_timer :: "timer_addr \<Rightarrow> timer_t"
  timer_list_head :: "timer_addr list"
  timer_ticks :: u32
  timer_id_next :: u32
  minim_timeout_val :: u32
  ts_fired :: "(timer_addr \<times> u32) list"
  ts_k :: kst

abbreviation (input) TIMER_IDLE_TIMEOUT :: u32 where "TIMER_IDLE_TIMEOUT \<equiv> 864000000"
abbreviation (input) TIMER_PERIOD :: u32 where "TIMER_PERIOD \<equiv> 1"

abbreviation tmo :: "tmst \<Rightarrow> timer_addr \<Rightarrow> u32" where
  "tmo s a \<equiv> timeout (ts_timer s a)"

definition upd_timer :: "timer_addr \<Rightarrow> (timer_t \<Rightarrow> timer_t) \<Rightarrow> tmst \<Rightarrow> tmst" where
  "upd_timer a f s = s\<lparr>ts_timer := (ts_timer s)(a := f (ts_timer s a))\<rparr>"

definition timer_init :: "timer_addr \<Rightarrow> u32 \<Rightarrow> nat \<Rightarrow> timer_callback_t \<Rightarrow> tmst \<Rightarrow> tmst" where
  "timer_init a t arg cb s =
     (upd_timer a (\<lambda>_. \<lparr>timeout = timer_ticks s + t, timeval = t, tm_arg = arg, tm_id = timer_id_next s,
        tm_flags = 0, callback = cb\<rparr>) s)\<lparr>timer_id_next := timer_id_next s + 1\<rparr>"

text \<open>The insertion loop of \<^verbatim>\<open>timer_add\<close>: behind the first timer that is not later.\<close>

fun timer_insert :: "(timer_addr \<Rightarrow> u32) \<Rightarrow> timer_addr \<Rightarrow> timer_addr list \<Rightarrow> timer_addr list" where
  "timer_insert tm a [] = []"
| "timer_insert tm a (x # xs) = (if tm a \<ge> tm x then x # a # xs else x # timer_insert tm a xs)"

definition timer_add :: "timer_addr \<Rightarrow> tmst \<Rightarrow> tmst option" where
  "timer_add a s0 =
     (let s = (if tm_id (ts_timer s0 a) = 0
               then (upd_timer a (tm_id_update (\<lambda>_. timer_id_next s0)) s0)\<lparr>timer_id_next := timer_id_next s0 + 1\<rparr>
               else s0)
      in if a \<in> set (timer_list_head s) then None
      else case timer_list_head s of
        [] \<Rightarrow> Some (s\<lparr>timer_list_head := [a], minim_timeout_val := tmo s a\<rparr>)
      | first # _ \<Rightarrow>
          if tmo s a < tmo s first
          then Some (s\<lparr>timer_list_head := a # timer_list_head s, minim_timeout_val := tmo s a\<rparr>)
          else Some (s\<lparr>timer_list_head := timer_insert (tmo s) a (timer_list_head s)\<rparr>))"

definition timer_del :: "timer_addr \<Rightarrow> tmst \<Rightarrow> tmst option" where
  "timer_del a s = (if a \<notin> set (timer_list_head s) then None
     else Some (s\<lparr>timer_list_head := remove1 a (timer_list_head s)\<rparr>))"

definition timer_alive :: "timer_addr \<Rightarrow> tmst \<Rightarrow> bool" where
  "timer_alive a s = (a \<in> set (timer_list_head s))"

definition timer_modify :: "timer_addr \<Rightarrow> u32 \<Rightarrow> tmst \<Rightarrow> tmst" where
  "timer_modify a t s = upd_timer a (timeout_update (\<lambda>_. timer_ticks s + t)) s"

definition timer_find :: "u32 \<Rightarrow> tmst \<Rightarrow> timer_addr option" where
  "timer_find i s = find (\<lambda>a. tm_id (ts_timer s a) = i) (timer_list_head s)"

text \<open>The argument is \<open>None\<close> for a null pointer.\<close>

definition timer_cancel :: "timer_addr option \<Rightarrow> tmst \<Rightarrow> (unit res \<times> tmst) option" where
  "timer_cancel p s = (case p of
       None \<Rightarrow> Some (Inl E_FAIL, s)
     | Some a \<Rightarrow> if timer_alive a s then map_option (Pair (Inr ())) (timer_del a s) else Some (Inr (), s))"

definition timer_add_period :: "timer_addr \<Rightarrow> tmst \<Rightarrow> tmst" where
  "timer_add_period a = upd_timer a (tm_flags_update (\<lambda>f. f OR TIMER_PERIOD))"

definition timer_del_period :: "timer_addr \<Rightarrow> tmst \<Rightarrow> tmst" where
  "timer_del_period a = upd_timer a (tm_flags_update (\<lambda>f. f AND NOT TIMER_PERIOD))"

text \<open>
  The idle timer expires every ten days: the handler subtracts the time that has passed
  from the clock and from every listed timer, and lists the idle timer again.
\<close>

definition timer_idle_handler :: "tmst \<Rightarrow> tmst option" where
  "timer_idle_handler s =
     (let dt = tmo s Timer_idle;
          f = (\<lambda>a. if a \<in> set (timer_list_head s) \<and> a \<noteq> Timer_idle
                   then (ts_timer s a)\<lparr>timeout := tmo s a - dt\<rparr> else ts_timer s a)
      in timer_add Timer_idle (s\<lparr>timer_ticks := timer_ticks s - dt, ts_timer := f\<rparr>))"

definition task_sleep_timeout_handler :: "tid \<Rightarrow> tmst \<Rightarrow> tmst option" where
  "task_sleep_timeout_handler t s = map_option (\<lambda>k. s\<lparr>ts_k := k\<rparr>) (task_wakeup t (ts_k s))"

text \<open>\<^verbatim>\<open>timer->callback(timer, timer->arg)\<close>\<close>

definition run_callback :: "timer_addr \<Rightarrow> tmst \<Rightarrow> tmst option" where
  "run_callback a s =
     (let s1 = s\<lparr>ts_fired := ts_fired s @ [(a, timer_ticks s)]\<rparr> in
      case callback (ts_timer s a) of
        timer_idle_callback \<Rightarrow> timer_idle_handler s1
      | task_sleep_timeout_callback \<Rightarrow> task_sleep_timeout_handler (tm_arg (ts_timer s a)) s1
      | driver_callback \<Rightarrow> Some s1)"

definition timer_do_action :: "timer_addr \<Rightarrow> tmst \<Rightarrow> tmst option" where
  "timer_do_action a s =
     run_callback a
       (if tm_flags (ts_timer s a) AND TIMER_PERIOD = 0
        then s\<lparr>timer_list_head := remove1 a (timer_list_head s)\<rparr>
        else upd_timer a (timeout_update (\<lambda>_. timer_ticks s + timeval (ts_timer s a))) s)"

text \<open>The successor of a node in the list; \<open>None\<close> is the list head.\<close>

fun list_next :: "'a \<Rightarrow> 'a list \<Rightarrow> 'a option" where
  "list_next a [] = None"
| "list_next a (x # xs) = (if x = a then (case xs of [] \<Rightarrow> None | y # _ \<Rightarrow> Some y) else list_next a xs)"

text \<open>
  The expiry loop. The successor is read before the action, as \<^verbatim>\<open>list_for_each_owner_safe\<close>
  does. The outer \<open>None\<close> is a crash of a callback or a loop that does not end.
\<close>

partial_function (option) timer_expire :: "timer_addr option \<Rightarrow> tmst \<Rightarrow> tmst option" where
  "timer_expire pos s = (case pos of None \<Rightarrow> Some s
     | Some a \<Rightarrow> if tmo s a > timer_ticks s then Some s
         else do { s' \<leftarrow> timer_do_action a s; timer_expire (list_next a (timer_list_head s)) s' })"

text \<open>
  \<open>junk\<close> is what the read of \<^verbatim>\<open>timer->timeout\<close> gives when the second loop ends at the list
  head: the word behind the head, which belongs to no timer.
\<close>

definition list_first :: "'a list \<Rightarrow> 'a option" where
  "list_first xs = (case xs of [] \<Rightarrow> None | x # _ \<Rightarrow> Some x)"

definition timer_update_ticks :: "u32 \<Rightarrow> tmst \<Rightarrow> tmst option" where
  "timer_update_ticks junk s =
     (if timer_ticks s < minim_timeout_val s then Some s
      else do {
        s1 \<leftarrow> timer_expire (list_first (timer_list_head s)) s;
        let m = (case find (\<lambda>a. tmo s1 a > timer_ticks s1) (timer_list_head s1) of
                   Some a \<Rightarrow> tmo s1 a | None \<Rightarrow> junk);
        Some (s1\<lparr>minim_timeout_val := m\<rparr>) })"

definition timers_init :: "tmst \<Rightarrow> tmst option" where
  "timers_init s = timer_add Timer_idle (timer_init Timer_idle TIMER_IDLE_TIMEOUT 0 timer_idle_callback s)"


section \<open>Sleeping\<close>

text \<open>
  \<^verbatim>\<open>task_sleep_by_ticks\<close> up to the switch to another task, and from there on when the
  sleeper runs again. \<open>None\<close> as the first component: the call returns 0 without sleeping.
\<close>

definition task_sleep_begin :: "u32 \<Rightarrow> tmst \<Rightarrow> (unit outcome \<times> tmst) option" where
  "task_sleep_begin ticks s =
     (if ticks = 0 then Some (Done (), s)
      else let cur = task_current (ts_k s); tm = Sleep_timer cur in do {
        s1 \<leftarrow> timer_add tm (upd_timer tm (\<lambda>t. t\<lparr>tm_arg := cur, callback := task_sleep_timeout_callback\<rparr>)
               (timer_modify tm ticks s));
        k \<leftarrow> task_block TASK_BLOCKED (ts_k s1);
        Some (Blocked, s1\<lparr>ts_k := k\<rparr>) })"

definition task_sleep_end :: "tid \<Rightarrow> tmst \<Rightarrow> (u32 \<times> tmst) option" where
  "task_sleep_end cur s =
     (let tm = Sleep_timer cur in
      if tmo s tm > timer_ticks s then map_option (Pair (tmo s tm - timer_ticks s)) (timer_del tm s)
      else Some (0, s))"

text \<open>
  \<^verbatim>\<open>sys_sleep\<close> and \<^verbatim>\<open>sys_usleep\<close>. \<open>sleep\<close> is the whole of \<^verbatim>\<open>task_sleep_by_ticks\<close>, including
  what other tasks do meanwhile (the check for a cancelled thread is left out); \<open>tv\<close> is the argument (\<open>None\<close> for a null pointer, \<open>Some None\<close>
  for one that cannot be read) and \<open>outv\<close> says whether the result pointer is given and writable.
  The second component of the result is what is written there.
\<close>

definition sys_sleep :: "(u32 \<Rightarrow> u32) \<Rightarrow> u32 \<Rightarrow> u32" where
  "sys_sleep sleep sec = (if sec = 0 then 0 else sleep (sec * HZ) div HZ)"

definition sys_usleep :: "(u32 \<Rightarrow> u32) \<Rightarrow> (u32 \<times> u32) option option \<Rightarrow> bool option
    \<Rightarrow> unit res \<times> (u32 \<times> u32) option" where
  "sys_usleep sleep tv outv =
     (case tv of None \<Rightarrow> (Inl E_INVAL, None)
      | Some None \<Rightarrow> (Inl E_FAULT, None)
      | Some (Some (sec, usec)) \<Rightarrow>
          if sint usec \<ge> 1000000 \<or> sint sec < 0 \<or> sint usec < 0 then (Inl E_INVAL, None)
          else if usec < 2000 \<and> sec = 0 then (Inr (), None)
          else let left = sleep (timeval_to_systicks (sec, usec)) in
            if left > 0 then
              (case outv of None \<Rightarrow> (Inl E_INTR, None)
               | Some True \<Rightarrow> (Inl E_INTR, Some (systicks_to_timeval left))
               | Some False \<Rightarrow> (Inl E_FAULT, None))
            else (Inr (), None))"


section \<open>Alarms and the clock interrupt\<close>

record alarm_t =
  al_flags :: bool
  al_ticks :: u32
  al_second :: u32

record clk =
  c_systicks :: u32
  c_tm :: tmst
  c_wall :: walltime_t
  c_alarm :: "tid \<Rightarrow> alarm_t"
  c_sent :: "tid list"

definition alarm_init :: alarm_t where
  "alarm_init = \<lparr>al_flags = False, al_ticks = 0, al_second = 0\<rparr>"

definition sys_alarm :: "u32 \<Rightarrow> clk \<Rightarrow> u32 \<times> clk" where
  "sys_alarm sec s =
     (let cur = task_current (ts_k (c_tm s)); al = c_alarm s cur in
      (al_second al,
       s\<lparr>c_alarm := (c_alarm s)(cur := if sec = 0 then al\<lparr>al_flags := False\<rparr>
          else \<lparr>al_flags = True, al_ticks = HZ, al_second = sec\<rparr>)\<rparr>))"

text \<open>One task in the loop of \<^verbatim>\<open>alarm_update_ticks\<close>; the result says whether the signal is sent.\<close>

definition alarm_tick :: "alarm_t \<Rightarrow> alarm_t \<times> bool" where
  "alarm_tick al =
     (if \<not> al_flags al then (al, False)
      else if al_ticks al - 1 \<noteq> 0 then (al\<lparr>al_ticks := al_ticks al - 1\<rparr>, False)
      else let al' = al\<lparr>al_second := al_second al - 1, al_ticks := HZ\<rparr> in
        if al_second al' = 0 then (al'\<lparr>al_flags := False\<rparr>, True) else (al', False))"

definition alarm_update_ticks :: "clk \<Rightarrow> clk" where
  "alarm_update_ticks s =
     fold (\<lambda>t s. case alarm_tick (c_alarm s t) of (al, sent) \<Rightarrow>
        s\<lparr>c_alarm := (c_alarm s)(t := al), c_sent := (if sent then c_sent s @ [t] else c_sent s)\<rparr>)
       (k_global (ts_k (c_tm s))) s"

definition timer_softirq_handler :: "u32 \<Rightarrow> clk \<Rightarrow> clk option" where
  "timer_softirq_handler junk s = do {
     w \<leftarrow> (if c_systicks s mod HZ = 0 then walltime_update_second (c_wall s) else Some (c_wall s));
     tm \<leftarrow> timer_update_ticks junk (c_tm s);
     Some (alarm_update_ticks (s\<lparr>c_wall := w, c_tm := tm\<rparr>)) }"

text \<open>The two soft interrupts that \<^verbatim>\<open>clock_handler\<close> raises run when it has returned.\<close>

definition clock_handler :: "clk \<Rightarrow> clk" where
  "clock_handler s = s\<lparr>c_systicks := c_systicks s + 1, c_tm := (c_tm s)\<lparr>timer_ticks := timer_ticks (c_tm s) + 1\<rparr>\<rparr>"

definition clock_tick :: "u32 \<Rightarrow> clk \<Rightarrow> clk option" where
  "clock_tick junk s = do {
     s1 \<leftarrow> timer_softirq_handler junk (clock_handler s);
     k \<leftarrow> sched_softirq_handler (ts_k (c_tm s1));
     Some (s1\<lparr>c_tm := (c_tm s1)\<lparr>ts_k := k\<rparr>\<rparr>) }"

definition clock_init :: "clk \<Rightarrow> clk" where
  "clock_init s = s\<lparr>c_systicks := 0, c_tm := (c_tm s)\<lparr>timer_ticks := 0\<rparr>\<rparr>"


section \<open>Lemmas\<close>

lemma upd_timer_simps [simp]:
  "timer_list_head (upd_timer a f s) = timer_list_head s" "timer_ticks (upd_timer a f s) = timer_ticks s"
  "ts_k (upd_timer a f s) = ts_k s" "ts_fired (upd_timer a f s) = ts_fired s"
  "ts_timer (upd_timer a f s) = (ts_timer s)(a := f (ts_timer s a))"
  "timer_id_next (upd_timer a f s) = timer_id_next s" "minim_timeout_val (upd_timer a f s) = minim_timeout_val s"
  by (simp_all add: upd_timer_def)

text \<open>The current task is not marked as waiting, and no task falls asleep between two states.\<close>

definition cur_awake :: "kst \<Rightarrow> bool" where
  "cur_awake k \<longleftrightarrow> sched_inv k \<and> \<not> TASK_NOT_READY (k_task k (task_current k))"

definition awakens :: "kst \<Rightarrow> kst \<Rightarrow> bool" where
  "awakens k k' \<longleftrightarrow> (\<forall>t. \<not> TASK_NOT_READY (k_task k t) \<longrightarrow> \<not> TASK_NOT_READY (k_task k' t))"

lemma awakens_refl [simp]: "awakens k k" by (simp add: awakens_def)
lemma awakens_trans: "awakens k1 k2 \<Longrightarrow> awakens k2 k3 \<Longrightarrow> awakens k1 k3" by (simp add: awakens_def)

lemma task_wakeup_awakens:
  assumes "cur_awake k"
  obtains k' where "task_wakeup t k = Some k'" "cur_awake k'" "awakens k k'" "\<not> TASK_NOT_READY (k_task k' t)"
proof (cases "TASK_NOT_READY (k_task k t)")
  case False
  then show ?thesis using assms by (intro that[of k]) (simp_all add: task_wakeup_def)
next
  case True
  define k1 where "k1 = (if TASK_IN_WAITLIST (k_task k t) then list_unlink t k else k)"
  have inv: "sched_inv k" and ok: "queues_ok k" and nc: "t \<noteq> task_current k"
    using assms True by (auto simp: cur_awake_def sched_inv_def)
  have nq: "t \<notin> queued k" using ok True by (intro blocked_not_queued) (auto simp: TASK_NOT_READY_def)
  have k1: "k_su k1 = k_su k" "k_task k1 = k_task k"
    by (simp_all add: k1_def list_unlink_unqueued[OF ok nq])
  have "sched_inv k1" using inv k1 queues_ok_cong[of k1 k] by (simp add: sched_inv_def)
  moreover have "t_state (k_task k1 t) \<in> {TASK_BLOCKED, TASK_WAITING, TASK_STOPPED}" "t \<noteq> task_current k1"
    using True nc k1 by (simp_all add: TASK_NOT_READY_def)
  ultimately obtain k' p where k': "task_unblock t k1 = Some k'" "sched_inv k'"
    "k_task k' = (k_task k1)(t := (k_task k1 t)\<lparr>t_state := TASK_READY, t_priority := int p\<rparr>)"
    "task_current k' = task_current k1" by (rule task_unblock_ok) blast
  then show ?thesis using True assms nc k1
    by (intro that[of k']) (auto simp: task_wakeup_def k1_def cur_awake_def awakens_def TASK_NOT_READY_def)
qed

definition periodic :: "tmst \<Rightarrow> timer_addr \<Rightarrow> bool" where
  "periodic s a \<longleftrightarrow> tm_flags (ts_timer s a) AND TIMER_PERIOD \<noteq> 0"

text \<open>The timers at the front of the list that are due.\<close>

definition due_prefix :: "tmst \<Rightarrow> timer_addr list \<Rightarrow> timer_addr list" where
  "due_prefix s L = takeWhile (\<lambda>a. tmo s a \<le> timer_ticks s) L"

text \<open>A timer after it has fired: a periodic one is set again.\<close>

definition rearmed :: "tmst \<Rightarrow> timer_addr \<Rightarrow> timer_t" where
  "rearmed s a = (if periodic s a then (ts_timer s a)\<lparr>timeout := timer_ticks s + timeval (ts_timer s a)\<rparr>
     else ts_timer s a)"

lemma list_next_append:
  "a \<notin> set P \<Longrightarrow> list_next a (P @ a # L) = list_first L"
  by (induction P) (auto simp: list_first_def)

lemma timer_do_action_ok:
  assumes "timer_list_head s = P @ a # L" "a \<notin> set P" "cur_awake (ts_k s)"
    and "callback (ts_timer s a) \<noteq> timer_idle_callback"
  obtains s' where "timer_do_action a s = Some s'"
    "timer_list_head s' = (if periodic s a then P @ a # L else P @ L)" "timer_ticks s' = timer_ticks s"
    "ts_fired s' = ts_fired s @ [(a, timer_ticks s)]" "ts_timer s' = (ts_timer s)(a := rearmed s a)"
    "cur_awake (ts_k s')" "awakens (ts_k s) (ts_k s')"
    "callback (ts_timer s a) = task_sleep_timeout_callback \<longrightarrow>
       \<not> TASK_NOT_READY (k_task (ts_k s') (tm_arg (ts_timer s a)))"
proof -
  define s1 where "s1 = (if \<not> periodic s a then s\<lparr>timer_list_head := remove1 a (timer_list_head s)\<rparr>
        else upd_timer a (timeout_update (\<lambda>_. timer_ticks s + timeval (ts_timer s a))) s)"
  define s2 where "s2 = s1\<lparr>ts_fired := ts_fired s1 @ [(a, timer_ticks s1)]\<rparr>"
  have act: "timer_do_action a s = run_callback a s1"
    by (simp add: timer_do_action_def s1_def periodic_def)
  have s1: "callback (ts_timer s1 a) = callback (ts_timer s a)" "tm_arg (ts_timer s1 a) = tm_arg (ts_timer s a)"
    "ts_k s1 = ts_k s" by (simp_all add: s1_def)
  have s2: "timer_list_head s2 = (if periodic s a then P @ a # L else P @ L)" "timer_ticks s2 = timer_ticks s"
    "ts_fired s2 = ts_fired s @ [(a, timer_ticks s)]" "ts_timer s2 = (ts_timer s)(a := rearmed s a)" "ts_k s2 = ts_k s"
    using assms(1,2) by (auto simp: s2_def s1_def rearmed_def remove1_append)
  show ?thesis
  proof (cases "callback (ts_timer s a)")
    case timer_idle_callback
    with assms show ?thesis by simp
  next
    case driver_callback
    then show ?thesis using assms s1 s2
      by (intro that[of s2]) (simp_all add: act run_callback_def s2_def)
  next
    case task_sleep_timeout_callback
    from assms(3) obtain k where k: "task_wakeup (tm_arg (ts_timer s a)) (ts_k s) = Some k" "cur_awake k"
      "awakens (ts_k s) k" "\<not> TASK_NOT_READY (k_task k (tm_arg (ts_timer s a)))" by (rule task_wakeup_awakens)
    have "timer_do_action a s = Some (s2\<lparr>ts_k := k\<rparr>)"
      using task_sleep_timeout_callback s1 s2(5) k(1)
      by (simp add: act run_callback_def s2_def task_sleep_timeout_handler_def Let_def)
    then show ?thesis using k s2 by (intro that[of "s2\<lparr>ts_k := k\<rparr>"]) auto
  qed
qed

text \<open>One proof for the expiry loop: it fires the due prefix of the rest of the list.\<close>

lemma timer_expire_ok:
  assumes "timer_list_head s = P @ L" "distinct (P @ L)" "cur_awake (ts_k s)"
    and "\<forall>a \<in> set (due_prefix s L). callback (ts_timer s a) \<noteq> timer_idle_callback"
  shows "\<exists>s'. timer_expire (list_first L) s = Some s' \<and> timer_ticks s' = timer_ticks s
    \<and> timer_list_head s' = P @ filter (periodic s) (due_prefix s L) @ drop (length (due_prefix s L)) L
    \<and> ts_fired s' = ts_fired s @ map (\<lambda>a. (a, timer_ticks s)) (due_prefix s L)
    \<and> (\<forall>a. ts_timer s' a = (if a \<in> set (due_prefix s L) then rearmed s a else ts_timer s a))
    \<and> cur_awake (ts_k s') \<and> awakens (ts_k s) (ts_k s')
    \<and> (\<forall>a \<in> set (due_prefix s L). callback (ts_timer s a) = task_sleep_timeout_callback \<longrightarrow>
         \<not> TASK_NOT_READY (k_task (ts_k s') (tm_arg (ts_timer s a))))"
  using assms
proof (induction L arbitrary: P s)
  case Nil
  then show ?case by (simp add: list_first_def timer_expire.simps due_prefix_def)
next
  case (Cons a L)
  show ?case
  proof (cases "tmo s a \<le> timer_ticks s")
    case False
    then have "due_prefix s (a # L) = []" "timer_expire (list_first (a # L)) s = Some s"
      by (auto simp: list_first_def timer_expire.simps[of "Some a"] due_prefix_def)
    then show ?thesis using Cons.prems by simp
  next
    case True
    then have D: "due_prefix s (a # L) = a # due_prefix s L" by (simp add: due_prefix_def)
    from Cons.prems D obtain s1 where s1: "timer_do_action a s = Some s1"
      "timer_list_head s1 = (if periodic s a then P @ a # L else P @ L)" "timer_ticks s1 = timer_ticks s"
      "ts_fired s1 = ts_fired s @ [(a, timer_ticks s)]" "ts_timer s1 = (ts_timer s)(a := rearmed s a)"
      "cur_awake (ts_k s1)" "awakens (ts_k s) (ts_k s1)"
      "callback (ts_timer s a) = task_sleep_timeout_callback \<longrightarrow>
         \<not> TASK_NOT_READY (k_task (ts_k s1) (tm_arg (ts_timer s a)))"
      by (elim timer_do_action_ok[where a = a and P = P and L = L]) auto
    define P' where "P' = (if periodic s a then P @ [a] else P)"
    have aL: "a \<notin> set L" using Cons.prems(2) by simp
    have D1: "due_prefix s1 L = due_prefix s L"
      unfolding due_prefix_def using aL s1(3,5) by (intro takeWhile_cong) auto
    have sub: "set (due_prefix s L) \<subseteq> set L" by (auto simp: due_prefix_def dest: set_takeWhileD)
    have per: "periodic s1 b = periodic s b" "rearmed s1 b = rearmed s b" if "b \<in> set (due_prefix s L)" for b
      using that sub aL s1(3,5) by (auto simp: periodic_def rearmed_def)
    have "\<exists>s'. timer_expire (list_first L) s1 = Some s' \<and> timer_ticks s' = timer_ticks s1
      \<and> timer_list_head s' = P' @ filter (periodic s1) (due_prefix s1 L) @ drop (length (due_prefix s1 L)) L
      \<and> ts_fired s' = ts_fired s1 @ map (\<lambda>a. (a, timer_ticks s1)) (due_prefix s1 L)
      \<and> (\<forall>a. ts_timer s' a = (if a \<in> set (due_prefix s1 L) then rearmed s1 a else ts_timer s1 a))
      \<and> cur_awake (ts_k s') \<and> awakens (ts_k s1) (ts_k s')
      \<and> (\<forall>a \<in> set (due_prefix s1 L). callback (ts_timer s1 a) = task_sleep_timeout_callback \<longrightarrow>
           \<not> TASK_NOT_READY (k_task (ts_k s') (tm_arg (ts_timer s1 a))))"
    proof (rule Cons.IH)
      show "timer_list_head s1 = P' @ L" "distinct (P' @ L)" using s1(2) Cons.prems(2) by (auto simp: P'_def)
      show "cur_awake (ts_k s1)" by (rule s1)
      show "\<forall>b \<in> set (due_prefix s1 L). callback (ts_timer s1 b) \<noteq> timer_idle_callback"
        using Cons.prems(4) D D1 sub aL s1(5) by auto
    qed
    then obtain s' where s': "timer_expire (list_first L) s1 = Some s'" "timer_ticks s' = timer_ticks s"
      "timer_list_head s' = P' @ filter (periodic s1) (due_prefix s L) @ drop (length (due_prefix s L)) L"
      "ts_fired s' = ts_fired s1 @ map (\<lambda>a. (a, timer_ticks s)) (due_prefix s L)"
      "\<And>a. ts_timer s' a = (if a \<in> set (due_prefix s L) then rearmed s1 a else ts_timer s1 a)"
      "cur_awake (ts_k s')" "awakens (ts_k s1) (ts_k s')"
      "\<And>b. b \<in> set (due_prefix s L) \<Longrightarrow> callback (ts_timer s1 b) = task_sleep_timeout_callback \<Longrightarrow>
         \<not> TASK_NOT_READY (k_task (ts_k s') (tm_arg (ts_timer s1 b)))"
      by (auto simp: D1 s1(3))
    have "list_next a (timer_list_head s) = list_first L"
      using Cons.prems(1,2) by (simp add: list_next_append)
    then have "timer_expire (list_first (a # L)) s = Some s'"
      using True s1(1) s'(1) timer_expire.simps[of "Some a" s] by (simp add: list_first_def not_less)
    moreover have "timer_list_head s' =
        P @ filter (periodic s) (due_prefix s (a # L)) @ drop (length (due_prefix s (a # L))) (a # L)"
      using s'(3) per(1) by (auto simp: D P'_def cong: filter_cong)
    moreover have "\<forall>b. ts_timer s' b = (if b \<in> set (due_prefix s (a # L)) then rearmed s b else ts_timer s b)"
      using s'(5) per(2) s1(5) sub aL by (auto simp: D)
    moreover have "\<forall>b \<in> set (due_prefix s (a # L)). callback (ts_timer s b) = task_sleep_timeout_callback \<longrightarrow>
         \<not> TASK_NOT_READY (k_task (ts_k s') (tm_arg (ts_timer s b)))"
    proof
      fix b assume b: "b \<in> set (due_prefix s (a # L))"
      show "callback (ts_timer s b) = task_sleep_timeout_callback \<longrightarrow>
         \<not> TASK_NOT_READY (k_task (ts_k s') (tm_arg (ts_timer s b)))"
      proof (cases "b = a")
        case True
        then show ?thesis using s1(8) s'(7) by (auto simp: awakens_def)
      next
        case False
        then have "b \<in> set (due_prefix s L)" "ts_timer s1 b = ts_timer s b" using b D s1(5) by simp_all
        with s'(8)[of b] show ?thesis by simp
      qed
    qed
    ultimately show ?thesis using s' s1(4,7) by (auto simp: D intro: awakens_trans)
  qed
qed


lemma due_prefix_sorted:
  assumes "sorted (map (tmo s) L)"
  shows "set (due_prefix s L) = {a \<in> set L. tmo s a \<le> timer_ticks s}"
  using assms by (induction L) (auto simp: due_prefix_def dest: order_trans)


section \<open>Properties\<close>


definition demo_timer :: "u32 \<Rightarrow> u32 \<Rightarrow> timer_callback_t \<Rightarrow> nat \<Rightarrow> timer_t" where
  "demo_timer t fl cb arg = \<lparr>timeout = t, timeval = 5, tm_arg = arg, tm_id = 7, tm_flags = fl, callback = cb\<rparr>"

definition demo_timers :: tmst where
  "demo_timers = \<lparr>ts_timer = (\<lambda>a. case a of Timer_idle \<Rightarrow> demo_timer 864000000 0 timer_idle_callback 0
      | Sleep_timer t \<Rightarrow> demo_timer 9 0 task_sleep_timeout_callback t
      | Alloc_timer n \<Rightarrow> demo_timer (of_nat n) (if n = 8 then 1 else 0) driver_callback 0),
    timer_list_head = [Alloc_timer 8, Sleep_timer 20, Timer_idle], timer_ticks = 10, timer_id_next = 8,
    minim_timeout_val = 8, ts_fired = [], ts_k = demo_wait\<rparr>"

lemma demo_timers_awake: "cur_awake demo_wait"
  using demo_wait_ok(1) by (simp add: cur_awake_def TASK_NOT_READY_def demo_wait_def demo_state_def)


text \<open>\<^verbatim>\<open>timer_add\<close> puts every timer that is not earlier than the first one right behind it, so the list
  does not stay sorted: a timer that is due is not fired as long as a later timer stands in
  front of it.\<close>

theorem timer_add_delays_due:
  assumes "timer_list_head s = a # b # xs" and "distinct (a # b # xs)" and "c \<notin> set (a # b # xs)"
    and "tmo s a \<le> tmo s b" and "tmo s b \<le> n" and "n < tmo s c" and "minim_timeout_val s \<le> n"
    and "cur_awake (ts_k s)" and "callback (ts_timer s a) \<noteq> timer_idle_callback"
    and "\<not> periodic s a" and "tm_id (ts_timer s c) \<noteq> 0"
  shows "\<exists>s1 s2. timer_add c s = Some s1 \<and> timer_list_head s1 = a # c # b # xs
    \<and> timer_update_ticks junk (s1\<lparr>timer_ticks := n\<rparr>) = Some s2
    \<and> ts_fired s2 = ts_fired s @ [(a, n)] \<and> timer_list_head s2 = c # b # xs \<and> tmo s1 b \<le> n"
proof -
  define s1 where "s1 = s\<lparr>timer_list_head := a # c # b # xs\<rparr>"
  have "\<not> tmo s c < tmo s a" "tmo s a \<le> tmo s c" "tmo s a \<le> n" using assms(4-6) by auto
  then have add: "timer_add c s = Some s1" using assms(1,3,11) by (simp add: timer_add_def s1_def)
  let ?s = "s1\<lparr>timer_ticks := n\<rparr>"
  have D: "due_prefix ?s (a # c # b # xs) = [a]"
    using \<open>tmo s a \<le> n\<close> assms(6) by (simp add: due_prefix_def s1_def)
  from timer_expire_ok[of ?s "[]" "a # c # b # xs"] assms(2,3,8,9,10)
  obtain s' where s': "timer_expire (list_first (a # c # b # xs)) ?s = Some s'"
    "timer_list_head s' = c # b # xs" "ts_fired s' = ts_fired s @ [(a, n)]"
    by (auto simp: D) (auto simp: s1_def periodic_def)
  have "\<exists>s2. timer_update_ticks junk ?s = Some s2 \<and> ts_fired s2 = ts_fired s @ [(a, n)] \<and> timer_list_head s2 = c # b # xs"
    unfolding timer_update_ticks_def Let_def
    using s' assms(7) by (simp add: s1_def not_less[symmetric])
  then show ?thesis using add assms(5) by (auto simp: s1_def)
qed

definition demo_timers2 :: tmst where
  "demo_timers2 = demo_timers\<lparr>timer_list_head := [Alloc_timer 11, Sleep_timer 20, Timer_idle], minim_timeout_val := 0,
     ts_timer := (ts_timer demo_timers)(Sleep_timer 20 := demo_timer 50 0 task_sleep_timeout_callback 20)\<rparr>"

theorem timer_add_delays_due_witness:
  "\<exists>s1 s2. timer_add (Alloc_timer 100) demo_timers2 = Some s1
    \<and> timer_update_ticks 0 (s1\<lparr>timer_ticks := 60\<rparr>) = Some s2 \<and> ts_fired s2 = [(Alloc_timer 11, 60)]
    \<and> timer_list_head s2 = [Alloc_timer 100, Sleep_timer 20, Timer_idle] \<and> tmo s1 (Sleep_timer 20) \<le> 60"
  using timer_add_delays_due[of demo_timers2 "Alloc_timer 11" "Sleep_timer 20" "[Timer_idle]" "Alloc_timer 100" 60 0]
    demo_timers_awake
  by (auto simp: demo_timers2_def demo_timers_def demo_timer_def periodic_def)

end
