(* ===== verification/Mutexqueue.thy ===== *)
theory Mutexqueue
  imports Timer Memspace
begin

text \<open>
  User-memory access checks (\<^verbatim>\<open>src/kernel/safety.c\<close>), the clock system calls of
  \<^verbatim>\<open>src/kernel/time.c\<close>, and the mutex queues on which user-space threads wait
  (\<^verbatim>\<open>src/task/mutexqueue.c\<close>). Memory is a map from addresses to 32-bit words, which is the size of
  everything these functions copy. Which addresses are mapped readable and writable is a
  fact of the page tables and part of the state. A call that sleeps is split at the sleep.
\<close>

section \<open>User memory\<close>

record umem =
  um_vmm :: bool
  um_readable :: "u32 \<Rightarrow> u32 \<Rightarrow> bool"
  um_writable :: "u32 \<Rightarrow> u32 \<Rightarrow> bool"
  um_word :: "u32 \<Rightarrow> u32"

text \<open>\<open>um_vmm\<close>: the current task has an address space of its own, that is, it is a user task.\<close>

definition safety_check_range :: "u32 \<Rightarrow> u32 \<Rightarrow> umem \<Rightarrow> unit res" where
  "safety_check_range addr nbytes um =
     (if um_vmm um \<and> \<not> (addr \<ge> USER_VMM_BASE_ADDR \<and> addr + nbytes < USER_VMM_TOP_ADDR)
      then Inl E_FAIL else Inr ())"

fun words_at :: "(u32 \<Rightarrow> u32) \<Rightarrow> u32 \<Rightarrow> nat \<Rightarrow> u32 list" where
  "words_at f a 0 = []"
| "words_at f a (Suc n) = f a # words_at f (a + 4) n"

fun put_words :: "u32 \<Rightarrow> u32 list \<Rightarrow> (u32 \<Rightarrow> u32) \<Rightarrow> u32 \<Rightarrow> u32" where
  "put_words a [] f = f"
| "put_words a (w # ws) f = put_words (a + 4) ws (f(a := w))"

text \<open>\<open>dest\<close> is what the kernel variable holds before: it stays when the source is a null pointer.\<close>

definition mem_copy_from_user :: "u32 list \<Rightarrow> u32 \<Rightarrow> umem \<Rightarrow> u32 list option" where
  "mem_copy_from_user dest src um =
     (let n = of_nat (4 * length dest) in
      if safety_check_range src n um \<noteq> Inr () then None
      else if \<not> um_readable um src n then None
      else Some (if src \<noteq> 0 then words_at (um_word um) src (length dest) else dest))"

definition mem_copy_to_user :: "u32 \<Rightarrow> u32 list \<Rightarrow> umem \<Rightarrow> umem option" where
  "mem_copy_to_user dest src um =
     (let n = of_nat (4 * length src) in
      if safety_check_range dest n um \<noteq> Inr () then None
      else if \<not> um_writable um dest n then None
      else Some (if dest \<noteq> 0 then um\<lparr>um_word := put_words dest src (um_word um)\<rparr> else um))"


section \<open>Clocks\<close>

text \<open>
  \<open>stamp\<close> is \<^verbatim>\<open>walltime_make_timestamp(&walltime)\<close>, \<open>elapsed\<close> the running time of the current task.
  \<open>None\<close> stands for the result -1 (nothing is written), otherwise the result is 0.
\<close>

definition sys_gettimeofday :: "u32 \<Rightarrow> u32 \<Rightarrow> u32 \<Rightarrow> u32 \<Rightarrow> umem \<Rightarrow> unit res \<times> umem" where
  "sys_gettimeofday stamp systicks tv tz um =
     (let put_tz = (\<lambda>um. if tz = 0 then (Inr (), um)
                       else case mem_copy_to_user tz [0, 0] um of None \<Rightarrow> (Inl E_FAIL, um) | Some um' \<Rightarrow> (Inr (), um'))
      in if tv = 0 then put_tz um
         else case mem_copy_to_user tv [stamp, (systicks mod HZ) * MS_PER_TICKS * 1000] um of
           None \<Rightarrow> (Inl E_FAIL, um) | Some um' \<Rightarrow> put_tz um')"

definition sys_clock_gettime :: "u32 \<Rightarrow> u32 \<Rightarrow> u32 \<Rightarrow> int \<Rightarrow> u32 \<Rightarrow> umem \<Rightarrow> umem option" where
  "sys_clock_gettime stamp systicks elapsed clockid ts um =
     (let frac = (\<lambda>t. (t mod HZ) * MS_PER_TICKS * 1000000) in
      if ts = 0 then None
      else if clockid = 1 then mem_copy_to_user ts [stamp, frac systicks] um
      else if clockid = 2 then mem_copy_to_user ts [systicks div HZ, frac systicks] um
      else if clockid = 3 \<or> clockid = 4 then mem_copy_to_user ts [elapsed div HZ, frac elapsed] um
      else None)"


section \<open>Mutex queues\<close>

record mutex_queue_t =
  mq_wait_queue :: nat
  mq_flags :: u32

record mqst =
  mutex_queue_head :: "mutex_queue_t list"
  mq_tm :: tmst
  mq_um :: umem

abbreviation (input) MUTEX_QUEUE_NR_MAX :: nat where "MUTEX_QUEUE_NR_MAX \<equiv> 128"
abbreviation (input) MUTEX_QUEUE_ALL :: u32 where "MUTEX_QUEUE_ALL \<equiv> 0x10000"
abbreviation (input) MUTEX_QUEUE_TIMED :: u32 where "MUTEX_QUEUE_TIMED \<equiv> 0x20000"
abbreviation (input) MUTEX_QUEUE_OPMASK :: u32 where "MUTEX_QUEUE_OPMASK \<equiv> 0xFFFF"

abbreviation mq_k :: "mqst \<Rightarrow> kst" where "mq_k s \<equiv> ts_k (mq_tm s)"

definition set_k :: "kst \<Rightarrow> mqst \<Rightarrow> mqst" where
  "set_k k s = s\<lparr>mq_tm := (mq_tm s)\<lparr>ts_k := k\<rparr>\<rparr>"

definition MUTEX_QUEUE_IS_BAD :: "int \<Rightarrow> bool" where
  "MUTEX_QUEUE_IS_BAD handle \<longleftrightarrow> handle < 0 \<or> handle \<ge> int MUTEX_QUEUE_NR_MAX"

definition sys_mutex_queue_alloc :: "mqst \<Rightarrow> nat res \<times> mqst" where
  "sys_mutex_queue_alloc s =
     (case scan_index (\<lambda>q. mq_flags q = 0) (take MUTEX_QUEUE_NR_MAX (mutex_queue_head s)) of
        None \<Rightarrow> (Inl E_NOMEM, s)
      | Some i \<Rightarrow> let q = mutex_queue_head s ! i in
          (Inr i, (set_k (wait_queue_init (mq_wait_queue q) (mq_k s)) s)
                    \<lparr>mutex_queue_head := (mutex_queue_head s)[i := q\<lparr>mq_flags := 1\<rparr>]\<rparr>))"

text \<open>\<^verbatim>\<open>while (!list_empty(...)) wait_queue_wakeup(...)\<close>\<close>

partial_function (option) wake_until_empty :: "nat \<Rightarrow> kst \<Rightarrow> kst option" where
  "wake_until_empty w k =
     (if k_wait k w = [] then Some k else do { k' \<leftarrow> wait_queue_wakeup w k; wake_until_empty w k' })"

definition sys_mutex_queue_free :: "int \<Rightarrow> mqst \<Rightarrow> (unit res \<times> mqst) option" where
  "sys_mutex_queue_free handle s =
     (if MUTEX_QUEUE_IS_BAD handle then Some (Inl E_INVAL, s)
      else let q = mutex_queue_head s ! nat handle in
        if mq_flags q = 0 then Some (Inr (), s)
        else do {
          k \<leftarrow> wake_until_empty (mq_wait_queue q) (mq_k s);
          Some (Inr (), (set_k k s)\<lparr>mutex_queue_head := (mutex_queue_head s)[nat handle := q\<lparr>mq_flags := 0\<rparr>]\<rparr>) })"

text \<open>The operation on the word at \<open>addr\<close>; \<open>junk\<close> is the uninitialised \<^verbatim>\<open>tmpval\<close>.\<close>

definition modify_user :: "u32 \<Rightarrow> u32 \<Rightarrow> (u32 \<Rightarrow> u32) \<Rightarrow> umem \<Rightarrow> umem option" where
  "modify_user junk addr f um = do {
     ws \<leftarrow> mem_copy_from_user [junk] addr um;
     mem_copy_to_user addr [f (hd ws)] um }"

definition mutex_queue_addr_calc :: "u32 \<Rightarrow> u32 \<Rightarrow> u32 \<Rightarrow> u32 \<Rightarrow> umem \<Rightarrow> umem option" where
  "mutex_queue_addr_calc junk addr wqflags val um =
     (let m = wqflags AND MUTEX_QUEUE_OPMASK in
      if m = 1 then modify_user junk addr (\<lambda>v. v + val) um
      else if m = 2 then modify_user junk addr (\<lambda>v. v - val) um
      else if m = 3 then mem_copy_to_user addr [val] um
      else if m = 4 then mem_copy_to_user addr [0] um
      else if m = 5 then mem_copy_to_user addr [1] um
      else if m = 6 then modify_user junk addr (\<lambda>v. v + 1) um
      else if m = 7 then modify_user junk addr (\<lambda>v. v - 1) um
      else Some um)"

text \<open>
  The deadline arithmetic of a timed wait. \<open>abstm\<close> is the deadline the caller passed;
  \<open>now\<close> is what \<^verbatim>\<open>curtm\<close> holds after the call of \<^verbatim>\<open>sys_clock_gettime\<close>.
\<close>

definition wait_ticks :: "u32 \<times> u32 \<Rightarrow> u32 \<times> u32 \<Rightarrow> u32" where
  "wait_ticks abstm now = timespec_to_systicks (fst abstm - fst now, snd abstm - snd now)"

text \<open>
  \<^verbatim>\<open>curtm\<close> is a variable on the kernel stack at address \<open>kstack\<close>: its two words in memory are
  what the clock call leaves there.
\<close>

definition read_clock :: "u32 \<Rightarrow> u32 \<Rightarrow> u32 \<Rightarrow> umem \<Rightarrow> u32 \<times> u32" where
  "read_clock stamp systicks kstack um =
     (let um' = (case sys_clock_gettime stamp systicks 0 1 kstack um of None \<Rightarrow> um | Some um' \<Rightarrow> um')
      in (um_word um' kstack, um_word um' (kstack + 4)))"

datatype wait_end = Wait_untimed | Wait_timed

text \<open>
  \<^verbatim>\<open>sys_mutex_queue_wait\<close> up to the point where it sleeps. \<open>Inl\<close> is an error it returns at
  once; \<open>Inr None\<close> a return of 0 without sleeping.
\<close>

definition sys_mutex_queue_wait :: "u32 \<Rightarrow> u32 \<Rightarrow> u32 \<Rightarrow> u32 \<Rightarrow> int \<Rightarrow> u32 \<Rightarrow> u32 \<Rightarrow> u32 \<Rightarrow> mqst
    \<Rightarrow> (wait_end option res \<times> mqst) option" where
  "sys_mutex_queue_wait junk stamp systicks kstack handle addr wqflags val s =
     (if MUTEX_QUEUE_IS_BAD handle then Some (Inl E_INVAL, s)
      else let q = mutex_queue_head s ! nat handle in
      if mq_flags q = 0 then Some (Inr None, s)
      else case (if addr = 0 then Some (mq_um s) else mutex_queue_addr_calc junk addr wqflags val (mq_um s)) of
        None \<Rightarrow> Some (Inl E_FAULT, s)
      | Some um \<Rightarrow> let s1 = s\<lparr>mq_um := um\<rparr>; cur = task_current (mq_k s1) in
          if wqflags AND MUTEX_QUEUE_TIMED = 0 then do {
            k \<leftarrow> wait_queue_add (mq_wait_queue q) cur (mq_k s1);
            k' \<leftarrow> task_block TASK_BLOCKED k;
            Some (Inr (Some Wait_untimed), set_k k' s1) }
          else if val = 0 then Some (Inl E_TIMEDOUT, s1)
          else case mem_copy_from_user [0, 0] val um of
            None \<Rightarrow> Some (Inl E_FAULT, s1)
          | Some abstm \<Rightarrow>
              (let ticks = wait_ticks (abstm ! 0, abstm ! 1) (read_clock stamp systicks kstack um) in
               if ticks = 0 then Some (Inl E_TIMEDOUT, s1)
               else let ticks' = (if ticks < 2 * MS_PER_TICKS then 2 * MS_PER_TICKS else ticks) in do {
                 k \<leftarrow> wait_queue_add (mq_wait_queue q) cur (mq_k s1);
                 (_, tm) \<leftarrow> task_sleep_begin ticks' (mq_tm (set_k k s1));
                 Some (Inr (Some Wait_timed), s1\<lparr>mq_tm := tm\<rparr>) }))"

text \<open>The rest of the call when task \<open>cur\<close> runs again.\<close>

definition mutex_queue_wait_rest :: "wait_end \<Rightarrow> nat \<Rightarrow> tid \<Rightarrow> mqst \<Rightarrow> (unit res \<times> mqst) option" where
  "mutex_queue_wait_rest how handle cur s = (case how of
       Wait_untimed \<Rightarrow> Some (Inr (), s)
     | Wait_timed \<Rightarrow> do {
         (left, tm) \<leftarrow> task_sleep_end cur (mq_tm s);
         let s1 = s\<lparr>mq_tm := tm\<rparr>;
         if left > 0 then Some (Inr (), s1)
         else Some (Inl E_TIMEDOUT,
           set_k (wait_list_del (mq_wait_queue (mutex_queue_head s ! handle)) cur (mq_k s1)) s1) })"

text \<open>The wake loop: the first task only, or every task of the list.\<close>

fun wake_loop :: "bool \<Rightarrow> nat \<Rightarrow> tid list \<Rightarrow> kst \<Rightarrow> kst option" where
  "wake_loop wake_all w [] k = Some k"
| "wake_loop wake_all w (t # ts) k = do {
     k' \<leftarrow> task_wakeup t (TASK_LEAVE_WAITLIST t (wait_list_del w t k));
     if wake_all then wake_loop wake_all w ts k' else Some k' }"

definition sys_mutex_queue_wake :: "u32 \<Rightarrow> int \<Rightarrow> u32 \<Rightarrow> u32 \<Rightarrow> u32 \<Rightarrow> mqst \<Rightarrow> (unit res \<times> mqst) option" where
  "sys_mutex_queue_wake junk handle addr wqflags val s =
     (if MUTEX_QUEUE_IS_BAD handle then Some (Inl E_INVAL, s)
      else let q = mutex_queue_head s ! nat handle in
      if mq_flags q = 0 then Some (Inr (), s)
      else case (if addr = 0 then Some (mq_um s) else mutex_queue_addr_calc junk addr wqflags val (mq_um s)) of
        None \<Rightarrow> Some (Inl E_FAULT, s)
      | Some um \<Rightarrow> do {
          k \<leftarrow> wake_loop (wqflags AND MUTEX_QUEUE_ALL \<noteq> 0) (mq_wait_queue q) (k_wait (mq_k s) (mq_wait_queue q)) (mq_k s);
          Some (Inr (), (set_k k s)\<lparr>mq_um := um\<rparr>) })"

definition mutex_queue_init :: "mqst \<Rightarrow> mqst" where
  "mutex_queue_init s =
     (set_k (fold (\<lambda>q k. wait_queue_init (mq_wait_queue q) k) (mutex_queue_head s) (mq_k s)) s)
       \<lparr>mutex_queue_head := map (mq_flags_update (\<lambda>_. 0)) (mutex_queue_head s)\<rparr>"


section \<open>Lemmas\<close>

lemma wake_loop_all: "wake_loop True w ts k = wakeup_each w ts k"
  by (induction ts arbitrary: k) (simp_all add: bind_eq_Some_conv cong: Option.bind_cong)

text \<open>Both forms of the wake loop: the woken tasks are a prefix of the list.\<close>

lemma wake_loop_ok:
  fixes wake_all :: bool
  assumes inv: "sched_inv k" and w: "wait_ok w k"
  defines "ts \<equiv> if wake_all then k_wait k w else take 1 (k_wait k w)"
  shows "\<exists>k'. wake_loop wake_all w (k_wait k w) k = Some k' \<and> sched_inv k'
    \<and> k_wait k' = (k_wait k)(w := drop (length ts) (k_wait k w))
    \<and> queued k' = queued k \<union> set ts \<and> (\<forall>t \<in> set ts. t_state (k_task k' t) = TASK_READY)
    \<and> (\<forall>t. t \<notin> set ts \<longrightarrow> k_task k' t = k_task k t) \<and> task_current k' = task_current k"
proof (cases wake_all)
  case True
  then have "ts = k_wait k w" by (simp add: ts_def)
  then show ?thesis using wakeup_each_ok[OF inv w refl] True by (simp add: wake_loop_all)
next
  case False
  show ?thesis
  proof (cases "k_wait k w")
    case Nil
    then show ?thesis using False inv by (auto simp: ts_def fun_upd_idem)
  next
    case (Cons t us)
    then have t: "t_state (k_task k t) = TASK_BLOCKED" "t \<noteq> task_current k" using w by (auto simp: wait_ok_def)
    from unlink_wakeup_ok[OF inv t, of w] obtain k' p
      where k': "task_wakeup t (TASK_LEAVE_WAITLIST t (wait_list_del w t k)) = Some k'" "sched_inv k'"
      "p < 4" "\<forall>i. i < 4 \<longrightarrow> rq k' i = (if i = p then rq k i @ [t] else rq k i)"
      "t_state (k_task k' t) = TASK_READY" "\<forall>u. u \<noteq> t \<longrightarrow> k_task k' u = k_task k u"
      "k_wait k' = (k_wait k)(w := remove1 t (k_wait k w))" "task_current k' = task_current k" by metis
    have "queued k' = insert t (queued k)" using k'(3,4) by (auto simp: queued_def split: if_splits)
    then show ?thesis using False Cons k' by (simp add: ts_def)
  qed
qed

text \<open>The loop of \<^verbatim>\<open>sys_mutex_queue_free\<close> ends, and does what waking every task of the list does.\<close>

lemma wake_until_empty_eq:
  assumes "sched_inv k" "wait_ok w k" "k_wait k w = ts"
  shows "wake_until_empty w k = wakeup_each w ts k"
  using assms
proof (induction ts arbitrary: k)
  case Nil
  then show ?case by (simp add: wake_until_empty.simps)
next
  case (Cons t ts)
  then have t: "t_state (k_task k t) = TASK_BLOCKED" "t \<noteq> task_current k" "t \<notin> set ts"
    by (auto simp: wait_ok_def)
  from unlink_wakeup_ok[OF Cons.prems(1) t(1,2), of w] obtain k1
    where k1: "task_wakeup t (TASK_LEAVE_WAITLIST t (wait_list_del w t k)) = Some k1" "sched_inv k1"
    "\<forall>u. u \<noteq> t \<longrightarrow> k_task k1 u = k_task k u"
    "k_wait k1 = (k_wait k)(w := remove1 t (k_wait k w))" "task_current k1 = task_current k" by metis
  have w1: "k_wait k1 w = ts" using k1(4) Cons.prems(3) by simp
  have "wait_ok w k1" using Cons.prems(2,3) k1(3,5) w1 t(3) by (auto simp: wait_ok_def)
  from Cons.IH[OF k1(2) this w1] show ?case
    using Cons.prems(3) k1(1) wake_until_empty.simps[of w k] by (simp add: wait_queue_wakeup_def)
qed

lemma set_k_simps [simp]:
  "mq_k (set_k k s) = k" "mq_um (set_k k s) = mq_um s" "mutex_queue_head (set_k k s) = mutex_queue_head s"
  by (simp_all add: set_k_def)

lemma mem_copy_to_user_vmm: "mem_copy_to_user a ws um = Some um' \<Longrightarrow> um_vmm um' = um_vmm um"
  by (auto simp: mem_copy_to_user_def Let_def split: if_splits)

lemma modify_user_vmm: "modify_user junk a f um = Some um' \<Longrightarrow> um_vmm um' = um_vmm um"
  by (auto simp: modify_user_def bind_eq_Some_conv dest: mem_copy_to_user_vmm)

lemma mutex_queue_addr_calc_vmm:
  "mutex_queue_addr_calc junk a fl v um = Some um' \<Longrightarrow> um_vmm um' = um_vmm um"
  by (auto simp: mutex_queue_addr_calc_def Let_def split: if_splits
    dest: mem_copy_to_user_vmm modify_user_vmm)

text \<open>A kernel address is refused for a user task, so the clock call leaves the variable as it was.\<close>

lemma read_clock_user:
  assumes "um_vmm um" and "0x80000000 \<le> kstack" and "kstack \<le> 0xFFFFFFF0"
  shows "read_clock stamp systicks kstack um = (um_word um kstack, um_word um (kstack + 4))"
proof -
  have "kstack + 8 \<ge> 0x80000000"
    using assms(2,3) by (unat_arith, auto)
  then have "mem_copy_to_user kstack [a, b] um = None" for a b
    using assms(1) by (simp add: mem_copy_to_user_def safety_check_range_def not_less)
  then show ?thesis by (simp add: read_clock_def sys_clock_gettime_def Let_def)
qed


section \<open>Properties\<close>

text \<open>C32: \<^verbatim>\<open>sys_mutex_queue_wake\<close> on a queue in use first updates the caller's word as the operation
  code says, then makes the oldest waiter ready, or with \<^verbatim>\<open>MUTEX_QUEUE_ALL\<close> every waiter; the
  woken tasks are the front of the list, they leave it, no other task changes, and the
  scheduler's invariant is kept. When the word cannot be accessed it fails with
  \<^verbatim>\<open>-EFAULT\<close> and wakes nobody.\<close>

theorem sys_mutex_queue_wake_wakes:
  fixes wqflags :: u32
  assumes "\<not> MUTEX_QUEUE_IS_BAD handle" and "mq_flags (mutex_queue_head s ! nat handle) \<noteq> 0"
    and "sched_inv (mq_k s)" and "wait_ok (mq_wait_queue (mutex_queue_head s ! nat handle)) (mq_k s)" and "addr \<noteq> 0"
  defines "w \<equiv> mq_wait_queue (mutex_queue_head s ! nat handle)"
  defines "ts \<equiv> if wqflags AND MUTEX_QUEUE_ALL \<noteq> 0 then k_wait (mq_k s) w else take 1 (k_wait (mq_k s) w)"
  shows "case mutex_queue_addr_calc junk addr wqflags val (mq_um s) of
      None \<Rightarrow> sys_mutex_queue_wake junk handle addr wqflags val s = Some (Inl E_FAULT, s)
    | Some um \<Rightarrow> \<exists>s'. sys_mutex_queue_wake junk handle addr wqflags val s = Some (Inr (), s') \<and> mq_um s' = um
        \<and> sched_inv (mq_k s') \<and> k_wait (mq_k s') w = drop (length ts) (k_wait (mq_k s) w)
        \<and> queued (mq_k s') = queued (mq_k s) \<union> set ts
        \<and> (\<forall>t \<in> set ts. t_state (k_task (mq_k s') t) = TASK_READY)
        \<and> (\<forall>t. t \<notin> set ts \<longrightarrow> k_task (mq_k s') t = k_task (mq_k s) t)"
proof (cases "mutex_queue_addr_calc junk addr wqflags val (mq_um s)")
  case None
  then show ?thesis using assms(1,2,5) by (simp add: sys_mutex_queue_wake_def Let_def)
next
  case (Some um)
  from wake_loop_ok[OF assms(3,4), of "wqflags AND MUTEX_QUEUE_ALL \<noteq> 0"] obtain k
    where k: "wake_loop (wqflags AND MUTEX_QUEUE_ALL \<noteq> 0) w (k_wait (mq_k s) w) (mq_k s) = Some k" "sched_inv k"
    "k_wait k w = drop (length ts) (k_wait (mq_k s) w)" "queued k = queued (mq_k s) \<union> set ts"
    "\<forall>t \<in> set ts. t_state (k_task k t) = TASK_READY" "\<forall>t. t \<notin> set ts \<longrightarrow> k_task k t = k_task (mq_k s) t"
    by (auto simp: w_def ts_def)
  have "sys_mutex_queue_wake junk handle addr wqflags val s = Some (Inr (), (set_k k s)\<lparr>mq_um := um\<rparr>)"
    using assms(1,2,5) Some k(1) by (simp add: sys_mutex_queue_wake_def w_def)
  then show ?thesis using Some k(2-) by (simp add: set_k_def)
qed

definition demo_mq :: mqst where
  "demo_mq = \<lparr>mutex_queue_head = [\<lparr>mq_wait_queue = 50, mq_flags = 1\<rparr>], mq_tm = demo_timers,
     mq_um = \<lparr>um_vmm = True, um_readable = (\<lambda>a n. True), um_writable = (\<lambda>a n. True), um_word = (\<lambda>a. 5)\<rparr>\<rparr>"

theorem sys_mutex_queue_wake_wakes_witness:
  "\<exists>s'. sys_mutex_queue_wake 0 0 0x1000 6 0 demo_mq = Some (Inr (), s') \<and> um_word (mq_um s') 0x1000 = 6
    \<and> k_wait (mq_k s') 50 = [21] \<and> t_state (k_task (mq_k s') 20) = TASK_READY"
proof -
  have calc: "\<exists>um. mutex_queue_addr_calc 0 0x1000 6 0 (mq_um demo_mq) = Some um \<and> um_word um 0x1000 = 6"
    by (simp add: demo_mq_def mutex_queue_addr_calc_def modify_user_def mem_copy_from_user_def
        mem_copy_to_user_def safety_check_range_def)
  have flag: "(6 AND 0x10000 :: u32) = 0" by simp
  have w: "k_wait (mq_k demo_mq) 50 = [20, 21]" by (simp add: demo_mq_def demo_timers_def demo_wait_def)
  show ?thesis
    using sys_mutex_queue_wake_wakes[where handle = 0 and s = demo_mq and addr = "0x1000" and wqflags = 6
        and val = 0 and junk = 0] demo_wait_ok calc flag w
    by (auto simp: demo_mq_def MUTEX_QUEUE_IS_BAD_def demo_timers_def)
qed

text \<open>For a user task the deadline of a timed wait is compared with two words of stale kernel stack and
  not with the time: \<^verbatim>\<open>sys_clock_gettime\<close> refuses to store to the kernel variable it is
  given, its result is not checked, and so the whole call behaves the same whatever the clock shows.\<close>

theorem mutex_queue_wait_ignores_clock:
  assumes "um_vmm (mq_um s)" and "0x80000000 \<le> kstack" and "kstack \<le> 0xFFFFFFF0"
  shows "sys_mutex_queue_wait junk stamp systicks kstack handle addr wqflags val s =
         sys_mutex_queue_wait junk stamp' systicks' kstack handle addr wqflags val s"
proof -
  have "read_clock stamp systicks kstack um = read_clock stamp' systicks' kstack um" if "um_vmm um" for um
    using read_clock_user[OF that assms(2,3)] by simp
  moreover have "um_vmm um" if "mutex_queue_addr_calc junk addr wqflags val (mq_um s) = Some um" for um
    using mutex_queue_addr_calc_vmm[OF that] assms(1) by simp
  ultimately show ?thesis
    using assms(1) unfolding sys_mutex_queue_wait_def Let_def by (auto split: option.split)
qed

theorem mutex_queue_wait_ignores_clock_witness:
  "sys_mutex_queue_wait 0 1000 0 0x80100000 0 0 0x20000 0x2000 demo_mq =
   sys_mutex_queue_wait 0 9999 7 0x80100000 0 0 0x20000 0x2000 demo_mq"
  by (rule mutex_queue_wait_ignores_clock) (simp_all add: demo_mq_def)

end
