(* ===== verification/Page_Interface.thy ===== *)
theory Page_Interface
  imports OS_Prelude
begin

text \<open>
  What the code that builds page tables relies on: a source of single physical pages. A page that is
  handed out is aligned, is not address 0 and is not in use; it stays in use until it is given
  back; it is always one of a fixed set of pages, the area of the source; as long as pages are left, a request succeeds. The page allocator interprets the locale.
\<close>

locale page_source =
  fixes pinv :: "'p \<Rightarrow> bool"
    and used :: "'p \<Rightarrow> u32 set"
    and area :: "'p \<Rightarrow> u32 set"
    and avail :: "'p \<Rightarrow> nat"
    and palloc :: "'p \<Rightarrow> (u32 \<times> 'p) option"
    and pfree :: "u32 \<Rightarrow> 'p \<Rightarrow> (unit res \<times> 'p) option"
  assumes alloc_some: "pinv P \<Longrightarrow> 0 < avail P \<Longrightarrow> \<exists>a P'. palloc P = Some (a, P') \<and> a \<noteq> 0 \<and> a AND 0xfff = 0 \<and> a \<notin> used P
      \<and> pinv P' \<and> used P' = insert a (used P) \<and> avail P' + 1 = avail P \<and> area P' = area P"
    and alloc_none: "pinv P \<Longrightarrow> avail P = 0 \<Longrightarrow> palloc P = Some (0, P)"
    and used_area: "pinv P \<Longrightarrow> used P \<subseteq> area P"
    and free_used: "pinv P \<Longrightarrow> a \<in> used P \<Longrightarrow> \<exists>P'. pfree a P = Some (Inr (), P') \<and> pinv P' \<and> used P' = used P - {a} \<and> avail P' = avail P + 1 \<and> area P' = area P"
begin

lemma alloc_cases:
  assumes "pinv P"
  obtains a P' where "palloc P = Some (a, P')" "a \<noteq> 0" "a AND 0xfff = 0" "a \<notin> used P" "pinv P'" "used P' = insert a (used P)" "avail P' + 1 = avail P" "0 < avail P" "area P' = area P" "a \<in> area P"
  | "palloc P = Some (0, P)" "avail P = 0"
proof (cases "avail P = 0")
  case False
  then obtain a P' where a: "palloc P = Some (a, P')" "a \<noteq> 0" "a AND 0xfff = 0" "a \<notin> used P" "pinv P'" "used P' = insert a (used P)" "avail P' + 1 = avail P"
    "area P' = area P" using alloc_some[OF assms] by auto
  moreover have "a \<in> area P" using used_area[OF a(5)] a(6,8) by auto
  ultimately show ?thesis using that(1) False by auto
qed (use that(2) alloc_none[OF assms] in auto)

text \<open>A page that is allocated and given back leaves the source as it was, up to its internal order.\<close>

lemma alloc_free:
  assumes "pinv P" "palloc P = Some (a, P')" "a \<noteq> 0"
  shows "\<exists>P''. pfree a P' = Some (Inr (), P'') \<and> pinv P'' \<and> used P'' = used P \<and> avail P'' = avail P"
proof -
  from assms have "a \<notin> used P" "pinv P'" "used P' = insert a (used P)" "avail P' + 1 = avail P"
    using alloc_some[of P] alloc_none[of P] by (cases "avail P = 0"; auto)+
  with free_used[of P' a] show ?thesis by auto
qed

end

end
