(* ===== verification/Mempool.thy ===== *)
theory Mempool
  imports Page_Interface OS_Prelude
begin

text \<open>
  The physical page allocator: \<^verbatim>\<open>src/arch/x86/mach-i386/mm/mempool.c\<close>. Physical memory is split
  into three ranges; each has a table of one node per page and twelve sections, where
  section \<open>k\<close> keeps a free list of blocks of \<open>2 ^ k\<close> pages. A node is named by its index in
  the table of its range, a section by its number, so that the pointer arithmetic of the code is
  arithmetic on indices. \<open>None\<close> is a panic (or a loop that does not end). Page counts
  are bounded by the number of pages and are natural numbers; physical addresses are 32-bit words.
\<close>

section \<open>Data\<close>

record mem_section_t =
  free_list_head :: "nat list"
  node_count :: nat
  section_size :: nat

record mem_node_t =
  n_count :: nat
  n_reference :: int
  n_section :: "nat option"
  n_cache :: "nat option"
  n_group :: "u32 option"

record mem_range_t =
  r_start :: u32
  r_end :: u32
  r_pages :: nat
  r_sections :: "mem_section_t list"
  node_table :: "nat \<Rightarrow> mem_node_t"

type_synonym mem_pool = "mem_range_t list"

abbreviation (input) MEM_SECTION_MAX_NR :: nat where "MEM_SECTION_MAX_NR \<equiv> 12"
abbreviation (input) MEM_SECTION_MAX_SIZE :: nat where "MEM_SECTION_MAX_SIZE \<equiv> 2048"
abbreviation (input) MEM_RANGE_NR :: nat where "MEM_RANGE_NR \<equiv> 3"
abbreviation (input) MEM_NODE_TYPE_DMA :: u32 where "MEM_NODE_TYPE_DMA \<equiv> 1"
abbreviation (input) MEM_NODE_TYPE_NORMAL :: u32 where "MEM_NODE_TYPE_NORMAL \<equiv> 2"
abbreviation (input) MEM_NODE_TYPE_USER :: u32 where "MEM_NODE_TYPE_USER \<equiv> 4"

abbreviation sect :: "mem_range_t \<Rightarrow> nat \<Rightarrow> mem_section_t" where
  "sect R k \<equiv> r_sections R ! k"

abbreviation freel :: "mem_range_t \<Rightarrow> nat \<Rightarrow> nat list" where
  "freel R k \<equiv> free_list_head (sect R k)"

definition upd_sect :: "nat \<Rightarrow> (mem_section_t \<Rightarrow> mem_section_t) \<Rightarrow> mem_range_t \<Rightarrow> mem_range_t" where
  "upd_sect k f R = R\<lparr>r_sections := (r_sections R)[k := f (sect R k)]\<rparr>"

definition upd_node :: "nat \<Rightarrow> (mem_node_t \<Rightarrow> mem_node_t) \<Rightarrow> mem_range_t \<Rightarrow> mem_range_t" where
  "upd_node i f R = R\<lparr>node_table := (node_table R)(i := f (node_table R i))\<rparr>"


section \<open>Operations\<close>

definition mem_node_init :: "int \<Rightarrow> nat \<Rightarrow> mem_node_t \<Rightarrow> mem_node_t" where
  "mem_node_init ref sz n = n\<lparr>n_reference := ref, n_count := sz, n_cache := None, n_group := None, n_section := None\<rparr>"

definition MEM_NODE_MARK_SECTION :: "nat \<Rightarrow> mem_node_t \<Rightarrow> mem_node_t" where
  "MEM_NODE_MARK_SECTION k n = n\<lparr>n_section := Some k\<rparr>"

definition mem_section_init :: "nat \<Rightarrow> mem_section_t" where
  "mem_section_init sz = \<lparr>free_list_head = [], node_count = 0, section_size = sz\<rparr>"

text \<open>The body of the loop of \<^verbatim>\<open>mem_section_setup\<close>.\<close>

definition setup_node :: "nat \<Rightarrow> nat \<Rightarrow> nat \<Rightarrow> mem_range_t \<Rightarrow> mem_range_t" where
  "setup_node k base i R =
     (let nxt = base + i * section_size (sect R k) in
      upd_node nxt (MEM_NODE_MARK_SECTION k)
        (upd_sect k (\<lambda>s. s\<lparr>free_list_head := free_list_head s @ [nxt]\<rparr>)
          (upd_node nxt (mem_node_init 0 0) R)))"

definition mem_section_setup :: "nat \<Rightarrow> nat \<Rightarrow> nat \<Rightarrow> mem_range_t \<Rightarrow> mem_range_t" where
  "mem_section_setup k base cnt R =
     fold (setup_node k base) [0..<cnt] (upd_sect k (node_count_update (\<lambda>_. cnt)) R)"

text \<open>
  The loop of \<^verbatim>\<open>mem_range_init\<close>. A step below section 0 with pages left fails the assertion.
\<close>

fun init_sections :: "nat \<Rightarrow> nat \<Rightarrow> nat \<Rightarrow> mem_range_t \<Rightarrow> mem_range_t option" where
  "init_sections off base pages R =
     (if pages = 0 then Some R
      else let sz = 2 ^ off; big = pages div sz; small = pages mod sz in
        if big = 0 \<and> small > 0 then Some (mem_section_setup 0 base small R)
        else let R' = (if big > 0 then mem_section_setup off base big R else R);
                 base' = base + big * sz; pages' = pages - big * sz in
          case off of 0 \<Rightarrow> (if pages' = 0 then Some R' else None)
          | Suc off' \<Rightarrow> init_sections off' base' pages' R')"

text \<open>\<open>tbl\<close> is the memory \<^verbatim>\<open>boot_mem_alloc\<close> returns for the node table, as it was before.\<close>

definition mem_range_init :: "nat \<Rightarrow> u32 \<Rightarrow> u32 \<Rightarrow> (nat \<Rightarrow> mem_node_t) option \<Rightarrow> mem_pool \<Rightarrow> mem_pool option" where
  "mem_range_init idx start len tbl pool =
     (if idx \<ge> MEM_RANGE_NR then Some pool
      else do {
        t \<leftarrow> tbl;
        R \<leftarrow> init_sections (MEM_SECTION_MAX_NR - 1) 0 (unat (len div 0x1000))
               \<lparr>r_start = start, r_end = start + len, r_pages = unat (len div 0x1000),
                r_sections = map (\<lambda>i. mem_section_init (2 ^ i)) [0..<MEM_SECTION_MAX_NR], node_table = t\<rparr>;
        Some (pool[idx := R]) })"

text \<open>A node pointer is the number of its range and its index there.\<close>

definition mem_range_get_by_mem_node :: "nat \<times> nat \<Rightarrow> mem_pool \<Rightarrow> nat option" where
  "mem_range_get_by_mem_node node pool =
     (if fst node < length pool \<and> snd node < r_pages (pool ! fst node) then Some (fst node) else None)"

definition mem_range_get_by_phy_addr :: "u32 \<Rightarrow> mem_pool \<Rightarrow> nat option" where
  "mem_range_get_by_phy_addr addr pool = scan_index (\<lambda>R. r_start R \<le> addr \<and> addr < r_end R) pool"

text \<open>The outer \<open>None\<close> is the panic for an address in no range, the inner one a null pointer.\<close>

definition phy_addr_to_mem_node :: "u32 \<Rightarrow> mem_pool \<Rightarrow> (nat \<times> nat) option option" where
  "phy_addr_to_mem_node addr pool =
     (if addr = 0 then Some None
      else do {
        r \<leftarrow> mem_range_get_by_phy_addr addr pool;
        Some (Some (r, unat (drop_bit 12 (addr - r_start (pool ! r))))) })"

definition mem_node_to_phy_addr :: "nat \<times> nat \<Rightarrow> mem_pool \<Rightarrow> u32 option" where
  "mem_node_to_phy_addr node pool = do {
     r \<leftarrow> mem_range_get_by_mem_node node pool;
     Some (push_bit 12 (of_nat (snd node)) + r_start (pool ! r)) }"

text \<open>One split: the first block of section \<open>j\<close> becomes two blocks of section \<open>j - 1\<close>.\<close>

definition split_block :: "nat \<Rightarrow> mem_range_t \<Rightarrow> mem_range_t" where
  "split_block j R =
     (let node = hd (freel R j); cnt = section_size (sect R j) div 2; half = node + cnt;
          R1 = upd_sect j (\<lambda>s. s\<lparr>free_list_head := tl (free_list_head s), node_count := node_count s - 1\<rparr>) R;
          R2 = upd_node half (mem_node_init 1 cnt) (upd_node node (mem_node_init 1 cnt) R1);
          R3 = upd_sect (j - 1) (\<lambda>s. s\<lparr>free_list_head := half # node # free_list_head s, node_count := node_count s + 2\<rparr>) R2
      in upd_node half (MEM_NODE_MARK_SECTION (j - 1)) (upd_node node (MEM_NODE_MARK_SECTION (j - 1)) R3))"

partial_function (option) mem_range_split_section :: "nat \<Rightarrow> mem_range_t \<Rightarrow> (unit res \<times> mem_range_t) option" where
  "mem_range_split_section k R =
     (if freel R k \<noteq> [] then Some (Inr (), R)
      else case find (\<lambda>j. freel R j \<noteq> []) [Suc k..<MEM_SECTION_MAX_NR] of
        None \<Rightarrow> Some (Inl E_FAIL, R)
      | Some j \<Rightarrow> mem_range_split_section k (split_block j R))"

declare mem_range_split_section.simps [code]

definition range_of_flags :: "u32 \<Rightarrow> nat option" where
  "range_of_flags flags =
     (if flags AND MEM_NODE_TYPE_DMA \<noteq> 0 then Some 0
      else if flags AND MEM_NODE_TYPE_NORMAL \<noteq> 0 then Some 1
      else if flags AND MEM_NODE_TYPE_USER \<noteq> 0 then Some 2 else None)"

text \<open>
  The scan for the section ends at the last one if no section is large enough.
\<close>

definition section_for :: "nat \<Rightarrow> mem_range_t \<Rightarrow> nat" where
  "section_for cnt R =
     (case find (\<lambda>i. section_size (sect R i) \<ge> cnt) [0..<MEM_SECTION_MAX_NR] of
        Some i \<Rightarrow> i | None \<Rightarrow> MEM_SECTION_MAX_NR - 1)"

definition take_node :: "nat \<Rightarrow> nat \<Rightarrow> mem_range_t \<Rightarrow> nat \<times> mem_range_t" where
  "take_node k cnt R =
     (let node = hd (freel R k);
          R1 = upd_sect k (\<lambda>s. s\<lparr>free_list_head := tl (free_list_head s), node_count := node_count s - 1\<rparr>) R
      in (node, upd_node node (MEM_NODE_MARK_SECTION k) (upd_node node (mem_node_init 1 cnt) R1)))"

definition range_alloc :: "nat \<Rightarrow> mem_range_t \<Rightarrow> (nat option \<times> mem_range_t) option" where
  "range_alloc cnt R =
     (let k = section_for cnt R in
      if freel R k = [] then
        (if section_size (sect R k) = MEM_SECTION_MAX_SIZE then Some (None, R)
         else do {
           (e, R1) \<leftarrow> mem_range_split_section k R;
           if e \<noteq> Inr () then Some (None, R1)
           else let (node, R2) = take_node k cnt R1 in Some (Some node, R2) })
      else let (node, R2) = take_node k cnt R in Some (Some node, R2))"

text \<open>The result is the physical address, 0 for a failure.\<close>

definition mem_node_alloc_pages :: "nat \<Rightarrow> u32 \<Rightarrow> mem_pool \<Rightarrow> (u32 \<times> mem_pool) option" where
  "mem_node_alloc_pages cnt flags pool =
     (if cnt = 0 \<or> cnt > MEM_SECTION_MAX_SIZE then Some (0, pool)
      else do {
        r \<leftarrow> range_of_flags flags;
        (res, R) \<leftarrow> range_alloc cnt (pool ! r);
        case res of
          None \<Rightarrow> Some (0, pool[r := R])
        | Some node \<Rightarrow> do { a \<leftarrow> mem_node_to_phy_addr (r, node) (pool[r := R]); Some (a, pool[r := R]) } })"

definition range_free :: "nat \<Rightarrow> mem_range_t \<Rightarrow> unit res \<times> mem_range_t" where
  "range_free node R = (case n_section (node_table R node) of
       None \<Rightarrow> (Inl E_FAIL, R)
     | Some k \<Rightarrow> if node \<in> set (freel R k) then (Inl E_FAIL, R)
         else (Inr (), upd_sect k (\<lambda>s. s\<lparr>free_list_head := node # free_list_head s, node_count := node_count s + 1\<rparr>)
                         (upd_node node (mem_node_init 0 0) R)))"

definition mem_node_free_pages :: "u32 \<Rightarrow> mem_pool \<Rightarrow> (unit res \<times> mem_pool) option" where
  "mem_node_free_pages addr pool =
     (if addr = 0 then Some (Inl E_FAIL, pool)
      else do {
        p \<leftarrow> phy_addr_to_mem_node addr pool;
        case p of None \<Rightarrow> Some (Inl E_FAIL, pool)
        | Some (r, node) \<Rightarrow> (case range_free node (pool ! r) of (e, R) \<Rightarrow> Some (e, pool[r := R])) })"

definition range_free_pages :: "mem_range_t \<Rightarrow> nat" where
  "range_free_pages R = sum_list (map (\<lambda>i. node_count (sect R i) * section_size (sect R i)) [0..<MEM_SECTION_MAX_NR])"

definition mem_get_free_page_nr :: "mem_pool \<Rightarrow> nat" where
  "mem_get_free_page_nr pool = sum_list (map range_free_pages pool)"


section \<open>Blocks\<close>

text \<open>
  The abstract view: a block is its first page and the number of its section. The
  allocator's state is the set of free blocks and the set of allocated ones; together
  they are pairwise disjoint.
\<close>

definition blk :: "nat \<times> nat \<Rightarrow> nat set" where
  "blk b = {fst b ..< fst b + 2 ^ snd b}"

definition disj :: "(nat \<times> nat) set \<Rightarrow> bool" where
  "disj B \<longleftrightarrow> (\<forall>b \<in> B. \<forall>c \<in> B. b \<noteq> c \<longrightarrow> blk b \<inter> blk c = {})"

definition free_blocks :: "mem_range_t \<Rightarrow> (nat \<times> nat) set" where
  "free_blocks R = {(i, k). k < 12 \<and> i \<in> set (freel R k)}"

definition alloc_blocks :: "mem_range_t \<Rightarrow> (nat \<times> nat) set" where
  "alloc_blocks R = {(i, k). k < 12 \<and> i < r_pages R \<and> n_section (node_table R i) = Some k \<and> i \<notin> set (freel R k)}"

definition sections_ok :: "mem_range_t \<Rightarrow> bool" where
  "sections_ok R \<longleftrightarrow> length (r_sections R) = 12
     \<and> (\<forall>k < 12. section_size (sect R k) = 2 ^ k \<and> node_count (sect R k) = length (freel R k) \<and> distinct (freel R k))"

definition range_ok :: "mem_range_t \<Rightarrow> bool" where
  "range_ok R \<longleftrightarrow> sections_ok R \<and> disj (free_blocks R \<union> alloc_blocks R)
     \<and> (\<forall>b \<in> free_blocks R \<union> alloc_blocks R. fst b + 2 ^ snd b \<le> r_pages R)
     \<and> (\<forall>i < r_pages R. \<forall>k. n_section (node_table R i) = Some k \<longrightarrow> k < 12)"

lemma blk_nonempty: "fst b \<in> blk b" by (simp add: blk_def)

lemma disjD: "disj B \<Longrightarrow> b \<in> B \<Longrightarrow> c \<in> B \<Longrightarrow> x \<in> blk b \<Longrightarrow> x \<in> blk c \<Longrightarrow> b = c"
  by (auto simp: disj_def)

lemma disj_mono: "disj B \<Longrightarrow> C \<subseteq> B \<Longrightarrow> disj C" unfolding disj_def by blast

lemma blk_split: "blk (i, Suc m) = blk (i, m) \<union> blk (i + 2 ^ m, m)" "blk (i, m) \<inter> blk (i + 2 ^ m, m) = {}"
  by (auto simp: blk_def)

lemma disj_split:
  assumes "disj B" "(i, Suc m) \<in> B"
  shows "disj (B - {(i, Suc m)} \<union> {(i, m), (i + 2 ^ m, m)})"
proof -
  have out: "blk c \<inter> blk (i, m) = {}" "blk c \<inter> blk (i + 2 ^ m, m) = {}" if "c \<in> B - {(i, Suc m)}" for c
  proof -
    have "blk c \<inter> blk (i, Suc m) = {}" using assms that by (auto simp: disj_def)
    then show "blk c \<inter> blk (i, m) = {}" "blk c \<inter> blk (i + 2 ^ m, m) = {}" by (auto simp: blk_split(1))
  qed
  have "blk b \<inter> blk c = {}" if bc: "b \<in> B - {(i, Suc m)} \<union> {(i, m), (i + 2 ^ m, m)}"
    "c \<in> B - {(i, Suc m)} \<union> {(i, m), (i + 2 ^ m, m)}" "b \<noteq> c" for b c
  proof -
    consider "b \<in> B - {(i, Suc m)}" "c \<in> B - {(i, Suc m)}" | "b \<in> B - {(i, Suc m)}" "c \<in> {(i, m), (i + 2 ^ m, m)}"
      | "c \<in> B - {(i, Suc m)}" "b \<in> {(i, m), (i + 2 ^ m, m)}"
      | "b \<in> {(i, m), (i + 2 ^ m, m)}" "c \<in> {(i, m), (i + 2 ^ m, m)}" using bc by blast
    then show ?thesis
    proof cases
      case 1 then show ?thesis using assms(1) bc(3) by (auto simp: disj_def)
    next
      case 2 then show ?thesis using out[of b] by blast
    next
      case 3 then show ?thesis using out[of c] by blast
    next
      case 4 then show ?thesis using bc(3) blk_split(2)[of i m] by auto
    qed
  qed
  then show ?thesis by (auto simp: disj_def)
qed

lemma upd_simps [simp]:
  "node_table (upd_sect k f R) = node_table R" "r_pages (upd_sect k f R) = r_pages R"
  "r_start (upd_sect k f R) = r_start R" "r_end (upd_sect k f R) = r_end R"
  "length (r_sections (upd_sect k f R)) = length (r_sections R)"
  "k < length (r_sections R) \<Longrightarrow> sect (upd_sect k f R) m = (if m = k then f (sect R k) else sect R m)"
  "r_sections (upd_node i g R) = r_sections R" "r_pages (upd_node i g R) = r_pages R"
  "r_start (upd_node i g R) = r_start R" "r_end (upd_node i g R) = r_end R"
  "node_table (upd_node i g R) = (node_table R)(i := g (node_table R i))"
  by (simp_all add: upd_sect_def upd_node_def)

lemma node_section_simps [simp]:
  "n_section (mem_node_init r c n) = None" "n_section (MEM_NODE_MARK_SECTION k n) = Some k"
  by (simp_all add: mem_node_init_def MEM_NODE_MARK_SECTION_def)

lemma range_okD:
  assumes "range_ok R"
  shows "length (r_sections R) = 12" "k < 12 \<Longrightarrow> section_size (sect R k) = 2 ^ k"
    "k < 12 \<Longrightarrow> node_count (sect R k) = length (freel R k)" "k < 12 \<Longrightarrow> distinct (freel R k)"
    "disj (free_blocks R \<union> alloc_blocks R)"
    "b \<in> free_blocks R \<union> alloc_blocks R \<Longrightarrow> fst b + 2 ^ snd b \<le> r_pages R"
  using assms by (auto simp: range_ok_def sections_ok_def)

text \<open>Two blocks that share a page are the same block.\<close>

lemma block_eq:
  assumes "range_ok R" "b \<in> free_blocks R \<union> alloc_blocks R" "c \<in> free_blocks R \<union> alloc_blocks R"
    "x \<in> blk b" "x \<in> blk c"
  shows "b = c"
  using disjD[OF range_okD(5)[OF assms(1)] assms(2-5)] .

lemma free_not_alloc: "(i, k) \<in> free_blocks R \<Longrightarrow> (i, k) \<notin> alloc_blocks R"
  by (simp add: free_blocks_def alloc_blocks_def)

text \<open>A page inside a free block is no other block's first page.\<close>

lemma inside_free:
  assumes "range_ok R" "(i, k) \<in> free_blocks R" "x \<in> blk (i, k)"
  shows "(x, l) \<in> free_blocks R \<Longrightarrow> x = i \<and> l = k" "(x, l) \<notin> alloc_blocks R"
proof -
  have "(x, l) = (i, k)" if "(x, l) \<in> free_blocks R \<union> alloc_blocks R" for l
    using block_eq[OF assms(1) that, of "(i, k)" x] assms(2,3) by (simp add: blk_def)
  then show "(x, l) \<in> free_blocks R \<Longrightarrow> x = i \<and> l = k" "(x, l) \<notin> alloc_blocks R"
    using free_not_alloc[OF assms(2)] by auto
qed


text \<open>The number of free pages is the size of the free blocks.\<close>

lemma range_free_pages_eq:
  assumes "sections_ok R"
  shows "range_free_pages R = (\<Sum>k < 12. length (freel R k) * 2 ^ k)"
proof -
  have "range_free_pages R = (\<Sum>k \<leftarrow> [0..<12]. length (freel R k) * 2 ^ k)"
    unfolding range_free_pages_def using assms
    by (intro arg_cong[of _ _ sum_list] map_cong) (auto simp: sections_ok_def)
  also have "\<dots> = (\<Sum>k < 12. length (freel R k) * 2 ^ k)"
    by (simp add: interv_sum_list_conv_sum_set_nat atLeast0LessThan)
  finally show ?thesis .
qed

lemma sum_update2:
  fixes f g :: "nat \<Rightarrow> nat"
  assumes "Suc m < n" "\<And>k. k < n \<Longrightarrow> k \<noteq> m \<Longrightarrow> k \<noteq> Suc m \<Longrightarrow> g k = f k"
  shows "(\<Sum>k < n. g k) + (f m + f (Suc m)) = (\<Sum>k < n. f k) + (g m + g (Suc m))"
proof -
  let ?S = "{..<n} - {m, Suc m}"
  have split: "(\<Sum>k < n. h k) = h m + h (Suc m) + sum h ?S" for h :: "nat \<Rightarrow> nat"
  proof -
    have "{..<n} = insert m (insert (Suc m) ?S)" using assms(1) by auto
    then have "sum h {..<n} = sum h (insert m (insert (Suc m) ?S))" by simp
    also have "\<dots> = h m + h (Suc m) + sum h ?S" by simp
    finally show ?thesis .
  qed
  have "sum g ?S = sum f ?S" using assms(2) by (intro sum.cong) auto
  then show ?thesis using split[of f] split[of g] by simp
qed

lemma sum_update1:
  fixes f g :: "nat \<Rightarrow> nat"
  assumes "m < n" "\<And>k. k < n \<Longrightarrow> k \<noteq> m \<Longrightarrow> g k = f k"
  shows "(\<Sum>k < n. g k) + f m = (\<Sum>k < n. f k) + g m"
proof -
  have "(\<Sum>k < n. h k) = h m + sum h ({..<n} - {m})" for h :: "nat \<Rightarrow> nat"
    using assms(1) by (intro sum.remove) auto
  moreover have "sum g ({..<n} - {m}) = sum f ({..<n} - {m})" using assms(2) by (intro sum.cong) auto
  ultimately show ?thesis by simp
qed

text \<open>What one split does to the representation.\<close>

lemma split_block_rep:
  assumes ok: "range_ok R" and j: "Suc m < 12" "freel R (Suc m) = i # is"
  defines "R' \<equiv> split_block (Suc m) R"
  shows "sect R' k = (if k = Suc m then (sect R (Suc m))\<lparr>free_list_head := is, node_count := length is\<rparr>
      else if k = m then (sect R m)\<lparr>free_list_head := (i + 2 ^ m) # i # freel R m, node_count := node_count (sect R m) + 2\<rparr>
      else sect R k)"
    "length (r_sections R') = 12" "r_pages R' = r_pages R" "r_start R' = r_start R" "r_end R' = r_end R"
    "n_section (node_table R' x) = (if x = i \<or> x = i + 2 ^ m then Some m else n_section (node_table R x))"
    "x \<noteq> i \<Longrightarrow> x \<noteq> i + 2 ^ m \<Longrightarrow> node_table R' x = node_table R x"
proof -
  note d = range_okD[OF ok]
  have sz: "section_size (sect R (Suc m)) div 2 = 2 ^ m" using d(2)[OF j(1)] by simp
  have cnt: "node_count (sect R (Suc m)) = Suc (length is)" using d(3)[OF j(1)] j(2) by simp
  show "sect R' k = (if k = Suc m then (sect R (Suc m))\<lparr>free_list_head := is, node_count := length is\<rparr>
      else if k = m then (sect R m)\<lparr>free_list_head := (i + 2 ^ m) # i # freel R m, node_count := node_count (sect R m) + 2\<rparr>
      else sect R k)"
    using d(1) j by (simp add: R'_def split_block_def Let_def sz cnt)
  show "length (r_sections R') = 12" "r_pages R' = r_pages R" "r_start R' = r_start R" "r_end R' = r_end R"
    using d(1) by (simp_all add: R'_def split_block_def Let_def)
  show "n_section (node_table R' x) = (if x = i \<or> x = i + 2 ^ m then Some m else n_section (node_table R x))"
    "x \<noteq> i \<Longrightarrow> x \<noteq> i + 2 ^ m \<Longrightarrow> node_table R' x = node_table R x"
    using j by (simp_all add: R'_def split_block_def Let_def sz)
qed

lemma split_block_ok:
  assumes ok: "range_ok R" and j: "Suc m < 12" "freel R (Suc m) = i # is"
  defines "R' \<equiv> split_block (Suc m) R"
  shows "range_ok R'" "alloc_blocks R' = alloc_blocks R" "range_free_pages R' = range_free_pages R"
    "\<forall>b \<in> alloc_blocks R. \<forall>x \<in> blk b. node_table R' x = node_table R x"
proof -
  note d = range_okD[OF ok] and rep = split_block_rep[OF ok j, folded R'_def]
  have f: "(i, Suc m) \<in> free_blocks R" using j by (simp add: free_blocks_def)
  have inb: "i \<in> blk (i, Suc m)" "i + 2 ^ m \<in> blk (i, Suc m)" by (auto simp: blk_def)
  note ins = inside_free[OF ok f inb(1)] inside_free[OF ok f inb(2)]
  have fl: "freel R' k = (if k = Suc m then is else if k = m then (i + 2 ^ m) # i # freel R m else freel R k)" for k
    by (simp add: rep(1))
  have notm: "i \<notin> set (freel R m)" "i + 2 ^ m \<notin> set (freel R m)"
    using ins(1)[of m] ins(3)[of m] j(1) by (auto simp: free_blocks_def)
  have dis: "i \<notin> set is" using d(4)[OF j(1)] j(2) by simp
  have F: "free_blocks R' = free_blocks R - {(i, Suc m)} \<union> {(i, m), (i + 2 ^ m, m)}"
    using j dis notm by (auto simp: free_blocks_def fl split: if_splits)
  have A: "alloc_blocks R' = alloc_blocks R"
  proof -
    have "(x, k) \<in> alloc_blocks R' \<longleftrightarrow> (x, k) \<in> alloc_blocks R" for x k
    proof (cases "x = i \<or> x = i + 2 ^ m")
      case True
      then have "(x, k) \<notin> alloc_blocks R" using ins(2,4) by auto
      moreover have "(x, k) \<notin> alloc_blocks R'" using True by (auto simp: alloc_blocks_def rep(6) fl)
      ultimately show ?thesis by simp
    next
      case False
      then have "x \<in> set (freel R' k) \<longleftrightarrow> x \<in> set (freel R k)" using j(2) by (auto simp: fl)
      then show ?thesis using False by (auto simp: alloc_blocks_def rep(3,6))
    qed
    then show ?thesis by auto
  qed
  show "alloc_blocks R' = alloc_blocks R" by (rule A)
  have B: "free_blocks R' \<union> alloc_blocks R' = free_blocks R \<union> alloc_blocks R - {(i, Suc m)} \<union> {(i, m), (i + 2 ^ m, m)}"
    unfolding F A using free_not_alloc[OF f] by blast
  have sok: "sections_ok R'"
    unfolding sections_ok_def
  proof (intro conjI allI impI)
    show "length (r_sections R') = 12" by (rule rep)
    fix k :: nat assume k: "k < 12"
    show "section_size (sect R' k) = 2 ^ k" "node_count (sect R' k) = length (freel R' k)"
      using d(2,3)[OF k] d(3)[of m] j by (auto simp: rep(1) d(2))
    show "distinct (freel R' k)"
      using d(4)[OF k] d(4)[of m] d(4)[OF j(1)] j notm by (auto simp: fl)
  qed
  have "fst b + 2 ^ snd b \<le> r_pages R'" if "b \<in> free_blocks R' \<union> alloc_blocks R'" for b
  proof -
    have "i + 2 ^ Suc m \<le> r_pages R" using d(6)[of "(i, Suc m)"] f by simp
    then show ?thesis using that d(6)[of b] unfolding B rep(3) by auto
  qed
  moreover have "disj (free_blocks R' \<union> alloc_blocks R')" unfolding B using d(5) f by (intro disj_split) auto
  moreover have "\<forall>x < r_pages R'. \<forall>k. n_section (node_table R' x) = Some k \<longrightarrow> k < 12"
    using ok j(1) by (auto simp: rep(3,6) range_ok_def)
  ultimately show "range_ok R'" using sok by (auto simp: range_ok_def)
  show "\<forall>b \<in> alloc_blocks R. \<forall>x \<in> blk b. node_table R' x = node_table R x"
  proof (intro ballI)
    fix b x assume b: "b \<in> alloc_blocks R" "x \<in> blk b"
    have "x \<notin> blk (i, Suc m)"
    proof
      assume "x \<in> blk (i, Suc m)"
      then have "b = (i, Suc m)" using block_eq[OF ok, of b "(i, Suc m)" x] b f by blast
      then show False using b(1) free_not_alloc[OF f] by simp
    qed
    then have "x \<noteq> i" "x \<noteq> i + 2 ^ m" using inb by auto
    then show "node_table R' x = node_table R x" by (rule rep(7))
  qed
  have "(\<Sum>k < 12. length (freel R' k) * 2 ^ k) + (length (freel R m) * 2 ^ m + length (freel R (Suc m)) * 2 ^ Suc m) =
      (\<Sum>k < 12. length (freel R k) * 2 ^ k) + (length (freel R' m) * 2 ^ m + length (freel R' (Suc m)) * 2 ^ Suc m)"
    by (rule sum_update2[OF j(1)]) (simp add: fl)
  then have "(\<Sum>k < 12. length (freel R' k) * 2 ^ k) = (\<Sum>k < 12. length (freel R k) * 2 ^ k)"
    using j(2) by (simp add: fl algebra_simps)
  then show "range_free_pages R' = range_free_pages R"
    using range_free_pages_eq[OF sok] range_free_pages_eq[of R] ok by (simp add: range_ok_def)
qed


text \<open>Nothing the clients can see changes: the same blocks are allocated, with the same nodes.\<close>

definition same_alloc :: "mem_range_t \<Rightarrow> mem_range_t \<Rightarrow> bool" where
  "same_alloc R R' \<longleftrightarrow> alloc_blocks R' = alloc_blocks R \<and> range_free_pages R' = range_free_pages R
     \<and> (\<forall>b \<in> alloc_blocks R. \<forall>x \<in> blk b. node_table R' x = node_table R x)
     \<and> r_pages R' = r_pages R \<and> r_start R' = r_start R \<and> r_end R' = r_end R"

lemma same_alloc_refl [simp]: "same_alloc R R" by (simp add: same_alloc_def)
lemma same_alloc_trans: "same_alloc R1 R2 \<Longrightarrow> same_alloc R2 R3 \<Longrightarrow> same_alloc R1 R3" by (simp add: same_alloc_def)

lemma find_upt:
  assumes "a \<le> j" "j < b" "P j" "\<And>m. a \<le> m \<Longrightarrow> m < j \<Longrightarrow> \<not> P m"
  shows "find P [a..<b] = Some j"
proof -
  have "\<not> P (a + l)" if "l < j - a" for l using that assms(4)[of "a + l"] by simp
  then show ?thesis unfolding find_Some_iff using assms(1-3) by (intro exI[of _ "j - a"]) auto
qed

text \<open>The recursion of \<^verbatim>\<open>mem_range_split_section\<close> ends, by induction on the distance to the block it splits.\<close>

lemma split_section_found:
  assumes "range_ok R" "k + n < 12" "freel R (k + n) \<noteq> []" "\<And>m. m < n \<Longrightarrow> freel R (k + m) = []"
  shows "\<exists>R'. mem_range_split_section k R = Some (Inr (), R') \<and> range_ok R' \<and> freel R' k \<noteq> [] \<and> same_alloc R R'"
  using assms
proof (induction n arbitrary: R)
  case 0
  then show ?case by (simp add: mem_range_split_section.simps[of k R])
next
  case (Suc n)
  let ?j = "Suc (k + n)"
  obtain i "is" where i: "freel R ?j = i # is" using Suc.prems(3) by (cases "freel R ?j") auto
  have k0: "freel R k = []" using Suc.prems(4)[of 0] by simp
  have low: "freel R m = []" if "k < m" "m < ?j" for m
  proof -
    have "m - k < Suc n" "k + (m - k) = m" using that by auto
    with Suc.prems(4)[of "m - k"] show ?thesis by simp
  qed
  have fnd: "find (\<lambda>j. freel R j \<noteq> []) [Suc k..<12] = Some ?j"
    by (rule find_upt) (use Suc.prems(2,3) low in auto)
  define R1 where "R1 = split_block ?j R"
  have j: "?j < 12" using Suc.prems(2) by simp
  note ok1 = split_block_ok[OF Suc.prems(1) j i, folded R1_def] and rep = split_block_rep[OF Suc.prems(1) j i, folded R1_def]
  have "\<exists>R'. mem_range_split_section k R1 = Some (Inr (), R') \<and> range_ok R' \<and> freel R' k \<noteq> [] \<and> same_alloc R1 R'"
  proof (rule Suc.IH)
    show "range_ok R1" by (rule ok1)
    show "k + n < 12" using j by simp
    show "freel R1 (k + n) \<noteq> []" by (simp add: rep(1))
    show "freel R1 (k + m) = []" if "m < n" for m using that Suc.prems(4)[of m] by (simp add: rep(1))
  qed
  moreover have "mem_range_split_section k R = mem_range_split_section k R1"
    using k0 fnd by (simp add: mem_range_split_section.simps[of k R] R1_def)
  moreover have "same_alloc R R1" using ok1 rep(3-5) by (simp add: same_alloc_def)
  ultimately show ?case by (metis same_alloc_trans)
qed

lemma split_section_ok:
  assumes "range_ok R" "k < 12"
  shows "\<exists>e R'. mem_range_split_section k R = Some (e, R') \<and> range_ok R' \<and> same_alloc R R'
    \<and> (if \<exists>j < 12. k \<le> j \<and> freel R j \<noteq> [] then e = Inr () \<and> freel R' k \<noteq> [] else e = Inl E_FAIL \<and> R' = R)"
proof (cases "\<exists>j < 12. k \<le> j \<and> freel R j \<noteq> []")
  case True
  define n where "n = (LEAST n. freel R (k + n) \<noteq> [])"
  from True obtain m where m: "k + m < 12" "freel R (k + m) \<noteq> []" by (metis le_Suc_ex)
  have "freel R (k + n) \<noteq> []" "n \<le> m" unfolding n_def
    using LeastI[of "\<lambda>n. freel R (k + n) \<noteq> []", OF m(2)] Least_le[of "\<lambda>n. freel R (k + n) \<noteq> []", OF m(2)] by simp_all
  moreover have "freel R (k + l) = []" if "l < n" for l
    using not_less_Least[of l "\<lambda>n. freel R (k + n) \<noteq> []"] that by (auto simp: n_def)
  ultimately show ?thesis using split_section_found[of R k n] assms m(1) True by fastforce
next
  case False
  then have "freel R k = []" "find (\<lambda>j. freel R j \<noteq> []) [Suc k..<12] = None"
    using assms(2) by (auto simp: find_None_iff)
  then show ?thesis using False assms(1) by (simp add: mem_range_split_section.simps[of k R])
qed

text \<open>Taking the first block of a section.\<close>

lemma take_node_ok:
  fixes cnt :: nat
  assumes ok: "range_ok R" and k: "k < 12" "freel R k = i # is"
  defines "R' \<equiv> snd (take_node k cnt R)"
  shows "fst (take_node k cnt R) = i" "range_ok R'" "free_blocks R' = free_blocks R - {(i, k)}"
    "alloc_blocks R' = insert (i, k) (alloc_blocks R)"
    "range_free_pages R' + 2 ^ k = range_free_pages R" "\<And>x. x \<noteq> i \<Longrightarrow> node_table R' x = node_table R x"
    "n_count (node_table R' i) = cnt" "n_section (node_table R' i) = Some k"
    "n_cache (node_table R' i) = None" "n_group (node_table R' i) = None"
    "r_pages R' = r_pages R" "r_start R' = r_start R" "r_end R' = r_end R"
proof -
  note d = range_okD[OF ok]
  show hd: "fst (take_node k cnt R) = i" using k by (simp add: take_node_def Let_def)
  have cntk: "node_count (sect R k) = Suc (length is)" using d(3)[OF k(1)] k(2) by simp
  have sec: "sect R' m = (if m = k then (sect R k)\<lparr>free_list_head := is, node_count := length is\<rparr> else sect R m)" for m
    using d(1) k by (simp add: R'_def take_node_def Let_def cntk)
  show pg: "r_pages R' = r_pages R" "r_start R' = r_start R" "r_end R' = r_end R"
    and node: "\<And>x. x \<noteq> i \<Longrightarrow> node_table R' x = node_table R x"
    and sc: "n_section (node_table R' i) = Some k"
    and "n_count (node_table R' i) = cnt" "n_cache (node_table R' i) = None" "n_group (node_table R' i) = None"
    using d(1) k by (simp_all add: R'_def take_node_def Let_def mem_node_init_def MEM_NODE_MARK_SECTION_def)
  have f: "(i, k) \<in> free_blocks R" using k by (simp add: free_blocks_def)
  have dis: "i \<notin> set is" using d(4)[OF k(1)] k(2) by simp
  show F: "free_blocks R' = free_blocks R - {(i, k)}"
    using k dis by (auto simp: free_blocks_def sec split: if_splits)
  have ilt: "i < r_pages R" using d(6)[of "(i, k)"] f by (simp add: order_less_le_trans[of _ "i + 2 ^ k"])
  have noti: "(i, l) \<notin> alloc_blocks R" for l using inside_free(2)[OF ok f, of i] by (simp add: blk_def)
  show A: "alloc_blocks R' = insert (i, k) (alloc_blocks R)"
  proof -
    have "(x, l) \<in> alloc_blocks R' \<longleftrightarrow> (x, l) = (i, k) \<or> (x, l) \<in> alloc_blocks R" for x l
    proof (cases "x = i")
      case True
      then show ?thesis using noti[of l] dis ilt k(1) sc by (auto simp: alloc_blocks_def sec pg)
    next
      case False
      then have "x \<in> set (freel R' l) \<longleftrightarrow> x \<in> set (freel R l)" using k(2) by (auto simp: sec)
      then show ?thesis using False node by (auto simp: alloc_blocks_def pg)
    qed
    then show ?thesis by auto
  qed
  have B: "free_blocks R' \<union> alloc_blocks R' = free_blocks R \<union> alloc_blocks R" unfolding F A using f by blast
  have sok: "sections_ok R'"
    using d(1-4) k unfolding sections_ok_def
    by (auto simp: sec) (use k(2) d(4)[OF k(1)] d(1) in \<open>auto simp: R'_def take_node_def Let_def\<close>)
  have "\<forall>x < r_pages R'. \<forall>l. n_section (node_table R' x) = Some l \<longrightarrow> l < 12"
  proof (intro allI impI)
    fix x l assume "x < r_pages R'" "n_section (node_table R' x) = Some l"
    then show "l < 12" using ok sc node[of x] k(1) pg by (cases "x = i") (auto simp: range_ok_def)
  qed
  then show "range_ok R'" using sok d(5,6) by (simp add: range_ok_def B pg)
  have "(\<Sum>m < 12. length (freel R' m) * 2 ^ m) + length (freel R k) * 2 ^ k =
      (\<Sum>m < 12. length (freel R m) * 2 ^ m) + length (freel R' k) * 2 ^ k"
    by (rule sum_update1[OF k(1)]) (simp add: sec)
  then show "range_free_pages R' + 2 ^ k = range_free_pages R"
    using range_free_pages_eq[OF sok] range_free_pages_eq[of R] ok k(2) by (simp add: range_ok_def sec)
qed

lemma section_for_spec:
  assumes "range_ok R" "0 < cnt" "cnt \<le> 2048"
  shows "section_for cnt R < 12" "cnt \<le> 2 ^ section_for cnt R" "\<And>j. j < section_for cnt R \<Longrightarrow> 2 ^ j < cnt"
proof -
  let ?P = "\<lambda>i. section_size (sect R i) \<ge> cnt"
  define k where "k = (LEAST i. cnt \<le> 2 ^ i)"
  have "cnt \<le> 2 ^ 11" using assms(3) by simp
  then have k: "cnt \<le> 2 ^ k" "k \<le> 11" unfolding k_def by (auto intro: LeastI[of _ 11] Least_le)
  have low: "2 ^ j < cnt" if "j < k" for j using not_less_Least[of j "\<lambda>i. cnt \<le> 2 ^ i"] that by (simp add: k_def)
  have "find ?P [0..<12] = Some k"
    by (rule find_upt) (use k low range_okD(2)[OF assms(1)] in \<open>auto simp: not_le\<close>)
  then have "section_for cnt R = k" by (simp add: section_for_def)
  then show "section_for cnt R < 12" "cnt \<le> 2 ^ section_for cnt R" "\<And>j. j < section_for cnt R \<Longrightarrow> 2 ^ j < cnt"
    using k low by auto
qed

text \<open>The contract of one range: allocation succeeds exactly if some block is large enough.\<close>

lemma range_alloc_ok:
  assumes ok: "range_ok R" and cnt: "0 < cnt" "cnt \<le> 2048"
  defines "k \<equiv> section_for cnt R"
  shows "(\<exists>j < 12. k \<le> j \<and> freel R j \<noteq> []) \<and> (\<exists>i R'. range_alloc cnt R = Some (Some i, R') \<and> range_ok R'
      \<and> (i, k) \<notin> alloc_blocks R \<and> alloc_blocks R' = insert (i, k) (alloc_blocks R) \<and> range_free_pages R' + 2 ^ k = range_free_pages R
      \<and> (\<forall>b \<in> alloc_blocks R. \<forall>x \<in> blk b. node_table R' x = node_table R x)
      \<and> n_count (node_table R' i) = cnt \<and> n_cache (node_table R' i) = None \<and> n_group (node_table R' i) = None
      \<and> r_pages R' = r_pages R \<and> r_start R' = r_start R \<and> r_end R' = r_end R)
    \<or> (\<forall>j < 12. k \<le> j \<longrightarrow> freel R j = []) \<and> range_alloc cnt R = Some (None, R)"
proof -
  have k: "k < 12" using section_for_spec(1)[OF ok cnt] by (simp add: k_def)
  have take: "(\<exists>i R'. take_node k cnt R1 = (i, R') \<and> range_ok R' \<and> (i, k) \<notin> alloc_blocks R \<and> alloc_blocks R' = insert (i, k) (alloc_blocks R)
      \<and> range_free_pages R' + 2 ^ k = range_free_pages R \<and> (\<forall>b \<in> alloc_blocks R. \<forall>x \<in> blk b. node_table R' x = node_table R x)
      \<and> n_count (node_table R' i) = cnt \<and> n_cache (node_table R' i) = None \<and> n_group (node_table R' i) = None
      \<and> r_pages R' = r_pages R \<and> r_start R' = r_start R \<and> r_end R' = r_end R)"
    if R1: "range_ok R1" "same_alloc R R1" "freel R1 k \<noteq> []" for R1
  proof -
    obtain i "is" where i: "freel R1 k = i # is" using R1(3) by (cases "freel R1 k") auto
    note t = take_node_ok[OF R1(1) k i, where cnt = cnt]
    have f: "(i, k) \<in> free_blocks R1" using i k by (simp add: free_blocks_def)
    have noti: "(i, l) \<notin> alloc_blocks R1" for l
      using inside_free(2)[OF R1(1) f, of i l] by (simp add: blk_def)
    have "x \<noteq> i" if "b \<in> alloc_blocks R" "x \<in> blk b" for b x
    proof
      assume "x = i"
      then have "b = (i, k)" using block_eq[OF R1(1), of b "(i, k)" i] that f R1(2) by (auto simp: same_alloc_def blk_def)
      then show False using that(1) noti[of k] R1(2) by (simp add: same_alloc_def)
    qed
    then have "\<forall>b \<in> alloc_blocks R. \<forall>x \<in> blk b. node_table (snd (take_node k cnt R1)) x = node_table R x"
      using t(6) R1(2) by (simp add: same_alloc_def)
    then show ?thesis
      using t noti[of k] R1(2) by (intro exI[of _ i] exI[of _ "snd (take_node k cnt R1)"]) (auto simp: same_alloc_def prod_eq_iff)
  qed
  show ?thesis
  proof (cases "freel R k = []")
    case False
    then show ?thesis using take[OF ok same_alloc_refl False] k
      by (intro disjI1 conjI) (auto simp: range_alloc_def k_def[symmetric])
  next
    case empty: True
    show ?thesis
    proof (cases "section_size (sect R k) = 2048")
      case True
      then have "(2 :: nat) ^ k = 2 ^ 11" using range_okD(2)[OF ok k] by simp
      then have "k = 11" by (subst (asm) power_inject_exp) auto
      then have "\<forall>j < 12. k \<le> j \<longrightarrow> freel R j = []" using empty by (auto simp: numeral_eq_Suc less_Suc_eq)
      then show ?thesis using True empty by (intro disjI2 conjI) (simp_all add: range_alloc_def k_def[symmetric])
    next
      case False
      from split_section_ok[OF ok k] obtain e R1 where e: "mem_range_split_section k R = Some (e, R1)" "range_ok R1" "same_alloc R R1"
        "if \<exists>j < 12. k \<le> j \<and> freel R j \<noteq> [] then e = Inr () \<and> freel R1 k \<noteq> [] else e = Inl E_FAIL \<and> R1 = R" by blast
      show ?thesis
      proof (cases "\<exists>j < 12. k \<le> j \<and> freel R j \<noteq> []")
        case True
        with e have "e = Inr ()" "freel R1 k \<noteq> []" by auto
        with take[OF e(2,3)] e(1) empty False True show ?thesis
          by (intro disjI1 conjI) (auto simp: range_alloc_def k_def[symmetric])
      next
        case none: False
        with e have "e = Inl E_FAIL" "R1 = R" by auto
        with e(1) empty False none show ?thesis
          by (intro disjI2 conjI) (auto simp: range_alloc_def k_def[symmetric])
      qed
    qed
  qed
qed


text \<open>Giving an allocated block back.\<close>

lemma range_free_ok:
  assumes ok: "range_ok R" and b: "(i, k) \<in> alloc_blocks R"
  defines "R' \<equiv> snd (range_free i R)"
  shows "fst (range_free i R) = Inr ()" "range_ok R'" "free_blocks R' = insert (i, k) (free_blocks R)"
    "alloc_blocks R' = alloc_blocks R - {(i, k)}" "range_free_pages R' = range_free_pages R + 2 ^ k"
    "x \<noteq> i \<Longrightarrow> node_table R' x = node_table R x" "n_section (node_table R' i) = None"
    "r_pages R' = r_pages R" "r_start R' = r_start R" "r_end R' = r_end R"
proof -
  note d = range_okD[OF ok]
  from b have k: "k < 12" "i < r_pages R" "n_section (node_table R i) = Some k" "i \<notin> set (freel R k)"
    by (auto simp: alloc_blocks_def)
  show "fst (range_free i R) = Inr ()" using k by (simp add: range_free_def)
  have sec: "sect R' m = (if m = k then (sect R k)\<lparr>free_list_head := i # freel R k, node_count := node_count (sect R k) + 1\<rparr> else sect R m)" for m
    using d(1) k by (simp add: R'_def range_free_def)
  show pg: "r_pages R' = r_pages R" "r_start R' = r_start R" "r_end R' = r_end R"
    and node: "x \<noteq> i \<Longrightarrow> node_table R' x = node_table R x" and ni: "n_section (node_table R' i) = None" for x
    using k by (simp_all add: R'_def range_free_def)
  show F: "free_blocks R' = insert (i, k) (free_blocks R)" using k by (auto simp: free_blocks_def sec split: if_splits)
  have A: "(x, l) \<in> alloc_blocks R' \<longleftrightarrow> (x, l) \<in> alloc_blocks R - {(i, k)}" for x l
  proof (cases "x = i")
    case True
    then show ?thesis using ni k(3) by (auto simp: alloc_blocks_def)
  next
    case False
    then show ?thesis by (auto simp: alloc_blocks_def sec node pg)
  qed
  then show A': "alloc_blocks R' = alloc_blocks R - {(i, k)}" by auto
  have B: "free_blocks R' \<union> alloc_blocks R' = free_blocks R \<union> alloc_blocks R" unfolding F A' using b by blast
  have len: "length (r_sections R') = 12" using d(1) k by (simp add: R'_def range_free_def)
  have sok: "sections_ok R'" unfolding sections_ok_def using len d(2-4) k by (auto simp: sec)
  have "\<forall>x < r_pages R'. \<forall>l. n_section (node_table R' x) = Some l \<longrightarrow> l < 12"
  proof (intro allI impI)
    fix x l assume "x < r_pages R'" "n_section (node_table R' x) = Some l"
    then show "l < 12" using ok ni node[of x] pg by (cases "x = i") (auto simp: range_ok_def)
  qed
  then show "range_ok R'" using sok d(5,6) by (simp add: range_ok_def B pg)
  have "(\<Sum>m < 12. length (freel R' m) * 2 ^ m) + length (freel R k) * 2 ^ k =
      (\<Sum>m < 12. length (freel R m) * 2 ^ m) + length (freel R' k) * 2 ^ k"
    by (rule sum_update1[OF k(1)]) (simp add: sec)
  then show "range_free_pages R' = range_free_pages R + 2 ^ k"
    using range_free_pages_eq[OF sok] range_free_pages_eq[of R] ok by (simp add: range_ok_def sec)
qed


section \<open>Addresses\<close>

definition page_addr :: "mem_range_t \<Rightarrow> nat \<Rightarrow> u32" where
  "page_addr R i = push_bit 12 (of_nat i) + r_start R"

text \<open>The ranges lie in the 32-bit address space above address 0 and do not overlap.\<close>

definition layout_ok :: "mem_pool \<Rightarrow> bool" where
  "layout_ok pool \<longleftrightarrow> length pool = 3
     \<and> (\<forall>R \<in> set pool. 0 < r_start R \<and> unat (r_start R) + 4096 * r_pages R \<le> unat (r_end R))
     \<and> (\<forall>r < 3. \<forall>q < 3. r \<noteq> q \<longrightarrow> r_end (pool ! r) \<le> r_start (pool ! q) \<or> r_end (pool ! q) \<le> r_start (pool ! r))"

definition pool_ok :: "mem_pool \<Rightarrow> bool" where
  "pool_ok pool \<longleftrightarrow> layout_ok pool \<and> (\<forall>R \<in> set pool. range_ok R)"

lemma page_addr_unat:
  assumes "layout_ok pool" "R \<in> set pool" "i < r_pages R"
  shows "unat (page_addr R i) = 4096 * i + unat (r_start R)" "page_addr R i \<noteq> 0"
    "r_start R \<le> page_addr R i" "page_addr R i < r_end R" "page_addr R i - r_start R = push_bit 12 (of_nat i)"
    "unat (drop_bit 12 (page_addr R i - r_start R)) = i"
proof -
  have g: "0 < unat (r_start R)" "unat (r_start R) + 4096 * r_pages R \<le> unat (r_end R)"
    using assms(1,2) by (auto simp: layout_ok_def word_less_nat_alt)
  have e: "unat (r_end R) < 2 ^ 32" using unsigned_less[of "r_end R", where 'a = nat] by simp
  have b: "4096 * i + unat (r_start R) < 2 ^ 32" "i < 2 ^ 20" using g e assms(3) by auto
  have p: "unat (push_bit 12 (of_nat i :: u32)) = 4096 * i"
  proof -
    have "push_bit 12 (of_nat i :: u32) = of_nat (4096 * i)" by (simp add: push_bit_eq_mult mult.commute)
    moreover have "unat (of_nat (4096 * i) :: u32) = 4096 * i"
      unfolding unsigned_of_nat using b by (simp add: take_bit_nat_eq_self del: of_nat_mult)
    ultimately show ?thesis by simp
  qed
  show a: "unat (page_addr R i) = 4096 * i + unat (r_start R)"
    unfolding page_addr_def using b by (subst unat_add_lem[THEN iffD1]) (simp_all add: p)
  show "r_start R \<le> page_addr R i" "page_addr R i < r_end R"
    using a g assms(3) by (auto simp: word_le_nat_alt word_less_nat_alt)
  show "page_addr R i \<noteq> 0" using a g(1) by (metis add_is_0 less_numeral_extra(3) unat_0)
  show d: "page_addr R i - r_start R = push_bit 12 (of_nat i)" by (simp add: page_addr_def)
  have "unat (drop_bit 12 (push_bit 12 (of_nat i :: u32))) = i"
    unfolding unsigned_drop_bit_eq p using b(1) by (simp add: drop_bit_eq_div take_bit_nat_eq_self)
  then show "unat (drop_bit 12 (page_addr R i - r_start R)) = i" by (simp add: d)
qed

lemma phy_addr_to_mem_node_page:
  assumes "layout_ok pool" "r < 3" "i < r_pages (pool ! r)"
  shows "phy_addr_to_mem_node (page_addr (pool ! r) i) pool = Some (Some (r, i))"
    "mem_node_to_phy_addr (r, i) pool = Some (page_addr (pool ! r) i)"
proof -
  have len: "length pool = 3" and mem: "pool ! r \<in> set pool" using assms(1,2) by (auto simp: layout_ok_def)
  note pa = page_addr_unat[OF assms(1) mem assms(3)]
  have "scan_index (\<lambda>R. r_start R \<le> page_addr (pool ! r) i \<and> page_addr (pool ! r) i < r_end R) pool = Some r"
    unfolding scan_index_Some_iff
  proof (intro conjI allI impI)
    show "r < length pool" using assms(2) len by simp
    show "r_start (pool ! r) \<le> page_addr (pool ! r) i" "page_addr (pool ! r) i < r_end (pool ! r)" by (fact pa)+
    fix j assume j: "j < r"
    then have "r_end (pool ! j) \<le> r_start (pool ! r) \<or> r_end (pool ! r) \<le> r_start (pool ! j)"
      using assms(1,2) by (auto simp: layout_ok_def)
    with pa(3,4) show "\<not> (r_start (pool ! j) \<le> page_addr (pool ! r) i \<and> page_addr (pool ! r) i < r_end (pool ! j))" by auto
  qed
  then show "phy_addr_to_mem_node (page_addr (pool ! r) i) pool = Some (Some (r, i))"
    using pa(2,6) by (simp add: phy_addr_to_mem_node_def mem_range_get_by_phy_addr_def)
  show "mem_node_to_phy_addr (r, i) pool = Some (page_addr (pool ! r) i)"
    using assms(2,3) len by (simp add: mem_node_to_phy_addr_def mem_range_get_by_mem_node_def page_addr_def)
qed

text \<open>Any address inside a page leads to the page's node.\<close>

lemma phy_addr_in_page:
  assumes "layout_ok pool" "r < 3" "i < r_pages (pool ! r)" "off < 4096"
  shows "phy_addr_to_mem_node (page_addr (pool ! r) i + of_nat off) pool = Some (Some (r, i))"
proof -
  let ?R = "pool ! r" and ?a = "page_addr (pool ! r) i + of_nat off"
  have len: "length pool = 3" and mem: "?R \<in> set pool" using assms(1,2) by (auto simp: layout_ok_def)
  note pa = page_addr_unat[OF assms(1) mem assms(3)]
  have g: "unat (r_start ?R) + 4096 * r_pages ?R \<le> unat (r_end ?R)" using assms(1) mem by (auto simp: layout_ok_def)
  have e: "unat (r_end ?R) < 2 ^ 32" using unsigned_less[of "r_end ?R", where 'a = nat] by simp
  have o: "unat (of_nat off :: u32) = off" using assms(4) by (simp add: unsigned_of_nat take_bit_nat_eq_self)
  have "4096 * i + 4096 \<le> 4096 * r_pages ?R" using assms(3) by simp
  with pa(1) g e assms(4) have bnd: "unat (page_addr ?R i) + off < unat (r_end ?R)" by linarith
  then have ua: "unat ?a = unat (page_addr ?R i) + off" using e o by (subst unat_add_no_overflow) simp_all
  have rng: "r_start ?R \<le> ?a" "?a < r_end ?R" using ua bnd pa(1) by (auto simp: word_le_nat_alt word_less_nat_alt)
  have nz: "?a \<noteq> 0" using ua pa(1,2) by (metis add_eq_0_iff_both_eq_0 unat_0 unat_eq_zero)
  have "scan_index (\<lambda>R. r_start R \<le> ?a \<and> ?a < r_end R) pool = Some r"
    unfolding scan_index_Some_iff
  proof (intro conjI allI impI)
    fix j assume j: "j < r"
    then have "r_end (pool ! j) \<le> r_start ?R \<or> r_end ?R \<le> r_start (pool ! j)" using assms(1,2) by (auto simp: layout_ok_def)
    with rng show "\<not> (r_start (pool ! j) \<le> ?a \<and> ?a < r_end (pool ! j))" by auto
  qed (use assms(2) len rng in auto)
  moreover have "unat (drop_bit 12 (?a - r_start ?R)) = i"
  proof -
    have "unat (?a - r_start ?R) = 4096 * i + off" using ua pa(1) rng(1) by (simp add: unat_sub)
    then show ?thesis unfolding unsigned_drop_bit_eq using assms(4) bnd pa(1) e
      by (simp add: drop_bit_eq_div take_bit_nat_eq_self)
  qed
  ultimately show ?thesis using nz by (simp add: phy_addr_to_mem_node_def mem_range_get_by_phy_addr_def)
qed

lemma pool_ok_update:
  assumes "pool_ok pool" "r < 3" "range_ok R" "r_pages R = r_pages (pool ! r)" "r_start R = r_start (pool ! r)"
    "r_end R = r_end (pool ! r)"
  shows "pool_ok (pool[r := R])"
proof -
  have len: "length pool = 3" using assms(1) by (simp add: pool_ok_def layout_ok_def)
  have nth: "pool[r := R] ! q = (if q = r then R else pool ! q)" if "q < 3" for q using that len by simp
  have geo: "r_pages (pool[r := R] ! q) = r_pages (pool ! q)" "r_start (pool[r := R] ! q) = r_start (pool ! q)"
    "r_end (pool[r := R] ! q) = r_end (pool ! q)" if "q < 3" for q using that assms(4-6) by (simp_all add: nth)
  have "layout_ok (pool[r := R])"
    using assms(1) len geo unfolding pool_ok_def layout_ok_def all_set_conv_all_nth by simp
  moreover have "\<forall>Q \<in> set (pool[r := R]). range_ok Q"
    using assms(1,3) set_update_subset_insert[of pool r R] by (auto simp: pool_ok_def)
  ultimately show ?thesis by (simp add: pool_ok_def)
qed

lemma mem_get_free_page_nr_update:
  assumes "r < length pool"
  shows "mem_get_free_page_nr (pool[r := R]) + range_free_pages (pool ! r) = mem_get_free_page_nr pool + range_free_pages R"
  using assms elem_le_sum_list[of r "map range_free_pages pool"]
  by (simp add: mem_get_free_page_nr_def map_update sum_list_update)



section \<open>Initialisation\<close>

definition new_nodes :: "nat \<Rightarrow> nat \<Rightarrow> nat \<Rightarrow> nat list" where
  "new_nodes k base cnt = map (\<lambda>i. base + i * 2 ^ k) [0..<cnt]"

lemma mem_section_setup_rep:
  fixes base cnt :: nat
  assumes k: "k < 12" "length (r_sections R) = 12" "section_size (sect R k) = 2 ^ k"
  defines "R' \<equiv> mem_section_setup k base cnt R"
  shows "sect R' m = (if m = k then (sect R k)\<lparr>free_list_head := freel R k @ new_nodes k base cnt, node_count := cnt\<rparr> else sect R m)
    \<and> length (r_sections R') = 12 \<and> r_pages R' = r_pages R \<and> r_start R' = r_start R \<and> r_end R' = r_end R
    \<and> n_section (node_table R' x) = (if x \<in> set (new_nodes k base cnt) then Some k else n_section (node_table R x))"
proof -
  define R0 where "R0 = upd_sect k (node_count_update (\<lambda>_. cnt)) R"
  have R0: "sect R0 m = (if m = k then (sect R k)\<lparr>node_count := cnt\<rparr> else sect R m)" "length (r_sections R0) = 12"
    "r_pages R0 = r_pages R" "r_start R0 = r_start R" "r_end R0 = r_end R" "node_table R0 = node_table R" for m
    using k by (simp_all add: R0_def)
  let ?Q = "\<lambda>n R1. (\<forall>m. sect R1 m = (if m = k then (sect R k)\<lparr>free_list_head := freel R k @ new_nodes k base n, node_count := cnt\<rparr> else sect R m))
    \<and> length (r_sections R1) = 12 \<and> r_pages R1 = r_pages R \<and> r_start R1 = r_start R \<and> r_end R1 = r_end R
    \<and> (\<forall>x. n_section (node_table R1 x) = (if x \<in> set (new_nodes k base n) then Some k else n_section (node_table R x)))"
  have "?Q n (fold (setup_node k base) [0..<n] R0)" for n
  proof (induction n)
    case 0
    show ?case using R0 by (simp add: new_nodes_def)
  next
    case (Suc n)
    define R1 where "R1 = fold (setup_node k base) [0..<n] R0"
    from Suc have q: "?Q n R1" by (simp add: R1_def)
    have "fold (setup_node k base) [0..<Suc n] R0 = setup_node k base n R1" by (simp add: R1_def)
    moreover have "?Q (Suc n) (setup_node k base n R1)"
      using q k by (auto simp: setup_node_def Let_def new_nodes_def)
    ultimately show ?case by simp
  qed
  from this[of cnt] show ?thesis by (simp add: R'_def mem_section_setup_def R0_def)
qed

text \<open>The range while it is being set up: everything below \<open>base\<close> is free, nothing above is a node yet.\<close>

definition init_inv :: "nat \<Rightarrow> mem_range_t \<Rightarrow> bool" where
  "init_inv base R \<longleftrightarrow> sections_ok R \<and> alloc_blocks R = {} \<and> disj (free_blocks R) \<and> range_free_pages R = base
     \<and> (\<forall>b \<in> free_blocks R. fst b + 2 ^ snd b \<le> base) \<and> (\<forall>x \<ge> base. n_section (node_table R x) = None)
     \<and> (\<forall>x k. n_section (node_table R x) = Some k \<longrightarrow> k < 12)"

lemma new_nodes_blk:
  assumes "x \<in> set (new_nodes k base cnt)"
  shows "base \<le> x" "x + 2 ^ k \<le> base + cnt * 2 ^ k"
proof -
  from assms obtain i where i: "i < cnt" "x = base + i * 2 ^ k" by (auto simp: new_nodes_def)
  then show "base \<le> x" by simp
  have "Suc i * 2 ^ k \<le> cnt * 2 ^ k" using i(1) by (intro mult_right_mono) auto
  then show "x + 2 ^ k \<le> base + cnt * 2 ^ k" using i(2) by simp
qed

lemma new_nodes_disj:
  assumes "x \<in> set (new_nodes k base cnt)" "y \<in> set (new_nodes k base cnt)" "x \<noteq> y"
  shows "blk (x, k) \<inter> blk (y, k) = {}"
proof -
  from assms obtain i j where ij: "x = base + i * 2 ^ k" "y = base + j * 2 ^ k" "i \<noteq> j" by (auto simp: new_nodes_def)
  have "a * 2 ^ k + 2 ^ k \<le> b * 2 ^ k" if "a < b" for a b :: nat
  proof -
    have "Suc a * 2 ^ k \<le> b * 2 ^ k" using that by (intro mult_right_mono) auto
    then show ?thesis by simp
  qed
  moreover have "i < j \<or> j < i" using ij(3) by auto
  ultimately show ?thesis using ij(1,2) by (auto simp: blk_def) (meson leD le_add1 le_trans)+
qed

lemma mem_section_setup_inv:
  assumes inv: "init_inv base R" and k: "k < 12" "freel R k = []"
  shows "init_inv (base + cnt * 2 ^ k) (mem_section_setup k base cnt R)"
    "r_pages (mem_section_setup k base cnt R) = r_pages R"
    "r_start (mem_section_setup k base cnt R) = r_start R" "r_end (mem_section_setup k base cnt R) = r_end R"
    "m \<noteq> k \<Longrightarrow> freel (mem_section_setup k base cnt R) m = freel R m"
proof -
  let ?R = "mem_section_setup k base cnt R" and ?N = "set (new_nodes k base cnt)"
  have so: "sections_ok R" using inv by (simp add: init_inv_def)
  then have len: "length (r_sections R) = 12" "section_size (sect R k) = 2 ^ k" using k by (auto simp: sections_ok_def)
  note rep = mem_section_setup_rep[OF k(1) len, of base cnt]
  have fl: "freel ?R m = (if m = k then new_nodes k base cnt else freel R m)" for m using rep[of m] k(2) by simp
  show pg: "r_pages ?R = r_pages R" "r_start ?R = r_start R" "r_end ?R = r_end R"
    "m \<noteq> k \<Longrightarrow> freel ?R m = freel R m" for m using rep[of 0] fl by auto
  have ns: "n_section (node_table ?R x) = (if x \<in> ?N then Some k else n_section (node_table R x))" for x using rep by blast
  have F: "free_blocks ?R = free_blocks R \<union> (\<lambda>x. (x, k)) ` ?N" using k by (auto simp: free_blocks_def fl split: if_splits)
  have old: "fst b + 2 ^ snd b \<le> base" if "b \<in> free_blocks R" for b using inv that by (auto simp: init_inv_def)
  have dist: "distinct (new_nodes k base cnt)" by (auto simp: new_nodes_def distinct_map inj_on_def)
  have sok: "sections_ok ?R"
    unfolding sections_ok_def
  proof (intro conjI allI impI)
    show "length (r_sections ?R) = 12" using rep by blast
    fix l :: nat assume l: "l < 12"
    show "section_size (sect ?R l) = 2 ^ l" "node_count (sect ?R l) = length (freel ?R l)" "distinct (freel ?R l)"
      using rep[of l] so l k(2) dist by (auto simp: sections_ok_def new_nodes_def)
  qed
  have A: "alloc_blocks ?R = {}"
  proof -
    have "(x, l) \<notin> alloc_blocks ?R" for x l
    proof (cases "x \<in> ?N")
      case True
      then show ?thesis by (auto simp: alloc_blocks_def ns fl)
    next
      case False
      have "(x, l) \<notin> alloc_blocks R" using inv by (simp add: init_inv_def)
      then show ?thesis using False k by (auto simp: alloc_blocks_def ns fl pg split: if_splits)
    qed
    then show ?thesis by auto
  qed
  have D: "disj (free_blocks ?R)"
  proof -
    have oldnew: "blk b \<inter> blk (x, k) = {}" if "b \<in> free_blocks R" "x \<in> ?N" for b x
      using old[OF that(1)] new_nodes_blk(1)[OF that(2)] by (auto simp: blk_def)
    have "disj (free_blocks R)" using inv by (simp add: init_inv_def)
    with oldnew new_nodes_disj[of _ k base cnt] show ?thesis unfolding disj_def F
      by (auto simp: Int_commute) (blast+)
  qed
  have "(\<Sum>m < 12. length (freel ?R m) * 2 ^ m) + length (freel R k) * 2 ^ k =
      (\<Sum>m < 12. length (freel R m) * 2 ^ m) + length (freel ?R k) * 2 ^ k"
    by (rule sum_update1[OF k(1)]) (simp add: fl)
  then have P: "range_free_pages ?R = base + cnt * 2 ^ k"
    using range_free_pages_eq[OF sok] range_free_pages_eq[OF so] inv k(2) by (simp add: init_inv_def fl new_nodes_def)
  have U: "n_section (node_table ?R x) = None" if "x \<ge> base + cnt * 2 ^ k" for x
  proof -
    have "x \<notin> ?N"
    proof
      assume "x \<in> ?N"
      from new_nodes_blk(2)[OF this] that have "x + 2 ^ k \<le> x + 0" by (simp only: add_0_right)
      then have "(2 :: nat) ^ k \<le> 0" by (simp only: add_le_cancel_left)
      then show False by simp
    qed
    moreover have "x \<ge> base" using that by (meson le_add1 le_trans)
    ultimately show ?thesis using inv by (simp add: ns init_inv_def)
  qed
  have E: "\<forall>b \<in> free_blocks ?R. fst b + 2 ^ snd b \<le> base + cnt * 2 ^ k"
    unfolding F using old new_nodes_blk(2) by (fastforce intro: trans_le_add1)
  show "init_inv (base + cnt * 2 ^ k) ?R"
    unfolding init_inv_def using sok A D P U E inv k(1) by (auto simp: ns init_inv_def)
qed

lemma init_sections_ok:
  assumes "init_inv base R" "off < 12" "\<And>m. m \<le> off \<Longrightarrow> freel R m = []" "base + pages = r_pages R"
  shows "\<exists>R'. init_sections off base pages R = Some R' \<and> init_inv (r_pages R) R' \<and> r_pages R' = r_pages R
    \<and> r_start R' = r_start R \<and> r_end R' = r_end R"
  using assms
proof (induction off arbitrary: base pages R)
  case 0
  show ?case
  proof (cases "pages = 0")
    case False
    then have "init_sections 0 base pages R = Some (mem_section_setup 0 base pages R)" by simp
    then show ?thesis using mem_section_setup_inv[OF 0(1), of 0 pages] 0 by simp
  qed (use 0 in simp)
next
  case (Suc off)
  let ?sz = "2 ^ Suc off :: nat"
  show ?case
  proof (cases "pages = 0")
    case True
    then show ?thesis using Suc.prems by simp
  next
    case pos: False
    show ?thesis
    proof (cases "pages div ?sz = 0")
      case True
      then have "pages mod ?sz = pages" by (metis div_mult_mod_eq mult_0 add_0)
      then have "init_sections (Suc off) base pages R = Some (mem_section_setup 0 base pages R)"
        using True pos by (subst init_sections.simps) (simp add: Let_def del: init_sections.simps)
      then show ?thesis using mem_section_setup_inv[OF Suc.prems(1), of 0 pages] Suc.prems by simp
    next
      case False
      let ?big = "pages div ?sz"
      define R1 where "R1 = mem_section_setup (Suc off) base ?big R"
      note s = mem_section_setup_inv[OF Suc.prems(1,2) Suc.prems(3)[OF order_refl], where cnt = ?big, folded R1_def]
      have eq: "init_sections (Suc off) base pages R = init_sections off (base + ?big * ?sz) (pages - ?big * ?sz) R1"
        using False pos by (subst init_sections.simps) (simp add: Let_def R1_def del: init_sections.simps)
      have le: "?big * ?sz \<le> pages" by (rule div_times_less_eq_dividend)
      have "\<exists>R'. init_sections off (base + ?big * ?sz) (pages - ?big * ?sz) R1 = Some R' \<and> init_inv (r_pages R1) R'
          \<and> r_pages R' = r_pages R1 \<and> r_start R' = r_start R1 \<and> r_end R' = r_end R1"
        by (rule Suc.IH) (use s Suc.prems le in simp_all)
      then show ?thesis using eq s by simp
    qed
  qed
qed


lemma init_inv_range_ok: "init_inv (r_pages R) R \<Longrightarrow> range_ok R"
  by (auto simp: init_inv_def range_ok_def)


text \<open>The allocation of pages, with everything its clients rely on.\<close>

lemma alloc_pages_ok:
  assumes ok: "pool_ok pool" and cnt: "0 < cnt" "cnt \<le> 2048" and r: "range_of_flags flags = Some r"
  defines "R \<equiv> pool ! r"
  shows "if \<exists>b \<in> free_blocks R. cnt \<le> 2 ^ snd b
    then \<exists>i k pool'. mem_node_alloc_pages cnt flags pool = Some (page_addr R i, pool') \<and> page_addr R i \<noteq> 0 \<and> pool_ok pool'
      \<and> cnt \<le> 2 ^ k \<and> (\<forall>j < k. 2 ^ j < cnt) \<and> i + 2 ^ k \<le> r_pages R
      \<and> (\<forall>b \<in> alloc_blocks R. blk b \<inter> blk (i, k) = {} \<and> (\<forall>x \<in> blk b. node_table (pool' ! r) x = node_table R x))
      \<and> alloc_blocks (pool' ! r) = insert (i, k) (alloc_blocks R) \<and> (\<forall>q < 3. q \<noteq> r \<longrightarrow> pool' ! q = pool ! q)
      \<and> mem_get_free_page_nr pool' + 2 ^ k = mem_get_free_page_nr pool
      \<and> r_pages (pool' ! r) = r_pages R \<and> r_start (pool' ! r) = r_start R \<and> r_end (pool' ! r) = r_end R
      \<and> n_group (node_table (pool' ! r) i) = None \<and> n_cache (node_table (pool' ! r) i) = None
    else mem_node_alloc_pages cnt flags pool = Some (0, pool)"
proof -
  have r3: "r < 3" using r by (auto simp: range_of_flags_def split: if_splits)
  have len: "length pool = 3" and lay: "layout_ok pool" using ok by (auto simp: pool_ok_def layout_ok_def)
  have Rok: "range_ok R" using ok r3 len by (simp add: pool_ok_def R_def)
  define k where "k = section_for cnt R"
  note sf = section_for_spec[OF Rok cnt, folded k_def]
  have avail: "(\<exists>b \<in> free_blocks R. cnt \<le> 2 ^ snd b) \<longleftrightarrow> (\<exists>j < 12. k \<le> j \<and> freel R j \<noteq> [])"
  proof
    assume "\<exists>b \<in> free_blocks R. cnt \<le> 2 ^ snd b"
    then obtain i j where "j < 12" "i \<in> set (freel R j)" "cnt \<le> 2 ^ j" by (auto simp: free_blocks_def)
    moreover from this(3) have "k \<le> j" using sf(3)[of j] by (meson not_le)
    ultimately show "\<exists>j < 12. k \<le> j \<and> freel R j \<noteq> []" by (metis empty_iff list.set(1))
  next
    assume "\<exists>j < 12. k \<le> j \<and> freel R j \<noteq> []"
    then obtain j where j: "j < 12" "k \<le> j" "freel R j \<noteq> []" by blast
    then have "(hd (freel R j), j) \<in> free_blocks R" by (simp add: free_blocks_def)
    moreover have "cnt \<le> 2 ^ j" using sf(2) power_increasing[OF j(2), of "2 :: nat"] by linarith
    ultimately show "\<exists>b \<in> free_blocks R. cnt \<le> 2 ^ snd b" by force
  qed
  show ?thesis
  proof (cases "\<exists>j < 12. k \<le> j \<and> freel R j \<noteq> []")
    case ex: True
    from range_alloc_ok[OF Rok cnt, folded k_def] ex obtain i R' where R': "range_alloc cnt R = Some (Some i, R')" "range_ok R'"
      "(i, k) \<notin> alloc_blocks R" "alloc_blocks R' = insert (i, k) (alloc_blocks R)" "range_free_pages R' + 2 ^ k = range_free_pages R"
      "\<forall>b \<in> alloc_blocks R. \<forall>x \<in> blk b. node_table R' x = node_table R x"
      "r_pages R' = r_pages R" "r_start R' = r_start R" "r_end R' = r_end R"
      "n_group (node_table R' i) = None" "n_cache (node_table R' i) = None" by blast
    let ?p = "pool[r := R']"
    have pok: "pool_ok ?p" using pool_ok_update[OF ok r3 R'(2)] R'(7-9) by (simp add: R_def)
    have nth: "?p ! r = R'" using r3 len by simp
    have bnd: "i + 2 ^ k \<le> r_pages R" using range_okD(6)[OF R'(2), of "(i, k)"] R'(4,7) by simp
    then have ir: "i < r_pages (?p ! r)" using R'(7) nth by (simp add: order_less_le_trans[of i "i + 2 ^ k"])
    have addr: "page_addr (?p ! r) i = page_addr R i" using nth R'(8) by (simp add: page_addr_def)
    have lay': "layout_ok ?p" using pok by (simp add: pool_ok_def)
    have "?p ! r \<in> set ?p" using r3 len by (simp add: set_update_memI)
    note nz = page_addr_unat(2)[OF lay' this ir] and conv = phy_addr_to_mem_node_page(2)[OF lay' r3 ir]
    have run: "mem_node_alloc_pages cnt flags pool = Some (page_addr R i, ?p)"
      using cnt r R'(1) conv addr by (simp add: mem_node_alloc_pages_def R_def)
    have dj: "blk b \<inter> blk (i, k) = {}" if "b \<in> alloc_blocks R" for b
      using block_eq[OF R'(2), of b "(i, k)"] that R'(3,4) by blast
    have fr: "mem_get_free_page_nr ?p + 2 ^ k = mem_get_free_page_nr pool"
      using mem_get_free_page_nr_update[of r pool R'] R'(5) r3 len by (simp add: R_def)
    have av: "\<exists>b \<in> free_blocks R. cnt \<le> 2 ^ snd b" using ex avail by blast
    show ?thesis
      unfolding if_P[OF av] using run nz addr pok sf(2,3) bnd dj R'(4,6-) nth fr
      by - (rule exI[of _ i], rule exI[of _ k], rule exI[of _ ?p], simp)
  next
    case False
    then have none: "range_alloc cnt R = Some (None, R)" using range_alloc_ok[OF Rok cnt, folded k_def] by blast
    from False have "\<not> (\<exists>b \<in> free_blocks R. cnt \<le> 2 ^ snd b)" using avail by blast
    moreover have "mem_node_alloc_pages cnt flags pool = Some (0, pool)"
      using cnt r none by (simp add: mem_node_alloc_pages_def R_def)
    ultimately show ?thesis by simp
  qed
qed


section \<open>Properties\<close>


definition zero_node :: mem_node_t where
  "zero_node = \<lparr>n_count = 0, n_reference = 0, n_section = None, n_cache = None, n_group = None\<rparr>"

definition no_range :: mem_range_t where
  "no_range = \<lparr>r_start = 0, r_end = 0, r_pages = 0, r_sections = [], node_table = (\<lambda>_. zero_node)\<rparr>"


text \<open>C4: \<^verbatim>\<open>mem_node_alloc_pages\<close> of 1 to 2048 pages returns the physical address of a block of the smallest
  sufficient power of two; the block overlaps no allocated block, all allocated blocks and
  their nodes stay as they are, the free-page count drops by the block's size, and the
  allocator's invariant is kept. It returns 0, without any change, exactly if no free block
  of the range is large enough.\<close>

theorem mem_node_alloc_pages_correct:
  assumes ok: "pool_ok pool" and cnt: "0 < cnt" "cnt \<le> 2048" and r: "range_of_flags flags = Some r"
  defines "R \<equiv> pool ! r"
  shows "if \<exists>b \<in> free_blocks R. cnt \<le> 2 ^ snd b
    then \<exists>i k pool'. mem_node_alloc_pages cnt flags pool = Some (page_addr R i, pool') \<and> page_addr R i \<noteq> 0 \<and> pool_ok pool'
      \<and> cnt \<le> 2 ^ k \<and> (\<forall>j < k. 2 ^ j < cnt) \<and> i + 2 ^ k \<le> r_pages R
      \<and> (\<forall>b \<in> alloc_blocks R. blk b \<inter> blk (i, k) = {} \<and> (\<forall>x \<in> blk b. node_table (pool' ! r) x = node_table R x))
      \<and> alloc_blocks (pool' ! r) = insert (i, k) (alloc_blocks R) \<and> (\<forall>q < 3. q \<noteq> r \<longrightarrow> pool' ! q = pool ! q)
      \<and> mem_get_free_page_nr pool' + 2 ^ k = mem_get_free_page_nr pool
    else mem_node_alloc_pages cnt flags pool = Some (0, pool)"
  using alloc_pages_ok[OF ok cnt r] unfolding R_def by (auto split: if_splits)


definition demo_range :: "u32 \<Rightarrow> mem_range_t" where
  "demo_range st = \<lparr>r_start = st, r_end = st + 0x4000, r_pages = 4,
     r_sections = map (\<lambda>k. \<lparr>free_list_head = (if k = 1 then [2] else []), node_count = (if k = 1 then 1 else 0),
       section_size = 2 ^ k\<rparr>) [0..<12],
     node_table = (\<lambda>i. if i = 0 then zero_node\<lparr>n_section := Some 1\<rparr> else zero_node)\<rparr>"

definition demo_pool :: mem_pool where
  "demo_pool = map demo_range [0x100000, 0x200000, 0x300000]"

lemma demo_range_sect:
  "k < 12 \<Longrightarrow> sect (demo_range st) k = \<lparr>free_list_head = (if k = 1 then [2] else []), node_count = (if k = 1 then 1 else 0),
     section_size = 2 ^ k\<rparr>"
  by (simp add: demo_range_def del: upt_Suc)

lemma demo_blocks: "free_blocks (demo_range st) = {(2, 1)}" "alloc_blocks (demo_range st) = {(0, 1)}"
proof -
  show "free_blocks (demo_range st) = {(2, 1)}" by (auto simp: free_blocks_def demo_range_sect split: if_splits)
  have n: "n_section (node_table (demo_range st) i) = (if i = 0 then Some 1 else None)" "r_pages (demo_range st) = 4" for i
    by (simp_all add: demo_range_def zero_node_def)
  show "alloc_blocks (demo_range st) = {(0, 1)}"
    by (auto simp: alloc_blocks_def n demo_range_sect split: if_splits)
qed

lemma less_3_cases: "(\<forall>i < (3 :: nat). P i) \<longleftrightarrow> P 0 \<and> P 1 \<and> P 2"
  by (auto simp: numeral_eq_Suc less_Suc_eq)

lemma demo_pool_ok: "pool_ok demo_pool"
proof -
  have "range_ok (demo_range st)" for st
  proof -
    have "sections_ok (demo_range st)" unfolding sections_ok_def
      by (auto simp: demo_range_sect) (simp add: demo_range_def)
    then show ?thesis unfolding range_ok_def demo_blocks
      by (auto simp: disj_def blk_def demo_range_def zero_node_def split: if_splits)
  qed
  moreover have "layout_ok demo_pool"
    by (simp add: layout_ok_def demo_pool_def demo_range_def less_3_cases)
  ultimately show ?thesis by (auto simp: pool_ok_def demo_pool_def)
qed

theorem mem_node_alloc_pages_correct_witness:
  "\<exists>a pool'. mem_node_alloc_pages 1 2 demo_pool = Some (a, pool') \<and> a \<noteq> 0 \<and> pool_ok pool'
     \<and> mem_get_free_page_nr pool' + 1 = mem_get_free_page_nr demo_pool"
proof -
  have "range_of_flags 2 = Some 1" by (simp add: range_of_flags_def)
  moreover have "free_blocks (demo_pool ! 1) = {(2, 1)}" by (simp add: demo_pool_def demo_blocks)
  moreover have "k = 0" if "\<forall>j < k. 2 ^ j < (1 :: nat)" for k :: nat using that by (metis not_gr_zero power_0 less_irrefl)
  ultimately show ?thesis
    using mem_node_alloc_pages_correct[OF demo_pool_ok, of 1 2 1] by force
qed

lemma free_pages_ok:
  assumes ok: "pool_ok pool" and r: "r < 3" and b: "(i, k) \<in> alloc_blocks (pool ! r)"
  defines "a \<equiv> page_addr (pool ! r) i"
  shows "\<exists>pool'. mem_node_free_pages a pool = Some (Inr (), pool') \<and> pool_ok pool'
    \<and> free_blocks (pool' ! r) = insert (i, k) (free_blocks (pool ! r))
    \<and> alloc_blocks (pool' ! r) = alloc_blocks (pool ! r) - {(i, k)} \<and> (\<forall>q < 3. q \<noteq> r \<longrightarrow> pool' ! q = pool ! q)
    \<and> mem_get_free_page_nr pool' = mem_get_free_page_nr pool + 2 ^ k
    \<and> mem_node_free_pages a pool' = Some (Inl E_FAIL, pool') \<and> r_start (pool' ! r) = r_start (pool ! r) \<and> r_pages (pool' ! r) = r_pages (pool ! r)"
proof -
  let ?R = "pool ! r"
  have len: "length pool = 3" and lay: "layout_ok pool" using ok by (auto simp: pool_ok_def layout_ok_def)
  have Rok: "range_ok ?R" using ok r len by (simp add: pool_ok_def)
  define R' where "R' = snd (range_free i ?R)"
  note f = range_free_ok[OF Rok b, folded R'_def]
  let ?p = "pool[r := R']"
  have ir: "i < r_pages ?R" using b by (simp add: alloc_blocks_def)
  have mem: "?R \<in> set pool" using r len by simp
  have nz: "a \<noteq> 0" using page_addr_unat(2)[OF lay mem ir] by (simp add: a_def)
  have run: "mem_node_free_pages a pool = Some (Inr (), ?p)"
    using nz phy_addr_to_mem_node_page(1)[OF lay r ir] f(1)
    by (cases "range_free i ?R") (simp add: mem_node_free_pages_def a_def R'_def)
  have pok: "pool_ok ?p" using pool_ok_update[OF ok r f(2)] f(8-10) by simp
  have nth: "?p ! r = R'" using r len by simp
  have lay': "layout_ok ?p" using pok by (simp add: pool_ok_def)
  have ir': "i < r_pages (?p ! r)" using ir f(8) nth by simp
  have a': "page_addr (?p ! r) i = a" using nth f(9) by (simp add: page_addr_def a_def)
  have again: "mem_node_free_pages a ?p = Some (Inl E_FAIL, ?p)"
    using nz phy_addr_to_mem_node_page(1)[OF lay' r ir'] f(7) a' nth
    by (simp add: mem_node_free_pages_def range_free_def)
  have "mem_get_free_page_nr ?p = mem_get_free_page_nr pool + 2 ^ k"
    using mem_get_free_page_nr_update[of r pool R'] f(5) r len by simp
  then show ?thesis using run pok f(3,4,8,9) again nth by (intro exI[of _ ?p]) simp
qed

text \<open>C9: \<^verbatim>\<open>mem_node_free_pages\<close> of the address of an allocated block gives exactly that block back: it joins the
  free list of its size, the free-page count rises by its size, every other block stays as
  it is, and freeing the same address again is refused without a change.\<close>

theorem mem_node_free_pages_correct:
  assumes ok: "pool_ok pool" and r: "r < 3" and b: "(i, k) \<in> alloc_blocks (pool ! r)"
  defines "a \<equiv> page_addr (pool ! r) i"
  shows "\<exists>pool'. mem_node_free_pages a pool = Some (Inr (), pool') \<and> pool_ok pool'
    \<and> free_blocks (pool' ! r) = insert (i, k) (free_blocks (pool ! r))
    \<and> alloc_blocks (pool' ! r) = alloc_blocks (pool ! r) - {(i, k)} \<and> (\<forall>q < 3. q \<noteq> r \<longrightarrow> pool' ! q = pool ! q)
    \<and> mem_get_free_page_nr pool' = mem_get_free_page_nr pool + 2 ^ k
    \<and> mem_node_free_pages a pool' = Some (Inl E_FAIL, pool')"
  using free_pages_ok[OF ok r b] unfolding a_def by blast

theorem mem_node_free_pages_correct_witness:
  "\<exists>pool'. mem_node_free_pages (page_addr (demo_pool ! 1) 0) demo_pool = Some (Inr (), pool')
     \<and> alloc_blocks (pool' ! 1) = {} \<and> mem_get_free_page_nr pool' = mem_get_free_page_nr demo_pool + 2"
proof -
  have "alloc_blocks (demo_pool ! 1) = {(0, 1)}" by (simp add: demo_pool_def demo_blocks)
  then show ?thesis using mem_node_free_pages_correct[OF demo_pool_ok, of 1 0 1] by force
qed


section \<open>The allocator as a source of user pages\<close>

text \<open>
  Single pages of the range for user memory: those in use are the allocated blocks of one page. The range
  starts at a page boundary.
\<close>

definition user_pool_ok :: "mem_pool \<Rightarrow> bool" where
  "user_pool_ok pool \<longleftrightarrow> pool_ok pool \<and> r_start (pool ! 2) AND 0xfff = 0"

definition user_pages :: "mem_pool \<Rightarrow> u32 set" where
  "user_pages pool = (\<lambda>(i, k). page_addr (pool ! 2) i) ` {b \<in> alloc_blocks (pool ! 2). snd b = 0}"

definition user_area :: "mem_pool \<Rightarrow> u32 set" where
  "user_area pool = page_addr (pool ! 2) ` {..<r_pages (pool ! 2)}"

definition user_avail :: "mem_pool \<Rightarrow> nat" where
  "user_avail pool = range_free_pages (pool ! 2)"

lemma free_pages_pos:
  assumes "range_ok R"
  shows "0 < range_free_pages R \<longleftrightarrow> free_blocks R \<noteq> {}"
proof -
  have s: "sections_ok R" using assms by (simp add: range_ok_def)
  have "0 < range_free_pages R \<longleftrightarrow> (\<Sum>k < 12. length (freel R k) * 2 ^ k) \<noteq> 0" unfolding range_free_pages_eq[OF s] by (rule neq0_conv[symmetric])
  also have "\<dots> \<longleftrightarrow> (\<exists>k < 12. freel R k \<noteq> [])" by (subst sum_eq_0_iff) auto
  also have "\<dots> \<longleftrightarrow> (\<exists>k < 12. \<exists>i. i \<in> set (freel R k))" by (simp add: ex_in_conv)
  also have "\<dots> \<longleftrightarrow> free_blocks R \<noteq> {}" by (auto simp: free_blocks_def)
  finally show ?thesis .
qed

lemma pool3: "length pool = 3 \<Longrightarrow> mem_get_free_page_nr pool = range_free_pages (pool ! 0) + range_free_pages (pool ! 1) + range_free_pages (pool ! 2)"
  by (auto simp: mem_get_free_page_nr_def numeral_eq_Suc length_Suc_conv)

lemma page_addr_inj:
  assumes "layout_ok pool" "R \<in> set pool" "i < r_pages R" "j < r_pages R" "page_addr R i = page_addr R j"
  shows "i = j"
  using page_addr_unat(6)[OF assms(1,2)] assms(3-5) by metis

lemma unat_and_fff: "unat (w AND 0xfff :: u32) = unat w mod 4096"
  using unat_and_pow2_mask[of 12 w] by simp

lemma page_addr_aligned:
  assumes "layout_ok pool" "R \<in> set pool" "i < r_pages R" "r_start R AND 0xfff = 0"
  shows "page_addr R i AND 0xfff = 0"
proof -
  have "unat (r_start R) mod 4096 = 0" using assms(4) unat_and_fff[of "r_start R"] by simp
  then have "unat (page_addr R i AND 0xfff) = 0" unfolding unat_and_fff page_addr_unat(1)[OF assms(1-3)] by simp
  then show ?thesis by (simp only: unat_eq_0)
qed

interpretation user_source: page_source user_pool_ok user_pages user_area user_avail "mem_node_alloc_pages 1 MEM_NODE_TYPE_USER" mem_node_free_pages
proof (unfold_locales, goal_cases)
  case (1 P)
  then have ok: "pool_ok P" and len: "length P = 3" and lay: "layout_ok P" and al: "r_start (P ! 2) AND 0xfff = 0"
    by (auto simp: user_pool_ok_def pool_ok_def layout_ok_def)
  let ?R = "P ! 2"
  have R: "?R \<in> set P" "range_ok ?R" using ok len by (auto simp: pool_ok_def)
  have "\<exists>b \<in> free_blocks ?R. (1 :: nat) \<le> 2 ^ snd b" using 1(2) free_pages_pos[OF R(2)] by (auto simp: user_avail_def)
  moreover have r: "range_of_flags MEM_NODE_TYPE_USER = Some 2" by (simp add: range_of_flags_def)
  ultimately obtain i k P' where a: "mem_node_alloc_pages 1 MEM_NODE_TYPE_USER P = Some (page_addr ?R i, P')" "page_addr ?R i \<noteq> 0" "pool_ok P'"
    "\<forall>j < k. 2 ^ j < (1 :: nat)" "i + 2 ^ k \<le> r_pages ?R" "\<forall>b \<in> alloc_blocks ?R. blk b \<inter> blk (i, k) = {}"
    "alloc_blocks (P' ! 2) = insert (i, k) (alloc_blocks ?R)" "\<forall>q < 3. q \<noteq> 2 \<longrightarrow> P' ! q = P ! q"
    "mem_get_free_page_nr P' + 2 ^ k = mem_get_free_page_nr P" "r_start (P' ! 2) = r_start ?R" "r_pages (P' ! 2) = r_pages ?R"
    using alloc_pages_ok[OF ok _ _ r, of 1] by (auto split: if_splits)
  have k: "k = 0" using a(4) by (metis less_irrefl not_gr_zero power_0)
  have pa: "page_addr (P' ! 2) = page_addr ?R" using a(10) by (simp add: page_addr_def fun_eq_iff)
  have i: "i < r_pages ?R" using a(5) k by simp
  have new: "page_addr ?R i \<notin> user_pages P"
  proof
    assume "page_addr ?R i \<in> user_pages P"
    then obtain j where j: "(j, 0) \<in> alloc_blocks ?R" "page_addr ?R i = page_addr ?R j" by (auto simp: user_pages_def)
    then have "j = i" using page_addr_inj[OF lay R(1) i] by (auto simp: alloc_blocks_def)
    then show False using a(6) j(1) k by (auto simp: blk_def)
  qed
  have "length P' = 3" using a(3) by (simp add: pool_ok_def layout_ok_def)
  then have "user_avail P' + 1 = user_avail P" using a(8,9) k pool3[OF len] pool3[of P'] by (simp add: user_avail_def)
  moreover have "user_pages P' = insert (page_addr ?R i) (user_pages P)" using a(7) k pa by (auto simp: user_pages_def)
  moreover have "user_pool_ok P'" using a(3,10) al by (simp add: user_pool_ok_def)
  moreover have "user_area P' = user_area P" using a(11) pa by (simp add: user_area_def)
  ultimately show ?case using a(1,2) new page_addr_aligned[OF lay R(1) i al] by auto
next
  case (2 P)
  then have ok: "pool_ok P" and R: "range_ok (P ! 2)" by (auto simp: user_pool_ok_def pool_ok_def layout_ok_def)
  have "free_blocks (P ! 2) = {}" using 2(2) free_pages_pos[OF R] by (simp add: user_avail_def)
  then show ?case using alloc_pages_ok[OF ok, of 1 MEM_NODE_TYPE_USER 2] by (simp add: range_of_flags_def)
next
  case (3 P)
  then show ?case by (auto simp: user_pages_def user_area_def alloc_blocks_def)
next
  case (4 P a)
  then have ok: "pool_ok P" and len: "length P = 3" and lay: "layout_ok P" and al: "r_start (P ! 2) AND 0xfff = 0"
    by (auto simp: user_pool_ok_def pool_ok_def layout_ok_def)
  let ?R = "P ! 2"
  have R: "?R \<in> set P" using len by auto
  from 4(2) obtain i where i: "(i, 0) \<in> alloc_blocks ?R" "a = page_addr ?R i" by (auto simp: user_pages_def)
  from free_pages_ok[OF ok _ i(1)] obtain P' where P': "mem_node_free_pages a P = Some (Inr (), P')" "pool_ok P'"
    "alloc_blocks (P' ! 2) = alloc_blocks ?R - {(i, 0)}" "\<forall>q < 3. q \<noteq> 2 \<longrightarrow> P' ! q = P ! q" "mem_get_free_page_nr P' = mem_get_free_page_nr P + 1"
    "r_start (P' ! 2) = r_start ?R" "r_pages (P' ! 2) = r_pages ?R"
    unfolding i(2) by auto
  have pa: "page_addr (P' ! 2) = page_addr ?R" using P'(6) by (simp add: page_addr_def fun_eq_iff)
  have "user_pages P' = user_pages P - {a}"
    unfolding user_pages_def P'(3) pa i(2) using page_addr_inj[OF lay R] i(1) by (auto simp: alloc_blocks_def)
  moreover have "length P' = 3" using P'(2) by (simp add: pool_ok_def layout_ok_def)
  then have "user_avail P' = user_avail P + 1" using P'(4,5) pool3[OF len] pool3[of P'] by (simp add: user_avail_def)
  moreover have "user_area P' = user_area P" using P'(7) pa by (simp add: user_area_def)
  ultimately show ?case using P' al by (simp add: user_pool_ok_def)
qed

end
