(* ===== verification/Bitmap.thy ===== *)
theory Bitmap
  imports OS_Prelude
begin

text \<open>
  The allocation bitmap of \<^verbatim>\<open>src/lib/bitmap.c\<close>. \<open>bits\<close> is the memory object the bitmap's
  pointer refers to; it may be longer than \<open>byte_length\<close>, which only says how many of its
  bytes belong to the bitmap. A read or write outside the object is \<open>None\<close>.
  Indices are natural numbers: the model is of bitmaps with \<open>8 * byte_length + 8 < 2 ^ 31\<close>,
  for which no index computation of the code wraps.
\<close>

section \<open>Operations\<close>

record bitmap_t =
  byte_length :: nat
  bits :: "u8 list"

definition bits_at :: "bitmap_t \<Rightarrow> nat \<Rightarrow> u8 option" where
  "bits_at btmp i = (if i < length (bits btmp) then Some (bits btmp ! i) else None)"

abbreviation BITMAP_MASK :: "nat \<Rightarrow> u8" where
  "BITMAP_MASK n \<equiv> push_bit n 1"

definition bitmap_init :: "bitmap_t \<Rightarrow> bitmap_t option" where
  "bitmap_init btmp = do {
     m \<leftarrow> mem_store 0 (replicate (byte_length btmp) 0) (bits btmp);
     Some (btmp\<lparr>bits := m\<rparr>) }"

definition bitmap_scan_test :: "bitmap_t \<Rightarrow> nat \<Rightarrow> bool option" where
  "bitmap_scan_test btmp idx = do {
     x \<leftarrow> bits_at btmp (idx div 8);
     Some (x AND BITMAP_MASK (idx mod 8) \<noteq> 0) }"

text \<open>The three loops of \<^verbatim>\<open>bitmap_scan\<close>. The first one reads the byte before it compares the index.\<close>

function scan_byte :: "bitmap_t \<Rightarrow> nat \<Rightarrow> nat option" where
  "scan_byte btmp idx_byte = do {
     x \<leftarrow> bits_at btmp idx_byte;
     if x = 0xff \<and> idx_byte < byte_length btmp then scan_byte btmp (idx_byte + 1)
     else Some idx_byte }"
  by pat_completeness auto
termination by (relation "measure (\<lambda>(b, i). byte_length b - i)") auto

lemma mask_big: "8 \<le> n \<Longrightarrow> (2 ^ n :: u8) = 0"
  by simp

lemma mask_and_nonzero: "BITMAP_MASK i AND x \<noteq> 0 \<Longrightarrow> i < 8"
  by (rule ccontr) (simp add: mask_big)

function scan_bit :: "u8 \<Rightarrow> nat \<Rightarrow> nat" where
  "scan_bit x idx_bit = (if BITMAP_MASK idx_bit AND x \<noteq> 0 then scan_bit x (idx_bit + 1) else idx_bit)"
  by pat_completeness auto
termination
proof (relation "measure (\<lambda>(x, i). 8 - i)")
  fix x :: u8 and i :: nat
  assume "BITMAP_MASK i AND x \<noteq> 0"
  then have "i < 8" by (rule mask_and_nonzero)
  then show "((x, i + 1), x, i) \<in> measure (\<lambda>(x, i). 8 - i)" by simp
qed simp

fun scan_run :: "bitmap_t \<Rightarrow> nat \<Rightarrow> nat \<Rightarrow> nat \<Rightarrow> nat \<Rightarrow> int option" where
  "scan_run btmp cnt 0 next_bit count = Some (-1)"
| "scan_run btmp cnt (Suc bit_left) next_bit count = do {
     t \<leftarrow> bitmap_scan_test btmp next_bit;
     let count' = (if \<not> t then count + 1 else 0) in
     if count' = cnt then Some (int next_bit - int cnt + 1)
     else scan_run btmp cnt bit_left (next_bit + 1) count' }"

definition bitmap_scan :: "bitmap_t \<Rightarrow> nat \<Rightarrow> int option" where
  "bitmap_scan btmp cnt = do {
     idx_byte \<leftarrow> scan_byte btmp 0;
     if idx_byte = byte_length btmp then Some (-1)
     else do {
       x \<leftarrow> bits_at btmp idx_byte;
       let idx_start = idx_byte * 8 + scan_bit x 0 in
       if cnt = 1 then Some (int idx_start)
       else scan_run btmp cnt (byte_length btmp * 8 - idx_start) (idx_start + 1) 1 } }"

definition bits_upd :: "bitmap_t \<Rightarrow> nat \<Rightarrow> (u8 \<Rightarrow> u8) \<Rightarrow> bitmap_t option" where
  "bits_upd btmp i f = do { x \<leftarrow> bits_at btmp i; Some (btmp\<lparr>bits := (bits btmp)[i := f x]\<rparr>) }"

definition bitmap_set :: "bitmap_t \<Rightarrow> nat \<Rightarrow> u8 \<Rightarrow> bitmap_t option" where
  "bitmap_set btmp idx value =
     (if value \<noteq> 0 then bits_upd btmp (idx div 8) (\<lambda>x. x OR BITMAP_MASK (idx mod 8))
      else bits_upd btmp (idx div 8) (\<lambda>x. x AND NOT (BITMAP_MASK (idx mod 8))))"

definition bitmap_change :: "bitmap_t \<Rightarrow> nat \<Rightarrow> (int \<times> bitmap_t) option" where
  "bitmap_change btmp idx = do {
     b \<leftarrow> bits_upd btmp (idx div 8) (\<lambda>x. x XOR BITMAP_MASK (idx mod 8));
     x \<leftarrow> bits_at b (idx div 8);
     Some (uint (x AND BITMAP_MASK (idx mod 8)), b) }"

definition bitmap_test_and_change :: "bitmap_t \<Rightarrow> nat \<Rightarrow> (int \<times> bitmap_t) option" where
  "bitmap_test_and_change btmp idx = do {
     x \<leftarrow> bits_at btmp (idx div 8);
     b \<leftarrow> bits_upd btmp (idx div 8) (\<lambda>x. x XOR BITMAP_MASK (idx mod 8));
     Some (uint (x AND BITMAP_MASK (idx mod 8)), b) }"


section \<open>Bits of the memory object\<close>

definition bm_bit :: "bitmap_t \<Rightarrow> nat \<Rightarrow> bool" where
  "bm_bit b i = bit (bits b ! (i div 8)) (i mod 8)"

lemma and_mask_bit: "n < 8 \<Longrightarrow> ((x :: u8) AND 2 ^ n \<noteq> 0) = bit x n"
proof -
  assume n: "n < 8"
  have "x AND 2 ^ n = (if bit x n then 2 ^ n else 0)"
    by (rule bit_eqI) (auto simp: bit_simps)
  with n show ?thesis by simp
qed

lemma bitmap_scan_test_eq:
  "bitmap_scan_test b i = (if i div 8 < length (bits b) then Some (bm_bit b i) else None)"
  by (simp add: bitmap_scan_test_def bits_at_def bm_bit_def and_mask_bit)

lemma scan_bit_le: "scan_bit x i \<le> max i 8"
proof (induction x i rule: scan_bit.induct)
  case (1 x i)
  show ?case
  proof (cases "BITMAP_MASK i AND x \<noteq> 0")
    case True
    then have "i < 8" by (rule mask_and_nonzero)
    with 1[OF True] True show ?thesis by (simp add: scan_bit.simps[of x i])
  next
    case False
    then show ?thesis by (simp add: scan_bit.simps[of x i])
  qed
qed

declare scan_bit.simps [simp del] scan_byte.simps [simp del]

lemma scan_bit_spec:
  "i \<le> 8 \<Longrightarrow> i \<le> scan_bit x i \<and> scan_bit x i \<le> 8 \<and> (\<forall>j. i \<le> j \<and> j < scan_bit x i \<longrightarrow> bit x j)
     \<and> \<not> bit x (scan_bit x i)"
proof (induction x i rule: scan_bit.induct)
  case (1 x i)
  show ?case
  proof (cases "BITMAP_MASK i AND x \<noteq> 0")
    case True
    then have i8: "i < 8" by (rule mask_and_nonzero)
    have "bit x i" using True and_mask_bit[OF i8, of x] by (simp add: and.commute)
    with 1(1)[OF True] i8 True show ?thesis
      by (auto simp: scan_bit.simps[of x i] le_less_Suc_eq) (metis le_antisym not_less_eq_eq)
  next
    case False
    have "\<not> bit x i"
    proof (cases "i < 8")
      case True
      with False and_mask_bit[of i x] show ?thesis by (simp add: and.commute)
    next
      case False
      then show ?thesis using bit_imp_le_length[of x i] by auto
    qed
    with False "1.prems" show ?thesis by (auto simp: scan_bit.simps[of x i])
  qed
qed

lemma scan_byte_spec:
  assumes "byte_length b < length (bits b)" "i \<le> byte_length b"
  shows "\<exists>k. scan_byte b i = Some k \<and> i \<le> k \<and> k \<le> byte_length b
    \<and> (\<forall>j. i \<le> j \<and> j < k \<longrightarrow> bits b ! j = 0xff) \<and> (k < byte_length b \<longrightarrow> bits b ! k \<noteq> 0xff)"
  using assms
proof (induction b i rule: scan_byte.induct)
  case (1 b i)
  have rd: "bits_at b i = Some (bits b ! i)" using 1 by (simp add: bits_at_def)
  show ?case
  proof (cases "bits b ! i = 0xff \<and> i < byte_length b")
    case True
    with 1 rd obtain k where "scan_byte b (i + 1) = Some k" "i + 1 \<le> k" "k \<le> byte_length b"
      "\<forall>j. i + 1 \<le> j \<and> j < k \<longrightarrow> bits b ! j = 0xff" "k < byte_length b \<longrightarrow> bits b ! k \<noteq> 0xff"
      by auto
    with True rd show ?thesis
      by (intro exI[of _ k]) (auto simp: scan_byte.simps[of b i] le_eq_less_or_eq[of i] Suc_le_eq)
  next
    case False
    with rd 1 show ?thesis by (intro exI[of _ i]) (auto simp: scan_byte.simps[of b i])
  qed
qed

text \<open>The forms the object caches use: a set bit, and the first clear bit of a map that is not full.\<close>

lemma bitmap_set_bits:
  assumes "i div 8 < length (bits b)"
  shows "\<exists>b'. bitmap_set b i v = Some b' \<and> byte_length b' = byte_length b \<and> length (bits b') = length (bits b)
    \<and> (\<forall>j. bm_bit b' j = (if j = i then v \<noteq> 0 else bm_bit b j))"
proof -
  have eq: "(j = i) = (j div 8 = i div 8 \<and> j mod 8 = i mod 8)" for j by (metis div_mod_decomp)
  show ?thesis using assms
    by (auto simp: bitmap_set_def bits_upd_def bits_at_def bm_bit_def nth_list_update bit_simps eq)
qed

lemma scan_byte_found:
  assumes "i \<le> k" "k < byte_length b" "byte_length b \<le> length (bits b)" "bits b ! k \<noteq> 0xff"
    "\<And>j. i \<le> j \<Longrightarrow> j < k \<Longrightarrow> bits b ! j = 0xff"
  shows "scan_byte b i = Some k"
  using assms
proof (induction "k - i" arbitrary: i)
  case 0
  then show ?case by (simp add: scan_byte.simps[of b i] bits_at_def)
next
  case (Suc n)
  then have "scan_byte b (i + 1) = Some k" by (intro Suc.hyps(1)) auto
  then show ?case using Suc by (simp add: scan_byte.simps[of b i] bits_at_def)
qed

definition clear_run :: "bitmap_t \<Rightarrow> nat \<Rightarrow> nat \<Rightarrow> bool" where
  "clear_run b s n \<longleftrightarrow> (\<forall>i. s \<le> i \<and> i < s + n \<longrightarrow> \<not> bm_bit b i)"

lemma scan_run_spec:
  assumes "nb + left \<le> 8 * length (bits b)" "c < cnt" "c \<le> nb" "clear_run b (nb - c) c"
    "nb - c = 0 \<or> bm_bit b (nb - c - 1)"
    "\<forall>s. s + cnt \<le> nb \<longrightarrow> \<not> clear_run b s cnt"
  shows "\<exists>r. scan_run b cnt left nb c = Some r
    \<and> (r = -1 \<longrightarrow> (\<forall>s. s + cnt \<le> nb + left \<longrightarrow> \<not> clear_run b s cnt))
    \<and> (r \<noteq> -1 \<longrightarrow> 0 \<le> r \<and> nat r + cnt \<le> nb + left \<and> clear_run b (nat r) cnt)"
  using assms
proof (induction left arbitrary: nb c)
  case 0
  then show ?case by simp
next
  case (Suc left)
  have rd: "bitmap_scan_test b nb = Some (bm_bit b nb)"
    using Suc.prems(1) by (simp add: bitmap_scan_test_eq)
  consider (hit) "\<not> bm_bit b nb" "c + 1 = cnt" | (more) "\<not> bm_bit b nb" "c + 1 < cnt"
    | (used) "bm_bit b nb" using Suc.prems(2) by linarith
  then show ?case
  proof cases
    case hit
    have "clear_run b (nb + 1 - cnt) cnt"
      using hit Suc.prems(3,4) unfolding clear_run_def
      by (metis (no_types, lifting) Nat.add_diff_assoc2 add.commute diff_add_inverse2 le_add_diff_inverse2
          less_Suc_eq Suc_eq_plus1 diff_diff_left)
    with hit Suc.prems rd show ?thesis by (auto simp: nat_diff_distrib' of_nat_diff)
  next
    case more
    have run: "clear_run b (nb + 1 - (c + 1)) (c + 1)"
      using more Suc.prems(3,4) by (auto simp: clear_run_def less_Suc_eq)
    have none: "\<forall>s. s + cnt \<le> nb + 1 \<longrightarrow> \<not> clear_run b s cnt"
    proof (intro allI impI)
      fix s assume s: "s + cnt \<le> nb + 1"
      show "\<not> clear_run b s cnt"
      proof (cases "s + cnt \<le> nb")
        case True with Suc.prems(6) show ?thesis by blast
      next
        case False
        with s more Suc.prems(5) have "bm_bit b (nb - c - 1)" "s \<le> nb - c - 1" "nb - c - 1 < s + cnt"
          by auto
        then show ?thesis by (auto simp: clear_run_def)
      qed
    qed
    have "nb + 1 - (c + 1) = 0 \<or> bm_bit b (nb + 1 - (c + 1) - 1)" using Suc.prems(5) by auto
    with Suc.IH[of "nb + 1" "c + 1", OF _ _ _ run _ none] more Suc.prems rd show ?thesis
      by (auto simp: Let_def)
  next
    case used
    have none: "\<forall>s. s + cnt \<le> nb + 1 \<longrightarrow> \<not> clear_run b s cnt"
    proof (intro allI impI)
      fix s assume s: "s + cnt \<le> nb + 1"
      show "\<not> clear_run b s cnt"
      proof (cases "s + cnt \<le> nb")
        case True with Suc.prems(6) show ?thesis by blast
      next
        case False
        with s Suc.prems(2) have "s \<le> nb" "nb < s + cnt" by auto
        with used show ?thesis by (auto simp: clear_run_def)
      qed
    qed
    have "clear_run b (nb + 1 - 0) 0" by (auto simp: clear_run_def)
    from Suc.IH[of "nb + 1" 0, OF _ _ _ this _ none] used Suc.prems rd show ?thesis
      by (auto simp: Let_def)
  qed
qed

lemma byte_not_ff:
  assumes "(x :: u8) \<noteq> 0xff"
  shows "scan_bit x 0 < 8"
proof (rule ccontr)
  assume "\<not> scan_bit x 0 < 8"
  with scan_bit_spec[of 0 x] have "\<forall>j < 8. bit x j" by auto
  then have "x = mask 8" by (intro bit_word_eqI) (auto simp: bit_mask_iff)
  also have "(mask 8 :: u8) = 0xff" by (simp add: mask_eq_exp_minus_1)
  finally show False using assms by simp
qed

lemma bit_ff: "n < 8 \<Longrightarrow> bit (0xff :: u8) n"
proof -
  have e: "(0xff :: u8) = mask 8" by (simp add: mask_eq_exp_minus_1)
  show "n < 8 \<Longrightarrow> bit (0xff :: u8) n" unfolding e by (simp add: bit_mask_iff)
qed

lemma byte_ff_bit: "bits b ! (i div 8) = 0xff \<Longrightarrow> bm_bit b i"
  unfolding bm_bit_def by (erule ssubst, rule bit_ff) simp

text \<open>The first clear bit, as the first two loops of \<^verbatim>\<open>bitmap_scan\<close> find it.\<close>

lemma scan_first_clear:
  assumes k: "k < byte_length b" "\<forall>j < k. bits b ! j = 0xff" "bits b ! k \<noteq> 0xff"
  defines "st \<equiv> k * 8 + scan_bit (bits b ! k) 0"
  shows "st < 8 * byte_length b" "\<not> bm_bit b st" "\<forall>i < st. bm_bit b i"
proof -
  let ?s = "scan_bit (bits b ! k) 0"
  have s8: "?s < 8" using k(3) by (rule byte_not_ff)
  note sp = scan_bit_spec[of 0 "bits b ! k"]
  show "st < 8 * byte_length b" using s8 k(1) by (simp add: st_def)
  have "st div 8 = k" "st mod 8 = ?s" using s8 by (auto simp: st_def)
  then show "\<not> bm_bit b st" using sp by (simp add: bm_bit_def)
  show "\<forall>i < st. bm_bit b i"
  proof (intro allI impI)
    fix i assume i: "i < st"
    show "bm_bit b i"
    proof (cases "i div 8 < k")
      case True
      with k(2) show ?thesis using byte_ff_bit by blast
    next
      case False
      have q: "i div 8 * 8 + i mod 8 = i" by simp
      have "i div 8 = k" using False i s8 q unfolding st_def by linarith
      with q i have "i div 8 = k" "i mod 8 < ?s" unfolding st_def by linarith+
      with sp show ?thesis by (simp add: bm_bit_def)
    qed
  qed
qed

lemma bitmap_scan_first:
  assumes len: "byte_length b \<le> length (bits b)" and free: "n < 8 * byte_length b" "\<not> bm_bit b n"
  shows "\<exists>m \<le> n. bitmap_scan b 1 = Some (int m) \<and> \<not> bm_bit b m"
proof -
  let ?P = "\<lambda>k. k < byte_length b \<and> bits b ! k \<noteq> 0xff"
  have ex: "?P (n div 8)" using free byte_ff_bit[of b n] by auto
  define k where "k = (LEAST k. ?P k)"
  have k: "?P k" unfolding k_def using ex by (rule LeastI)
  have "\<not> ?P j" if "j < k" for j using that not_less_Least[of j ?P] by (simp add: k_def)
  then have low: "\<forall>j < k. bits b ! j = 0xff" using k by auto
  note c = scan_first_clear[OF k[THEN conjunct1] low k[THEN conjunct2]]
  have "scan_byte b 0 = Some k" by (rule scan_byte_found) (use k low len in auto)
  then have "bitmap_scan b 1 = Some (int (k * 8 + scan_bit (bits b ! k) 0))"
    using k len by (simp add: bitmap_scan_def bits_at_def)
  moreover have "k * 8 + scan_bit (bits b ! k) 0 \<le> n" using c(3) free(2) by (meson not_le)
  ultimately show ?thesis using c(2) by blast
qed

section \<open>Properties\<close>

text \<open>\<^verbatim>\<open>bitmap_scan\<close> always terminates with an answer when the byte after the bitmap is
  readable. If it answers \<open>-1\<close>, no \<open>cnt\<close> consecutive clear bits exist in the bitmap; if it
  answers an index, the \<open>cnt\<close> bits from there on are clear and end at most one bit past the
  end of the bitmap.\<close>

theorem bitmap_scan_correct:
  assumes "byte_length b < length (bits b)" and "0 < cnt"
  shows "\<exists>r. bitmap_scan b cnt = Some r
    \<and> (r = -1 \<longrightarrow> (\<forall>s. s + cnt \<le> 8 * byte_length b \<longrightarrow> \<not> clear_run b s cnt))
    \<and> (r \<noteq> -1 \<longrightarrow> 0 \<le> r \<and> nat r + cnt \<le> 8 * byte_length b + 1 \<and> clear_run b (nat r) cnt)"
proof -
  from scan_byte_spec[OF assms(1), of 0] obtain k where k: "scan_byte b 0 = Some k"
    "k \<le> byte_length b" "\<forall>j < k. bits b ! j = 0xff" "k < byte_length b \<longrightarrow> bits b ! k \<noteq> 0xff" by auto
  show ?thesis
  proof (cases "k = byte_length b")
    case True
    have "\<not> clear_run b s cnt" if "s + cnt \<le> 8 * byte_length b" for s
    proof -
      have "s div 8 < k" using that assms(2) True by auto
      then have "bm_bit b s" using k(3) byte_ff_bit by blast
      with assms(2) show ?thesis by (auto simp: clear_run_def)
    qed
    with k(1) True show ?thesis by (auto simp: bitmap_scan_def)
  next
    case False
    with k have lt: "k < byte_length b" and ne: "bits b ! k \<noteq> 0xff" by auto
    let ?st = "k * 8 + scan_bit (bits b ! k) 0"
    note st = scan_first_clear[OF lt k(3) ne]
    have rd: "bits_at b k = Some (bits b ! k)" using assms lt by (simp add: bits_at_def)
    show ?thesis
    proof (cases "cnt = 1")
      case True
      with k(1) False rd have "bitmap_scan b cnt = Some (int ?st)"
        by (simp add: bitmap_scan_def Let_def)
      moreover have "clear_run b ?st cnt" using True st(2) by (auto simp: clear_run_def le_less_Suc_eq)
      ultimately show ?thesis using st(1) True
        by (intro exI[of _ "int ?st"]) (simp del: of_nat_add of_nat_mult)
    next
      case cnt: False
      have "\<forall>s. s + cnt \<le> ?st + 1 \<longrightarrow> \<not> clear_run b s cnt"
        using st(3) cnt assms(2) by (auto simp: clear_run_def)
      moreover have "clear_run b (?st + 1 - 1) 1" using st(2) by (auto simp: clear_run_def le_less_Suc_eq)
      moreover have "?st + 1 - 1 = 0 \<or> bm_bit b (?st + 1 - 1 - 1)"
      proof -
        have "x = 0 \<or> bm_bit b (x - 1)" if "\<forall>i < x. bm_bit b i" for x using that by (cases x) auto
        from this[OF st(3)] show ?thesis by (simp only: add_diff_cancel_right')
      qed
      moreover have "?st + 1 + (byte_length b * 8 - ?st) \<le> 8 * length (bits b)" using assms(1) st(1) by auto
      moreover have "?st + 1 + (byte_length b * 8 - ?st) = 8 * byte_length b + 1" using st(1) by auto
      ultimately show ?thesis
        using scan_run_spec[of "?st + 1" "byte_length b * 8 - ?st" b 1 cnt] cnt assms(2) k(1) False rd
        by (auto simp: bitmap_scan_def Let_def)
    qed
  qed
qed

theorem bitmap_scan_correct_witness:
  "\<exists>r. bitmap_scan \<lparr>byte_length = 1, bits = [0x13, 0]\<rparr> 2 = Some r \<and> 0 \<le> r
     \<and> clear_run \<lparr>byte_length = 1, bits = [0x13, 0]\<rparr> (nat r) 2"
proof -
  let ?b = "\<lparr>byte_length = 1, bits = [0x13, 0]\<rparr> :: bitmap_t"
  have "bitmap_scan ?b 2 \<noteq> Some (-1)" by code_simp
  with bitmap_scan_correct[of ?b 2] show ?thesis by auto
qed

text \<open>The bound of the previous property is tight. In a one-byte bitmap whose last bit is
  clear, \<^verbatim>\<open>bitmap_scan\<close> asked for two bits hands out bit 7 together with bit 8, which lies
  outside the bitmap.\<close>

theorem bitmap_scan_runs_past_end:
  "bitmap_scan \<lparr>byte_length = 1, bits = [0x7f, 0]\<rparr> 2 = Some 7 \<and> \<not> 7 + 2 \<le> 8 * (1::int)"
  by code_simp

text \<open>Setting a bit and testing a bit agree: after \<^verbatim>\<open>bitmap_set\<close> the bit reads as the value
  given and every other bit is unchanged.\<close>

theorem bitmap_set_test:
  assumes "bitmap_set b i v = Some b'"
  shows "bitmap_scan_test b' j = (if i = j then Some (v \<noteq> 0) else bitmap_scan_test b j)"
proof -
  have rng: "i div 8 < length (bits b)"
    using assms by (auto simp: bitmap_set_def bits_upd_def bits_at_def split: if_splits)
  have eq: "(i = j) = (i div 8 = j div 8 \<and> i mod 8 = j mod 8)" by (metis div_mod_decomp)
  show ?thesis
    using assms rng eq
    by (auto simp: bitmap_set_def bits_upd_def bits_at_def bitmap_scan_test_eq bm_bit_def
        nth_list_update bit_simps split: if_splits)
qed

theorem bitmap_set_test_witness:
  "bitmap_scan_test \<lparr>byte_length = 2, bits = [0, 8]\<rparr> 11 = Some True
   \<and> bitmap_scan_test \<lparr>byte_length = 2, bits = [0, 8]\<rparr> 10 = Some False"
  using bitmap_set_test[of "\<lparr>byte_length = 2, bits = [0, 0]\<rparr>" 11 1 "\<lparr>byte_length = 2, bits = [0, 8]\<rparr>" 11]
    bitmap_set_test[of "\<lparr>byte_length = 2, bits = [0, 0]\<rparr>" 11 1 "\<lparr>byte_length = 2, bits = [0, 8]\<rparr>" 10]
  by (simp add: bitmap_set_def bits_upd_def bits_at_def bitmap_scan_test_def)

lemma bitmap_change_twice:
  assumes "bitmap_change b i = Some (r, b')"
  shows "\<exists>r'. bitmap_change b' i = Some (r', b) \<and> (r = 0) \<noteq> (r' = 0)"
proof -
  from assms have rng: "i div 8 < length (bits b)"
    and b': "b' = b\<lparr>bits := (bits b)[i div 8 := bits b ! (i div 8) XOR 2 ^ (i mod 8)]\<rparr>"
    and r: "r = uint ((bits b ! (i div 8) XOR 2 ^ (i mod 8)) AND 2 ^ (i mod 8))"
    by (auto simp: bitmap_change_def bits_upd_def bits_at_def split: if_splits)
  let ?x = "bits b ! (i div 8)" and ?m = "2 ^ (i mod 8) :: u8"
  have z: "(uint (y AND ?m) = 0) = (\<not> bit y (i mod 8))" for y :: u8
    using and_mask_bit[of "i mod 8" y] by (metis mod_less_divisor unsigned_0 unsigned_eq_0_iff zero_less_numeral)
  have "bitmap_change b' i = Some (uint (?x AND ?m), b)"
    using rng b' by (simp add: bitmap_change_def bits_upd_def bits_at_def xor.assoc)
  moreover have "(r = 0) \<noteq> (uint (?x AND ?m) = 0)"
    unfolding r z by (simp add: bit_simps)
  ultimately show ?thesis by blast
qed

end
