(* ===== verification/Memcache.thy ===== *)
theory Memcache
  imports Mempool Bitmap "HOL-Library.Multiset"
begin

text \<open>
  The kernel heap: \<^verbatim>\<open>src/vmm/memcache.c\<close>. A cache serves objects of one size from groups; a
  group has one page for its header and bitmap (small objects follow in the same
  page, large ones have a block of pages of their own). Groups are named by the
  virtual address of their header and caches by their number. The page nodes of
  the page allocator carry the cache and group an object's page belongs to; they
  are the \<open>n_cache\<close> and \<open>n_group\<close> fields of \<open>mem_node_t\<close>.

  The locks of the caches are held over list updates only, and each operation here is one
  atomic step. \<open>None\<close> is a panic, an access outside the bitmap, or a loop that does not end.
\<close>

section \<open>Data\<close>

record mem_group_t =
  g_map :: bitmap_t
  g_objects :: u32
  using_count :: u32
  free_count :: u32
  g_flags :: u32

record mem_cache_t =
  full_groups :: "u32 list"
  partial_groups :: "u32 list"
  free_groups :: "u32 list"
  object_size :: nat
  c_flags :: u32
  object_count :: nat
  c_name :: string

record large_mem_object_t =
  lo_obj :: u32
  lo_size :: nat
  lo_addr :: u32

record heap =
  h_pool :: mem_pool
  mem_caches :: "mem_cache_t list"
  h_group :: "u32 \<Rightarrow> mem_group_t"
  large_mem_object_list :: "large_mem_object_t list"

abbreviation (input) KERN_BASE_VIR_ADDR :: u32 where "KERN_BASE_VIR_ADDR \<equiv> 0x80000000"
abbreviation (input) SIZEOF_MEM_GROUP :: nat where "SIZEOF_MEM_GROUP \<equiv> 32"
abbreviation (input) MAX_MEM_CACHE_SIZE :: nat where "MAX_MEM_CACHE_SIZE \<equiv> 2097152"
abbreviation (input) MAX_MEM_OBJECT_SIZE :: nat where "MAX_MEM_OBJECT_SIZE \<equiv> 25165824"

definition DIV_ROUND_UP :: "nat \<Rightarrow> nat \<Rightarrow> nat" where
  "DIV_ROUND_UP x step = (x + step - 1) div step"

definition cache_size :: "nat list" where
  "cache_size = [32, 64, 128, 256, 512, 1024, 2048, 4096, 8192, 16384, 32768, 65536, 131072, 262144, 524288, 1048576, 2097152]"

abbreviation cache :: "heap \<Rightarrow> nat \<Rightarrow> mem_cache_t" where
  "cache h c \<equiv> mem_caches h ! c"

definition upd_cache :: "nat \<Rightarrow> (mem_cache_t \<Rightarrow> mem_cache_t) \<Rightarrow> heap \<Rightarrow> heap" where
  "upd_cache c f h = h\<lparr>mem_caches := (mem_caches h)[c := f (cache h c)]\<rparr>"

definition upd_group :: "u32 \<Rightarrow> (mem_group_t \<Rightarrow> mem_group_t) \<Rightarrow> heap \<Rightarrow> heap" where
  "upd_group g f h = h\<lparr>h_group := (h_group h)(g := f (h_group h g))\<rparr>"


section \<open>Caches and pages\<close>

definition mem_cache_init :: "string \<Rightarrow> nat \<Rightarrow> u32 \<Rightarrow> mem_cache_t res" where
  "mem_cache_init name sz flags =
     (if sz = 0 then Inl E_FAIL
      else let cnt = (if sz < 1024 then (4096 - SIZEOF_MEM_GROUP - 16) div sz
                      else if sz \<le> 131072 then 1048576 div sz
                      else if sz \<le> 4194304 then 4194304 div sz else 4)
        in Inr \<lparr>full_groups = [], partial_groups = [], free_groups = [], object_size = sz, c_flags = flags,
                object_count = cnt, c_name = name\<rparr>)"

definition mem_caches_build :: "mem_cache_t res list" where
  "mem_caches_build = map (\<lambda>sz. mem_cache_init ''mem cache'' sz 0) cache_size"

definition mem_cache_page_alloc :: "nat \<Rightarrow> heap \<Rightarrow> (u32 option \<times> heap) option" where
  "mem_cache_page_alloc cnt h = do {
     (page, pool) \<leftarrow> mem_node_alloc_pages cnt MEM_NODE_TYPE_NORMAL (h_pool h);
     Some (if page = 0 then None else Some (page + KERN_BASE_VIR_ADDR), h\<lparr>h_pool := pool\<rparr>) }"

definition mem_cache_page_free :: "u32 \<Rightarrow> heap \<Rightarrow> (unit res \<times> heap) option" where
  "mem_cache_page_free address h =
     (if address = 0 \<or> address - KERN_BASE_VIR_ADDR = 0 then Some (Inl E_FAIL, h)
      else do {
        (_, pool) \<leftarrow> mem_node_free_pages (address - KERN_BASE_VIR_ADDR) (h_pool h);
        Some (Inr (), h\<lparr>h_pool := pool\<rparr>) })"

text \<open>
  \<^verbatim>\<open>MEM_NODE_MARK_CHACHE_GROUP\<close> on the node of a virtual address; a null node is a panic.
\<close>

definition mark_cache_group :: "u32 \<Rightarrow> nat \<Rightarrow> u32 \<Rightarrow> heap \<Rightarrow> heap option" where
  "mark_cache_group va c g h = do {
     p \<leftarrow> phy_addr_to_mem_node (va - KERN_BASE_VIR_ADDR) (h_pool h);
     (r, i) \<leftarrow> p;
     Some (h\<lparr>h_pool := (h_pool h)[r := upd_node i (\<lambda>n. n\<lparr>n_cache := Some c, n_group := Some g\<rparr>) (h_pool h ! r)]\<rparr>) }"

fun mark_pages :: "nat list \<Rightarrow> u32 \<Rightarrow> nat \<Rightarrow> u32 \<Rightarrow> heap \<Rightarrow> heap option" where
  "mark_pages [] base c g h = Some h"
| "mark_pages (i # is) base c g h = do {
     h' \<leftarrow> mark_cache_group (base + of_nat (i * 4096)) c g h;
     mark_pages is base c g h' }"


section \<open>Groups\<close>

text \<open>
  \<^verbatim>\<open>mem_group_init\<close> links the group before it allocates the pages for large objects.
\<close>

definition mem_group_init :: "nat \<Rightarrow> u32 \<Rightarrow> u32 \<Rightarrow> heap \<Rightarrow> (unit res \<times> heap) option" where
  "mem_group_init c g flags h = do {
     let h1 = upd_cache c (\<lambda>ca. ca\<lparr>free_groups := g # free_groups ca\<rparr>) h;
     let cnt = object_count (cache h c);
     let bl = DIV_ROUND_UP cnt 8;
     m \<leftarrow> bitmap_init \<lparr>byte_length = bl, bits = replicate bl 0\<rparr>;
     let h2 = upd_group g (g_map_update (\<lambda>_. m)) h1;
     let fin = (\<lambda>objs h. upd_group g (\<lambda>gr. gr\<lparr>g_objects := objs, using_count := 0,
                  free_count := of_nat cnt, g_flags := flags\<rparr>) h);
     if object_size (cache h c) < 1024 then do {
       h3 \<leftarrow> mark_cache_group g c g h2;
       Some (Inr (), fin (g + of_nat SIZEOF_MEM_GROUP + 16) h3) }
     else do {
       let pages = DIV_ROUND_UP (cnt * object_size (cache h c)) 4096;
       (objs, h3) \<leftarrow> mem_cache_page_alloc pages h2;
       case objs of
         None \<Rightarrow> Some (Inl E_FAIL, upd_group g (g_objects_update (\<lambda>_. 0)) h3)
       | Some o' \<Rightarrow> do { h4 \<leftarrow> mark_pages [0..<pages] o' c g h3; Some (Inr (), fin o' h4) } } }"

definition mem_group_create :: "nat \<Rightarrow> u32 \<Rightarrow> heap \<Rightarrow> (unit res \<times> heap) option" where
  "mem_group_create c flags h = do {
     (p, h1) \<leftarrow> mem_cache_page_alloc 1 h;
     case p of None \<Rightarrow> Some (Inl E_FAIL, h1)
     | Some g \<Rightarrow> do {
         (e, h2) \<leftarrow> mem_group_init c g flags h1;
         if e = Inr () then Some (Inr (), h2)
         else do { (_, h3) \<leftarrow> mem_cache_page_free g h2; Some (Inl E_FAIL, h3) } } }"

text \<open>\<^verbatim>\<open>list_del(&group->list)\<close>: the group leaves whichever list of its cache it is on.\<close>

definition group_unlink :: "u32 \<Rightarrow> mem_cache_t \<Rightarrow> mem_cache_t" where
  "group_unlink g ca = ca\<lparr>full_groups := remove1 g (full_groups ca), partial_groups := remove1 g (partial_groups ca),
     free_groups := remove1 g (free_groups ca)\<rparr>"

definition mem_cache_do_alloc :: "nat \<Rightarrow> u32 \<Rightarrow> heap \<Rightarrow> (u32 option \<times> heap) option" where
  "mem_cache_do_alloc c g h = do {
     idx \<leftarrow> bitmap_scan (g_map (h_group h g)) 1;
     if idx = -1 then Some (None, h)
     else do {
       m \<leftarrow> bitmap_set (g_map (h_group h g)) (nat idx) 1;
       let h1 = upd_group g (\<lambda>gr. gr\<lparr>g_map := m, using_count := using_count gr + 1, free_count := free_count gr - 1\<rparr>) h;
       let object = g_objects (h_group h g) + of_nat (nat idx * object_size (cache h c));
       let h2 = (if free_count (h_group h1 g) = 0
                 then upd_cache c (\<lambda>ca. (group_unlink g ca)\<lparr>full_groups := full_groups (group_unlink g ca) @ [g]\<rparr>) h1
                 else h1);
       Some (Some object, h2) } }"

text \<open>One pass of \<^verbatim>\<open>mem_cache_alloc_object\<close> up to \<^verbatim>\<open>new_group\<close>: \<open>None\<close> inside means that there is no group to use.\<close>

definition pick_group :: "nat \<Rightarrow> heap \<Rightarrow> (u32 \<times> heap) option" where
  "pick_group c h =
     (case partial_groups (cache h c) of
        g # _ \<Rightarrow> Some (g, h)
      | [] \<Rightarrow> (case free_groups (cache h c) of
          [] \<Rightarrow> None
        | g # gs \<Rightarrow> Some (g, upd_cache c (\<lambda>ca. ca\<lparr>free_groups := gs, partial_groups := [g]\<rparr>) h)))"

partial_function (option) mem_cache_alloc_object :: "nat \<Rightarrow> heap \<Rightarrow> (u32 option \<times> heap) option" where
  "mem_cache_alloc_object c h = (case pick_group c h of
       Some (g, h') \<Rightarrow> mem_cache_do_alloc c g h'
     | None \<Rightarrow> do {
         (e, h1) \<leftarrow> mem_group_create c 0 h;
         if e \<noteq> Inr () then Some (None, h1) else mem_cache_alloc_object c h1 })"

declare mem_cache_alloc_object.simps [code]

text \<open>\<^verbatim>\<open>mem_cache_do_free\<close>. The pointer difference is divided as an unsigned number.\<close>

definition mem_cache_do_free :: "nat \<Rightarrow> u32 \<Rightarrow> heap \<Rightarrow> heap option" where
  "mem_cache_do_free c object h = do {
     p \<leftarrow> phy_addr_to_mem_node (object - KERN_BASE_VIR_ADDR) (h_pool h);
     (r, i) \<leftarrow> p;
     g \<leftarrow> n_group (node_table (h_pool h ! r) i);
     let gr = h_group h g;
     let index = sint ((object - g_objects gr) div of_nat (object_size (cache h c)));
     if index < 0 \<or> index > int (byte_length (g_map gr) * 8) then None
     else do {
       m \<leftarrow> bitmap_set (g_map gr) (nat index) 0;
       let h1 = upd_group g (\<lambda>gr. gr\<lparr>g_map := m, using_count := using_count gr - 1, free_count := free_count gr + 1\<rparr>) h;
       Some (if using_count (h_group h1 g) = 0
             then upd_cache c (\<lambda>ca. (group_unlink g ca)\<lparr>free_groups := free_groups (group_unlink g ca) @ [g]\<rparr>) h1
             else if using_count gr = of_nat (object_count (cache h c))
             then upd_cache c (\<lambda>ca. (group_unlink g ca)\<lparr>partial_groups := partial_groups (group_unlink g ca) @ [g]\<rparr>) h1
             else h1) } }"

definition mem_cache_free_object :: "nat \<Rightarrow> u32 \<Rightarrow> heap \<Rightarrow> heap option" where
  "mem_cache_free_object c object h = mem_cache_do_free c object h"


section \<open>The heap interface\<close>

text \<open>\<open>Some 0\<close> in the code's table is the end mark; with a size of at most 2 MB the scan stops before.\<close>

definition cache_for :: "nat \<Rightarrow> nat option" where
  "cache_for sz = scan_index (\<lambda>s. s \<ge> sz) cache_size"

definition mem_alloc_cached :: "nat \<Rightarrow> heap \<Rightarrow> (u32 option \<times> heap) option" where
  "mem_alloc_cached sz h = do { c \<leftarrow> cache_for sz; mem_cache_alloc_object c h }"

definition node_cache :: "u32 \<Rightarrow> heap \<Rightarrow> nat option option" where
  "node_cache object h = do {
     p \<leftarrow> phy_addr_to_mem_node (object - KERN_BASE_VIR_ADDR) (h_pool h);
     (r, i) \<leftarrow> p;
     Some (n_cache (node_table (h_pool h ! r) i)) }"

text \<open>
  \<^verbatim>\<open>mem_free\<close>. The record of a large object comes from a cache, so the inner call ends at
  once; a second large record there would be another round, hence the recursion.
\<close>

partial_function (option) mem_free :: "u32 \<Rightarrow> heap \<Rightarrow> heap option" where
  "mem_free object h =
     (if object = 0 then Some h
      else do {
        nc \<leftarrow> node_cache object h;
        case nc of
          Some c \<Rightarrow> mem_cache_free_object c object h
        | None \<Rightarrow> (case find (\<lambda>o'. lo_addr o' = object) (large_mem_object_list h) of
            None \<Rightarrow> Some h
          | Some o' \<Rightarrow> do {
              (_, h1) \<leftarrow> mem_cache_page_free (lo_addr o') (h\<lparr>large_mem_object_list := remove1 o' (large_mem_object_list h)\<rparr>);
              mem_free (lo_obj o') h1 }) })"

declare mem_free.simps [code]

definition mem_alloc :: "nat \<Rightarrow> heap \<Rightarrow> (u32 option \<times> heap) option" where
  "mem_alloc sz h =
     (if sz > MAX_MEM_CACHE_SIZE then
        (if sz > MAX_MEM_OBJECT_SIZE then Some (None, h)
         else do {
           (obj, h1) \<leftarrow> mem_alloc_cached 16 h;
           case obj of None \<Rightarrow> Some (None, h1)
           | Some ob \<Rightarrow> do {
               (a, h2) \<leftarrow> mem_cache_page_alloc (DIV_ROUND_UP sz 4096) h1;
               case a of
                 None \<Rightarrow> do { h3 \<leftarrow> mem_free ob h2; Some (None, h3) }
               | Some ad \<Rightarrow> Some (Some ad, h2\<lparr>large_mem_object_list :=
                   \<lparr>lo_obj = ob, lo_size = sz, lo_addr = ad\<rparr> # large_mem_object_list h2\<rparr>) } })
      else mem_alloc_cached sz h)"

definition mem_alloc_align :: "nat \<Rightarrow> u32 \<Rightarrow> heap \<Rightarrow> (u32 option \<times> heap) option" where
  "mem_alloc_align sz align h = do {
     (p, h1) \<leftarrow> mem_alloc sz h;
     Some (map_option (\<lambda>a. a AND NOT (align - 1)) p, h1) }"

text \<open>The third component is the region \<^verbatim>\<open>memset(ret, 0, size)\<close> clears, if any.\<close>

definition mem_zalloc :: "nat \<Rightarrow> heap \<Rightarrow> (u32 option \<times> heap \<times> (u32 \<times> nat) option) option" where
  "mem_zalloc sz h = do {
     (ret, h1) \<leftarrow> mem_alloc sz h;
     case ret of None \<Rightarrow> Some (None, h1, None) | Some q \<Rightarrow> Some (Some q, h1, Some (q, sz)) }"

text \<open>The third component is the copy \<^verbatim>\<open>memcpy(ret, ptr, size)\<close>, if one is made.\<close>

definition mem_realloc :: "u32 \<Rightarrow> nat \<Rightarrow> heap \<Rightarrow> (u32 option \<times> heap \<times> (u32 \<times> u32 \<times> nat) option) option" where
  "mem_realloc ptr sz h = do {
     (ret, h1) \<leftarrow> mem_alloc sz h;
     case ret of None \<Rightarrow> Some (None, h1, None)
     | Some q \<Rightarrow> if ptr = 0 then Some (Some q, h1, None)
         else do { h2 \<leftarrow> mem_free ptr h1; Some (Some q, h2, Some (q, ptr, sz)) } }"


section \<open>Shrinking\<close>

definition group_destory :: "nat \<Rightarrow> u32 \<Rightarrow> heap \<Rightarrow> (unit res \<times> heap) option" where
  "group_destory c g h0 =
     (let h = upd_cache c (group_unlink g) h0 in
      if object_size (cache h c) < 1024 then mem_cache_page_free g h
      else do {
        (e, h1) \<leftarrow> mem_cache_page_free (g_objects (h_group h g)) h;
        if e \<noteq> Inr () then Some (e, h1) else mem_cache_page_free g h1 })"

fun shrink_groups :: "nat \<Rightarrow> u32 list \<Rightarrow> nat \<Rightarrow> heap \<Rightarrow> (nat \<times> heap) option" where
  "shrink_groups c [] ret h = Some (ret, h)"
| "shrink_groups c (g # gs) ret h = do {
     (e, h') \<leftarrow> group_destory c g h;
     shrink_groups c gs (if e = Inr () then ret + 1 else ret) h' }"

definition mem_cache_do_shrink :: "nat \<Rightarrow> heap \<Rightarrow> (nat \<times> heap) option" where
  "mem_cache_do_shrink c h = shrink_groups c (free_groups (cache h c)) 0 h"

definition mem_cahce_shrink :: "nat \<Rightarrow> heap \<Rightarrow> (nat \<times> heap) option" where
  "mem_cahce_shrink c h = do {
     (ret, h') \<leftarrow> mem_cache_do_shrink c h;
     Some (ret * object_count (cache h c) * object_size (cache h c), h') }"

fun shrink_all :: "nat list \<Rightarrow> nat \<Rightarrow> heap \<Rightarrow> (nat \<times> heap) option" where
  "shrink_all [] tot h = Some (tot, h)"
| "shrink_all (c # cs) tot h = do { (n, h') \<leftarrow> mem_cahce_shrink c h; shrink_all cs (tot + n) h' }"

definition mem_shrink :: "heap \<Rightarrow> (nat \<times> heap) option" where
  "mem_shrink h = shrink_all [0..<length cache_size] 0 h"



section \<open>One group\<close>

text \<open>The objects of a group that are in use, and when its bitmap and its counters agree.\<close>

definition used :: "mem_group_t \<Rightarrow> nat set" where
  "used gr = {i. i < 8 * byte_length (g_map gr) \<and> bm_bit (g_map gr) i}"

definition group_ok :: "nat \<Rightarrow> mem_group_t \<Rightarrow> bool" where
  "group_ok cnt gr \<longleftrightarrow> byte_length (g_map gr) = DIV_ROUND_UP cnt 8 \<and> length (bits (g_map gr)) = byte_length (g_map gr)
     \<and> used gr \<subseteq> {..<cnt} \<and> unat (using_count gr) = card (used gr) \<and> unat (free_count gr) + card (used gr) = cnt"

lemma DIV_ROUND_UP_ge: "0 < step \<Longrightarrow> x \<le> step * DIV_ROUND_UP x step"
proof -
  assume s: "0 < step"
  have "x + step - 1 < step * (DIV_ROUND_UP x step) + step"
    unfolding DIV_ROUND_UP_def using dividend_less_times_div[OF s, of "x + step - 1"] by simp
  then show ?thesis using s by linarith
qed

lemma DIV_ROUND_UP_least: "0 < step \<Longrightarrow> x \<le> step * n \<Longrightarrow> DIV_ROUND_UP x step \<le> n"
proof -
  assume a: "0 < step" "x \<le> step * n"
  then have "x + step - 1 < step * (n + 1)" by simp
  then have "(x + step - 1) div step < n + 1" using a(1) by (simp add: div_less_iff_less_mult mult.commute)
  then show ?thesis by (simp add: DIV_ROUND_UP_def)
qed

lemma finite_used [simp]: "finite (used gr)" by (simp add: used_def)

lemma unat_plus_one: "unat (x :: u32) < 2 ^ 31 \<Longrightarrow> unat (x + 1) = unat x + 1"
  by (subst unat_add_no_overflow) simp_all

lemma unat_minus_one: "0 < unat (x :: u32) \<Longrightarrow> unat (x - 1) = unat x - 1"
  by (rule unat_minus_one) auto

lemma upd_heap_simps [simp]:
  "h_pool (upd_group g f h) = h_pool h" "mem_caches (upd_group g f h) = mem_caches h"
  "h_group (upd_group g f h) = (h_group h)(g := f (h_group h g))" "large_mem_object_list (upd_group g f h) = large_mem_object_list h"
  "h_pool (upd_cache c k h) = h_pool h" "mem_caches (upd_cache c k h) = (mem_caches h)[c := k (cache h c)]"
  "h_group (upd_cache c k h) = h_group h" "large_mem_object_list (upd_cache c k h) = large_mem_object_list h"
  by (simp_all add: upd_group_def upd_cache_def)

text \<open>Taking one object: the first clear bit is below the number of objects.\<close>

lemma mem_cache_do_alloc_ok:
  assumes ok: "group_ok cnt (h_group h g)" and cnt: "cnt < 2 ^ 31" and free: "card (used (h_group h g)) < cnt"
  shows "\<exists>i h'. mem_cache_do_alloc c g h = Some (Some (g_objects (h_group h g) + of_nat (i * object_size (cache h c))), h')
    \<and> i < cnt \<and> i \<notin> used (h_group h g) \<and> used (h_group h' g) = insert i (used (h_group h g)) \<and> group_ok cnt (h_group h' g)
    \<and> g_objects (h_group h' g) = g_objects (h_group h g) \<and> (\<forall>g'. g' \<noteq> g \<longrightarrow> h_group h' g' = h_group h g')
    \<and> h_pool h' = h_pool h \<and> large_mem_object_list h' = large_mem_object_list h
    \<and> mem_caches h' = (if card (used (h_group h g)) + 1 = cnt
         then (mem_caches h)[c := (group_unlink g (cache h c))\<lparr>full_groups := full_groups (group_unlink g (cache h c)) @ [g]\<rparr>]
         else mem_caches h)"
proof -
  let ?gr = "h_group h g"
  let ?m = "g_map ?gr"
  note o = ok[unfolded group_ok_def]
  have "\<not> {..<cnt} \<subseteq> used ?gr" using free card_mono[OF finite_used, of "{..<cnt}" ?gr] by auto
  then obtain n where n: "n < cnt" "n \<notin> used ?gr" by auto
  have "cnt \<le> 8 * byte_length ?m" using o DIV_ROUND_UP_ge[of 8 cnt] by simp
  with n have n8: "n < 8 * byte_length ?m" "\<not> bm_bit ?m n" by (auto simp: used_def)
  from bitmap_scan_first[OF _ n8] o obtain i where i: "i \<le> n" "bitmap_scan ?m 1 = Some (int i)" "\<not> bm_bit ?m i" by auto
  have i8: "i < cnt" "i < 8 * byte_length ?m" using i n n8 by auto
  then have "i div 8 < length (bits ?m)" using o by auto
  from bitmap_set_bits[OF this, of 1] obtain m where m: "bitmap_set ?m i 1 = Some m" "byte_length m = byte_length ?m"
    "length (bits m) = length (bits ?m)" "\<And>j. bm_bit m j = (if j = i then True else bm_bit ?m j)" by auto
  define gr' where "gr' = ?gr\<lparr>g_map := m, using_count := using_count ?gr + 1, free_count := free_count ?gr - 1\<rparr>"
  have u: "used gr' = insert i (used ?gr)" using m i8 by (auto simp: used_def gr'_def)
  have notin: "i \<notin> used ?gr" using i(3) by (simp add: used_def)
  have uc: "unat (using_count gr') = card (used gr')"
    using o u notin free cnt by (simp add: gr'_def unat_plus_one)
  have fc: "unat (free_count gr') = unat (free_count ?gr) - 1"
    using o free by (simp add: gr'_def Memcache.unat_minus_one)
  have gok: "group_ok cnt gr'" unfolding group_ok_def using o u notin m uc fc free i8 by (auto simp: gr'_def)
  have z: "free_count gr' = 0 \<longleftrightarrow> card (used ?gr) + 1 = cnt"
    using fc o free by (auto simp: unat_eq_zero[symmetric])
  let ?h1 = "upd_group g (\<lambda>_. gr') h"
  define h' where "h' = (if free_count gr' = 0
      then upd_cache c (\<lambda>ca. (group_unlink g ca)\<lparr>full_groups := full_groups (group_unlink g ca) @ [g]\<rparr>) ?h1 else ?h1)"
  have h1: "upd_group g (\<lambda>gr. gr\<lparr>g_map := m, using_count := using_count gr + 1, free_count := free_count gr - 1\<rparr>) h = ?h1"
    by (simp add: upd_group_def gr'_def)
  have "mem_cache_do_alloc c g h = Some (Some (g_objects ?gr + of_nat (i * object_size (cache h c))), h')"
    unfolding mem_cache_do_alloc_def using i(2) m(1) by (simp add: h'_def Let_def h1 gr'_def[THEN arg_cong, of free_count] del: of_nat_mult)
  moreover have "h_group h' = (h_group h)(g := gr')" "h_pool h' = h_pool h" "large_mem_object_list h' = large_mem_object_list h"
    by (simp_all add: h'_def)
  moreover have "mem_caches h' = (if card (used ?gr) + 1 = cnt
         then (mem_caches h)[c := (group_unlink g (cache h c))\<lparr>full_groups := full_groups (group_unlink g (cache h c)) @ [g]\<rparr>]
         else mem_caches h)" by (simp add: h'_def z)
  ultimately show ?thesis using i8 notin u gok by (intro exI[of _ i] exI[of _ h']) (simp add: gr'_def)
qed



section \<open>The heap invariant\<close>

text \<open>The caches take their pages from the second range, which is mapped at a fixed offset.\<close>

abbreviation nrange :: "heap \<Rightarrow> mem_range_t" where "nrange h \<equiv> h_pool h ! 1"

definition va :: "heap \<Rightarrow> nat \<Rightarrow> u32" where
  "va h p = page_addr (nrange h) p + 0x80000000"

definition groups :: "mem_cache_t \<Rightarrow> u32 list" where
  "groups ca = full_groups ca @ partial_groups ca @ free_groups ca"

definition cache_geo :: "mem_cache_t \<Rightarrow> bool" where
  "cache_geo ca \<longleftrightarrow> 0 < object_size ca \<and> 0 < object_count ca
     \<and> (if object_size ca < 1024 then 48 + object_count ca * object_size ca \<le> 4096
        else object_count ca * object_size ca \<le> 2048 * 4096)"

text \<open>The pages whose nodes carry the mark of the group.\<close>

definition marked :: "mem_cache_t \<Rightarrow> nat \<Rightarrow> nat set" where
  "marked ca p = (if object_size ca < 1024 then {p}
     else {p ..< p + DIV_ROUND_UP (object_count ca * object_size ca) 4096})"

text \<open>
  \<open>placed h c g hp ob\<close>: group \<open>g\<close> of cache \<open>c\<close> has its header on page \<open>hp\<close> and its objects in
  the block \<open>ob\<close>, both allocated, and the nodes of the objects' pages name the cache and the group.
\<close>

definition placed :: "heap \<Rightarrow> nat \<Rightarrow> u32 \<Rightarrow> nat \<Rightarrow> nat \<times> nat \<Rightarrow> bool" where
  "placed h c g hp ob \<longleftrightarrow> g = va h hp \<and> (hp, 0) \<in> alloc_blocks (nrange h) \<and> ob \<in> alloc_blocks (nrange h)
     \<and> marked (cache h c) (fst ob) \<subseteq> blk ob
     \<and> (if object_size (cache h c) < 1024 then ob = (hp, 0) \<and> g_objects (h_group h g) = g + 48
        else ob \<noteq> (hp, 0) \<and> g_objects (h_group h g) = va h (fst ob) \<and> n_group (node_table (nrange h) hp) = None)
     \<and> (\<forall>p \<in> marked (cache h c) (fst ob). n_cache (node_table (nrange h) p) = Some c \<and> n_group (node_table (nrange h) p) = Some g)"

definition cache_ok :: "heap \<Rightarrow> nat \<Rightarrow> bool" where
  "cache_ok h c \<longleftrightarrow> (let ca = cache h c; n = (\<lambda>g. card (used (h_group h g))) in cache_geo ca \<and> distinct (groups ca)
     \<and> (\<forall>g \<in> set (groups ca). group_ok (object_count ca) (h_group h g) \<and> (\<exists>hp ob. placed h c g hp ob))
     \<and> (\<forall>g \<in> set (full_groups ca). n g = object_count ca)
     \<and> (\<forall>g \<in> set (partial_groups ca). 0 < n g \<and> n g < object_count ca)
     \<and> (\<forall>g \<in> set (free_groups ca). n g = 0))"

definition heap_ok :: "heap \<Rightarrow> bool" where
  "heap_ok h \<longleftrightarrow> pool_ok (h_pool h) \<and> unat (r_end (nrange h)) \<le> 2 ^ 31 \<and> (\<forall>c < length (mem_caches h). cache_ok h c)"

text \<open>The objects in use, and the addresses one of them occupies.\<close>

definition live :: "heap \<Rightarrow> (nat \<times> u32 \<times> nat) set" where
  "live h = {(c, g, i). c < length (mem_caches h) \<and> g \<in> set (groups (cache h c)) \<and> i \<in> used (h_group h g)}"

definition obj_addr :: "heap \<Rightarrow> nat \<times> u32 \<times> nat \<Rightarrow> nat" where
  "obj_addr h x = (case x of (c, g, i) \<Rightarrow> unat (g_objects (h_group h g)) + i * object_size (cache h c))"

definition extent :: "heap \<Rightarrow> nat \<times> u32 \<times> nat \<Rightarrow> nat set" where
  "extent h x = {obj_addr h x ..< obj_addr h x + object_size (cache h (fst x))}"

lemma placedD:
  assumes "placed h c g hp ob"
  shows "g = va h hp" "(hp, 0) \<in> alloc_blocks (nrange h)" "ob \<in> alloc_blocks (nrange h)" "marked (cache h c) (fst ob) \<subseteq> blk ob"
    "p \<in> marked (cache h c) (fst ob) \<Longrightarrow> n_cache (node_table (nrange h) p) = Some c"
    "p \<in> marked (cache h c) (fst ob) \<Longrightarrow> n_group (node_table (nrange h) p) = Some g"
    "object_size (cache h c) < 1024 \<Longrightarrow> ob = (hp, 0)" "object_size (cache h c) < 1024 \<Longrightarrow> g_objects (h_group h g) = g + 48"
    "\<not> object_size (cache h c) < 1024 \<Longrightarrow> ob \<noteq> (hp, 0)"
    "\<not> object_size (cache h c) < 1024 \<Longrightarrow> g_objects (h_group h g) = va h (fst ob)"
    "\<not> object_size (cache h c) < 1024 \<Longrightarrow> n_group (node_table (nrange h) hp) = None"
  using assms unfolding placed_def by (auto simp del: One_nat_def split: if_splits)

lemma placed_smallI:
  assumes "object_size (cache h c) < 1024" "g = va h hp" "(hp, 0) \<in> alloc_blocks (nrange h)" "g_objects (h_group h g) = g + 48"
    "n_cache (node_table (nrange h) hp) = Some c" "n_group (node_table (nrange h) hp) = Some g"
  shows "placed h c g hp (hp, 0)"
  unfolding placed_def marked_def using assms by (simp only: if_True) (simp add: blk_def)

lemma placed_bigI:
  assumes "\<not> object_size (cache h c) < 1024" "g = va h hp" "(hp, 0) \<in> alloc_blocks (nrange h)" "ob \<in> alloc_blocks (nrange h)"
    "marked (cache h c) (fst ob) \<subseteq> blk ob" "ob \<noteq> (hp, 0)" "g_objects (h_group h g) = va h (fst ob)"
    "n_group (node_table (nrange h) hp) = None"
    "\<forall>p \<in> marked (cache h c) (fst ob). n_cache (node_table (nrange h) p) = Some c \<and> n_group (node_table (nrange h) p) = Some g"
  shows "placed h c g hp ob"
  unfolding placed_def using assms by (simp only: if_False) blast

lemma range_nth:
  assumes "pool_ok pool"
  shows "layout_ok pool" "pool ! 1 \<in> set pool" "range_ok (pool ! 1)" "length pool = 3"
  using assms by (auto simp: pool_ok_def layout_ok_def)

lemma unat_va:
  assumes "pool_ok (h_pool h)" "unat (r_end (nrange h)) \<le> 2 ^ 31" "p < r_pages (nrange h)"
  shows "unat (va h p) = 2 ^ 31 + unat (r_start (nrange h)) + 4096 * p" "va h p - 0x80000000 = page_addr (nrange h) p"
    "unat (va h p) + 4096 \<le> 2 ^ 32"
proof -
  note r = range_nth[OF assms(1)] and pa = page_addr_unat[OF range_nth(1,2)[OF assms(1)] assms(3)]
  have g: "unat (r_start (nrange h)) + 4096 * r_pages (nrange h) \<le> unat (r_end (nrange h))" using r by (auto simp: layout_ok_def)
  moreover have "4096 * p + 4096 \<le> 4096 * r_pages (nrange h)" using assms(3) by simp
  ultimately have b: "unat (page_addr (nrange h) p) + 4096 \<le> 2 ^ 31" using pa(1) assms(2) by linarith
  then show u: "unat (va h p) = 2 ^ 31 + unat (r_start (nrange h)) + 4096 * p"
    unfolding va_def using pa(1) by (subst unat_add_no_overflow) simp_all
  show "va h p - 0x80000000 = page_addr (nrange h) p" by (simp add: va_def)
  show "unat (va h p) + 4096 \<le> 2 ^ 32" using u b pa(1) by simp
qed

lemma va_inj:
  assumes "pool_ok (h_pool h)" "unat (r_end (nrange h)) \<le> 2 ^ 31" "p < r_pages (nrange h)" "q < r_pages (nrange h)" "va h p = va h q"
  shows "p = q"
proof -
  have "2 ^ 31 + unat (r_start (nrange h)) + 4096 * p = 2 ^ 31 + unat (r_start (nrange h)) + 4096 * q"
    unfolding unat_va(1)[OF assms(1,2,3), symmetric] unat_va(1)[OF assms(1,2,4), symmetric] assms(5) ..
  then show ?thesis by simp
qed

lemma alloc_block_page: "range_ok R \<Longrightarrow> b \<in> alloc_blocks R \<Longrightarrow> x \<in> blk b \<Longrightarrow> x < r_pages R"
  using range_okD(6)[of R b] by (auto simp: blk_def)

lemma cache_okD:
  assumes "cache_ok h c"
  shows "cache_geo (cache h c)" "distinct (groups (cache h c))"
    "g \<in> set (groups (cache h c)) \<Longrightarrow> group_ok (object_count (cache h c)) (h_group h g)"
    "g \<in> set (groups (cache h c)) \<Longrightarrow> \<exists>hp ob. placed h c g hp ob"
    "g \<in> set (full_groups (cache h c)) \<Longrightarrow> card (used (h_group h g)) = object_count (cache h c)"
    "g \<in> set (partial_groups (cache h c)) \<Longrightarrow> 0 < card (used (h_group h g)) \<and> card (used (h_group h g)) < object_count (cache h c)"
    "g \<in> set (free_groups (cache h c)) \<Longrightarrow> card (used (h_group h g)) = 0"
  using assms unfolding cache_ok_def Let_def by blast+

lemma marked_self: "cache_geo ca \<Longrightarrow> p \<in> marked ca p"
proof (cases "object_size ca < 1024")
  case False
  assume g: "cache_geo ca"
  then have "0 < object_count ca * object_size ca" by (simp add: cache_geo_def)
  then have "0 < DIV_ROUND_UP (object_count ca * object_size ca) 4096"
    using DIV_ROUND_UP_ge[of 4096 "object_count ca * object_size ca"] by (cases "DIV_ROUND_UP (object_count ca * object_size ca) 4096") auto
  then show ?thesis using False by (simp add: marked_def)
qed (simp add: marked_def)

text \<open>The marks make the owner of a block unique.\<close>

lemma placed_unique:
  assumes geo: "cache_geo (cache h c)" "cache_geo (cache h c')" and p: "placed h c g hp ob" "placed h c' g' hp' ob'"
  shows "ob = ob' \<Longrightarrow> c = c' \<and> g = g'"
proof -
  assume e: "ob = ob'"
  note n = placedD(5,6)[OF p(1) marked_self[OF geo(1)]] placedD(5,6)[OF p(2) marked_self[OF geo(2)]]
  show ?thesis using n unfolding e by simp
qed

lemma placed_same_group:
  assumes ok: "heap_ok h" and geo: "cache_geo (cache h c)" "cache_geo (cache h c')" and p: "placed h c g hp ob" "placed h c' g hp' ob'"
  shows "c = c' \<and> hp = hp' \<and> fst ob = fst ob'"
proof -
  from ok have pool: "pool_ok (h_pool h)" "unat (r_end (nrange h)) \<le> 2 ^ 31" by (auto simp: heap_ok_def)
  note rok = range_nth(3)[OF pool(1)]
  note d = placedD[OF p(1)] and d' = placedD[OF p(2)]
  have pg: "hp < r_pages (nrange h)" "hp' < r_pages (nrange h)" "fst ob < r_pages (nrange h)" "fst ob' < r_pages (nrange h)"
    using alloc_block_page[OF rok d(2), of hp] alloc_block_page[OF rok d'(2), of hp'] alloc_block_page[OF rok d(3), of "fst ob"]
      alloc_block_page[OF rok d'(3), of "fst ob'"] by (simp_all add: blk_def)
  have hp: "hp = hp'" using va_inj[OF pool pg(1,2)] d(1) d'(1) by blast
  note m = marked_self[OF geo(1), of "fst ob"] and m' = marked_self[OF geo(2), of "fst ob'"]
  note n = d(5,6)[OF m] d'(5,6)[OF m']
  have ob: "fst ob = fst ob'"
  proof (cases "object_size (cache h c) < 1024")
    case True
    note o = d(7)[OF True]
    have "object_size (cache h c') < 1024"
    proof (rule ccontr)
      assume "\<not> object_size (cache h c') < 1024"
      from d'(11)[OF this] n(2) o hp show False by simp
    qed
    from d'(7)[OF this] o hp show ?thesis by simp
  next
    case False
    have big: "\<not> object_size (cache h c') < 1024"
    proof
      assume "object_size (cache h c') < 1024"
      from d'(7)[OF this] d(11)[OF False] n(4) hp show False by simp
    qed
    have "va h (fst ob) = va h (fst ob')" using d'(10)[OF big] d(10)[OF False] by (simp only:)
    then show ?thesis by (rule va_inj[OF pool pg(3,4)])
  qed
  then have "Some c = Some c'" using n(1,3) by (simp only: ob)
  then show ?thesis using hp ob by simp
qed



section \<open>Objects do not overlap\<close>

definition vbase :: "heap \<Rightarrow> nat" where "vbase h = 2 ^ 31 + unat (r_start (nrange h))"

definition slots :: "heap \<Rightarrow> (nat \<times> u32 \<times> nat) set" where
  "slots h = {(c, g, i). c < length (mem_caches h) \<and> g \<in> set (groups (cache h c)) \<and> i < object_count (cache h c)}"

lemma heap_okD:
  assumes "heap_ok h"
  shows "pool_ok (h_pool h)" "unat (r_end (nrange h)) \<le> 2 ^ 31" "c < length (mem_caches h) \<Longrightarrow> cache_ok h c" "range_ok (nrange h)"
  using assms range_nth(3) by (auto simp: heap_ok_def)

lemma live_slots: "heap_ok h \<Longrightarrow> live h \<subseteq> slots h"
  using cache_okD(3) heap_okD(3) by (fastforce simp: live_def slots_def group_ok_def)

lemma extent_page:
  assumes ok: "heap_ok h" and c: "cache_geo (cache h c)" and p: "placed h c g hp ob" and i: "i < object_count (cache h c)"
    and x: "x \<in> extent h (c, g, i)"
  shows "vbase h \<le> x \<and> (x - vbase h) div 4096 \<in> marked (cache h c) (fst ob)"
proof -
  note pool = heap_okD(1,2)[OF ok] and d = placedD[OF p] and rok = heap_okD(4)[OF ok]
  let ?sz = "object_size (cache h c)" and ?cnt = "object_count (cache h c)"
  have "i * ?sz + ?sz = Suc i * ?sz" by simp
  also have "\<dots> \<le> ?cnt * ?sz" using i by (intro mult_right_mono) auto
  finally have le: "i * ?sz + ?sz \<le> ?cnt * ?sz" .
  have pg: "hp < r_pages (nrange h)" "fst ob < r_pages (nrange h)"
    using alloc_block_page[OF rok d(2), of hp] alloc_block_page[OF rok d(3), of "fst ob"] by (simp_all add: blk_def)
  note v = unat_va(1)[OF pool pg(2)]
  show ?thesis
  proof (cases "?sz < 1024")
    case True
    have fit: "48 + ?cnt * ?sz \<le> 4096" using c True by (simp add: cache_geo_def)
    have "unat g + 48 < 2 ^ 32" using unat_va(3)[OF pool pg(1), folded d(1)] by linarith
    then have "unat (g_objects (h_group h g)) = unat g + 48"
      unfolding d(8)[OF True] by (subst unat_add_no_overflow) simp_all
    then have "unat (g_objects (h_group h g)) = vbase h + 4096 * fst ob + 48"
      using unat_va(1)[OF pool pg(1), folded d(1)] d(7)[OF True] by (simp add: vbase_def)
    then have "vbase h + 4096 * fst ob \<le> x" "x < vbase h + 4096 * fst ob + 4096"
      using x le fit by (auto simp: extent_def obj_addr_def)
    then have "vbase h \<le> x" "(x - vbase h) div 4096 = fst ob" by (auto intro!: div_nat_eqI)
    then show ?thesis using True by (simp add: marked_def)
  next
    case False
    have "unat (g_objects (h_group h g)) = vbase h + 4096 * fst ob" unfolding d(10)[OF False] v vbase_def ..
    then have b: "vbase h + 4096 * fst ob \<le> x" "x < vbase h + 4096 * fst ob + ?cnt * ?sz"
      using x le by (auto simp: extent_def obj_addr_def)
    have "?cnt * ?sz \<le> 4096 * DIV_ROUND_UP (?cnt * ?sz) 4096" by (rule DIV_ROUND_UP_ge) simp
    with b have "x - vbase h < (fst ob + DIV_ROUND_UP (?cnt * ?sz) 4096) * 4096" by (simp add: algebra_simps)
    then have "(x - vbase h) div 4096 < fst ob + DIV_ROUND_UP (?cnt * ?sz) 4096" by (simp add: less_mult_imp_div_less)
    moreover have "fst ob \<le> (x - vbase h) div 4096" using b(1) by (subst less_eq_div_iff_mult_less_eq) auto
    ultimately show ?thesis using b(1) False by (simp add: marked_def)
  qed
qed

lemma extents_disjoint:
  assumes ok: "heap_ok h" and xy: "x \<in> slots h" "y \<in> slots h" "x \<noteq> y"
  shows "extent h x \<inter> extent h y = {}"
proof -
  obtain c g i c' g' i' where [simp]: "x = (c, g, i)" "y = (c', g', i')" by (metis surj_pair)
  have s: "c < length (mem_caches h)" "g \<in> set (groups (cache h c))" "i < object_count (cache h c)"
    "c' < length (mem_caches h)" "g' \<in> set (groups (cache h c'))" "i' < object_count (cache h c')"
    using xy by (auto simp: slots_def)
  note k = heap_okD(3)[OF ok s(1)] and k' = heap_okD(3)[OF ok s(4)]
  note geo = cache_okD(1)[OF k] cache_okD(1)[OF k']
  obtain hp ob hp' ob' where p: "placed h c g hp ob" "placed h c' g' hp' ob'"
    using cache_okD(4)[OF k s(2)] cache_okD(4)[OF k' s(5)] by blast
  show ?thesis
  proof (cases "g = g'")
    case True
    then have "c = c'" using placed_same_group[OF ok geo, of g] p by blast
    then have "i \<noteq> i'" using xy(3) True by auto
    have m: "a * k + k \<le> b * k" if "a < b" for a b k :: nat
    proof -
      have "Suc a * k \<le> b * k" using that by (intro mult_right_mono) auto
      then show ?thesis by simp
    qed
    have "i * object_size (cache h c) + object_size (cache h c) \<le> i' * object_size (cache h c)
       \<or> i' * object_size (cache h c) + object_size (cache h c) \<le> i * object_size (cache h c)"
      using m[of i i'] m[of i' i] \<open>i \<noteq> i'\<close> by (metis linorder_neqE_nat)
    then show ?thesis using True \<open>c = c'\<close> by (auto simp: extent_def obj_addr_def)
  next
    case False
    then have "ob \<noteq> ob'" using placed_unique[OF geo p] by blast
    show ?thesis
    proof (rule ccontr)
      assume "extent h x \<inter> extent h y \<noteq> {}"
      then obtain a where a: "a \<in> extent h (c, g, i)" "a \<in> extent h (c', g', i')" by auto
      have "(a - vbase h) div 4096 \<in> blk ob" "(a - vbase h) div 4096 \<in> blk ob'"
        using extent_page[OF ok geo(1) p(1) s(3) a(1)] extent_page[OF ok geo(2) p(2) s(6) a(2)] placedD(4)[OF p(1)] placedD(4)[OF p(2)] by auto
      then have "ob = ob'" using block_eq[OF heap_okD(4)[OF ok]] placedD(3)[OF p(1)] placedD(3)[OF p(2)] by blast
      with \<open>ob \<noteq> ob'\<close> show False by simp
    qed
  qed
qed



section \<open>Growing the heap\<close>

text \<open>\<open>grow h h'\<close>: blocks may have been allocated, but no page of an allocated block has a changed node.\<close>

definition grow :: "heap \<Rightarrow> heap \<Rightarrow> bool" where
  "grow h h' \<longleftrightarrow> pool_ok (h_pool h') \<and> r_start (nrange h') = r_start (nrange h) \<and> r_end (nrange h') = r_end (nrange h)
     \<and> r_pages (nrange h') = r_pages (nrange h) \<and> alloc_blocks (nrange h) \<subseteq> alloc_blocks (nrange h')
     \<and> (\<forall>b \<in> alloc_blocks (nrange h). \<forall>x \<in> blk b. node_table (nrange h') x = node_table (nrange h) x)"

lemma grow_refl: "pool_ok (h_pool h) \<Longrightarrow> h_pool h' = h_pool h \<Longrightarrow> grow h h'"
  by (simp add: grow_def)

lemma grow_trans: "grow h1 h2 \<Longrightarrow> grow h2 h3 \<Longrightarrow> grow h1 h3"
  unfolding grow_def by (auto simp del: One_nat_def)

lemma va_grow: "grow h h' \<Longrightarrow> va h' p = va h p"
  by (simp add: grow_def va_def page_addr_def)

lemma placed_grow:
  assumes gr: "grow h h'" and p: "placed h c g hp ob"
    and same: "object_size (cache h' c) = object_size (cache h c)" "object_count (cache h' c) = object_count (cache h c)"
      "g_objects (h_group h' g) = g_objects (h_group h g)"
  shows "placed h' c g hp ob"
proof -
  note d = placedD[OF p]
  have m: "marked (cache h' c) = marked (cache h c)" using same by (simp add: marked_def fun_eq_iff)
  have nd: "node_table (nrange h') hp = node_table (nrange h) hp"
    "x \<in> marked (cache h c) (fst ob) \<Longrightarrow> node_table (nrange h') x = node_table (nrange h) x" for x
    using gr d(2-4) by (force simp: grow_def blk_def)+
  have al: "(hp, 0) \<in> alloc_blocks (nrange h')" "ob \<in> alloc_blocks (nrange h')" using gr d(2,3) by (auto simp: grow_def)
  show ?thesis
    unfolding placed_def m same(1,3) va_grow[OF gr]
    using d al nd by (cases "object_size (cache h c) < 1024") (simp_all del: One_nat_def)
qed

lemma cache_ok_grow:
  assumes "cache_ok h c" "grow h h'" "cache h' c = cache h c" "\<And>g. g \<in> set (groups (cache h c)) \<Longrightarrow> h_group h' g = h_group h g"
  shows "cache_ok h' c"
proof -
  have "\<exists>hp ob. placed h' c g hp ob" if "g \<in> set (groups (cache h c))" for g
    using cache_okD(4)[OF assms(1) that] placed_grow[OF assms(2)] assms(3) assms(4)[OF that] by metis
  then show ?thesis using assms(1,3,4) by (auto simp: cache_ok_def Let_def groups_def)
qed

lemma mem_cache_page_alloc_ok:
  assumes pool: "pool_ok (h_pool h)" "unat (r_end (nrange h)) \<le> 2 ^ 31" and n: "0 < n" "n \<le> 2048"
  shows "mem_cache_page_alloc n h = Some (None, h) \<and> (\<forall>b \<in> free_blocks (nrange h). 2 ^ snd b < n) \<or>
    (\<exists>i k h'. mem_cache_page_alloc n h = Some (Some (va h i), h') \<and> n \<le> 2 ^ k \<and> (i, k) \<notin> alloc_blocks (nrange h)
      \<and> (\<forall>j < k. 2 ^ j < n) \<and> alloc_blocks (nrange h') = insert (i, k) (alloc_blocks (nrange h)) \<and> grow h h'
      \<and> (\<forall>b \<in> alloc_blocks (nrange h). blk b \<inter> blk (i, k) = {})
      \<and> mem_caches h' = mem_caches h \<and> h_group h' = h_group h \<and> large_mem_object_list h' = large_mem_object_list h
      \<and> n_group (node_table (nrange h') i) = None \<and> i + 2 ^ k \<le> r_pages (nrange h) \<and> (heap_ok h \<longrightarrow> heap_ok h'))"
proof -
  have fl: "range_of_flags 2 = Some 1" by (simp add: range_of_flags_def)
  note a = alloc_pages_ok[OF pool(1) n fl]
  show ?thesis
  proof (cases "\<exists>b \<in> free_blocks (nrange h). n \<le> 2 ^ snd b")
    case False
    then have "mem_node_alloc_pages n 2 (h_pool h) = Some (0, h_pool h)" using a by (simp only: if_False)
    then have "mem_cache_page_alloc n h = Some (None, h)" by (simp add: mem_cache_page_alloc_def)
    then show ?thesis using False by (meson not_le)
  next
    case True
    from a[unfolded if_P[OF True]] obtain i k pool' where
      r: "mem_node_alloc_pages n 2 (h_pool h) = Some (page_addr (nrange h) i, pool')" "page_addr (nrange h) i \<noteq> 0" "pool_ok pool'"
      "n \<le> 2 ^ k" "\<forall>j < k. 2 ^ j < n" "i + 2 ^ k \<le> r_pages (nrange h)"
      "\<forall>b \<in> alloc_blocks (nrange h). blk b \<inter> blk (i, k) = {} \<and> (\<forall>x \<in> blk b. node_table (pool' ! 1) x = node_table (nrange h) x)"
      "alloc_blocks (pool' ! 1) = insert (i, k) (alloc_blocks (nrange h))"
      "r_pages (pool' ! 1) = r_pages (nrange h)" "r_start (pool' ! 1) = r_start (nrange h)" "r_end (pool' ! 1) = r_end (nrange h)"
      "n_group (node_table (pool' ! 1) i) = None" by (elim exE conjE) (rule that; assumption)
    define h' where "h' = h\<lparr>h_pool := pool'\<rparr>"
    have h': "h_pool h' = pool'" "mem_caches h' = mem_caches h" "h_group h' = h_group h"
      "large_mem_object_list h' = large_mem_object_list h" by (simp_all add: h'_def)
    have run: "mem_cache_page_alloc n h = Some (Some (va h i), h')"
      using r(1,2) by (simp add: mem_cache_page_alloc_def va_def h'_def)
    have notin: "(i, k) \<notin> alloc_blocks (nrange h)" using r(7) by (force simp: blk_def)
    have gr: "grow h h'" unfolding grow_def h' using r by blast
    have "heap_ok h'" if "heap_ok h"
      unfolding heap_ok_def h' using r(3,11) pool(2) cache_ok_grow[OF heap_okD(3)[OF that] gr] h' by simp
    moreover have "\<forall>b \<in> alloc_blocks (nrange h). blk b \<inter> blk (i, k) = {}" using r(7) by blast
    moreover have "alloc_blocks (nrange h') = insert (i, k) (alloc_blocks (nrange h))"
      "n_group (node_table (nrange h') i) = None" unfolding h'(1) by (fact r(8), fact r(12))
    ultimately show ?thesis using run r(4,5,6) gr notin h'(2-4) by blast
  qed
qed


text \<open>Marking pages changes no block and no other node.\<close>

definition marks :: "heap \<Rightarrow> heap \<Rightarrow> nat set \<Rightarrow> nat \<Rightarrow> u32 \<Rightarrow> bool" where
  "marks h h' S c g \<longleftrightarrow> pool_ok (h_pool h') \<and> r_start (nrange h') = r_start (nrange h) \<and> r_end (nrange h') = r_end (nrange h)
     \<and> r_pages (nrange h') = r_pages (nrange h) \<and> alloc_blocks (nrange h') = alloc_blocks (nrange h)
     \<and> (\<forall>x. x \<notin> S \<longrightarrow> node_table (nrange h') x = node_table (nrange h) x)
     \<and> (\<forall>x \<in> S. n_cache (node_table (nrange h') x) = Some c \<and> n_group (node_table (nrange h') x) = Some g)
     \<and> mem_caches h' = mem_caches h \<and> h_group h' = h_group h \<and> large_mem_object_list h' = large_mem_object_list h"

lemma marks_trans: "marks h1 h2 S c g \<Longrightarrow> marks h2 h3 T c g \<Longrightarrow> marks h1 h3 (S \<union> T) c g"
  unfolding marks_def by (auto simp del: One_nat_def)

lemma mark_cache_group_ok:
  assumes pool: "pool_ok (h_pool h)" "unat (r_end (nrange h)) \<le> 2 ^ 31" and p: "p < r_pages (nrange h)"
  shows "\<exists>h'. mark_cache_group (va h p) c g h = Some h' \<and> marks h h' {p} c g"
proof -
  note r = range_nth[OF pool(1)]
  define R where "R = upd_node p (\<lambda>n. n\<lparr>n_cache := Some c, n_group := Some g\<rparr>) (nrange h)"
  define h' where "h' = h\<lparr>h_pool := (h_pool h)[1 := R]\<rparr>"
  have "phy_addr_to_mem_node (page_addr (nrange h) p) (h_pool h) = Some (Some (1, p))"
    using phy_addr_to_mem_node_page(1)[OF r(1), of 1 p] p by simp
  then have run: "mark_cache_group (va h p) c g h = Some h'"
    using unat_va(2)[OF pool p] by (simp add: mark_cache_group_def h'_def R_def)
  have sec: "r_sections R = r_sections (nrange h)" "r_pages R = r_pages (nrange h)"
    "n_section (node_table R x) = n_section (node_table (nrange h) x)" for x by (simp_all add: R_def)
  have blocks: "free_blocks R = free_blocks (nrange h)" "alloc_blocks R = alloc_blocks (nrange h)"
    by (simp_all add: free_blocks_def alloc_blocks_def sec)
  have "range_ok R" using r(3) unfolding range_ok_def sections_ok_def blocks sec .
  then have "pool_ok (h_pool h')" using pool_ok_update[OF pool(1), of 1 R] by (simp add: h'_def R_def)
  moreover have "nrange h' = R" using r(4) by (simp add: h'_def)
  ultimately have "marks h h' {p} c g" unfolding marks_def using blocks sec by (auto simp: h'_def) (simp_all add: R_def)
  with run show ?thesis by blast
qed

lemma va_add: "va h q + of_nat (i * 4096) = va h (q + i)"
  by (simp add: va_def page_addr_def push_bit_eq_mult algebra_simps)

lemma mark_pages_ok:
  assumes "pool_ok (h_pool h)" "unat (r_end (nrange h)) \<le> 2 ^ 31" "\<forall>i \<in> set is. q + i < r_pages (nrange h)"
  shows "\<exists>h'. mark_pages is (va h q) c g h = Some h' \<and> marks h h' ((+) q ` set is) c g"
  using assms
proof (induction "is" arbitrary: h)
  case Nil
  then show ?case by (simp add: marks_def)
next
  case (Cons i "is")
  from mark_cache_group_ok[OF Cons.prems(1,2), of "q + i" c g] Cons.prems(3)
  obtain h1 where h1: "mark_cache_group (va h (q + i)) c g h = Some h1" "marks h h1 {q + i} c g" by auto
  have v: "va h1 q = va h q" using h1(2) by (simp add: marks_def va_def page_addr_def)
  have "\<exists>h'. mark_pages is (va h1 q) c g h1 = Some h' \<and> marks h1 h' ((+) q ` set is) c g"
    by (rule Cons.IH) (use Cons.prems h1(2) in \<open>auto simp: marks_def\<close>)
  then obtain h' where h': "mark_pages is (va h q) c g h1 = Some h'" "marks h1 h' ((+) q ` set is) c g" by (auto simp: v)
  have "mark_pages (i # is) (va h q) c g h = Some h'"
    using h1(1) h'(1) by (simp add: va_add[of h q i] del: of_nat_mult)
  then show ?case using marks_trans[OF h1(2) h'(2)] by auto
qed

text \<open>A header page that has just been allocated is no group's header yet.\<close>

lemma new_group_fresh:
  assumes ok: "heap_ok h" and i: "(i, 0) \<notin> alloc_blocks (nrange h)" "i < r_pages (nrange h)" and c: "c < length (mem_caches h)"
  shows "va h i \<notin> set (groups (cache h c))"
proof
  assume "va h i \<in> set (groups (cache h c))"
  then obtain hp ob where p: "placed h c (va h i) hp ob" using cache_okD(4)[OF heap_okD(3)[OF ok c]] by blast
  have "hp < r_pages (nrange h)" using alloc_block_page[OF heap_okD(4)[OF ok] placedD(2)[OF p], of hp] by (simp add: blk_def)
  then have "i = hp" using va_inj[OF heap_okD(1,2)[OF ok] i(2)] placedD(1)[OF p] by blast
  then show False using placedD(2)[OF p] i(1) by simp
qed

lemma add_group_ok:
  assumes ok: "heap_ok h" and gr: "grow h h'" and c: "c < length (mem_caches h)"
    and ca: "mem_caches h' = (mem_caches h)[c := (cache h c)\<lparr>free_groups := g # free_groups (cache h c)\<rparr>]"
    and old: "\<And>g'. g' \<noteq> g \<Longrightarrow> h_group h' g' = h_group h g'" and fresh: "\<And>c'. c' < length (mem_caches h) \<Longrightarrow> g \<notin> set (groups (cache h c'))"
    and new: "group_ok (object_count (cache h c)) (h_group h' g)" "used (h_group h' g) = {}" "placed h' c g hp ob"
  shows "heap_ok h'" "live h' = live h" "x \<in> slots h \<Longrightarrow> x \<in> slots h' \<and> extent h' x = extent h x"
proof -
  have same: "h_group h' g' = h_group h g'" if "c' < length (mem_caches h)" "g' \<in> set (groups (cache h c'))" for c' g'
    using old fresh that by metis
  have nth: "cache h' c' = (if c' = c then (cache h c)\<lparr>free_groups := g # free_groups (cache h c)\<rparr> else cache h c')" for c'
    using c by (simp add: ca)
  have len: "length (mem_caches h') = length (mem_caches h)" by (simp add: ca)
  have "cache_ok h' c'" if c': "c' < length (mem_caches h)" for c'
  proof (cases "c' = c")
    case False
    show ?thesis by (rule cache_ok_grow[OF heap_okD(3)[OF ok c'] gr]) (use False same[OF c'] nth in auto)
  next
    case True
    note k = heap_okD(3)[OF ok c]
    have pl: "\<exists>hp ob. placed h' c g' hp ob" if "g' \<in> set (groups (cache h c))" for g'
      using cache_okD(4)[OF k that] placed_grow[OF gr, of c g'] same[OF c that] nth[of c]
      by (metis (mono_tags, lifting) mem_cache_t.simps(4) mem_cache_t.simps(6) mem_cache_t.surjective mem_cache_t.update_convs(3))
    show ?thesis unfolding True cache_ok_def Let_def nth
      using k new(1,2) exI[of "\<lambda>hp. \<exists>ob. placed h' c g hp ob", OF exI[of "\<lambda>ob. placed h' c g hp ob", OF new(3)]] pl fresh[OF c] same[OF c]
      by (auto simp: cache_ok_def Let_def groups_def cache_geo_def)
  qed
  moreover have "unat (r_end (nrange h')) \<le> 2 ^ 31" "pool_ok (h_pool h')" using gr heap_okD(2)[OF ok] by (auto simp: grow_def)
  ultimately show "heap_ok h'" by (simp add: heap_ok_def len)
  have grp: "set (groups (cache h' c')) = (if c' = c then insert g (set (groups (cache h c))) else set (groups (cache h c')))" for c'
    by (auto simp: nth groups_def)
  show "live h' = live h"
    unfolding live_def len using grp same new(2) c by (auto split: if_splits)
  show "x \<in> slots h' \<and> extent h' x = extent h x" if x: "x \<in> slots h"
  proof -
    obtain c' g' i where [simp]: "x = (c', g', i)" by (metis surj_pair)
    have "c' < length (mem_caches h)" "g' \<in> set (groups (cache h c'))" "i < object_count (cache h c')" using x by (auto simp: slots_def)
    then show ?thesis using same[of c' g'] grp[of c'] nth[of c'] by (auto simp: slots_def len extent_def obj_addr_def)
  qed
qed


text \<open>A new group: its bitmap is empty and its counters say so.\<close>

lemma empty_bitmap: "bitmap_init \<lparr>byte_length = bl, bits = replicate bl 0\<rparr> = Some \<lparr>byte_length = bl, bits = replicate bl 0\<rparr>"
  by (simp add: bitmap_init_def mem_store_def)

definition new_group :: "nat \<Rightarrow> u32 \<Rightarrow> mem_group_t \<Rightarrow> bool" where
  "new_group cnt objs gr \<longleftrightarrow> g_map gr = \<lparr>byte_length = DIV_ROUND_UP cnt 8, bits = replicate (DIV_ROUND_UP cnt 8) 0\<rparr>
     \<and> g_objects gr = objs \<and> using_count gr = 0 \<and> free_count gr = of_nat cnt"

lemma new_group_ok:
  assumes "new_group cnt objs gr" "cnt < 2 ^ 31"
  shows "group_ok cnt gr" "used gr = {}"
proof -
  have u: "used gr = {}" using assms(1) by (auto simp: used_def new_group_def bm_bit_def less_mult_imp_div_less)
  show "used gr = {}" by (rule u)
  show "group_ok cnt gr" unfolding group_ok_def u using assms
    by (auto simp: new_group_def unsigned_of_nat take_bit_nat_eq_self)
qed

lemma cache_geo_count: "cache_geo ca \<Longrightarrow> object_count ca < 2 ^ 31"
proof -
  assume g: "cache_geo ca"
  then have "object_count ca \<le> object_count ca * object_size ca" by (simp add: cache_geo_def)
  also have "\<dots> < 2 ^ 31" using g by (auto simp: cache_geo_def split: if_splits)
  finally show ?thesis .
qed

lemma mem_group_create_small:
  assumes ok: "heap_ok h" and c: "c < length (mem_caches h)" and small: "object_size (cache h c) < 1024"
  shows "mem_group_create c fl h = Some (Inl E_FAIL, h) \<and> free_blocks (nrange h) = {} \<or> (\<exists>h' g. mem_group_create c fl h = Some (Inr (), h') \<and> heap_ok h' \<and> live h' = live h
    \<and> (\<forall>x \<in> slots h. x \<in> slots h' \<and> extent h' x = extent h x)
    \<and> mem_caches h' = (mem_caches h)[c := (cache h c)\<lparr>free_groups := g # free_groups (cache h c)\<rparr>])"
proof -
  note pool = heap_okD(1,2)[OF ok] and k = heap_okD(3)[OF ok c]
  let ?cnt = "object_count (cache h c)"
  have one: "0 < (1 :: nat)" "1 \<le> (2048 :: nat)" by simp_all
  from mem_cache_page_alloc_ok[OF pool one] show ?thesis
  proof (elim disjE exE conjE)
    assume "mem_cache_page_alloc 1 h = Some (None, h)" "\<forall>b \<in> free_blocks (nrange h). 2 ^ snd b < (1 :: nat)"
    then show ?thesis by (auto simp: mem_group_create_def)
  next
    fix i l h1 assume r: "mem_cache_page_alloc 1 h = Some (Some (va h i), h1)" "(i, l) \<notin> alloc_blocks (nrange h)" "\<forall>j < l. 2 ^ j < (1 :: nat)"
      "alloc_blocks (nrange h1) = insert (i, l) (alloc_blocks (nrange h))" "grow h h1" "\<forall>b \<in> alloc_blocks (nrange h). blk b \<inter> blk (i, l) = {}"
      "mem_caches h1 = mem_caches h" "h_group h1 = h_group h" "i + 2 ^ l \<le> r_pages (nrange h)"
    have l: "l = 0" using r(3) by (metis less_irrefl not_gr_zero power_0)
    define g where "g = va h i"
    define h2 where "h2 = upd_group g (g_map_update (\<lambda>_. \<lparr>byte_length = DIV_ROUND_UP ?cnt 8, bits = replicate (DIV_ROUND_UP ?cnt 8) 0\<rparr>))
        (upd_cache c (\<lambda>ca. ca\<lparr>free_groups := g # free_groups ca\<rparr>) h1)"
    have p2: "h_pool h2 = h_pool h1" by (simp add: h2_def)
    have pk: "pool_ok (h_pool h2)" "unat (r_end (nrange h2)) \<le> 2 ^ 31" "i < r_pages (nrange h2)"
      using r(5,9) l pool(2) by (auto simp: p2 grow_def)
    have v2: "va h2 i = g" using va_grow[OF r(5)] by (simp add: va_def p2 g_def)
    from mark_cache_group_ok[OF pk, of c g] v2 obtain h3 where h3: "mark_cache_group g c g h2 = Some h3" "marks h2 h3 {i} c g" by auto
    define h' where "h' = upd_group g (\<lambda>gr. gr\<lparr>g_objects := g + 48, using_count := 0, free_count := of_nat ?cnt, g_flags := fl\<rparr>) h3"
    have "mem_group_create c fl h = Some (Inr (), h')"
      using r(1,7) h3(1) small by (simp add: mem_group_create_def mem_group_init_def empty_bitmap Let_def g_def[symmetric] h2_def[symmetric] h'_def add.assoc)
    moreover have ng: "new_group ?cnt (g + 48) (h_group h' g)" using h3(2) by (simp add: new_group_def h'_def h2_def marks_def)
    moreover have gr: "grow h h'"
    proof -
      have "x \<noteq> i" if "b \<in> alloc_blocks (nrange h)" "x \<in> blk b" for b x using r(6) that l by (force simp: blk_def)
      then show ?thesis using r(4,5) h3(2) unfolding grow_def marks_def h'_def p2 upd_heap_simps by (auto simp del: One_nat_def)
    qed
    moreover have "placed h' c g i (i, 0)"
    proof -
      have s: "object_size (cache h' c) < 1024" using small c h3(2) r(7) by (simp add: h'_def h2_def marks_def)
      have nh: "nrange h' = nrange h3" by (simp add: h'_def)
      have "n_cache (node_table (nrange h') i) = Some c" "n_group (node_table (nrange h') i) = Some g"
        unfolding nh using h3(2) by (auto simp: marks_def)
      moreover have "(i, 0) \<in> alloc_blocks (nrange h')" unfolding nh using h3(2) r(4) l p2 by (simp add: marks_def)
      moreover have "g = va h' i" using va_grow[OF gr] by (simp add: g_def)
      moreover have "g_objects (h_group h' g) = g + 48" using ng by (simp add: new_group_def)
      ultimately show ?thesis using s by (intro placed_smallI)
    qed
    moreover have "mem_caches h' = (mem_caches h)[c := (cache h c)\<lparr>free_groups := g # free_groups (cache h c)\<rparr>]"
      using h3(2) r(7) by (simp add: h'_def h2_def marks_def)
    moreover have "h_group h' g' = h_group h g'" if "g' \<noteq> g" for g' using that h3(2) r(8) by (simp add: h'_def h2_def marks_def)
    moreover have "g \<notin> set (groups (cache h c'))" if "c' < length (mem_caches h)" for c'
      unfolding g_def by (rule new_group_fresh[OF ok _ _ that]) (use r(2,9) l in auto)
    ultimately show ?thesis
      using add_group_ok[OF ok gr c, of g i "(i, 0)"] new_group_ok[OF ng cache_geo_count[OF cache_okD(1)[OF k]]] by blast
  qed
qed


text \<open>
  A group of large objects. If the pages for the objects cannot be allocated, the header
  page is given back but the group stays at the head of the cache's free list.
\<close>

lemma mem_cache_page_free_returns:
  assumes pool: "pool_ok (h_pool h)" "unat (r_end (nrange h)) \<le> 2 ^ 31" and p: "p < r_pages (nrange h)"
  shows "\<exists>e h'. mem_cache_page_free (va h p) h = Some (e, h') \<and> mem_caches h' = mem_caches h \<and> h_group h' = h_group h"
proof -
  have "phy_addr_to_mem_node (page_addr (nrange h) p) (h_pool h) = Some (Some (1, p))"
    using phy_addr_to_mem_node_page(1)[OF range_nth(1)[OF pool(1)], of 1 p] p by simp
  then have "\<exists>e q. mem_node_free_pages (page_addr (nrange h) p) (h_pool h) = Some (e, q)"
    by (cases "range_free p (nrange h)") (simp add: mem_node_free_pages_def)
  then obtain e q where f: "mem_node_free_pages (page_addr (nrange h) p) (h_pool h) = Some (e, q)" by blast
  have "mem_cache_page_free (va h p) h = Some (Inl E_FAIL, h) \<or> mem_cache_page_free (va h p) h = Some (Inr (), h\<lparr>h_pool := q\<rparr>)"
    unfolding mem_cache_page_free_def unat_va(2)[OF pool p] using f by simp
  then show ?thesis by auto
qed

lemma mem_group_create_big:
  assumes ok: "heap_ok h" and c: "c < length (mem_caches h)" and big: "\<not> object_size (cache h c) < 1024"
  shows "\<exists>e h'. mem_group_create c fl h = Some (e, h') \<and> (e = Inr () \<longrightarrow> (\<exists>g. heap_ok h' \<and> live h' = live h
    \<and> (\<forall>x \<in> slots h. x \<in> slots h' \<and> extent h' x = extent h x)
    \<and> mem_caches h' = (mem_caches h)[c := (cache h c)\<lparr>free_groups := g # free_groups (cache h c)\<rparr>]))"
proof -
  note pool = heap_okD(1,2)[OF ok] and k = heap_okD(3)[OF ok c]
  note geo = cache_okD(1)[OF k]
  let ?cnt = "object_count (cache h c)" and ?sz = "object_size (cache h c)"
  define n where "n = DIV_ROUND_UP (?cnt * ?sz) 4096"
  have n: "0 < n" "n \<le> 2048"
    using marked_self[OF geo, of 0] big geo DIV_ROUND_UP_least[of 4096 "?cnt * ?sz" 2048]
    by (auto simp: marked_def n_def cache_geo_def mult.commute)
  have one: "0 < (1 :: nat)" "1 \<le> (2048 :: nat)" by simp_all
  from mem_cache_page_alloc_ok[OF pool one] show ?thesis
  proof (elim disjE exE conjE)
    assume "mem_cache_page_alloc 1 h = Some (None, h)"
    then show ?thesis by (simp add: mem_group_create_def)
  next
    fix i l h1 assume r: "mem_cache_page_alloc 1 h = Some (Some (va h i), h1)" "(i, l) \<notin> alloc_blocks (nrange h)" "\<forall>j < l. 2 ^ j < (1 :: nat)"
      "alloc_blocks (nrange h1) = insert (i, l) (alloc_blocks (nrange h))" "grow h h1" "\<forall>b \<in> alloc_blocks (nrange h). blk b \<inter> blk (i, l) = {}"
      "mem_caches h1 = mem_caches h" "h_group h1 = h_group h" "i + 2 ^ l \<le> r_pages (nrange h)" "n_group (node_table (nrange h1) i) = None"
    have l: "l = 0" using r(3) by (metis less_irrefl not_gr_zero power_0)
    define g where "g = va h i"
    define h2 where "h2 = upd_group g (g_map_update (\<lambda>_. \<lparr>byte_length = DIV_ROUND_UP ?cnt 8, bits = replicate (DIV_ROUND_UP ?cnt 8) 0\<rparr>))
        (upd_cache c (\<lambda>ca. ca\<lparr>free_groups := g # free_groups ca\<rparr>) h1)"
    have p2: "h_pool h2 = h_pool h1" by (simp add: h2_def)
    have pk: "pool_ok (h_pool h2)" "unat (r_end (nrange h2)) \<le> 2 ^ 31" and i2: "i < r_pages (nrange h2)"
      using r(5,9) l pool(2) by (auto simp: p2 grow_def)
    have v2: "va h2 i = g" using va_grow[OF r(5)] by (simp add: va_def p2 g_def)
    have init: "mem_group_init c g fl h1 = mem_cache_page_alloc n h2 \<bind> (\<lambda>(objs, h3). case objs of None \<Rightarrow> Some (Inl E_FAIL, upd_group g (g_objects_update (\<lambda>_. 0)) h3)
        | Some o' \<Rightarrow> mark_pages [0..<n] o' c g h3 \<bind> (\<lambda>h4. Some (Inr (), upd_group g (\<lambda>gr. gr\<lparr>g_objects := o', using_count := 0,
              free_count := of_nat ?cnt, g_flags := fl\<rparr>) h4)))"
      unfolding n_def h2_def mem_group_init_def Let_def r(7) using big by (simp add: empty_bitmap)
    from mem_cache_page_alloc_ok[OF pk n] show ?thesis
    proof (elim disjE exE conjE)
      assume "mem_cache_page_alloc n h2 = Some (None, h2)"
      then have "mem_group_init c g fl h1 = Some (Inl E_FAIL, upd_group g (g_objects_update (\<lambda>_. 0)) h2)" (is "_ = Some (_, ?hf)")
        by (simp add: init)
      moreover obtain e h3 where "mem_cache_page_free g ?hf = Some (e, h3)"
        using mem_cache_page_free_returns[of ?hf i] pk i2 v2 by (auto simp: va_def)
      ultimately show ?thesis using r(1) by (simp add: mem_group_create_def g_def[symmetric])
    next
      fix j m h3 assume q: "mem_cache_page_alloc n h2 = Some (Some (va h2 j), h3)" "n \<le> 2 ^ m" "(j, m) \<notin> alloc_blocks (nrange h2)"
        "alloc_blocks (nrange h3) = insert (j, m) (alloc_blocks (nrange h2))" "grow h2 h3" "\<forall>b \<in> alloc_blocks (nrange h2). blk b \<inter> blk (j, m) = {}"
        "mem_caches h3 = mem_caches h2" "h_group h3 = h_group h2" "j + 2 ^ m \<le> r_pages (nrange h2)"
      have pk3: "pool_ok (h_pool h3)" "unat (r_end (nrange h3)) \<le> 2 ^ 31" "\<forall>x \<in> set [0..<n]. j + x < r_pages (nrange h3)"
        using q(2,5,9) pk(2) by (auto simp: grow_def)
      from mark_pages_ok[OF pk3, of c g] va_grow[OF q(5), of j]
      obtain h4 where h4: "mark_pages [0..<n] (va h2 j) c g h3 = Some h4" "marks h3 h4 ((+) j ` set [0..<n]) c g" by auto
      have S: "(+) j ` set [0..<n] = {j ..< j + n}" by (auto simp: image_iff)
      define h' where "h' = upd_group g (\<lambda>gr. gr\<lparr>g_objects := va h2 j, using_count := 0, free_count := of_nat ?cnt, g_flags := fl\<rparr>) h4"
      have run: "mem_group_create c fl h = Some (Inr (), h')"
        using r(1) q(1) h4(1) init by (simp add: mem_group_create_def g_def[symmetric] h'_def)
      have mk: "alloc_blocks (nrange h4) = alloc_blocks (nrange h3)" "\<And>x. x \<notin> {j ..< j + n} \<Longrightarrow> node_table (nrange h4) x = node_table (nrange h3) x"
        "\<And>x. x \<in> {j ..< j + n} \<Longrightarrow> n_cache (node_table (nrange h4) x) = Some c \<and> n_group (node_table (nrange h4) x) = Some g"
        "mem_caches h4 = mem_caches h3" "h_group h4 = h_group h3"
        using h4(2) unfolding marks_def S by blast+
      have nh: "nrange h' = nrange h4" by (simp add: h'_def)
      have out: "x \<notin> {j ..< j + n}" if "b \<in> alloc_blocks (nrange h2)" "x \<in> blk b" for b x
        using q(2,6) that by (force simp: blk_def)
      have gr2: "grow h2 h'"
        using q(4,5) h4(2) out mk unfolding grow_def nh by (auto simp del: One_nat_def simp: h'_def marks_def)
      have "grow h h2" using r(5) unfolding grow_def p2 .
      then have gr: "grow h h'" using gr2 by (rule grow_trans)
      have ca: "mem_caches h' = (mem_caches h)[c := (cache h c)\<lparr>free_groups := g # free_groups (cache h c)\<rparr>]"
        using mk(4) q(7) r(7) by (simp add: h'_def h2_def)
      have ng: "new_group ?cnt (va h2 j) (h_group h' g)" using mk(5) q(8) by (simp add: new_group_def h'_def h2_def)
      have i1: "(i, 0) \<in> alloc_blocks (nrange h2)" using r(4) l by (simp add: p2)
      have "placed h' c g i (j, m)"
      proof (rule placed_bigI)
        have same: "object_size (cache h' c) = ?sz" "object_count (cache h' c) = ?cnt" using ca c by simp_all
        then show "\<not> object_size (cache h' c) < 1024" using big by simp
        have mkd: "marked (cache h' c) (fst (j, m)) = {j ..< j + n}" using same big by (simp add: marked_def n_def)
        show "g = va h' i" using va_grow[OF gr] by (simp add: g_def)
        show "(i, 0) \<in> alloc_blocks (nrange h')" "(j, m) \<in> alloc_blocks (nrange h')" unfolding nh using mk(1) q(4) i1 by auto
        show "marked (cache h' c) (fst (j, m)) \<subseteq> blk (j, m)" unfolding mkd using q(2) by (auto simp: blk_def)
        show "(j, m) \<noteq> (i, 0)" using q(3) i1 by metis
        show "g_objects (h_group h' g) = va h' (fst (j, m))" using ng va_grow[OF gr2] by (simp add: new_group_def)
        have "node_table (nrange h') i = node_table (nrange h2) i" using gr2 i1 by (force simp: grow_def blk_def)
        then show "n_group (node_table (nrange h') i) = None" using r(10) p2 by simp
        show "\<forall>p \<in> marked (cache h' c) (fst (j, m)). n_cache (node_table (nrange h') p) = Some c \<and> n_group (node_table (nrange h') p) = Some g"
          unfolding mkd nh using mk(3) by blast
      qed
      moreover have "h_group h' g' = h_group h g'" if "g' \<noteq> g" for g' using that mk(5) q(8) r(8) by (simp add: h'_def h2_def)
      moreover have "g \<notin> set (groups (cache h c'))" if "c' < length (mem_caches h)" for c'
        unfolding g_def by (rule new_group_fresh[OF ok _ _ that]) (use r(2,9) l in auto)
      ultimately show ?thesis
        using run ca add_group_ok[OF ok gr c, of g i "(j, m)"] new_group_ok[OF ng cache_geo_count[OF geo]] by blast
    qed
  qed
qed



section \<open>Allocating and freeing objects\<close>

lemma obj_addr_bound:
  assumes ok: "heap_ok h" and x: "(c, g, i) \<in> slots h"
  shows "obj_addr h (c, g, i) + object_size (cache h c) \<le> 2 ^ 32"
proof -
  from x have s: "c < length (mem_caches h)" "g \<in> set (groups (cache h c))" "i < object_count (cache h c)" by (auto simp: slots_def)
  note k = heap_okD(3)[OF ok s(1)] and pool = heap_okD(1,2)[OF ok]
  obtain hp ob where p: "placed h c g hp ob" using cache_okD(4)[OF k s(2)] by blast
  have sz: "0 < object_size (cache h c)" using cache_okD(1)[OF k] by (simp add: cache_geo_def)
  let ?x = "obj_addr h (c, g, i) + object_size (cache h c) - 1"
  have "?x \<in> extent h (c, g, i)" using sz by (simp add: extent_def)
  then have "vbase h \<le> ?x \<and> (?x - vbase h) div 4096 \<in> blk ob"
    using extent_page[OF ok cache_okD(1)[OF k] p s(3)] placedD(4)[OF p] by blast
  then have "(?x - vbase h) div 4096 < r_pages (nrange h)"
    using alloc_block_page[OF heap_okD(4)[OF ok] placedD(3)[OF p]] by blast
  then have "?x - vbase h < 4096 * r_pages (nrange h)" by (simp add: div_less_iff_less_mult mult.commute)
  moreover have "unat (r_start (nrange h)) + 4096 * r_pages (nrange h) \<le> unat (r_end (nrange h))"
    using range_nth(1,2)[OF pool(1)] by (auto simp: layout_ok_def)
  ultimately show ?thesis using pool(2) sz by (simp add: vbase_def)
qed

text \<open>A group belongs to one cache.\<close>

lemma group_owner:
  assumes ok: "heap_ok h" and c': "c' < length (mem_caches h)" "g \<in> set (groups (cache h c'))"
    and c: "c < length (mem_caches h)" "g \<in> set (groups (cache h c))"
  shows "c' = c"
proof -
  note k = heap_okD(3)[OF ok c(1)] and k' = heap_okD(3)[OF ok c'(1)]
  obtain hp ob hp' ob' where "placed h c g hp ob" "placed h c' g hp' ob'"
    using cache_okD(4)[OF k c(2)] cache_okD(4)[OF k' c'(2)] by blast
  then show ?thesis using placed_same_group[OF ok cache_okD(1)[OF k] cache_okD(1)[OF k']] by blast
qed

lemma live_of_group:
  assumes "heap_ok h" "c < length (mem_caches h)" "g \<in> set (groups (cache h c))"
  shows "{(c', g', i) \<in> live h. g' = g} = (\<lambda>i. (c, g, i)) ` used (h_group h g)"
proof -
  have "c' = c" if "(c', g, i) \<in> live h" for c' i
    using that group_owner[OF assms(1) _ _ assms(2,3), of c'] by (simp add: live_def)
  moreover have "(c, g, i) \<in> live h \<longleftrightarrow> i \<in> used (h_group h g)" for i using assms(2,3) by (simp add: live_def)
  ultimately show ?thesis by blast
qed

text \<open>
  Moving a group between the lists of its cache and changing its bitmap keeps the
  invariant if the group ends on the list its fill level asks for.
\<close>

lemma regroup_ok:
  assumes ok: "heap_ok h" and c: "c < length (mem_caches h)" and g: "g \<in> set (groups (cache h c))"
    and pool: "h_pool h' = h_pool h" and caches: "mem_caches h' = (mem_caches h)[c := ca']"
    and ca: "object_size ca' = object_size (cache h c)" "object_count ca' = object_count (cache h c)"
      "mset (groups ca') = mset (groups (cache h c))"
      "set (full_groups ca') - {g} = set (full_groups (cache h c)) - {g}"
      "set (partial_groups ca') - {g} = set (partial_groups (cache h c)) - {g}"
      "set (free_groups ca') - {g} = set (free_groups (cache h c)) - {g}"
    and other: "\<And>g'. g' \<noteq> g \<Longrightarrow> h_group h' g' = h_group h g'"
    and grp: "group_ok (object_count (cache h c)) (h_group h' g)" "g_objects (h_group h' g) = g_objects (h_group h g)"
    and fill: "g \<in> set (full_groups ca') \<Longrightarrow> card (used (h_group h' g)) = object_count (cache h c)"
      "g \<in> set (partial_groups ca') \<Longrightarrow> 0 < card (used (h_group h' g)) \<and> card (used (h_group h' g)) < object_count (cache h c)"
      "g \<in> set (free_groups ca') \<Longrightarrow> card (used (h_group h' g)) = 0"
  shows "heap_ok h'" "slots h' = slots h" "\<And>x. extent h' x = extent h x"
    "live h' = {(c', g', i) \<in> live h. g' \<noteq> g} \<union> (\<lambda>i. (c, g, i)) ` used (h_group h' g)"
proof -
  note k = heap_okD(3)[OF ok c] and pl = heap_okD(1,2)[OF ok]
  have gr: "grow h h'" by (rule grow_refl[OF pl(1) pool])
  have nth: "cache h' c' = (if c' = c then ca' else cache h c')" for c' using c by (simp add: caches)
  have len: "length (mem_caches h') = length (mem_caches h)" by (simp add: caches)
  have set_eq: "set (groups ca') = set (groups (cache h c))" using ca(3) by (rule mset_eq_setD)
  note only = group_owner[OF ok _ _ c g]
  have "cache_ok h' c'" if c': "c' < length (mem_caches h)" for c'
  proof (cases "c' = c")
    case False
    have "h_group h' g' = h_group h g'" if "g' \<in> set (groups (cache h c'))" for g'
      using only[OF c'] False that by (intro other) auto
    then show ?thesis using False nth by (intro cache_ok_grow[OF heap_okD(3)[OF ok c'] gr]) simp_all
  next
    case True
    have pls: "\<exists>hp ob. placed h' c g' hp ob" if g': "g' \<in> set (groups ca')" for g'
    proof -
      obtain hp ob where "placed h c g' hp ob" using g' cache_okD(4)[OF k, of g'] set_eq by blast
      then have "placed h' c g' hp ob" using ca(1,2) other[of g'] grp(2) nth[of c] by (intro placed_grow[OF gr]) (cases "g' = g"; simp)+
      then show ?thesis by blast
    qed
    have d: "distinct (groups ca')" using cache_okD(2)[OF k] ca(3) by (metis mset_eq_imp_distinct_iff)
    have gok: "group_ok (object_count ca') (h_group h' g')" if "g' \<in> set (groups ca')" for g'
      using that cache_okD(3)[OF k, of g'] set_eq grp(1) other[of g'] ca(2) by (cases "g' = g") auto
    have geo: "cache_geo ca'" using cache_okD(1)[OF k] unfolding cache_geo_def ca(1,2) .
    have full: "card (used (h_group h' g')) = object_count ca'" if "g' \<in> set (full_groups ca')" for g'
      using that cache_okD(5)[OF k, of g'] fill(1) other[of g'] ca(2,4) by (cases "g' = g") auto
    have part: "0 < card (used (h_group h' g')) \<and> card (used (h_group h' g')) < object_count ca'" if "g' \<in> set (partial_groups ca')" for g'
    proof (cases "g' = g")
      case False
      then have "g' \<in> set (partial_groups (cache h c))" using that ca(5) by blast
      from cache_okD(6)[OF k this] show ?thesis using other[OF False] ca(2) by simp
    qed (use fill(2) that ca(2) in auto)
    have fre: "card (used (h_group h' g')) = 0" if "g' \<in> set (free_groups ca')" for g'
    proof (cases "g' = g")
      case False
      then have "g' \<in> set (free_groups (cache h c))" using that ca(6) by blast
      from cache_okD(7)[OF k this] show ?thesis using other[OF False] by simp
    qed (use fill(3) that in auto)
    have "cache h' c = ca'" using nth by simp
    then show ?thesis unfolding True cache_ok_def Let_def using geo d gok pls full part fre by simp
  qed
  then show "heap_ok h'" using pl by (simp add: heap_ok_def len pool)
  have grp_set: "set (groups (cache h' c')) = set (groups (cache h c'))" "object_count (cache h' c') = object_count (cache h c')"
    "object_size (cache h' c') = object_size (cache h c')" for c' using set_eq ca(1,2) by (auto simp: nth)
  show "slots h' = slots h" unfolding slots_def len grp_set ..
  have obj: "g_objects (h_group h' g') = g_objects (h_group h g')" for g' using other[of g'] grp(2) by (cases "g' = g") simp_all
  show "extent h' x = extent h x" for x by (cases x) (simp add: extent_def obj_addr_def grp_set obj)
  show "live h' = {(c', g', i) \<in> live h. g' \<noteq> g} \<union> (\<lambda>i. (c, g, i)) ` used (h_group h' g)"
  proof -
    have "(c', g', i) \<in> live h' \<longleftrightarrow> (c', g', i) \<in> {(c', g', i) \<in> live h. g' \<noteq> g} \<union> (\<lambda>i. (c, g, i)) ` used (h_group h' g)" for c' g' i
      using other[of g'] only[of c'] c g by (cases "g' = g") (auto simp: live_def len grp_set)
    then show ?thesis by auto
  qed
qed


text \<open>Allocation when the cache has a group with a free object.\<close>

lemma alloc_from_group:
  assumes ok: "heap_ok h" and c: "c < length (mem_caches h)" and pick: "pick_group c h = Some (g, h1)"
  shows "\<exists>i a h'. mem_cache_do_alloc c g h1 = Some (Some a, h') \<and> heap_ok h' \<and> (c, g, i) \<in> slots h \<and> (c, g, i) \<notin> live h
    \<and> live h' = insert (c, g, i) (live h) \<and> slots h' = slots h \<and> (\<forall>x. extent h' x = extent h x) \<and> unat a = obj_addr h' (c, g, i)"
proof -
  note k = heap_okD(3)[OF ok c]
  note geo = cache_okD(1)[OF k]
  let ?ca = "cache h c" and ?cnt = "object_count (cache h c)"
  define ca1 where "ca1 = cache h1 c"
  have h1: "h_pool h1 = h_pool h" "h_group h1 = h_group h" "mem_caches h1 = (mem_caches h)[c := ca1]"
    "object_size ca1 = object_size ?ca" "object_count ca1 = ?cnt" "full_groups ca1 = full_groups ?ca"
    "mset (partial_groups ca1 @ free_groups ca1) = mset (partial_groups ?ca @ free_groups ?ca)"
    "set (partial_groups ca1) - {g} = set (partial_groups ?ca) - {g}" "set (free_groups ca1) - {g} = set (free_groups ?ca) - {g}"
    "g \<in> set (partial_groups ca1)" "g \<in> set (groups ?ca)" "g \<notin> set (full_groups ?ca)" "card (used (h_group h g)) < ?cnt"
    "distinct (partial_groups ca1)" "g \<notin> set (free_groups ca1)"
    using pick c cache_okD(2,6,7)[OF k] geo
    by (auto simp: pick_group_def ca1_def groups_def cache_geo_def split: list.splits)
  have gok: "group_ok ?cnt (h_group h1 g)" using cache_okD(3)[OF k h1(11)] h1(2) by simp
  have c1: "cache h1 c = ca1" by (simp add: ca1_def)
  from mem_cache_do_alloc_ok[OF gok cache_geo_count[OF geo], of c] h1(2,13) obtain i h' where
    r: "mem_cache_do_alloc c g h1 = Some (Some (g_objects (h_group h g) + of_nat (i * object_size ca1)), h')" "i < ?cnt"
      "i \<notin> used (h_group h g)" "used (h_group h' g) = insert i (used (h_group h g))" "group_ok ?cnt (h_group h' g)"
      "g_objects (h_group h' g) = g_objects (h_group h g)" "\<forall>g'. g' \<noteq> g \<longrightarrow> h_group h' g' = h_group h g'" "h_pool h' = h_pool h1"
      "mem_caches h' = (if card (used (h_group h g)) + 1 = ?cnt
         then (mem_caches h1)[c := (group_unlink g ca1)\<lparr>full_groups := full_groups (group_unlink g ca1) @ [g]\<rparr>] else mem_caches h1)"
    unfolding h1(2) c1 by blast
  define ca' where "ca' = (if card (used (h_group h g)) + 1 = ?cnt
      then (group_unlink g ca1)\<lparr>full_groups := full_groups (group_unlink g ca1) @ [g]\<rparr> else ca1)"
  have ca': "mem_caches h' = (mem_caches h)[c := ca']" unfolding r(9) ca'_def h1(3) by simp
  have card': "card (used (h_group h' g)) = card (used (h_group h g)) + 1" unfolding r(4) using r(3) by simp
  have "g \<in># mset (partial_groups ?ca) + mset (free_groups ?ca)" using h1(11,12) by (auto simp: groups_def)
  then have ms: "mset (groups ca') = mset (groups ?ca)"
    using h1(6,7,10,12,15) by (auto simp: ca'_def groups_def group_unlink_def remove1_idem)
  have sets: "object_size ca' = object_size ?ca" "object_count ca' = ?cnt"
    "set (full_groups ca') - {g} = set (full_groups ?ca) - {g}" "set (partial_groups ca') - {g} = set (partial_groups ?ca) - {g}"
    "set (free_groups ca') - {g} = set (free_groups ?ca) - {g}" and notfree: "g \<notin> set (free_groups ca')"
  proof -
    have u: "set (partial_groups (group_unlink g ca1)) = set (partial_groups ca1) - {g}" "free_groups (group_unlink g ca1) = free_groups ca1"
      "full_groups (group_unlink g ca1) = full_groups ?ca" "object_size (group_unlink g ca1) = object_size ?ca"
      "object_count (group_unlink g ca1) = ?cnt"
      using h1(14,15,12) by (simp_all add: group_unlink_def remove1_idem h1(4-6))
    show "object_size ca' = object_size ?ca" "object_count ca' = ?cnt" using u(4,5) h1(4,5) by (simp_all add: ca'_def)
    show "set (full_groups ca') - {g} = set (full_groups ?ca) - {g}" using u(3) by (simp add: ca'_def h1(6))
    have "set (partial_groups ca') - {g} = set (partial_groups ca1) - {g}" by (simp add: ca'_def u(1))
    then show "set (partial_groups ca') - {g} = set (partial_groups ?ca) - {g}" using h1(8) by (rule trans)
    have f: "free_groups ca' = free_groups ca1" by (simp add: ca'_def u(2))
    show "set (free_groups ca') - {g} = set (free_groups ?ca) - {g}" unfolding f by (fact h1(9))
    show "g \<notin> set (free_groups ca')" unfolding f by (fact h1(15))
  qed
  have fill: "g \<in> set (full_groups ca') \<Longrightarrow> card (used (h_group h' g)) = ?cnt"
    "g \<in> set (partial_groups ca') \<Longrightarrow> 0 < card (used (h_group h' g)) \<and> card (used (h_group h' g)) < ?cnt"
    using h1(6,12-14) card' by (auto simp: ca'_def group_unlink_def set_remove1_eq split: if_splits)
  have same: "h_pool h' = h_pool h" "\<And>g'. g' \<noteq> g \<Longrightarrow> h_group h' g' = h_group h g'" using r(7,8) h1(1) by auto
  have res: "heap_ok h'" "slots h' = slots h" "\<And>x. extent h' x = extent h x"
    "live h' = {(c', g', i) \<in> live h. g' \<noteq> g} \<union> (\<lambda>i. (c, g, i)) ` used (h_group h' g)"
    by (rule regroup_ok[OF ok c h1(11) same(1) ca' sets(1,2) ms sets(3-5)]; use same(2) r(5,6) fill notfree in blast)+
  have lv: "live h' = insert (c, g, i) (live h)"
  proof -
    have "live h = {(c', g', i) \<in> live h. g' \<noteq> g} \<union> {(c', g', i) \<in> live h. g' = g}" by auto
    then have "live h = {(c', g', i) \<in> live h. g' \<noteq> g} \<union> (\<lambda>i. (c, g, i)) ` used (h_group h g)"
      unfolding live_of_group[OF ok c h1(11)] .
    then show ?thesis unfolding res(4) r(4) by blast
  qed
  have sl: "(c, g, i) \<in> slots h" using c h1(11) r(2) by (simp add: slots_def)
  have "unat (g_objects (h_group h g) + of_nat (i * object_size ca1)) = obj_addr h' (c, g, i)"
  proof -
    have b: "obj_addr h' (c, g, i) + object_size (cache h' c) \<le> 2 ^ 32" using obj_addr_bound[OF res(1)] sl res(2) by simp
    have o: "obj_addr h' (c, g, i) = unat (g_objects (h_group h g)) + i * object_size ca1" "object_size (cache h' c) = object_size ca1"
      using r(6) c by (simp_all add: obj_addr_def ca' ca'_def group_unlink_def)
    have "0 < object_size ca1" using geo h1(4) by (simp add: cache_geo_def)
    then have lt: "unat (g_objects (h_group h g)) + i * object_size ca1 < 2 ^ 32" using b o by simp
    then have "unat (of_nat (i * object_size ca1) :: u32) = i * object_size ca1"
      unfolding unsigned_of_nat by (simp add: take_bit_nat_eq_self del: of_nat_mult)
    then show ?thesis using lt o(1) by (subst unat_add_no_overflow) simp_all
  qed
  then show ?thesis using r(1,3) res lv sl by (auto simp: live_def simp del: of_nat_mult)
qed


text \<open>
  Allocation from a cache, with the group creation and the retry. The only result that is not
  covered is the failure of a cache of large objects.
\<close>

lemma mem_cache_alloc_object_ok:
  assumes ok: "heap_ok h" and c: "c < length (mem_caches h)"
  shows "\<exists>res h'. mem_cache_alloc_object c h = Some (res, h') \<and> (case res of
      Some a \<Rightarrow> heap_ok h' \<and> (\<exists>g i. (c, g, i) \<notin> live h \<and> live h' = insert (c, g, i) (live h) \<and> unat a = obj_addr h' (c, g, i)
        \<and> (\<forall>x \<in> live h. extent h' x = extent h x \<and> extent h' x \<inter> extent h' (c, g, i) = {}))
        \<and> map object_size (mem_caches h') = map object_size (mem_caches h)
    | None \<Rightarrow> object_size (cache h c) < 1024 \<longrightarrow> h' = h \<and> free_blocks (nrange h) = {})"
proof -
  have via: "\<exists>res h'. mem_cache_alloc_object c h1 = Some (res, h') \<and> (case res of
      Some a \<Rightarrow> heap_ok h' \<and> (\<exists>g i. (c, g, i) \<notin> live h \<and> live h' = insert (c, g, i) (live h) \<and> unat a = obj_addr h' (c, g, i)
        \<and> (\<forall>x \<in> live h. extent h' x = extent h x \<and> extent h' x \<inter> extent h' (c, g, i) = {}))
        \<and> map object_size (mem_caches h') = map object_size (mem_caches h)
    | None \<Rightarrow> object_size (cache h c) < 1024 \<longrightarrow> h' = h \<and> free_blocks (nrange h) = {})"
    if h1: "heap_ok h1" "live h1 = live h" "\<forall>x \<in> slots h. x \<in> slots h1 \<and> extent h1 x = extent h x" "c < length (mem_caches h1)"
      "map object_size (mem_caches h1) = map object_size (mem_caches h)" and pk: "pick_group c h1 = Some (g, h2)" for h1 g h2
  proof -
    from alloc_from_group[OF h1(1,4) pk] obtain i a h' where r: "mem_cache_do_alloc c g h2 = Some (Some a, h')" "heap_ok h'"
      "(c, g, i) \<in> slots h1" "(c, g, i) \<notin> live h1" "live h' = insert (c, g, i) (live h1)" "slots h' = slots h1"
      "\<forall>x. extent h' x = extent h1 x" "unat a = obj_addr h' (c, g, i)" by blast
    have run: "mem_cache_alloc_object c h1 = Some (Some a, h')"
      using pk r(1) by (simp add: mem_cache_alloc_object.simps[of c h1])
    have ex: "extent h' x = extent h x \<and> extent h' x \<inter> extent h' (c, g, i) = {}" if "x \<in> live h" for x
    proof -
      have sx: "x \<in> slots h" using live_slots[OF ok] that by blast
      then have "x \<in> slots h'" "x \<noteq> (c, g, i)" using h1(2,3) r(4,6) that by auto
      then have "extent h' x \<inter> extent h' (c, g, i) = {}" using r(3,6) by (intro extents_disjoint[OF r(2)]) simp_all
      moreover have "extent h' x = extent h x" using r(7) h1(3) sx by metis
      ultimately show ?thesis by simp
    qed
    have "map object_size (mem_caches h') = map object_size (mem_caches h1)"
    proof -
      have "object_size (cache h2 c) = object_size (cache h1 c)" "map object_size (mem_caches h2) = map object_size (mem_caches h1)"
        using pk h1(4) by (auto simp: pick_group_def map_update split: list.splits)
          (metis list_update_id map_update nth_map)
      moreover have "map object_size (mem_caches h') = map object_size (mem_caches h2)"
        using r(1) unfolding mem_cache_do_alloc_def Let_def
        by (auto simp: bind_eq_Some_conv map_update group_unlink_def split: if_splits) (metis list_update_id map_update nth_map)
      ultimately show ?thesis by simp
    qed
    then have "heap_ok h' \<and> (\<exists>g i. (c, g, i) \<notin> live h \<and> live h' = insert (c, g, i) (live h) \<and> unat a = obj_addr h' (c, g, i)
        \<and> (\<forall>x \<in> live h. extent h' x = extent h x \<and> extent h' x \<inter> extent h' (c, g, i) = {}))
        \<and> map object_size (mem_caches h') = map object_size (mem_caches h)"
      using r(2,4,5,8) ex h1(2,5) by metis
    then show ?thesis using run by (intro exI[of _ "Some a"] exI[of _ h']) simp
  qed
  show ?thesis
  proof (cases "pick_group c h")
    case (Some gh)
    then show ?thesis using via[of h "fst gh" "snd gh"] ok c by simp
  next
    case None
    have none: "partial_groups (cache h c) = []" using None by (auto simp: pick_group_def split: list.splits)
    have step: "mem_cache_alloc_object c h = mem_group_create c 0 h \<bind> (\<lambda>(e, h1). if e \<noteq> Inr () then Some (None, h1) else mem_cache_alloc_object c h1)"
      using None by (simp add: mem_cache_alloc_object.simps[of c h])
    have succ: ?thesis if cr: "mem_group_create c 0 h = Some (Inr (), h1)" and h1: "heap_ok h1" "live h1 = live h"
        "\<forall>x \<in> slots h. x \<in> slots h1 \<and> extent h1 x = extent h x"
        "mem_caches h1 = (mem_caches h)[c := (cache h c)\<lparr>free_groups := g # free_groups (cache h c)\<rparr>]" for h1 g
    proof -
      have "cache h1 c = (cache h c)\<lparr>free_groups := g # free_groups (cache h c)\<rparr>" using h1(4) c by simp
      then obtain h2 where "pick_group c h1 = Some (g, h2)" using none by (simp add: pick_group_def)
      moreover have "map object_size (mem_caches h1) = map object_size (mem_caches h)"
        unfolding h1(4) using c by (simp add: map_update) (metis list_update_id nth_map)
      ultimately show ?thesis using via[of h1 g h2] h1 c step cr by simp
    qed
    show ?thesis
    proof (cases "object_size (cache h c) < 1024")
      case True
      from mem_group_create_small[OF ok c True, of 0] show ?thesis
      proof (elim disjE exE conjE)
        assume "mem_group_create c 0 h = Some (Inl E_FAIL, h)" "free_blocks (nrange h) = {}"
        then show ?thesis by (simp add: step)
      qed (rule succ)
    next
      case False
      from mem_group_create_big[OF ok c False, of 0] obtain e h1 where e: "mem_group_create c 0 h = Some (e, h1)"
        "e = Inr () \<Longrightarrow> \<exists>g. heap_ok h1 \<and> live h1 = live h \<and> (\<forall>x \<in> slots h. x \<in> slots h1 \<and> extent h1 x = extent h x)
          \<and> mem_caches h1 = (mem_caches h)[c := (cache h c)\<lparr>free_groups := g # free_groups (cache h c)\<rparr>]" by blast
      show ?thesis
      proof (cases "e = Inr ()")
        case True
        with e obtain g where "heap_ok h1" "live h1 = live h" "\<forall>x \<in> slots h. x \<in> slots h1 \<and> extent h1 x = extent h x"
          "mem_caches h1 = (mem_caches h)[c := (cache h c)\<lparr>free_groups := g # free_groups (cache h c)\<rparr>]" by blast
        then show ?thesis using e(1) True by (intro succ) simp_all
      qed (use False e(1) step in simp)
    qed
  qed
qed


text \<open>Looking up the node of an object finds the mark of its group.\<close>

lemma object_node:
  assumes ok: "heap_ok h" and x: "(c, g, i) \<in> slots h" and a: "unat a = obj_addr h (c, g, i)"
  shows "\<exists>p. phy_addr_to_mem_node (a - 0x80000000) (h_pool h) = Some (Some (1, p))
    \<and> n_cache (node_table (nrange h) p) = Some c \<and> n_group (node_table (nrange h) p) = Some g"
proof -
  from x have s: "c < length (mem_caches h)" "g \<in> set (groups (cache h c))" "i < object_count (cache h c)" by (auto simp: slots_def)
  note k = heap_okD(3)[OF ok s(1)] and pool = heap_okD(1,2)[OF ok]
  obtain hp ob where pl: "placed h c g hp ob" using cache_okD(4)[OF k s(2)] by blast
  have sz: "0 < object_size (cache h c)" using cache_okD(1)[OF k] by (simp add: cache_geo_def)
  define p where "p = (unat a - vbase h) div 4096"
  define off where "off = (unat a - vbase h) mod 4096"
  have "unat a \<in> extent h (c, g, i)" using sz a by (simp add: extent_def)
  from extent_page[OF ok cache_okD(1)[OF k] pl s(3) this] have v: "vbase h \<le> unat a" "p \<in> marked (cache h c) (fst ob)" by (auto simp: p_def)
  then have pp: "p < r_pages (nrange h)"
    using alloc_block_page[OF heap_okD(4)[OF ok] placedD(3)[OF pl]] placedD(4)[OF pl] by blast
  have ua: "unat a = vbase h + 4096 * p + off" using v(1) by (simp add: p_def off_def)
  have o: "off < 4096" "unat (of_nat off :: u32) = off" by (simp_all add: off_def unsigned_of_nat take_bit_nat_eq_self)
  have va: "unat (va h p) = vbase h + 4096 * p" "unat (va h p) + 4096 \<le> 2 ^ 32" using unat_va[OF pool pp] by (simp_all add: vbase_def)
  have "unat (va h p + of_nat off) = unat a" using va o ua by (subst unat_add_no_overflow) simp_all
  then have "a = va h p + of_nat off" by (simp add: word_unat_eq_iff)
  then have "a - 0x80000000 = page_addr (nrange h) p + of_nat off" by (simp add: va_def)
  then have "phy_addr_to_mem_node (a - 0x80000000) (h_pool h) = Some (Some (1, p))"
    using phy_addr_in_page[OF range_nth(1)[OF pool(1)] _ pp o(1)] by simp
  then show ?thesis using placedD(5,6)[OF pl v(2)] by blast
qed

lemma mset_remove_everywhere:
  assumes "distinct (xs @ ys @ zs)" "g \<in> set (xs @ ys @ zs)"
  shows "mset (remove1 g xs @ remove1 g ys @ remove1 g zs) + {#g#} = mset (xs @ ys @ zs)"
proof -
  have "remove1 g xs @ remove1 g ys @ remove1 g zs = remove1 g (xs @ ys @ zs)"
    using assms(1) by (auto simp: remove1_append remove1_idem disjoint_iff)
  then have "mset (remove1 g xs @ remove1 g ys @ remove1 g zs) = mset (xs @ ys @ zs) - {#g#}" by (simp only: mset_remove1)
  then show ?thesis using assms(2) by (metis insert_DiffM2 set_mset_mset)
qed

lemma mem_cache_do_free_ok:
  assumes ok: "heap_ok h" and x: "(c, g, i) \<in> live h" and a: "unat a = obj_addr h (c, g, i)"
  shows "\<exists>h'. mem_cache_do_free c a h = Some h' \<and> heap_ok h' \<and> live h' = live h - {(c, g, i)} \<and> (\<forall>y. extent h' y = extent h y)"
proof -
  from x have s: "c < length (mem_caches h)" "g \<in> set (groups (cache h c))" "i \<in> used (h_group h g)" by (auto simp: live_def)
  note k = heap_okD(3)[OF ok s(1)]
  let ?ca = "cache h c" and ?cnt = "object_count (cache h c)" and ?sz = "object_size (cache h c)" and ?gr = "h_group h g"
  let ?m = "g_map ?gr"
  note geo = cache_okD(1)[OF k] and gok = cache_okD(3)[OF k s(2)]
  have sz: "0 < ?sz" using geo by (simp add: cache_geo_def)
  have sl: "(c, g, i) \<in> slots h" using x live_slots[OF ok] by blast
  then have icnt: "i < ?cnt" by (simp add: slots_def)
  from object_node[OF ok sl a] obtain p where p: "phy_addr_to_mem_node (a - 0x80000000) (h_pool h) = Some (Some (1, p))"
    "n_group (node_table (nrange h) p) = Some g" by blast
  have idx: "sint ((a - g_objects ?gr) div of_nat ?sz) = int i"
  proof -
    have lt: "unat (g_objects ?gr) + i * ?sz < 2 ^ 32" using obj_addr_bound[OF ok sl] sz by (simp add: obj_addr_def)
    have "unat (a - g_objects ?gr) = i * ?sz" using a by (subst unat_sub) (simp_all add: obj_addr_def word_le_nat_alt)
    moreover have "?sz \<le> 8388608"
    proof -
      have "?sz \<le> ?cnt * ?sz" using icnt by simp
      also have "\<dots> \<le> 8388608" using geo by (auto simp: cache_geo_def split: if_splits)
      finally show ?thesis .
    qed
    then have "unat (of_nat ?sz :: u32) = ?sz" by (simp add: unsigned_of_nat take_bit_nat_eq_self)
    ultimately have u: "unat ((a - g_objects ?gr) div of_nat ?sz) = i" using sz by (simp add: unat_div)
    have "i < 2 ^ 31" using icnt cache_geo_count[OF geo] by simp
    moreover from this have "(a - g_objects ?gr) div of_nat ?sz = of_nat i"
      unfolding word_unat_eq_iff u by (simp add: unsigned_of_nat take_bit_nat_eq_self)
    ultimately show ?thesis by (simp add: signed_of_nat signed_take_bit_int_eq_self)
  qed
  have i8: "i < 8 * byte_length ?m" "i div 8 < length (bits ?m)" using s(3) gok by (auto simp: used_def group_ok_def)
  from bitmap_set_bits[OF i8(2), of 0] obtain m where m: "bitmap_set ?m i 0 = Some m" "byte_length m = byte_length ?m"
    "length (bits m) = length (bits ?m)" "\<And>j. bm_bit m j = (if j = i then False else bm_bit ?m j)" by auto
  define gr' where "gr' = ?gr\<lparr>g_map := m, using_count := using_count ?gr - 1, free_count := free_count ?gr + 1\<rparr>"
  have u': "used gr' = used ?gr - {i}" using m by (auto simp: used_def gr'_def)
  have card: "card (used ?gr) = card (used gr') + 1" unfolding u' using card_Suc_Diff1[OF finite_used s(3)] by simp
  have uc: "unat (using_count gr') = card (used gr')"
    using gok card by (simp add: gr'_def group_ok_def Memcache.unat_minus_one)
  have fc: "unat (free_count gr') = unat (free_count ?gr) + 1"
    using gok cache_geo_count[OF geo] by (simp add: gr'_def group_ok_def unat_plus_one)
  have gok': "group_ok ?cnt gr'" unfolding group_ok_def using gok m u' uc fc card by (auto simp: gr'_def group_ok_def)
  have z: "using_count gr' = 0 \<longleftrightarrow> card (used gr') = 0" using uc by (metis unat_eq_zero)
  have "using_count gr' = using_count ?gr - 1" by (simp add: gr'_def)
  then have z1: "using_count ?gr = 1 \<longleftrightarrow> used gr' = {}" using z by auto
  have f: "using_count ?gr = of_nat ?cnt \<longleftrightarrow> card (used ?gr) = ?cnt"
  proof -
    have "unat (of_nat ?cnt :: u32) = ?cnt" using cache_geo_count[OF geo] by (simp add: unsigned_of_nat take_bit_nat_eq_self)
    then show ?thesis using gok by (simp add: group_ok_def word_unat_eq_iff)
  qed
  let ?unl = "group_unlink g ?ca"
  define ca' where "ca' = (if card (used gr') = 0 then ?unl\<lparr>free_groups := free_groups ?unl @ [g]\<rparr>
      else if card (used ?gr) = ?cnt then ?unl\<lparr>partial_groups := partial_groups ?unl @ [g]\<rparr> else ?ca)"
  define h' where "h' = upd_cache c (\<lambda>_. ca') (upd_group g (\<lambda>_. gr') h)"
  have run: "mem_cache_do_free c a h = Some h'"
  proof -
    have h1: "upd_group g (\<lambda>gr. gr\<lparr>g_map := m, using_count := using_count gr - 1, free_count := free_count gr + 1\<rparr>) h = upd_group g (\<lambda>_. gr') h"
      by (simp add: upd_group_def gr'_def)
    have idem: "upd_cache c (\<lambda>_. cache h c) (upd_group g (\<lambda>_. gr') h) = upd_group g (\<lambda>_. gr') h"
      by (simp add: upd_cache_def upd_group_def)
    have upd: "upd_cache c F (upd_group g (\<lambda>_. gr') h) = upd_cache c (\<lambda>_. F (cache h c)) (upd_group g (\<lambda>_. gr') h)" for F
      by (simp add: upd_cache_def upd_group_def)
    have "\<not> (int i < 0 \<or> int i > int (byte_length ?m * 8))" using i8(1) by simp
    then show ?thesis unfolding mem_cache_do_free_def p(1) Let_def
      using p(2) m(1) idx by (simp add: h1 f z1 upd_heap_simps(3) h'_def ca'_def idem upd[of "\<lambda>ca. (group_unlink g ca)\<lparr>free_groups := free_groups (group_unlink g ca) @ [g]\<rparr>"]
          upd[of "\<lambda>ca. (group_unlink g ca)\<lparr>partial_groups := partial_groups (group_unlink g ca) @ [g]\<rparr>"])
  qed
  note dist = cache_okD(2)[OF k]
  have lists: "mset (groups ca') = mset (groups ?ca)" "object_size ca' = ?sz" "object_count ca' = ?cnt"
    "set (full_groups ca') - {g} = set (full_groups ?ca) - {g}" "set (partial_groups ca') - {g} = set (partial_groups ?ca) - {g}"
    "set (free_groups ca') - {g} = set (free_groups ?ca) - {g}"
  proof -
    have d: "distinct (full_groups ?ca)" "distinct (partial_groups ?ca)" "distinct (free_groups ?ca)" using dist by (auto simp: groups_def)
    have one: "mset (full_groups ?unl @ partial_groups ?unl @ free_groups ?unl) + {#g#} = mset (groups ?ca)"
      using mset_remove_everywhere[of "full_groups ?ca" "partial_groups ?ca" "free_groups ?ca" g] s(2) dist
      by (simp add: groups_def group_unlink_def)
    then show "mset (groups ca') = mset (groups ?ca)" by (auto simp: ca'_def groups_def ac_simps)
    show "object_size ca' = ?sz" "object_count ca' = ?cnt" by (simp_all add: ca'_def group_unlink_def)
    have un: "set (full_groups ?unl) = set (full_groups ?ca) - {g}" "set (partial_groups ?unl) = set (partial_groups ?ca) - {g}"
      "set (free_groups ?unl) = set (free_groups ?ca) - {g}" using d by (simp_all add: group_unlink_def)
    show "set (full_groups ca') - {g} = set (full_groups ?ca) - {g}" "set (partial_groups ca') - {g} = set (partial_groups ?ca) - {g}"
      "set (free_groups ca') - {g} = set (free_groups ?ca) - {g}" by (simp_all add: ca'_def un)
  qed
  have le: "card (used ?gr) \<le> ?cnt" using gok by (simp add: group_ok_def)
  have fill: "g \<notin> set (full_groups ca')" "g \<in> set (partial_groups ca') \<Longrightarrow> 0 < card (used gr') \<and> card (used gr') < ?cnt"
    "g \<in> set (free_groups ca') \<Longrightarrow> card (used gr') = 0"
    using dist cache_okD(5-7)[OF k, of g] card le
    by (auto simp: ca'_def group_unlink_def groups_def split: if_splits)
  have h'g: "h_group h' g = gr'" "\<And>g'. g' \<noteq> g \<Longrightarrow> h_group h' g' = h_group h g'" "h_pool h' = h_pool h"
    "mem_caches h' = (mem_caches h)[c := ca']" by (simp_all add: h'_def)
  have res: "heap_ok h'" "\<And>x. extent h' x = extent h x"
    "live h' = {(c', g', i) \<in> live h. g' \<noteq> g} \<union> (\<lambda>i. (c, g, i)) ` used (h_group h' g)"
    by (rule regroup_ok[OF ok s(1,2) h'g(3,4) lists(2,3,1,4-6)];
        use h'g(1,2) gok' fill in \<open>auto simp: gr'_def[THEN arg_cong, of g_objects]\<close>)+
  have "live h = {(c', g', i) \<in> live h. g' \<noteq> g} \<union> {(c', g', i) \<in> live h. g' = g}" by auto
  then have "live h = {(c', g', i) \<in> live h. g' \<noteq> g} \<union> (\<lambda>i. (c, g, i)) ` used ?gr" unfolding live_of_group[OF ok s(1,2)] .
  then have "live h' = live h - {(c, g, i)}" unfolding res(3) h'g(1) u' by blast
  then show ?thesis using run res by blast
qed


section \<open>The heap interface is correct\<close>

text \<open>After \<^verbatim>\<open>mem_caches_init\<close> over a sound page allocator the heap is sound and empty.\<close>

definition heap_init :: "mem_pool \<Rightarrow> (u32 \<Rightarrow> mem_group_t) \<Rightarrow> heap" where
  "heap_init pool gs = \<lparr>h_pool = pool, mem_caches = map projr mem_caches_build, h_group = gs, large_mem_object_list = []\<rparr>"

lemma heap_init_sizes: "map object_size (mem_caches (heap_init pool gs)) = cache_size"
  by (simp add: heap_init_def mem_caches_build_def cache_size_def mem_cache_init_def)

lemma heap_init_ok:
  assumes "pool_ok pool" "unat (r_end (pool ! 1)) \<le> 2 ^ 31"
  shows "heap_ok (heap_init pool gs)" "live (heap_init pool gs) = {}"
proof -
  have all: "\<forall>ca \<in> set (mem_caches (heap_init pool gs)). cache_geo ca \<and> groups ca = []"
    by (simp add: heap_init_def mem_caches_build_def cache_size_def mem_cache_init_def cache_geo_def groups_def)
  have "cache_ok (heap_init pool gs) c" if "c < length (mem_caches (heap_init pool gs))" for c
    using bspec[OF all nth_mem[OF that]] by (auto simp: cache_ok_def groups_def Let_def)
  then show "heap_ok (heap_init pool gs)" using assms by (simp add: heap_ok_def heap_init_def)
  show "live (heap_init pool gs) = {}" using all by (auto simp: live_def dest: nth_mem)
qed

lemma cache_for_ok:
  assumes "sz \<le> 2097152"
  shows "\<exists>c < 17. cache_for sz = Some c \<and> sz \<le> cache_size ! c \<and> (\<forall>d < c. cache_size ! d < sz)"
proof (cases "cache_for sz")
  case None
  then have "\<not> sz \<le> 2097152" unfolding cache_for_def scan_index_None by (rule bspec) (simp add: cache_size_def)
  then show ?thesis using assms by simp
next
  case (Some c)
  then have "c < length cache_size" "sz \<le> cache_size ! c" "\<forall>d < c. \<not> sz \<le> cache_size ! d"
    unfolding cache_for_def by (auto dest: scan_index_Some)
  moreover have "length cache_size = 17" by (simp add: cache_size_def)
  ultimately show ?thesis using Some by force
qed

lemma obj_addr_pos:
  assumes ok: "heap_ok h" and s: "(c, g, i) \<in> slots h"
  shows "0 < obj_addr h (c, g, i)"
proof -
  have c: "c < length (mem_caches h)" "g \<in> set (groups (cache h c))" "i < object_count (cache h c)" using s by (auto simp: slots_def)
  note k = heap_okD(3)[OF ok c(1)]
  obtain hp ob where pl: "placed h c g hp ob" using cache_okD(4)[OF k c(2)] by blast
  have "obj_addr h (c, g, i) \<in> extent h (c, g, i)" using cache_okD(1)[OF k] by (simp add: extent_def cache_geo_def)
  from extent_page[OF ok cache_okD(1)[OF k] pl c(3) this] show ?thesis by (simp add: vbase_def)
qed

text \<open>C3: On a sound heap \<^verbatim>\<open>mem_alloc\<close> of at most 2 MB always returns. A pointer it returns is the start of
  an object that was not in use and is at least as long as the request; the object is the only change to
  the set of objects in use, it overlaps none of them, none of them moves, and the heap stays sound.
  For requests of up to 512 bytes a null pointer means that not one page is free, and nothing changed.\<close>

theorem mem_alloc_correct:
  assumes ok: "heap_ok h" and sizes: "map object_size (mem_caches h) = cache_size" and sz: "sz \<le> 2097152"
  shows "\<exists>res h'. mem_alloc sz h = Some (res, h') \<and> (case res of
      Some a \<Rightarrow> heap_ok h' \<and> map object_size (mem_caches h') = cache_size
        \<and> (\<exists>x. x \<notin> live h \<and> live h' = insert x (live h) \<and> unat a = obj_addr h' x \<and> {unat a ..< unat a + sz} \<subseteq> extent h' x
            \<and> (\<forall>y \<in> live h. extent h' y = extent h y \<and> extent h' y \<inter> extent h' x = {}))
    | None \<Rightarrow> sz \<le> 512 \<longrightarrow> h' = h \<and> free_blocks (nrange h) = {})"
proof -
  from cache_for_ok[OF sz] obtain c where c: "c < 17" "cache_for sz = Some c" "sz \<le> cache_size ! c" "\<forall>d < c. cache_size ! d < sz" by blast
  have len: "length (mem_caches h) = 17" using arg_cong[OF sizes, of length] by (simp add: cache_size_def)
  have os: "object_size (cache h c) = cache_size ! c" using sizes c(1) len nth_map[of c "mem_caches h" object_size] by simp
  have small: "object_size (cache h c) < 1024" if "sz \<le> 512"
  proof -
    have "\<not> 4 < c" using c(4) that by (auto simp: cache_size_def dest!: spec[of _ 4])
    then have "c \<in> {0, 1, 2, 3, 4}" by auto
    then show ?thesis unfolding os by (auto simp: cache_size_def)
  qed
  have run: "mem_alloc sz h = mem_cache_alloc_object c h" using sz c(2) by (simp add: mem_alloc_def mem_alloc_cached_def)
  obtain res h' where r: "mem_cache_alloc_object c h = Some (res, h')" "case res of
      Some a \<Rightarrow> heap_ok h' \<and> (\<exists>g i. (c, g, i) \<notin> live h \<and> live h' = insert (c, g, i) (live h) \<and> unat a = obj_addr h' (c, g, i)
        \<and> (\<forall>x \<in> live h. extent h' x = extent h x \<and> extent h' x \<inter> extent h' (c, g, i) = {}))
        \<and> map object_size (mem_caches h') = map object_size (mem_caches h)
    | None \<Rightarrow> object_size (cache h c) < 1024 \<longrightarrow> h' = h \<and> free_blocks (nrange h) = {}"
    using mem_cache_alloc_object_ok[OF ok, of c] c(1) len by auto
  show ?thesis
  proof (cases res)
    case None
    then show ?thesis using r run small by simp
  next
    case (Some a)
    with r(2) obtain g i where x: "heap_ok h'" "(c, g, i) \<notin> live h" "live h' = insert (c, g, i) (live h)" "unat a = obj_addr h' (c, g, i)"
      "\<forall>x \<in> live h. extent h' x = extent h x \<and> extent h' x \<inter> extent h' (c, g, i) = {}"
      "map object_size (mem_caches h') = map object_size (mem_caches h)" by auto
    have "object_size (cache h' c) = cache_size ! c" using x(6) sizes c(1) len nth_map[of c "mem_caches h'" object_size]
      by (metis length_map)
    then have "{unat a ..< unat a + sz} \<subseteq> extent h' (c, g, i)" using x(4) c(3) by (auto simp: extent_def)
    then have "\<exists>x. x \<notin> live h \<and> live h' = insert x (live h) \<and> unat a = obj_addr h' x \<and> {unat a ..< unat a + sz} \<subseteq> extent h' x
            \<and> (\<forall>y \<in> live h. extent h' y = extent h y \<and> extent h' y \<inter> extent h' x = {})" using x(2-5) by blast
    then show ?thesis using Some r(1) run x(1,6) sizes by simp
  qed
qed

definition demo_heap :: heap where
  "demo_heap = heap_init demo_pool (\<lambda>_. \<lparr>g_map = \<lparr>byte_length = 0, bits = []\<rparr>, g_objects = 0, using_count = 0, free_count = 0, g_flags = 0\<rparr>)"

lemma demo_heap_ok: "heap_ok demo_heap" "live demo_heap = {}" "map object_size (mem_caches demo_heap) = cache_size"
  "free_blocks (nrange demo_heap) \<noteq> {}"
proof -
  have "unat (r_end (demo_pool ! 1)) \<le> 2 ^ 31" by (simp add: demo_pool_def demo_range_def)
  then show "heap_ok demo_heap" "live demo_heap = {}" unfolding demo_heap_def using heap_init_ok[OF demo_pool_ok] by blast+
  show "map object_size (mem_caches demo_heap) = cache_size" by (simp add: demo_heap_def heap_init_sizes)
  show "free_blocks (nrange demo_heap) \<noteq> {}" by (simp add: demo_heap_def heap_init_def demo_pool_def demo_blocks)
qed

theorem mem_alloc_correct_witness:
  "\<exists>a h' x. mem_alloc 100 demo_heap = Some (Some a, h') \<and> heap_ok h' \<and> live h' = {x} \<and> unat a = obj_addr h' x"
proof -
  have "(100 :: nat) \<le> 2097152" by simp
  from mem_alloc_correct[OF demo_heap_ok(1,3) this] show ?thesis using demo_heap_ok(2,4)
    by (auto split: option.splits)
qed

text \<open>C8: \<^verbatim>\<open>mem_free\<close> of the address of an object in use gives back exactly that object, which may be found
  through the page the address lies on alone: every other object stays in use where it was and the heap stays sound.\<close>

theorem mem_free_correct:
  assumes ok: "heap_ok h" and x: "x \<in> live h" and a: "unat a = obj_addr h x"
  shows "\<exists>h'. mem_free a h = Some h' \<and> heap_ok h' \<and> live h' = live h - {x} \<and> (\<forall>y. extent h' y = extent h y)"
proof -
  obtain c g i where [simp]: "x = (c, g, i)" by (cases x)
  have sl: "(c, g, i) \<in> slots h" using x live_slots[OF ok] by auto
  from object_node[OF ok sl] a obtain p where p: "phy_addr_to_mem_node (a - 0x80000000) (h_pool h) = Some (Some (1, p))"
    "n_cache (node_table (nrange h) p) = Some c" by auto
  have "a \<noteq> 0" using obj_addr_pos[OF ok sl] a by auto
  then have "mem_free a h = mem_cache_do_free c a h" using p
    by (simp add: mem_free.simps[of a h] node_cache_def mem_cache_free_object_def)
  then show ?thesis using mem_cache_do_free_ok[OF ok, of c g i a] x a by simp
qed

theorem mem_free_correct_witness:
  "\<exists>h a x h'. heap_ok h \<and> live h = {x} \<and> unat a = obj_addr h x \<and> mem_free a h = Some h' \<and> live h' = {}"
proof -
  have z: "(0 :: nat) < length (mem_caches demo_heap)" "object_size (cache demo_heap 0) < 1024"
    by (simp_all add: demo_heap_def heap_init_def mem_caches_build_def cache_size_def mem_cache_init_def)
  obtain res :: "u32 option" and h where r: "case res of Some a \<Rightarrow> heap_ok h \<and> (\<exists>g i. (0, g, i) \<notin> live demo_heap \<and> live h = insert (0, g, i) (live demo_heap)
        \<and> unat a = obj_addr h (0, g, i)
        \<and> (\<forall>x \<in> live demo_heap. extent h x = extent demo_heap x \<and> extent h x \<inter> extent h (0, g, i) = {}))
        \<and> map object_size (mem_caches h) = map object_size (mem_caches demo_heap)
    | None \<Rightarrow> object_size (cache demo_heap 0) < 1024 \<longrightarrow> h = demo_heap \<and> free_blocks (nrange demo_heap) = {}"
    using mem_cache_alloc_object_ok[OF demo_heap_ok(1) z(1)] by (elim exE conjE) (rule that; assumption)
  then obtain a where "res = Some a" using z(2) demo_heap_ok(4) by (cases res) simp_all
  with r obtain g i where h: "heap_ok h" "live h = {(0, g, i)}" "unat a = obj_addr h (0, g, i)" unfolding demo_heap_ok(2) by auto
  from mem_free_correct[OF h(1) _ h(3)] h(2) have "\<exists>h'. mem_free a h = Some h' \<and> live h' = {}" by auto
  then show ?thesis using h by blast
qed

end
