(* ===== verification/Klist.thy ===== *)
theory Klist
  imports OS_Prelude
begin

text \<open>
  The intrusive doubly linked lists of the kernel at the level of pointers:
  \<^verbatim>\<open>src/include/xbook/list.h\<close>. A store maps addresses to \<^verbatim>\<open>list_t\<close> nodes and every operation is
  the sequence of assignments of the C text. The refinement lemma of this theory shows that on
  stores in which every list head is the head of a ring, the operations act as the
  operations on lists that the other theories use in their place: \<^verbatim>\<open>list_add_tail\<close> appends,
  \<^verbatim>\<open>list_del\<close> removes the node from whichever list it is on.
\<close>

section \<open>Operations\<close>

record list_t =
  lprev :: u32
  lnext :: u32

type_synonym store = "u32 \<Rightarrow> list_t"

definition set_next :: "u32 \<Rightarrow> u32 \<Rightarrow> store \<Rightarrow> store" where
  "set_next p v st = st(p := (st p)\<lparr>lnext := v\<rparr>)"

definition set_prev :: "u32 \<Rightarrow> u32 \<Rightarrow> store \<Rightarrow> store" where
  "set_prev p v st = st(p := (st p)\<lparr>lprev := v\<rparr>)"

definition list_init :: "u32 \<Rightarrow> store \<Rightarrow> store" where
  "list_init l st = set_prev l l (set_next l l st)"

definition list_add_between :: "u32 \<Rightarrow> u32 \<Rightarrow> u32 \<Rightarrow> store \<Rightarrow> store" where
  "list_add_between new p n st =
     (let st1 = set_prev n new st; st2 = set_next new n st1; st3 = set_prev new p st2 in set_next p new st3)"

definition list_add :: "u32 \<Rightarrow> u32 \<Rightarrow> store \<Rightarrow> store" where
  "list_add new head st = list_add_between new head (lnext (st head)) st"

definition list_add_before :: "u32 \<Rightarrow> u32 \<Rightarrow> store \<Rightarrow> store" where
  "list_add_before new node st =
     (let st1 = set_next (lprev (st node)) new st; st2 = set_prev new (lprev (st1 node)) st1; st3 = set_next new node st2
      in set_prev node new st3)"

definition list_add_after :: "u32 \<Rightarrow> u32 \<Rightarrow> store \<Rightarrow> store" where
  "list_add_after new node st =
     (let st1 = set_prev (lnext (st node)) new st; st2 = set_prev new node st1; st3 = set_next new (lnext (st2 node)) st2
      in set_next node new st3)"

definition list_add_tail :: "u32 \<Rightarrow> u32 \<Rightarrow> store \<Rightarrow> store" where
  "list_add_tail new head st = list_add_between new (lprev (st head)) head st"

definition list_del_between :: "u32 \<Rightarrow> u32 \<Rightarrow> store \<Rightarrow> store" where
  "list_del_between p n st = set_next p n (set_prev n p st)"

definition list_del_node :: "u32 \<Rightarrow> store \<Rightarrow> store" where
  "list_del_node node st = list_del_between (lprev (st node)) (lnext (st node)) st"

definition list_del :: "u32 \<Rightarrow> store \<Rightarrow> store" where
  "list_del node st = set_next node 0 (set_prev node 0 (list_del_node node st))"

definition list_del_init :: "u32 \<Rightarrow> store \<Rightarrow> store" where
  "list_del_init node st = list_init node (list_del_node node st)"

definition list_replace :: "u32 \<Rightarrow> u32 \<Rightarrow> store \<Rightarrow> store" where
  "list_replace old new st =
     (let st1 = set_next new (lnext (st old)) st; st2 = set_prev (lnext (st1 new)) new st1;
          st3 = set_prev new (lprev (st2 old)) st2
      in set_next (lprev (st3 new)) new st3)"

definition list_replace_init :: "u32 \<Rightarrow> u32 \<Rightarrow> store \<Rightarrow> store" where
  "list_replace_init old new st = list_init old (list_replace old new st)"

definition list_move :: "u32 \<Rightarrow> u32 \<Rightarrow> store \<Rightarrow> store" where
  "list_move node head st = list_add node head (list_del_node node st)"

definition list_move_tail :: "u32 \<Rightarrow> u32 \<Rightarrow> store \<Rightarrow> store" where
  "list_move_tail node head st = list_add_tail node head (list_del_node node st)"

definition list_is_first :: "u32 \<Rightarrow> u32 \<Rightarrow> store \<Rightarrow> bool" where
  "list_is_first node head st \<longleftrightarrow> lprev (st node) = head"

definition list_is_last :: "u32 \<Rightarrow> u32 \<Rightarrow> store \<Rightarrow> bool" where
  "list_is_last node head st \<longleftrightarrow> lnext (st node) = head"

definition list_empty :: "u32 \<Rightarrow> store \<Rightarrow> bool" where
  "list_empty head st \<longleftrightarrow> lnext (st head) = head"

text \<open>\<open>off\<close> is the offset of the node in its owner (\<^verbatim>\<open>container_of\<close>).\<close>

definition list_owner :: "u32 \<Rightarrow> u32 \<Rightarrow> u32" where
  "list_owner off p = p - off"

definition list_first_owner :: "u32 \<Rightarrow> u32 \<Rightarrow> store \<Rightarrow> u32" where
  "list_first_owner off head st = list_owner off (lnext (st head))"

definition list_last_owner :: "u32 \<Rightarrow> u32 \<Rightarrow> store \<Rightarrow> u32" where
  "list_last_owner off head st = list_owner off (lprev (st head))"

definition list_first_owner_or_null :: "u32 \<Rightarrow> u32 \<Rightarrow> store \<Rightarrow> u32" where
  "list_first_owner_or_null off head st =
     (let pos = lnext (st head) in if pos \<noteq> head then list_owner off pos else 0)"

definition list_last_owner_or_null :: "u32 \<Rightarrow> u32 \<Rightarrow> store \<Rightarrow> u32" where
  "list_last_owner_or_null off head st =
     (let pos = lprev (st head) in if pos \<noteq> head then list_owner off pos else 0)"

text \<open>The loops; \<open>None\<close> is a loop that does not end.\<close>

partial_function (option) find_loop :: "store \<Rightarrow> u32 \<Rightarrow> u32 \<Rightarrow> u32 \<Rightarrow> bool option" where
  "find_loop st l head pos =
     (if pos = head then Some False else if pos = l then Some True else find_loop st l head (lnext (st pos)))"

declare find_loop.simps [code]

definition list_find :: "u32 \<Rightarrow> u32 \<Rightarrow> store \<Rightarrow> bool option" where
  "list_find l head st = find_loop st l head (lnext (st head))"

partial_function (option) length_loop :: "store \<Rightarrow> u32 \<Rightarrow> u32 \<Rightarrow> nat \<Rightarrow> nat option" where
  "length_loop st head pos n = (if pos = head then Some n else length_loop st head (lnext (st pos)) (n + 1))"

declare length_loop.simps [code]

definition list_length :: "u32 \<Rightarrow> store \<Rightarrow> nat option" where
  "list_length head st = length_loop st head (lnext (st head)) 0"

text \<open>\<^verbatim>\<open>list_for_each_safe\<close> and \<^verbatim>\<open>list_for_each_owner_safe\<close>: the successor is read before the body runs.\<close>

partial_function (option) each_safe_loop :: "u32 \<Rightarrow> (u32 \<Rightarrow> store \<Rightarrow> store) \<Rightarrow> u32 \<Rightarrow> u32 \<Rightarrow> store \<Rightarrow> store option" where
  "each_safe_loop head body pos n st =
     (if pos = head then Some st else (let st' = body pos st in each_safe_loop head body n (lnext (st' n)) st'))"

declare each_safe_loop.simps [code]

definition list_for_each_safe :: "u32 \<Rightarrow> (u32 \<Rightarrow> store \<Rightarrow> store) \<Rightarrow> store \<Rightarrow> store option" where
  "list_for_each_safe head body st =
     (let pos = lnext (st head) in each_safe_loop head body pos (lnext (st pos)) st)"


section \<open>Rings\<close>

definition link :: "store \<Rightarrow> u32 \<Rightarrow> u32 \<Rightarrow> bool" where
  "link st a b \<longleftrightarrow> lnext (st a) = b \<and> lprev (st b) = a"

text \<open>\<open>ring st h xs\<close>: from the head \<open>h\<close> the links lead through \<open>xs\<close> back to \<open>h\<close>, in both directions.\<close>

definition ring :: "store \<Rightarrow> u32 \<Rightarrow> u32 list \<Rightarrow> bool" where
  "ring st h xs \<longleftrightarrow> distinct (h # xs) \<and> successively (link st) (h # xs @ [h])"

lemma set_fields [simp]:
  "lnext (set_next p v st q) = (if q = p then v else lnext (st q))" "lprev (set_next p v st q) = lprev (st q)"
  "lprev (set_prev p v st q) = (if q = p then v else lprev (st q))" "lnext (set_prev p v st q) = lnext (st q)"
  by (simp_all add: set_next_def set_prev_def)

lemma chain_cong:
  assumes "\<And>a. a \<in> set (butlast A) \<Longrightarrow> lnext (st' a) = lnext (st a)" "\<And>b. b \<in> set (tl A) \<Longrightarrow> lprev (st' b) = lprev (st b)"
  shows "successively (link st') A = successively (link st) A"
  using assms
proof (induction A rule: induct_list012)
  case (3 a b A)
  have "successively (link st') (b # A) = successively (link st) (b # A)"
    by (rule "3.IH"(2)) (use 3 in \<open>auto split: if_splits dest: list.set_sel(2)\<close>)
  then show ?case using "3.prems" by (simp add: link_def)
qed simp_all

text \<open>A ring, cut after the nodes \<open>xs\<close>, is the link between the two ends and the two chains.\<close>

lemma ring_cut:
  "ring st h (xs @ ys) \<longleftrightarrow> distinct (h # xs @ ys) \<and> successively (link st) (h # xs) \<and> successively (link st) (ys @ [h])
     \<and> link st (last (h # xs)) (hd (ys @ [h]))"
  unfolding ring_def using successively_append_iff[of "link st" "h # xs" "ys @ [h]"] by auto

lemma chains_cong:
  assumes d: "distinct (h # xs @ ys)"
    and st: "\<And>a. a \<in> insert h (set (xs @ ys)) \<Longrightarrow> a \<noteq> last (h # xs) \<Longrightarrow> lnext (st' a) = lnext (st a)"
      "\<And>b. b \<in> insert h (set (xs @ ys)) \<Longrightarrow> b \<noteq> hd (ys @ [h]) \<Longrightarrow> lprev (st' b) = lprev (st b)"
  shows "successively (link st') (h # xs) = successively (link st) (h # xs)"
    "successively (link st') (ys @ [h]) = successively (link st) (ys @ [h])"
proof -
  have l: "last (h # xs) \<notin> set (butlast (h # xs))" "last (h # xs) \<notin> set ys"
    using d not_distinct_conv_prefix[of "h # xs"] by (cases xs rule: rev_cases; auto)+
  have q: "hd (ys @ [h]) \<notin> set (tl (ys @ [h]))" "hd (ys @ [h]) \<notin> set xs" "set (tl (ys @ [h])) \<subseteq> insert h (set ys)"
    using d by (cases ys; auto)+
  show "successively (link st') (h # xs) = successively (link st) (h # xs)"
    by (rule chain_cong) (use l(1) q(2) in \<open>auto intro!: st dest: in_set_butlastD split: if_splits\<close>)
  show "successively (link st') (ys @ [h]) = successively (link st) (ys @ [h])"
    by (rule chain_cong) (use l(2) q(1,3) in \<open>auto intro!: st\<close>)
qed

lemma last_in: "last (h # xs) \<in> insert h (set xs)" "hd (ys @ [h]) \<in> insert h (set ys)"
  by (cases xs rule: rev_cases; simp) (cases ys; simp)

lemma ring_nbrs:
  "ring st h xs \<Longrightarrow> lnext (st h) = hd (xs @ [h]) \<and> lprev (st h) = last (h # xs)"
  "ring st h (xs @ n # ys) \<Longrightarrow> lprev (st n) = last (h # xs) \<and> lnext (st n) = hd (ys @ [h])"
proof -
  assume r: "ring st h xs"
  have "link st h (hd (xs @ [h]))" using r ring_cut[of st h "[]" xs] by simp
  moreover have "link st (last (h # xs)) h" using r ring_cut[of st h xs "[]"] by simp
  ultimately show "lnext (st h) = hd (xs @ [h]) \<and> lprev (st h) = last (h # xs)" by (simp add: link_def)
next
  assume r: "ring st h (xs @ n # ys)"
  have "link st (last (h # xs)) n" using r ring_cut[of st h xs "n # ys"] by simp
  moreover have "link st n (hd (ys @ [h]))" using r ring_cut[of st h "xs @ [n]" ys] by simp
  ultimately show "lprev (st n) = last (h # xs) \<and> lnext (st n) = hd (ys @ [h])" by (simp add: link_def)
qed

text \<open>Linking a new node between two neighbours, and cutting out a node.\<close>

lemma ring_link:
  assumes r: "ring st h (xs @ ys)" and n: "n \<notin> set (h # xs @ ys)"
    and st: "link st' (last (h # xs)) n" "link st' n (hd (ys @ [h]))"
      "\<And>a. a \<in> insert h (set (xs @ ys)) \<Longrightarrow> a \<noteq> last (h # xs) \<Longrightarrow> lnext (st' a) = lnext (st a)"
      "\<And>b. b \<in> insert h (set (xs @ ys)) \<Longrightarrow> b \<noteq> hd (ys @ [h]) \<Longrightarrow> lprev (st' b) = lprev (st b)"
  shows "ring st' h (xs @ n # ys)"
proof -
  have d: "distinct (h # xs @ ys)" using r by (simp add: ring_def)
  note c = chains_cong[OF d st(3,4)]
  have "successively (link st') (n # ys @ [h])" using c(2) r st(2) unfolding ring_cut by (cases ys) auto
  then show ?thesis using c(1) r n st(1) unfolding ring_cut by auto
qed

lemma ring_unlink:
  assumes r: "ring st h (xs @ n # ys)"
    and st: "link st' (last (h # xs)) (hd (ys @ [h]))"
      "\<And>a. a \<in> insert h (set (xs @ ys)) \<Longrightarrow> a \<noteq> last (h # xs) \<Longrightarrow> lnext (st' a) = lnext (st a)"
      "\<And>b. b \<in> insert h (set (xs @ ys)) \<Longrightarrow> b \<noteq> hd (ys @ [h]) \<Longrightarrow> lprev (st' b) = lprev (st b)"
  shows "ring st' h (xs @ ys)"
proof -
  have d: "distinct (h # xs @ ys)" using r by (auto simp: ring_def)
  note c = chains_cong[OF d st(2,3)]
  have "successively (link st) (ys @ [h])" using r ring_cut[of st h "xs @ [n]" ys] by simp
  moreover have "successively (link st) (h # xs)" using r ring_cut[of st h xs "n # ys"] by simp
  ultimately show ?thesis using c d st(1) unfolding ring_cut by auto
qed


section \<open>All the lists of a store\<close>

definition nodes :: "u32 set \<Rightarrow> (u32 \<Rightarrow> u32 list) \<Rightarrow> u32 set" where
  "nodes H L = (\<Union>h \<in> H. set (h # L h))"

definition lists_ok :: "store \<Rightarrow> u32 set \<Rightarrow> (u32 \<Rightarrow> u32 list) \<Rightarrow> bool" where
  "lists_ok st H L \<longleftrightarrow> (\<forall>h \<in> H. ring st h (L h)) \<and> (\<forall>g \<in> H. \<forall>h \<in> H. g \<noteq> h \<longrightarrow> set (g # L g) \<inter> set (h # L h) = {})"

lemma ring_frame:
  assumes "ring st h xs" "\<And>a. a \<in> set (h # xs) \<Longrightarrow> st' a = st a"
  shows "ring st' h xs"
proof -
  have "successively (link st') (h # xs @ [h]) = successively (link st) (h # xs @ [h])"
    by (rule chain_cong) (use assms(2) in \<open>auto simp: butlast_append dest: in_set_butlastD\<close>)
  then show ?thesis using assms(1) by (simp add: ring_def)
qed

text \<open>A change to one list, perhaps with the new node \<open>n\<close>, leaves the others alone.\<close>

lemma lists_ok_one:
  assumes ok: "lists_ok st H L" and h: "h \<in> H" and r: "ring st' h zs" and sub: "set zs \<subseteq> insert n (set (L h))"
    and n: "n \<in> set (L h) \<or> n \<notin> nodes H L" and fr: "\<And>a. a \<notin> set (h # L h) \<Longrightarrow> a \<noteq> n \<Longrightarrow> st' a = st a"
  shows "lists_ok st' H (L(h := zs))"
proof -
  have dis: "set (g # L g) \<inter> insert n (set (h # L h)) = {}" if "g \<in> H" "g \<noteq> h" for g
  proof -
    have "set (g # L g) \<inter> set (h # L h) = {}" using ok h that unfolding lists_ok_def by blast
    moreover have "n \<notin> set (g # L g)" using n calculation that(1) unfolding nodes_def by auto
    ultimately show ?thesis by auto
  qed
  have "ring st' g (L g)" if "g \<in> H" "g \<noteq> h" for g
  proof (rule ring_frame)
    show "ring st g (L g)" using ok that(1) by (simp add: lists_ok_def)
    show "st' a = st a" if "a \<in> set (g # L g)" for a using fr[of a] dis[OF \<open>g \<in> H\<close> \<open>g \<noteq> h\<close>] that by blast
  qed
  moreover have "set (g # L g) \<inter> set (h # zs) = {}" if "g \<in> H" "g \<noteq> h" for g
    using dis[OF that] sub by auto
  moreover have "set (g # L g) \<inter> set (k # L k) = {}" if "g \<in> H" "k \<in> H" "g \<noteq> k" for g k using ok that unfolding lists_ok_def by blast
  ultimately show ?thesis using r unfolding lists_ok_def by (metis fun_upd_apply inf_commute)
qed

lemma lists_okD: "lists_ok st H L \<Longrightarrow> h \<in> H \<Longrightarrow> ring st h (L h)"
  "lists_ok st H L \<Longrightarrow> g \<in> H \<Longrightarrow> h \<in> H \<Longrightarrow> a \<in> set (L g) \<Longrightarrow> a \<in> set (h # L h) \<Longrightarrow> g = h"
  by (auto simp: lists_ok_def)


section \<open>Operations on lists\<close>

text \<open>The calls that change lists, and what they do to the lists.\<close>

datatype lop = Add u32 u32 | Add_tail u32 u32 | Add_before u32 u32 | Add_after u32 u32 | Del u32 | Del_init u32
  | Replace u32 u32 | Replace_init u32 u32 | Move u32 u32 | Move_tail u32 u32

fun run_op :: "lop \<Rightarrow> store \<Rightarrow> store" where
  "run_op (Add n h) st = list_add n h st"
| "run_op (Add_tail n h) st = list_add_tail n h st"
| "run_op (Add_before n x) st = list_add_before n x st"
| "run_op (Add_after n x) st = list_add_after n x st"
| "run_op (Del x) st = list_del x st"
| "run_op (Del_init x) st = list_del_init x st"
| "run_op (Replace x n) st = list_replace x n st"
| "run_op (Replace_init x n) st = list_replace_init x n st"
| "run_op (Move x h) st = list_move x h st"
| "run_op (Move_tail x h) st = list_move_tail x h st"

definition subst :: "u32 \<Rightarrow> u32 list \<Rightarrow> u32 list \<Rightarrow> u32 list" where
  "subst x r = concat \<circ> map (\<lambda>y. if y = x then r else [y])"

fun abs_op :: "lop \<Rightarrow> (u32 \<Rightarrow> u32 list) \<Rightarrow> u32 \<Rightarrow> u32 list" where
  "abs_op (Add n h) L = L(h := n # L h)"
| "abs_op (Add_tail n h) L = L(h := L h @ [n])"
| "abs_op (Add_before n x) L = subst x [n, x] \<circ> L"
| "abs_op (Add_after n x) L = subst x [x, n] \<circ> L"
| "abs_op (Del x) L = subst x [] \<circ> L"
| "abs_op (Del_init x) L = subst x [] \<circ> L"
| "abs_op (Replace x n) L = subst x [n] \<circ> L"
| "abs_op (Replace_init x n) L = subst x [n] \<circ> L"
| "abs_op (Move x h) L = (let M = subst x [] \<circ> L in M(h := x # M h))"
| "abs_op (Move_tail x h) L = (let M = subst x [] \<circ> L in M(h := M h @ [x]))"

definition linked :: "u32 \<Rightarrow> u32 set \<Rightarrow> (u32 \<Rightarrow> u32 list) \<Rightarrow> bool" where
  "linked x H L \<longleftrightarrow> (\<exists>h \<in> H. x \<in> set (L h))"

fun op_ok :: "lop \<Rightarrow> u32 set \<Rightarrow> (u32 \<Rightarrow> u32 list) \<Rightarrow> bool" where
  "op_ok (Add n h) H L = (h \<in> H \<and> n \<notin> nodes H L)"
| "op_ok (Add_tail n h) H L = (h \<in> H \<and> n \<notin> nodes H L)"
| "op_ok (Add_before n x) H L = (linked x H L \<and> n \<notin> nodes H L)"
| "op_ok (Add_after n x) H L = (linked x H L \<and> n \<notin> nodes H L)"
| "op_ok (Del x) H L = linked x H L"
| "op_ok (Del_init x) H L = linked x H L"
| "op_ok (Replace x n) H L = (linked x H L \<and> n \<notin> nodes H L)"
| "op_ok (Replace_init x n) H L = (linked x H L \<and> n \<notin> nodes H L)"
| "op_ok (Move x h) H L = (linked x H L \<and> h \<in> H)"
| "op_ok (Move_tail x h) H L = (linked x H L \<and> h \<in> H)"

lemma subst_notin: "x \<notin> set xs \<Longrightarrow> subst x r xs = xs"
  by (induction xs) (auto simp: subst_def)

lemma subst_split: "x \<notin> set xs \<Longrightarrow> x \<notin> set ys \<Longrightarrow> subst x r (xs @ x # ys) = xs @ r @ ys"
  using subst_notin[of x xs r] subst_notin[of x ys r] by (simp add: subst_def)

lemma lists_ok_cong: "(\<And>h. h \<in> H \<Longrightarrow> L h = M h) \<Longrightarrow> lists_ok st H L = lists_ok st H M"
  by (simp add: lists_ok_def cong: ball_cong)

text \<open>A node is on one list only, so that changing it there is changing it everywhere.\<close>

lemma linked_split:
  assumes ok: "lists_ok st H L" and x: "linked x H L"
  obtains h xs ys where "h \<in> H" "L h = xs @ x # ys" "x \<notin> set (h # xs @ ys)" "\<And>g r. g \<in> H \<Longrightarrow> (subst x r \<circ> L) g = (L(h := xs @ r @ ys)) g"
    "ring st h (xs @ x # ys)" "\<And>r st'. lists_ok st' H (subst x r \<circ> L) = lists_ok st' H (L(h := xs @ r @ ys))"
proof -
  from x obtain h xs ys where h: "h \<in> H" "L h = xs @ x # ys" by (auto simp: linked_def dest: split_list)
  have r: "ring st h (xs @ x # ys)" using lists_okD(1)[OF ok h(1)] h(2) by simp
  then have d: "x \<notin> set (h # xs @ ys)" by (auto simp: ring_def)
  have s: "(subst x r \<circ> L) g = (L(h := xs @ r @ ys)) g" if "g \<in> H" for g r
  proof (cases "g = h")
    case False
    then have "x \<notin> set (L g)" using lists_okD(2)[OF ok that h(1), of x] h(2) by auto
    then show ?thesis using False subst_notin by simp
  qed (use d h(2) subst_split in simp)
  have "lists_ok st' H (subst x r \<circ> L) = lists_ok st' H (L(h := xs @ r @ ys))" for r st' by (rule lists_ok_cong) (rule s)
  then show ?thesis using that[OF h d s r] by blast
qed

lemma add_between_fields:
  assumes "n \<noteq> p" "n \<noteq> q"
  shows "lnext (list_add_between n p q st a) = (if a = p then n else if a = n then q else lnext (st a))"
    "lprev (list_add_between n p q st a) = (if a = q then n else if a = n then p else lprev (st a))"
  using assms by (auto simp: list_add_between_def Let_def)

lemma list_t_eqI: "lnext a = lnext b \<Longrightarrow> lprev a = lprev b \<Longrightarrow> a = (b :: list_t)"
  by (cases a; cases b) simp

lemma add_between_ok:
  assumes ok: "lists_ok st H L" and h: "h \<in> H" "L h = xs @ ys" and n: "n \<notin> nodes H L"
  shows "lists_ok (list_add_between n (last (h # xs)) (hd (ys @ [h])) st) H (L(h := xs @ n # ys))"
proof -
  have r: "ring st h (xs @ ys)" using lists_okD(1)[OF ok h(1)] h(2) by simp
  have nn: "n \<notin> set (h # xs @ ys)" using n h by (auto simp: nodes_def)
  define p where "p = last (h # xs)"
  define q where "q = hd (ys @ [h])"
  have li: "p \<in> insert h (set xs)" "q \<in> insert h (set ys)" unfolding p_def q_def by (rule last_in)+
  then have ne: "n \<noteq> p" "n \<noteq> q" using nn by auto
  note fl = add_between_fields[where st = st, OF ne]
  have "ring (list_add_between n p q st) h (xs @ n # ys)"
    by (rule ring_link[OF r nn, folded p_def q_def]) (use ne nn in \<open>auto simp: link_def fl\<close>)
  then show ?thesis unfolding p_def[symmetric] q_def[symmetric]
  proof (rule lists_ok_one[OF ok h(1)])
    fix a assume a: "a \<notin> set (h # L h)" "a \<noteq> n"
    then have "a \<noteq> p" "a \<noteq> q" using li h(2) by auto
    then show "list_add_between n p q st a = st a" using a by (intro list_t_eqI) (simp_all add: fl)
  qed (use n h in auto)
qed

lemma add_ok:
  assumes ok: "lists_ok st H L" and h: "h \<in> H" and n: "n \<notin> nodes H L"
  shows "lists_ok (list_add n h st) H (L(h := n # L h))" "lists_ok (list_add_tail n h st) H (L(h := L h @ [n]))"
  using add_between_ok[OF ok h, of "[]" "L h" n] add_between_ok[OF ok h, of "L h" "[]" n] n ring_nbrs(1)[OF lists_okD(1)[OF ok h]]
  by (simp_all add: list_add_def list_add_tail_def)

lemma add_before_between:
  assumes "n \<noteq> x" "n \<noteq> lprev (st x)"
  shows "list_add_before n x st = list_add_between n (lprev (st x)) x st"
  using assms by (intro ext list_t_eqI) (auto simp: list_add_before_def add_between_fields Let_def)

lemma add_after_between:
  assumes "n \<noteq> x" "n \<noteq> lnext (st x)"
  shows "list_add_after n x st = list_add_between n x (lnext (st x)) st"
  using assms by (intro ext list_t_eqI) (auto simp: list_add_after_def add_between_fields Let_def)

lemma add_at_ok:
  assumes ok: "lists_ok st H L" and x: "linked x H L" and n: "n \<notin> nodes H L"
  shows "lists_ok (list_add_before n x st) H (subst x [n, x] \<circ> L)" "lists_ok (list_add_after n x st) H (subst x [x, n] \<circ> L)"
proof -
  obtain h xs ys where h: "h \<in> H" "L h = xs @ x # ys" "x \<notin> set (h # xs @ ys)"
    "\<And>g r. g \<in> H \<Longrightarrow> (subst x r \<circ> L) g = (L(h := xs @ r @ ys)) g" "ring st h (xs @ x # ys)" "\<And>r st'. lists_ok st' H (subst x r \<circ> L) = lists_ok st' H (L(h := xs @ r @ ys))"
    by (rule linked_split[OF ok x]) blast
  note nb = ring_nbrs(2)[OF h(5)]
  have nn: "n \<notin> set (h # xs @ x # ys)" using n h(1,2) by (auto simp: nodes_def)
  then have ne: "n \<noteq> x" "n \<noteq> lprev (st x)" "n \<noteq> lnext (st x)" using nb last_in(1)[of h xs] last_in(2)[of ys h] by auto
  have "lists_ok (list_add_before n x st) H (L(h := xs @ n # x # ys))"
    unfolding add_before_between[where st = st, OF ne(1,2)] using add_between_ok[OF ok h(1), of xs "x # ys" n] h(2) n nb by simp
  then show "lists_ok (list_add_before n x st) H (subst x [n, x] \<circ> L)" unfolding h(6) by simp
  have "lists_ok (list_add_after n x st) H (L(h := xs @ x # n # ys))"
    unfolding add_after_between[where st = st, OF ne(1,3)] using add_between_ok[OF ok h(1), of "xs @ [x]" ys n] h(2) n nb by simp
  then show "lists_ok (list_add_after n x st) H (subst x [x, n] \<circ> L)" unfolding h(6) by simp
qed

text \<open>Unlinking: whatever happens to the node itself afterwards does not matter.\<close>

lemma del_node_fields:
  "lnext (list_del_node x st a) = (if a = lprev (st x) then lnext (st x) else lnext (st a))"
  "lprev (list_del_node x st a) = (if a = lnext (st x) then lprev (st x) else lprev (st a))"
  by (auto simp: list_del_node_def list_del_between_def)

lemma ring_del_node:
  assumes r: "ring st h (xs @ x # ys)" and st': "\<And>a. a \<noteq> x \<Longrightarrow> st' a = list_del_node x st a"
  shows "ring st' h (xs @ ys)"
proof -
  note nb = ring_nbrs(2)[OF r]
  have d: "x \<notin> set (h # xs @ ys)" using r by (auto simp: ring_def)
  then have ne: "last (h # xs) \<noteq> x" "hd (ys @ [h]) \<noteq> x" using last_in(1)[of h xs] last_in(2)[of ys h] by auto
  show ?thesis
  proof (rule ring_unlink[OF r])
    show "link st' (last (h # xs)) (hd (ys @ [h]))"
      using ne nb by (simp add: link_def st' del_node_fields)
    show "lnext (st' a) = lnext (st a)" if "a \<in> insert h (set (xs @ ys))" "a \<noteq> last (h # xs)" for a
      using that d nb st'[of a] by (cases "a = x") (auto simp: del_node_fields)
    show "lprev (st' a) = lprev (st a)" if "a \<in> insert h (set (xs @ ys))" "a \<noteq> hd (ys @ [h])" for a
      using that d nb st'[of a] by (cases "a = x") (auto simp: del_node_fields)
  qed
qed

lemma del_ok:
  assumes ok: "lists_ok st H L" and x: "linked x H L" and st': "\<And>a. a \<noteq> x \<Longrightarrow> st' a = list_del_node x st a"
  shows "lists_ok st' H (subst x [] \<circ> L)" "x \<notin> nodes H (subst x [] \<circ> L)"
proof -
  obtain h xs ys where h: "h \<in> H" "L h = xs @ x # ys" "x \<notin> set (h # xs @ ys)"
    "\<And>g r. g \<in> H \<Longrightarrow> (subst x r \<circ> L) g = (L(h := xs @ r @ ys)) g" "ring st h (xs @ x # ys)" "\<And>r st'. lists_ok st' H (subst x r \<circ> L) = lists_ok st' H (L(h := xs @ r @ ys))"
    by (rule linked_split[OF ok x]) blast
  note nb = ring_nbrs(2)[OF h(5)]
  have "lists_ok st' H (L(h := xs @ ys))"
  proof (rule lists_ok_one[OF ok h(1) ring_del_node[OF h(5) st']])
    show "st' a = st a" if "a \<notin> set (h # L h)" "a \<noteq> x" for a
    proof -
      have "a \<noteq> lprev (st x)" "a \<noteq> lnext (st x)" using that nb h(2) last_in(1)[of h xs] last_in(2)[of ys h] by auto
      then show ?thesis using st'[OF that(2)] by (intro list_t_eqI) (simp_all add: del_node_fields)
    qed
  qed (use h(2) in auto)
  then show "lists_ok st' H (subst x [] \<circ> L)" unfolding h(6) by simp
  have "x \<notin> set (g # (subst x [] \<circ> L) g)" if "g \<in> H" for g
    using lists_okD(2)[OF ok h(1) that, of x] h(2,3) h(4)[OF that, of "[]"] by (cases "g = h") auto
  then show "x \<notin> nodes H (subst x [] \<circ> L)" by (auto simp: nodes_def)
qed

lemma replace_fields:
  assumes "n \<noteq> x" "lnext (st x) \<noteq> x" "n \<noteq> lnext (st x)" "n \<noteq> lprev (st x)"
  shows "lnext (list_replace x n st a) = (if a = lprev (st x) then n else if a = n then lnext (st x) else lnext (st a))"
    "lprev (list_replace x n st a) = (if a = lnext (st x) then n else if a = n then lprev (st x) else lprev (st a))"
  using assms by (auto simp: list_replace_def Let_def)

lemma replace_ok:
  assumes ok: "lists_ok st H L" and x: "linked x H L" and n: "n \<notin> nodes H L" and st': "\<And>a. a \<noteq> x \<Longrightarrow> st' a = list_replace x n st a"
  shows "lists_ok st' H (subst x [n] \<circ> L)"
proof -
  obtain h xs ys where h: "h \<in> H" "L h = xs @ x # ys" "x \<notin> set (h # xs @ ys)"
    "\<And>g r. g \<in> H \<Longrightarrow> (subst x r \<circ> L) g = (L(h := xs @ r @ ys)) g" "ring st h (xs @ x # ys)" "\<And>r st'. lists_ok st' H (subst x r \<circ> L) = lists_ok st' H (L(h := xs @ r @ ys))"
    by (rule linked_split[OF ok x]) blast
  note nb = ring_nbrs(2)[OF h(5)]
  have li: "last (h # xs) \<in> insert h (set (xs @ ys))" "hd (ys @ [h]) \<in> insert h (set (xs @ ys))" using last_in(1)[of h xs] last_in(2)[of ys h] by auto
  have nn: "n \<notin> set (h # xs @ x # ys)" using n h(1,2) by (auto simp: nodes_def)
  have ne: "n \<noteq> x" "lnext (st x) \<noteq> x" "n \<noteq> lnext (st x)" "n \<noteq> lprev (st x)" "lprev (st x) \<noteq> x"
    using nn nb li h(3) by auto
  note fl = replace_fields[where st = st, OF ne(1-4)]
  have r0: "ring (list_del_node x st) h (xs @ ys)" by (rule ring_del_node[OF h(5)]) simp
  have "ring st' h (xs @ n # ys)"
  proof (rule ring_link[OF r0])
    show "link st' (last (h # xs)) n" "link st' n (hd (ys @ [h]))"
      using ne nb by (auto simp: link_def st' fl)
    show "lnext (st' a) = lnext (list_del_node x st a)" if "a \<in> insert h (set (xs @ ys))" "a \<noteq> last (h # xs)" for a
      using that nn h(3) nb st'[of a] by (cases "a = x \<or> a = n") (auto simp: del_node_fields fl)
    show "lprev (st' a) = lprev (list_del_node x st a)" if "a \<in> insert h (set (xs @ ys))" "a \<noteq> hd (ys @ [h])" for a
      using that nn h(3) nb st'[of a] by (cases "a = x \<or> a = n") (auto simp: del_node_fields fl)
  qed (use nn in auto)
  then have "lists_ok st' H (L(h := xs @ n # ys))"
  proof (rule lists_ok_one[OF ok h(1)])
    show "st' a = st a" if "a \<notin> set (h # L h)" "a \<noteq> n" for a
    proof -
      have "a \<noteq> lprev (st x)" "a \<noteq> lnext (st x)" "a \<noteq> x" using that nb h(2) li by auto
      then show ?thesis using st' that(2) by (intro list_t_eqI) (simp_all add: fl)
    qed
  qed (use h(2) n in auto)
  then show ?thesis unfolding h(6) by simp
qed

lemma move_ok:
  assumes ok: "lists_ok st H L" and x: "linked x H L" and h: "h \<in> H"
  shows "lists_ok (list_move x h st) H (abs_op (Move x h) L)" "lists_ok (list_move_tail x h st) H (abs_op (Move_tail x h) L)"
  using add_ok[OF del_ok(1)[OF ok x refl] h del_ok(2)[OF ok x refl]]
  by (simp_all add: list_move_def list_move_tail_def Let_def)

lemma run_op_ok:
  assumes ok: "lists_ok st H L" and op: "op_ok e H L"
  shows "lists_ok (run_op e st) H (abs_op e L)"
proof -
  have del: "list_del x st a = list_del_node x st a" "list_del_init x st a = list_del_node x st a" if "a \<noteq> x" for x a
    using that by (auto simp: list_del_def list_del_init_def list_init_def intro!: list_t_eqI)
  have rpl: "list_replace_init x n st a = list_replace x n st a" if "a \<noteq> x" for x n a
    using that by (auto simp: list_replace_init_def list_init_def intro!: list_t_eqI)
  show ?thesis
  proof (cases e)
    case (Del x)
    then show ?thesis using del_ok(1)[OF ok, of x "list_del x st"] del(1) op by simp
  next
    case (Del_init x)
    then show ?thesis using del_ok(1)[OF ok, of x "list_del_init x st"] del(2) op by simp
  next
    case (Replace x n)
    then show ?thesis using replace_ok[OF ok, of x n "list_replace x n st"] op by simp
  next
    case (Replace_init x n)
    then show ?thesis using replace_ok[OF ok, of x n "list_replace_init x n st"] rpl op by simp
  next
    case (Move x h)
    then show ?thesis using move_ok(1)[OF ok, of x h] op by simp
  next
    case (Move_tail x h)
    then show ?thesis using move_ok(2)[OF ok, of x h] op by simp
  qed (use add_ok[OF ok] add_at_ok[OF ok] op in simp_all)
qed

fun ops_ok :: "lop list \<Rightarrow> u32 set \<Rightarrow> (u32 \<Rightarrow> u32 list) \<Rightarrow> bool" where
  "ops_ok [] H L = True"
| "ops_ok (e # es) H L = (op_ok e H L \<and> ops_ok es H (abs_op e L))"


section \<open>Traversal\<close>

text \<open>Following the links from inside a ring visits the rest of its nodes and stops at the head.\<close>

lemma ring_next: "ring st h (xs @ x # ys) \<Longrightarrow> lnext (st x) = hd (ys @ [h])" "ring st h (xs @ x # ys) \<Longrightarrow> x \<noteq> h"
  using ring_nbrs(2)[of st h xs x ys] by (auto simp: ring_def)

lemma length_loop_ring: "ring st h (xs @ ys) \<Longrightarrow> length_loop st h (hd (ys @ [h])) n = Some (n + length ys)"
proof (induction ys arbitrary: xs n)
  case Nil
  then show ?case by (simp add: length_loop.simps[of st h h])
next
  case (Cons y ys)
  note nx = ring_next[OF Cons.prems]
  have "length_loop st h y n = length_loop st h (hd (ys @ [h])) (n + 1)" using nx by (simp add: length_loop.simps[of st h y])
  then show ?case using Cons.IH[of "xs @ [y]" "n + 1"] Cons.prems by simp
qed

lemma find_loop_ring: "ring st h (xs @ ys) \<Longrightarrow> find_loop st l h (hd (ys @ [h])) = Some (l \<in> set ys)"
proof (induction ys arbitrary: xs)
  case Nil
  then show ?case by (simp add: find_loop.simps[of st l h h])
next
  case (Cons y ys)
  note nx = ring_next[OF Cons.prems]
  have "find_loop st l h y = (if y = l then Some True else find_loop st l h (hd (ys @ [h])))" using nx by (simp add: find_loop.simps[of st l h y])
  then show ?case using Cons.IH[of "xs @ [y]"] Cons.prems by auto
qed

lemma first_last_ring:
  assumes "ring st h xs" "x \<in> set xs"
  shows "list_is_first x h st \<longleftrightarrow> hd xs = x" "list_is_last x h st \<longleftrightarrow> last xs = x"
proof -
  obtain ys zs where s: "xs = ys @ x # zs" using assms(2) by (auto dest: split_list)
  have d: "distinct (h # ys @ x # zs)" using assms(1) by (simp add: ring_def s)
  note nb = ring_nbrs(2)[OF assms(1)[unfolded s]]
  show "list_is_first x h st \<longleftrightarrow> hd xs = x" using nb d
    by (cases "ys = []") (auto simp: list_is_first_def s hd_append dest: last_in_set hd_in_set)
  show "list_is_last x h st \<longleftrightarrow> last xs = x" using nb d by (cases zs) (auto simp: list_is_last_def s dest: last_in_set)
qed

lemma each_safe_del:
  "lists_ok st H L \<Longrightarrow> h \<in> H \<Longrightarrow> L h = xs \<Longrightarrow>
   \<exists>st'. each_safe_loop h list_del (hd (xs @ [h])) (lnext (st (hd (xs @ [h])))) st = Some st' \<and> lists_ok st' H (L(h := []))"
proof (induction xs arbitrary: st L)
  case Nil
  then show ?case by (auto simp: each_safe_loop.simps[of h _ h] fun_upd_idem)
next
  case (Cons x xs)
  have r: "ring st h ([] @ x # xs)" using lists_okD(1)[OF Cons.prems(1,2)] Cons.prems(3) by simp
  note nx = ring_next[OF r]
  have x: "linked x H L" using Cons.prems(2,3) unfolding linked_def by (metis list.set_intros(1))
  have "lists_ok (run_op (Del x) st) H (abs_op (Del x) L)" using x by (intro run_op_ok[OF Cons.prems(1)]) simp
  then have d: "lists_ok (list_del x st) H (subst x [] \<circ> L)" by simp
  have "x \<notin> set xs" using r by (simp add: ring_def)
  then have "(subst x [] \<circ> L) h = xs" using Cons.prems(3) subst_split[of x "[]" xs "[]"] by simp
  from Cons.IH[OF d Cons.prems(2) this] obtain st' where
    st': "each_safe_loop h list_del (hd (xs @ [h])) (lnext (list_del x st (hd (xs @ [h])))) (list_del x st) = Some st'"
    "lists_ok st' H ((subst x [] \<circ> L)(h := []))" by blast
  have "((subst x [] \<circ> L)(h := [])) g = (L(h := [])) g" if "g \<in> H" for g
    using lists_okD(2)[OF Cons.prems(1) that Cons.prems(2), of x] Cons.prems(3) subst_notin[of x "L g" "[]"] by (cases "g = h") auto
  then have "lists_ok st' H (L(h := []))" using st'(2) lists_ok_cong[of H "(subst x [] \<circ> L)(h := [])" "L(h := [])"] by simp
  moreover have "each_safe_loop h list_del x (lnext (st x)) st = Some st'"
    using st'(1) nx by (simp add: each_safe_loop.simps[of h _ x] Let_def)
  ultimately show ?case unfolding append_Cons list.sel by blast
qed


section \<open>Properties\<close>

text \<open>C7: The pointer operations of \<^verbatim>\<open>list.h\<close> implement operations on lists: in a store where every list
  head starts a ring and no node is on two lists, any sequence of adding, unlinking, moving and replacing calls
  leaves every head at the start of the ring that the same operations on plain lists give; a call
  changes no other list.\<close>

theorem list_ops_refine:
  assumes "lists_ok st H L" "ops_ok es H L"
  shows "lists_ok (fold run_op es st) H (fold abs_op es L)"
  using assms
proof (induction es arbitrary: st L)
  case (Cons e es)
  then show ?case using run_op_ok[of st H L e] by simp
qed simp

definition demo_store :: store where
  "demo_store = list_init 100 (list_init 200 (\<lambda>_. \<lparr>lprev = 0, lnext = 0\<rparr>))"

lemma demo_store_ok: "lists_ok demo_store {100, 200} (\<lambda>_. [])"
  by (auto simp: lists_ok_def ring_def link_def demo_store_def list_init_def)

theorem list_ops_refine_witness:
  "lists_ok (fold run_op [Add_tail 1 100, Add_tail 2 100, Add 3 200, Move 1 200, Del 3] demo_store) {100, 200}
     ((\<lambda>_. [])(100 := [2], 200 := [1]))"
proof -
  let ?es = "[Add_tail 1 100, Add_tail 2 100, Add 3 200, Move 1 200, Del 3]"
  have "ops_ok ?es {100, 200} (\<lambda>_. [])" by (simp add: nodes_def linked_def subst_def)
  from list_ops_refine[OF demo_store_ok this]
  show ?thesis by (rule lists_ok_cong[THEN iffD1, rotated]) (auto simp: subst_def)
qed

text \<open>The loops over a list end and see its nodes: the emptiness test, the length, the search and the
  tests for the first and last node answer as on the list, the first owner is the owner of the
  first node, and unlinking every node in \<^verbatim>\<open>list_for_each_safe\<close> ends with the list empty and the others untouched.\<close>

theorem list_queries_correct:
  assumes ok: "lists_ok st H L" and h: "h \<in> H"
  shows "list_empty h st = (L h = []) \<and> list_length h st = Some (length (L h)) \<and> list_find n h st = Some (n \<in> set (L h))
    \<and> (n \<in> set (L h) \<longrightarrow> list_is_first n h st = (hd (L h) = n) \<and> list_is_last n h st = (last (L h) = n))
    \<and> list_first_owner_or_null off h st = (if L h = [] then 0 else list_owner off (hd (L h)))
    \<and> (\<exists>st'. list_for_each_safe h list_del st = Some st' \<and> lists_ok st' H (L(h := [])))"
proof (intro conjI impI)
  have r: "ring st h (L h)" using lists_okD(1)[OF ok h] .
  note nb = ring_nbrs(1)[OF r]
  have e: "lnext (st h) = h \<longleftrightarrow> L h = []" using nb r by (cases "L h") (auto simp: ring_def)
  then show "list_empty h st = (L h = [])" by (simp add: list_empty_def)
  show "list_length h st = Some (length (L h))" using length_loop_ring[of st h "[]" "L h" 0] r nb by (simp add: list_length_def)
  show "list_find n h st = Some (n \<in> set (L h))" using find_loop_ring[of st h "[]" "L h" n] r nb by (simp add: list_find_def)
  show "list_is_first n h st = (hd (L h) = n)" "list_is_last n h st = (last (L h) = n)" if "n \<in> set (L h)"
    using first_last_ring[OF r that] by simp_all
  show "list_first_owner_or_null off h st = (if L h = [] then 0 else list_owner off (hd (L h)))"
    using e nb by (cases "L h") (auto simp: list_first_owner_or_null_def Let_def)
  show "\<exists>st'. list_for_each_safe h list_del st = Some st' \<and> lists_ok st' H (L(h := []))"
    using each_safe_del[OF ok h refl] nb by (simp add: list_for_each_safe_def Let_def)
qed

theorem list_queries_correct_witness:
  "\<exists>st. lists_ok st {100, 200} ((\<lambda>_. [])(100 := [1, 2])) \<and> list_length 100 st = Some 2 \<and> list_find 2 100 st = Some True
     \<and> list_is_first 1 100 st \<and> list_is_last 2 100 st"
proof -
  have "ops_ok [Add_tail 1 100, Add_tail 2 100] {100, 200} (\<lambda>_. [])" by (simp add: nodes_def)
  then have l: "lists_ok (run_op (Add_tail 2 100) (run_op (Add_tail 1 100) demo_store)) {100, 200} ((\<lambda>_. [])(100 := [1, 2]))"
    using run_op_ok[OF run_op_ok[OF demo_store_ok, of "Add_tail 1 100"], of "Add_tail 2 100"] by simp
  from list_queries_correct[OF l, of 100 1] list_queries_correct[OF l, of 100 2] l show ?thesis by auto
qed

end
