(* ===== verification/Kernel.thy ===== *)
theory Kernel
  imports Sync
begin

text \<open>
  The scheduler, the wait queues and the semaphores together: a step relation whose steps are
  the entries into these components, in any order. A step is an interrupt of the clock
  (\<^verbatim>\<open>sched_softirq_handler\<close>), a call of the running task, or a wake-up. The idle task never
  sleeps, and the wait lists of semaphores are used by their semaphores only.
\<close>

section \<open>Steps\<close>

record sys =
  sy_sem :: "nat \<Rightarrow> semaphore_t"
  sy_k :: kst

datatype event = Tick | Yield | Sleep nat | Wake nat | Wake_all nat | Sem_down nat | Sem_try_down nat | Sem_up nat

definition on_k :: "(kst \<Rightarrow> kst option) \<Rightarrow> sys \<Rightarrow> sys option" where
  "on_k f S = map_option (\<lambda>s. S\<lparr>sy_k := s\<rparr>) (f (sy_k S))"

definition on_sem :: "nat \<Rightarrow> (semaphore_t \<Rightarrow> kst \<Rightarrow> ('r \<times> semaphore_t \<times> kst) option) \<Rightarrow> sys \<Rightarrow> sys option" where
  "on_sem i f S = map_option (\<lambda>(_, sema, s). S\<lparr>sy_sem := (sy_sem S)(i := sema), sy_k := s\<rparr>) (f (sy_sem S i) (sy_k S))"

fun exec :: "event \<Rightarrow> sys \<Rightarrow> sys option" where
  "exec Tick S = on_k sched_softirq_handler S"
| "exec Yield S = on_k task_yield S"
| "exec (Sleep w) S = on_k (wait_queue_sleepon w) S"
| "exec (Wake w) S = on_k (wait_queue_wakeup w) S"
| "exec (Wake_all w) S = on_k (wait_queue_wakeup_all w) S"
| "exec (Sem_down i) S = on_sem i semaphore_down S"
| "exec (Sem_try_down i) S = on_sem i semaphore_try_down S"
| "exec (Sem_up i) S = on_sem i semaphore_up S"

definition idle_running :: "kst \<Rightarrow> bool" where
  "idle_running s \<longleftrightarrow> task_current s = su_idle (k_su s)"

fun allowed :: "event \<Rightarrow> sys \<Rightarrow> bool" where
  "allowed (Sleep w) S = (\<not> idle_running (sy_k S) \<and> (\<forall>i. sem_waiter (sy_sem S i) \<noteq> w))"
| "allowed (Wake w) S = (\<forall>i. sem_waiter (sy_sem S i) \<noteq> w)"
| "allowed (Wake_all w) S = (\<forall>i. sem_waiter (sy_sem S i) \<noteq> w)"
| "allowed (Sem_down i) S = (\<not> idle_running (sy_k S))"
| "allowed _ S = True"

inductive kernel_step :: "sys \<Rightarrow> sys \<Rightarrow> bool" where
  step: "allowed e S \<Longrightarrow> exec e S = Some S' \<Longrightarrow> kernel_step S S'"

inductive_cases kernel_stepE: "kernel_step S S'"


section \<open>Invariant\<close>

text \<open>The tasks that run or are ready to run.\<close>

definition alive :: "kst \<Rightarrow> tid set" where
  "alive s = insert (task_current s) (queued s)"

definition running_ok :: "kst \<Rightarrow> bool" where
  "running_ok s \<longleftrightarrow> sched_inv s \<and> t_state (k_task s (task_current s)) = TASK_RUNNING \<and> su_idle (k_su s) \<in> alive s"

definition waits_ok :: "kst \<Rightarrow> bool" where
  "waits_ok s \<longleftrightarrow> (\<forall>w. wait_ok w s) \<and> (\<forall>v w. v \<noteq> w \<longrightarrow> set (k_wait s v) \<inter> set (k_wait s w) = {})"

definition none_lost :: "kst \<Rightarrow> bool" where
  "none_lost s \<longleftrightarrow> (\<forall>t \<in> set (k_global s). t \<in> alive s \<or> (\<exists>w. t \<in> set (k_wait s w)))"

definition kst_inv :: "kst \<Rightarrow> bool" where
  "kst_inv s \<longleftrightarrow> running_ok s \<and> waits_ok s \<and> none_lost s"

definition sems_ok :: "sys \<Rightarrow> bool" where
  "sems_ok S \<longleftrightarrow> inj (\<lambda>i. sem_waiter (sy_sem S i))
     \<and> (\<forall>i. mutex_idle (sem_lock (sy_sem S i)) \<and> counter (sy_sem S i) \<ge> 0
          \<and> (counter (sy_sem S i) > 0 \<longrightarrow> k_wait (sy_k S) (sem_waiter (sy_sem S i)) = []))"

definition sys_inv :: "sys \<Rightarrow> bool" where
  "sys_inv S \<longleftrightarrow> kst_inv (sy_k S) \<and> sems_ok S"

text \<open>A task on a wait list is not alive, so that the states of waiting tasks are framed by \<open>alive\<close>.\<close>

lemma waiting_not_alive:
  assumes "running_ok s" "waits_ok s" "t \<in> set (k_wait s w)"
  shows "t \<notin> alive s"
  using assms blocked_not_queued[of s t] by (auto simp: running_ok_def waits_ok_def wait_ok_def alive_def sched_inv_def)


section \<open>Three kinds of change\<close>

text \<open>
  Every step is one of three changes of the scheduler state: the processor is given to
  another task, the running task goes to the end of a wait list, or the first tasks of a
  wait list become ready.
\<close>

definition same_waiting :: "kst \<Rightarrow> kst \<Rightarrow> bool" where
  "same_waiting s s' \<longleftrightarrow> (\<forall>t. t \<notin> alive s \<longrightarrow> t \<notin> alive s' \<longrightarrow> k_task s' t = k_task s t)
     \<and> k_global s' = k_global s \<and> su_idle (k_su s') = su_idle (k_su s)
     \<and> sched_inv s' \<and> t_state (k_task s' (task_current s')) = TASK_RUNNING"

definition resched :: "kst \<Rightarrow> kst \<Rightarrow> bool" where
  "resched s s' \<longleftrightarrow> same_waiting s s' \<and> alive s' = alive s \<and> k_wait s' = k_wait s"

definition sleeps :: "nat \<Rightarrow> kst \<Rightarrow> kst \<Rightarrow> bool" where
  "sleeps w s s' \<longleftrightarrow> same_waiting s s' \<and> alive s' = alive s - {task_current s}
     \<and> k_wait s' = (k_wait s)(w := k_wait s w @ [task_current s]) \<and> t_state (k_task s' (task_current s)) = TASK_BLOCKED"

definition wakes :: "nat \<Rightarrow> tid list \<Rightarrow> kst \<Rightarrow> kst \<Rightarrow> bool" where
  "wakes w ts s s' \<longleftrightarrow> same_waiting s s' \<and> alive s' = alive s \<union> set ts
     \<and> (\<exists>rest. k_wait s w = ts @ rest \<and> k_wait s' = (k_wait s)(w := rest))"

lemma resched_inv:
  assumes inv: "kst_inv s" and r: "resched s s'"
  shows "kst_inv s'"
proof -
  note i = inv[unfolded kst_inv_def] and d = r[unfolded resched_def same_waiting_def]
  have na: "t \<in> set (k_wait s w) \<Longrightarrow> t \<notin> alive s" for t w using waiting_not_alive i by blast
  then have k: "t \<in> set (k_wait s w) \<Longrightarrow> k_task s' t = k_task s t" for t w using d by metis
  have "running_ok s'" using i d by (auto simp: running_ok_def)
  moreover have "wait_ok w s'" for w
    using i d na k by (auto simp: waits_ok_def wait_ok_def alive_def)
  then have "waits_ok s'" using i d by (auto simp: waits_ok_def)
  moreover have "none_lost s'" using i d by (auto simp: none_lost_def)
  ultimately show ?thesis by (simp add: kst_inv_def)
qed

lemma sleeps_inv:
  assumes inv: "kst_inv s" and r: "sleeps w s s'" and idle: "\<not> idle_running s"
  shows "kst_inv s'"
proof -
  note i = inv[unfolded kst_inv_def] and d = r[unfolded sleeps_def same_waiting_def]
  let ?c = "task_current s"
  have na: "t \<in> set (k_wait s v) \<Longrightarrow> t \<notin> alive s" for t v using waiting_not_alive i by blast
  have k: "t_state (k_task s' t) = TASK_BLOCKED \<and> t \<notin> alive s'" if "t \<in> set (k_wait s' v)" for t v
  proof (cases "t = ?c")
    case False
    then have "t \<in> set (k_wait s v)" using that d by (auto split: if_splits)
    then have "t \<notin> alive s" "t_state (k_task s t) = TASK_BLOCKED" using na i by (auto simp: waits_ok_def wait_ok_def)
    then show ?thesis using d by auto
  qed (use d in auto)
  have c: "?c \<notin> set (k_wait s v)" for v using na[of ?c v] by (auto simp: alive_def)
  have "running_ok s'" using i d idle by (auto simp: running_ok_def idle_running_def)
  moreover have "wait_ok v s'" for v
    using k i d c by (auto simp: waits_ok_def wait_ok_def alive_def)
  then have "waits_ok s'" using i d c by (auto simp: waits_ok_def)
  moreover have "none_lost s'" using i d by (auto simp: none_lost_def)
  ultimately show ?thesis by (simp add: kst_inv_def)
qed

lemma wakes_inv:
  assumes inv: "kst_inv s" and r: "wakes w ts s s'"
  shows "kst_inv s'"
proof -
  obtain rest where l: "k_wait s w = ts @ rest" "k_wait s' = (k_wait s)(w := rest)" using r by (auto simp: wakes_def)
  note i = inv[unfolded kst_inv_def] and d = r[unfolded wakes_def same_waiting_def]
  have na: "t \<in> set (k_wait s v) \<Longrightarrow> t \<notin> alive s" for t v using waiting_not_alive i by blast
  have "distinct (ts @ rest)" using i l by (metis waits_ok_def wait_ok_def)
  moreover have "v \<noteq> w \<Longrightarrow> set (ts @ rest) \<inter> set (k_wait s v) = {}" for v using i l by (metis waits_ok_def)
  ultimately have dis: "set ts \<inter> set (k_wait s' v) = {}" for v using l(2) by (cases "v = w") (simp, force)
  have sub: "set (k_wait s' v) \<subseteq> set (k_wait s v)" for v using l by auto
  have k: "t_state (k_task s' t) = TASK_BLOCKED \<and> t \<notin> alive s'" if "t \<in> set (k_wait s' v)" for t v
  proof -
    have tv: "t \<in> set (k_wait s v)" using sub that by blast
    then have "t \<notin> alive s" "t_state (k_task s t) = TASK_BLOCKED" using na i by (auto simp: waits_ok_def wait_ok_def)
    moreover from this have "t \<notin> alive s'" using d dis that by auto
    ultimately show ?thesis using d by auto
  qed
  have "running_ok s'" using i d by (auto simp: running_ok_def)
  moreover have "distinct (k_wait s' v)" for v using i l by (auto simp: waits_ok_def wait_ok_def dest: spec[of _ w])
  then have "wait_ok v s'" for v using k by (auto simp: wait_ok_def alive_def)
  then have "waits_ok s'" using i sub by (auto simp: waits_ok_def) blast
  moreover have "t \<in> alive s' \<or> (\<exists>v. t \<in> set (k_wait s' v))" if "t \<in> alive s \<or> (\<exists>v. t \<in> set (k_wait s v))" for t
    using that d l by (auto split: if_splits) (metis Un_iff fun_upd_other fun_upd_same set_append)
  then have "none_lost s'" using i d by (auto simp: none_lost_def)
  ultimately show ?thesis by (simp add: kst_inv_def)
qed


section \<open>The operations make these changes\<close>

lemma sched_queue_add_tail_frame:
  "sched_queue_add_tail t s = Some s' \<Longrightarrow> k_global s' = k_global s \<and> su_idle (k_su s') = su_idle (k_su s)"
  by (auto simp: sched_queue_add_tail_def Let_def split: if_splits)

lemma sched_queue_fetch_first_frame:
  assumes "sched_queue_fetch_first s = Some (u, s')"
  shows "k_global s' = k_global s \<and> su_idle (k_su s') = su_idle (k_su s)"
proof (cases "fetch_priority (su_queue (k_su s)) (su_dynamic_priority (k_su s))")
  case None
  then show ?thesis using assms by (simp add: sched_queue_fetch_first_def Let_def)
next
  case (Some p)
  then show ?thesis using assms by (cases "rq s p") (auto simp: sched_queue_fetch_first_def Let_def)
qed

lemmas sched_frame = sched_queue_add_tail_frame sched_queue_fetch_first_frame

lemma schedule_frame: "schedule s = Some s' \<Longrightarrow> k_global s' = k_global s \<and> su_idle (k_su s') = su_idle (k_su s)"
  by (auto simp: schedule_def get_next_task_def sched_set_next_task_def Let_def bind_eq_Some_conv
      dest!: sched_frame split: if_splits)

lemma task_unblock_frame: "task_unblock t s = Some s' \<Longrightarrow> k_global s' = k_global s \<and> su_idle (k_su s') = su_idle (k_su s)"
  by (auto simp: task_unblock_def add_head_eq_tail Let_def bind_eq_Some_conv dest!: sched_frame split: if_splits)

lemma task_wakeup_frame: "task_wakeup t s = Some s' \<Longrightarrow> k_global s' = k_global s \<and> su_idle (k_su s') = su_idle (k_su s)"
  by (auto simp: task_wakeup_def list_unlink_def dest!: task_unblock_frame split: if_splits)

lemma queued_rq: "t \<in> queued s \<longleftrightarrow> (\<exists>i < 4. t \<in> set (rq s i))" by (auto simp: queued_def)

lemma schedule_alive:
  assumes inv: "sched_inv s" and some: "\<exists>i < 4. offered s i \<noteq> []"
  shows "\<exists>s'. schedule s = Some s' \<and> same_waiting s s' \<and> k_wait s' = k_wait s
    \<and> alive s' = (if runnable s then alive s else queued s)
    \<and> (\<not> runnable s \<longrightarrow> (\<forall>t. t \<noteq> task_current s' \<longrightarrow> k_task s' t = k_task s t))"
proof -
  from some obtain i where "i < 4" "offered s i \<noteq> []" by blast
  with inv obtain p s' where s': "schedule s = Some s'" "sched_inv s'" "p < 4"
    "offered s p = task_current s' # rq s' p" "\<And>j. j < 4 \<Longrightarrow> j \<noteq> p \<Longrightarrow> rq s' j = offered s j"
    "t_state (k_task s' (task_current s')) = TASK_RUNNING" "k_wait s' = k_wait s"
    "\<And>t. t \<noteq> task_current s' \<Longrightarrow> t \<noteq> task_current s \<or> \<not> runnable s \<Longrightarrow> k_task s' t = k_task s t"
    by (rule schedule_ok) blast
  have al: "t \<in> alive s' \<longleftrightarrow> (\<exists>j < 4. t \<in> set (offered s j))" for t
  proof
    assume "t \<in> alive s'"
    then show "\<exists>j < 4. t \<in> set (offered s j)" unfolding alive_def queued_rq insert_iff
      using s'(3-5) by (metis list.set_intros)
  next
    assume "\<exists>j < 4. t \<in> set (offered s j)"
    then show "t \<in> alive s'" unfolding alive_def queued_rq insert_iff using s'(3-5) by (metis set_ConsD)
  qed
  have "prio_ok (requeue (k_task s (task_current s)))"
    using inv queues_okD(8)[of s] by (simp add: sched_inv_def requeue_def)
  then have "nat (t_priority (requeue (k_task s (task_current s)))) < 4" by (auto simp: prio_ok_def)
  then have "t \<in> alive s' \<longleftrightarrow> t \<in> (if runnable s then alive s else queued s)" for t
    unfolding al by (auto simp: offered_def alive_def queued_rq) metis
  then have "alive s' = (if runnable s then alive s else queued s)" by blast
  moreover have "k_task s' t = k_task s t" if "t \<notin> alive s" "t \<notin> alive s'" for t using that s'(8) by (auto simp: alive_def)
  then have "same_waiting s s'" using s' schedule_frame[OF s'(1)] by (simp add: same_waiting_def)
  ultimately show ?thesis using s'(1,7,8) by blast
qed

lemma upd_current_ok:
  assumes "sched_inv s" "\<And>t. t_priority (f t) = t_priority t \<and> t_static_priority (f t) = t_static_priority t"
  shows "sched_inv (upd_task (task_current s) f s)" "alive (upd_task (task_current s) f s) = alive s"
  using assms queues_ok_upd_task[of s "task_current s" f] queues_okD(8)[of s]
  by (simp_all add: sched_inv_def prio_ok_def alive_def)

text \<open>Giving up the processor while runnable: after changes to the running task alone, \<^verbatim>\<open>schedule\<close>.\<close>

lemma resched_after:
  assumes inv: "kst_inv s" and f: "\<And>t. t_priority (f t) = t_priority t \<and> t_static_priority (f t) = t_static_priority t"
    and run: "t_state (f (k_task s (task_current s))) \<in> {TASK_RUNNING, TASK_READY}"
  shows "\<exists>s'. schedule (upd_task (task_current s) f s) = Some s' \<and> resched s s'"
proof -
  let ?s = "upd_task (task_current s) f s"
  have i: "sched_inv s" using inv by (simp add: kst_inv_def running_ok_def)
  note u = upd_current_ok[of s f, OF i f]
  have r: "runnable ?s" using run by (simp add: runnable_def)
  from schedule_alive[OF u(1) offered_runnable[OF u(1) r]] r u(2) obtain s' where
    s': "schedule ?s = Some s'" "same_waiting ?s s'" "k_wait s' = k_wait s" "alive s' = alive s" by auto
  moreover have "resched s s'" using s'(2-4) u(2) by (auto simp: resched_def same_waiting_def alive_def)
  ultimately show ?thesis by blast
qed

lemma tick_ok:
  assumes inv: "kst_inv s"
  shows "\<exists>s'. sched_softirq_handler s = Some s' \<and> resched s s'"
proof -
  let ?c = "task_current s" and ?f = "\<lambda>t. t\<lparr>t_elapsed_ticks := t_elapsed_ticks t + 1\<rparr>"
  have i: "sched_inv s" "t_state (k_task s ?c) = TASK_RUNNING" using inv by (auto simp: kst_inv_def running_ok_def)
  show ?thesis
  proof (cases "t_ticks (k_task s ?c) \<le> 0")
    case True
    then have "sched_softirq_handler s = schedule (upd_task ?c ?f s)" by (simp add: sched_softirq_handler_def Let_def)
    then show ?thesis using resched_after[OF inv, of ?f] i(2) by simp
  next
    case False
    define g :: "task_t \<Rightarrow> task_t" where "g = (\<lambda>t. t\<lparr>t_elapsed_ticks := t_elapsed_ticks t + 1, t_ticks := t_ticks t - 1\<rparr>)"
    have "sched_softirq_handler s = Some (upd_task ?c g s)"
      using False by (simp add: sched_softirq_handler_def Let_def upd_task_def g_def)
    moreover have "sched_inv (upd_task ?c g s)" "alive (upd_task ?c g s) = alive s"
      by (rule upd_current_ok[OF i(1)]; simp add: g_def)+
    then have "resched s (upd_task ?c g s)" using i(2) by (auto simp: resched_def same_waiting_def alive_def g_def)
    ultimately show ?thesis by blast
  qed
qed

lemma yield_ok:
  assumes inv: "kst_inv s"
  shows "\<exists>s'. task_yield s = Some s' \<and> resched s s'"
  unfolding task_yield_def by (rule resched_after[OF inv]) simp_all

text \<open>Going to sleep: the running task is put on the list, marked, and \<^verbatim>\<open>task_block\<close> switches.\<close>

lemma sleep_ok:
  fixes w :: nat
  assumes inv: "kst_inv s" and idle: "\<not> idle_running s"
  defines "s1 \<equiv> TASK_ENTER_WAITLIST (task_current s) (wait_list_add_tail w (task_current s) s)"
  shows "\<exists>s'. task_block TASK_BLOCKED s1 = Some s' \<and> sleeps w s s'"
proof -
  let ?c = "task_current s"
  have i: "sched_inv s" "su_idle (k_su s) \<in> queued s" "?c \<notin> queued s"
    using inv idle by (auto simp: kst_inv_def running_ok_def idle_running_def alive_def sched_inv_def)
  have s1: "k_su s1 = k_su s" "k_wait s1 = (k_wait s)(w := k_wait s w @ [?c])" "k_global s1 = k_global s"
    "\<And>t. t \<noteq> ?c \<Longrightarrow> k_task s1 t = k_task s t"
    by (simp_all add: s1_def TASK_ENTER_WAITLIST_def wait_list_add_tail_def upd_task_def)
  define s2 where "s2 = set_state ?c TASK_BLOCKED s1"
  have s2: "k_su s2 = k_su s" "k_wait s2 = k_wait s1" "k_global s2 = k_global s" "t_state (k_task s2 ?c) = TASK_BLOCKED"
    "\<And>t. t \<noteq> ?c \<Longrightarrow> k_task s2 t = k_task s t" using s1 by (simp_all add: s2_def upd_task_def)
  have "sched_inv s1" unfolding s1_def using i(1) by (rule enter_waitlist_ok)
  from upd_current_ok(1)[OF this, of "t_state_update (\<lambda>_. TASK_BLOCKED)"] have inv2: "sched_inv s2"
    using s1(1) by (simp add: s2_def)
  have q2: "queued s2 = queued s" "alive s2 = alive s" using s2(1) by (simp_all add: queued_def alive_def)
  have nr: "\<not> runnable s2" using s2 by (simp add: runnable_def)
  then have off: "offered s2 = rq s2" by (simp add: offered_def fun_eq_iff)
  have "su_idle (k_su s) \<in> queued s2" using i(2) by (simp only: q2(1))
  then have "\<exists>j < 4. offered s2 j \<noteq> []" unfolding off queued_rq by fastforce
  from schedule_alive[OF inv2 this] nr obtain s' where s': "schedule s2 = Some s'" "same_waiting s2 s'" "k_wait s' = k_wait s2"
    "alive s' = queued s2" "\<And>t. t \<noteq> task_current s' \<Longrightarrow> k_task s' t = k_task s2 t" by auto
  have "?c \<noteq> task_current s'" using s'(4) q2(1) i(3) by (auto simp: alive_def)
  then have b: "t_state (k_task s' ?c) = TASK_BLOCKED" using s'(5) s2(4) by simp
  have al: "alive s' = alive s - {?c}" using s'(4) q2(1) i(3) by (auto simp: alive_def)
  have "same_waiting s s'"
  proof -
    have "k_task s' t = k_task s t" if "t \<notin> alive s" "t \<notin> alive s'" for t
    proof -
      have "t \<noteq> task_current s'" "t \<noteq> ?c" using that by (auto simp: alive_def)
      then show ?thesis using s'(5) s2(5) by simp
    qed
    then show ?thesis using s'(2) s2(1,3) by (simp add: same_waiting_def)
  qed
  then have "sleeps w s s'" using al s'(3) s2(2) s1(2) b by (simp add: sleeps_def)
  moreover have "task_block TASK_BLOCKED s1 = Some s'" using s'(1) s1(1) by (simp add: task_block_def s2_def)
  ultimately show ?thesis by blast
qed

lemma current_not_waiting: "kst_inv s \<Longrightarrow> task_current s \<notin> set (k_wait s w)"
  using waiting_not_alive[of s "task_current s" w] by (auto simp: kst_inv_def alive_def)

lemma wait_queue_sleepon_ok:
  assumes "kst_inv s" "\<not> idle_running s"
  shows "\<exists>s'. wait_queue_sleepon w s = Some s' \<and> sleeps w s s'"
  using sleep_ok[OF assms] current_not_waiting[OF assms(1)] by (simp add: wait_queue_sleepon_def wait_queue_add_def)

lemma kst_invD: "kst_inv s \<Longrightarrow> sched_inv s" "kst_inv s \<Longrightarrow> wait_ok w s"
  "kst_inv s \<Longrightarrow> t_state (k_task s (task_current s)) = TASK_RUNNING"
  by (auto simp: kst_inv_def running_ok_def waits_ok_def)

lemma wakesI:
  assumes "kst_inv s" "sched_inv s'" "queued s' = queued s \<union> set ts" "task_current s' = task_current s" "k_wait s w = ts @ rest"
    "k_wait s' = (k_wait s)(w := rest)" "\<And>t. t \<notin> set ts \<Longrightarrow> k_task s' t = k_task s t"
    "k_global s' = k_global s" "su_idle (k_su s') = su_idle (k_su s)"
  shows "wakes w ts s s'"
proof -
  have "task_current s \<notin> set ts" using current_not_waiting[OF assms(1), of w] assms(5) by simp
  moreover have "alive s' = alive s \<union> set ts" using assms(3,4) by (auto simp: alive_def)
  ultimately show ?thesis using assms kst_invD(3)[OF assms(1)] by (auto simp: wakes_def same_waiting_def)
qed

lemma wait_queue_wakeup_first:
  assumes inv: "kst_inv s"
  shows "\<exists>s'. wait_queue_wakeup w s = Some s' \<and> wakes w (take 1 (k_wait s w)) s s'"
proof (cases "k_wait s w")
  case Nil
  have "wakes w [] s s" by (rule wakesI[OF inv]) (use Nil kst_invD[OF inv] in auto)
  then show ?thesis using Nil by (auto simp: wait_queue_wakeup_def)
next
  case (Cons t ts)
  then have t: "t_state (k_task s t) = TASK_BLOCKED" "t \<noteq> task_current s" using kst_invD(2)[OF inv, of w] by (auto simp: wait_ok_def)
  from unlink_wakeup_ok[OF kst_invD(1)[OF inv] t, of w] obtain s' p where
    s': "task_wakeup t (TASK_LEAVE_WAITLIST t (wait_list_del w t s)) = Some s'" "sched_inv s'" "p < 4"
    "\<forall>i < 4. rq s' i = (if i = p then rq s i @ [t] else rq s i)" "\<forall>u. u \<noteq> t \<longrightarrow> k_task s' u = k_task s u"
    "k_wait s' = (k_wait s)(w := remove1 t (k_wait s w))" "task_current s' = task_current s" by metis
  have "queued s' = queued s \<union> set [t]" using s'(3,4) by (auto simp: queued_def split: if_splits)
  then have "wakes w [t] s s'" using s' Cons task_wakeup_frame[OF s'(1)]
    by (intro wakesI[OF inv, where rest = ts]) (auto simp: TASK_LEAVE_WAITLIST_def wait_list_del_def upd_task_def)
  then show ?thesis using Cons s'(1) by (auto simp: wait_queue_wakeup_def)
qed

lemma wait_queue_wakeup_wakes: "kst_inv s \<Longrightarrow> \<exists>s' ts. wait_queue_wakeup w s = Some s' \<and> wakes w ts s s'"
  using wait_queue_wakeup_first by blast

lemma wakeup_each_frame: "wakeup_each w ts s = Some s' \<Longrightarrow> k_global s' = k_global s \<and> su_idle (k_su s') = su_idle (k_su s)"
proof (induction ts arbitrary: s)
  case (Cons t ts)
  then show ?case using task_wakeup_frame
    by (fastforce simp: bind_eq_Some_conv TASK_LEAVE_WAITLIST_def wait_list_del_def upd_task_def)
qed simp

lemma wait_queue_wakeup_all_wakes_all:
  assumes inv: "kst_inv s"
  shows "\<exists>s'. wait_queue_wakeup_all w s = Some s' \<and> wakes w (k_wait s w) s s'"
proof -
  from wakeup_each_ok[OF kst_invD(1,2)[OF inv] refl, of w] obtain s' where s': "wakeup_each w (k_wait s w) s = Some s'" "sched_inv s'"
    "k_wait s' = (k_wait s)(w := [])" "queued s' = queued s \<union> set (k_wait s w)"
    "\<forall>t. t \<notin> set (k_wait s w) \<longrightarrow> k_task s' t = k_task s t" "task_current s' = task_current s" by blast
  then have "wakes w (k_wait s w) s s'" using wakeup_each_frame[OF s'(1)]
    by (intro wakesI[OF inv, where rest = "[]"]) auto
  then show ?thesis using s'(1) by (auto simp: wait_queue_wakeup_all_def)
qed


section \<open>Semaphores\<close>

lemma sems_ok_other:
  assumes "sems_ok S" "\<And>i. k_wait s' (sem_waiter (sy_sem S i)) = k_wait (sy_k S) (sem_waiter (sy_sem S i))"
  shows "sems_ok (S\<lparr>sy_k := s'\<rparr>)"
  using assms by (simp add: sems_ok_def)

lemma sems_ok_one:
  assumes "sems_ok S" and w: "sem_waiter sema = sem_waiter (sy_sem S i)" "mutex_idle (sem_lock sema)" "counter sema \<ge> 0"
    "counter sema > 0 \<Longrightarrow> k_wait s' (sem_waiter sema) = []"
    and other: "\<And>v. v \<noteq> sem_waiter sema \<Longrightarrow> k_wait s' v = k_wait (sy_k S) v"
  shows "sems_ok (S\<lparr>sy_sem := (sy_sem S)(i := sema), sy_k := s'\<rparr>)"
proof -
  have inj: "inj (\<lambda>j. sem_waiter (sy_sem S j))" using assms(1) by (simp add: sems_ok_def)
  have "(\<lambda>j. sem_waiter (((sy_sem S)(i := sema)) j)) = (\<lambda>j. sem_waiter (sy_sem S j))" using w(1) by (auto simp: fun_eq_iff)
  moreover have "j \<noteq> i \<Longrightarrow> k_wait s' (sem_waiter (sy_sem S j)) = k_wait (sy_k S) (sem_waiter (sy_sem S j))" for j
    using inj w(1) by (intro other) (metis injD)
  ultimately show ?thesis using assms(1) w inj by (auto simp: sems_ok_def)
qed

lemma resched_refl: "kst_inv s \<Longrightarrow> resched s s"
  using kst_invD by (auto simp: resched_def same_waiting_def)

lemma semaphore_down_cases:
  assumes inv: "kst_inv s" and m: "mutex_idle (sem_lock sema)" and idle: "\<not> idle_running s"
  shows "\<exists>r sema' s'. semaphore_down sema s = Some (r, sema', s')
    \<and> (if counter sema > 0 then s' = s \<and> sema' = sema\<lparr>counter := counter sema - 1\<rparr> else sema' = sema \<and> sleeps (sem_waiter sema) s s')"
proof (cases "counter sema > 0")
  case True
  then show ?thesis by (simp add: semaphore_down_def mutex_idle_lock[OF m] Let_def)
next
  case False
  from sleep_ok[OF inv idle] obtain s' where "task_block TASK_BLOCKED
      (TASK_ENTER_WAITLIST (task_current s) (wait_list_add_tail (sem_waiter sema) (task_current s) s)) = Some s'" "sleeps (sem_waiter sema) s s'" by blast
  then show ?thesis using False by (simp add: semaphore_down_def semaphore_down_slow_def mutex_idle_lock[OF m] Let_def)
qed

lemma semaphore_up_frame:
  assumes m: "mutex_idle (sem_lock sema)" and up: "semaphore_up sema s = Some (r, sema', s')"
  shows "k_global s' = k_global s \<and> su_idle (k_su s') = su_idle (k_su s)"
proof (cases "k_wait s (sem_waiter sema)")
  case Nil
  then show ?thesis using up by (simp add: semaphore_up_def mutex_idle_lock[OF m] Let_def)
next
  case (Cons t ts)
  then obtain s1 where s1: "sched_queue_add_tail t (set_state t TASK_READY (TASK_LEAVE_WAITLIST t (wait_list_del (sem_waiter sema) t s))) = Some s1"
    "s' = s1"
    using up by (auto simp: semaphore_up_def semaphore_up_slow_def mutex_idle_lock[OF m] Let_def add_head_eq_tail bind_eq_Some_conv)
  show ?thesis using sched_queue_add_tail_frame[OF s1(1)] s1(2) by (simp add: TASK_LEAVE_WAITLIST_def wait_list_del_def upd_task_def)
qed

lemma semaphore_up_wakes:
  assumes inv: "kst_inv s" and sem: "sem_inv sema s"
  shows "\<exists>sema' s' ts. semaphore_up sema s = Some (Done (), sema', s') \<and> sem_inv sema' s' \<and> sem_waiter sema' = sem_waiter sema
    \<and> wakes (sem_waiter sema) ts s s'"
proof -
  from semaphore_up_ok[OF sem] obtain sema' s' woken where u: "semaphore_up sema s = Some (Done (), sema', s')" "sem_inv sema' s'"
    "sem_spec_up (sem_abs sema s) = (woken, sem_abs sema' s')" "task_current s' = task_current s"
    "queued s' = queued s \<union> set_option woken" "\<forall>t. t \<notin> set_option woken \<longrightarrow> k_task s' t = k_task s t"
    "\<forall>w. w \<noteq> sem_waiter sema \<longrightarrow> k_wait s' w = k_wait s w" "sem_waiter sema' = sem_waiter sema" by blast
  define ts where "ts = (case woken of None \<Rightarrow> [] | Some t \<Rightarrow> [t])"
  have ts: "set_option woken = set ts" by (auto simp: ts_def split: option.splits)
  have l: "k_wait s (sem_waiter sema) = ts @ k_wait s' (sem_waiter sema)"
    using u(3,8) by (cases "k_wait s (sem_waiter sema)") (auto simp: sem_abs_def ts_def)
  have "k_wait s' = (k_wait s)(sem_waiter sema := k_wait s' (sem_waiter sema))" using u(7) by (auto simp: fun_eq_iff)
  moreover have "mutex_idle (sem_lock sema)" using sem by (simp add: sem_inv_def)
  ultimately have "wakes (sem_waiter sema) ts s s'" using u l ts semaphore_up_frame[OF _ u(1)]
    by (intro wakesI[OF inv, where rest = "k_wait s' (sem_waiter sema)"]) (auto simp: sem_inv_def)
  then show ?thesis using u by blast
qed

lemma semaphore_try_down_cases:
  assumes m: "mutex_idle (sem_lock sema)"
  shows "semaphore_try_down sema s = Some (Done (counter sema > 0),
    (if counter sema > 0 then sema\<lparr>counter := counter sema - 1\<rparr> else sema), s)"
  by (simp add: semaphore_try_down_def mutex_idle_lock[OF m] Let_def)


section \<open>Every step is defined and keeps the invariant\<close>

lemma sys_invD:
  assumes "sys_inv S"
  shows "kst_inv (sy_k S)" "sems_ok S" "mutex_idle (sem_lock (sy_sem S i))" "sem_inv (sy_sem S i) (sy_k S)"
  using assms kst_invD by (auto simp: sys_inv_def sems_ok_def sem_inv_def)

lemma on_k_ok:
  assumes S: "sys_inv S" and f: "f (sy_k S) = Some s'" "kst_inv s'"
    and w: "\<And>i. k_wait s' (sem_waiter (sy_sem S i)) = k_wait (sy_k S) (sem_waiter (sy_sem S i))"
  shows "\<exists>S'. on_k f S = Some S' \<and> sys_inv S'"
  using f sems_ok_other[OF sys_invD(2)[OF S] w] by (simp add: on_k_def sys_inv_def)

lemma on_sem_ok:
  assumes S: "sys_inv S" and f: "f (sy_sem S i) (sy_k S) = Some (r, sema, s')" "kst_inv s'"
    and w: "sem_waiter sema = sem_waiter (sy_sem S i)" "mutex_idle (sem_lock sema)" "counter sema \<ge> 0"
    "counter sema > 0 \<Longrightarrow> k_wait s' (sem_waiter sema) = []" "\<And>v. v \<noteq> sem_waiter sema \<Longrightarrow> k_wait s' v = k_wait (sy_k S) v"
  shows "\<exists>S'. on_sem i f S = Some S' \<and> sys_inv S'"
  using f sems_ok_one[OF sys_invD(2)[OF S] w] by (simp add: on_sem_def sys_inv_def)

lemma exec_sem_ok:
  assumes S: "sys_inv S"
  shows "\<exists>S'. on_sem i semaphore_up S = Some S' \<and> sys_inv S'"
    "\<exists>S'. on_sem i semaphore_try_down S = Some S' \<and> sys_inv S'"
    "\<not> idle_running (sy_k S) \<Longrightarrow> \<exists>S'. on_sem i semaphore_down S = Some S' \<and> sys_inv S'"
proof -
  note k = sys_invD(1)[OF S] and sem = sys_invD(4)[OF S, of i] and m = sys_invD(3)[OF S, of i]
  let ?sem = "sy_sem S i" and ?s = "sy_k S"
  from semaphore_up_wakes[OF k sem] obtain sema' s' ts where u: "semaphore_up ?sem ?s = Some (Done (), sema', s')" "sem_inv sema' s'"
    "sem_waiter sema' = sem_waiter ?sem" "wakes (sem_waiter ?sem) ts ?s s'" by blast
  show "\<exists>S'. on_sem i semaphore_up S = Some S' \<and> sys_inv S'"
    by (rule on_sem_ok[where f = semaphore_up, OF S u(1) wakes_inv[OF k u(4)]]) (use u in \<open>auto simp: sem_inv_def wakes_def\<close>)
  show "\<exists>S'. on_sem i semaphore_try_down S = Some S' \<and> sys_inv S'"
    by (rule on_sem_ok[where f = semaphore_try_down, OF S semaphore_try_down_cases[OF m] k]) (use sem in \<open>auto simp: sem_inv_def\<close>)
  assume idle: "\<not> idle_running ?s"
  from semaphore_down_cases[OF k m idle] obtain r sema2 s2 where d: "semaphore_down ?sem ?s = Some (r, sema2, s2)"
    "if counter ?sem > 0 then s2 = ?s \<and> sema2 = ?sem\<lparr>counter := counter ?sem - 1\<rparr> else sema2 = ?sem \<and> sleeps (sem_waiter ?sem) ?s s2" by blast
  have "kst_inv s2" using d(2) k sleeps_inv[OF k _ idle] by (auto split: if_splits)
  then show "\<exists>S'. on_sem i semaphore_down S = Some S' \<and> sys_inv S'"
    by (rule on_sem_ok[where f = semaphore_down, OF S d(1)]) (use d(2) sem in \<open>auto simp: sem_inv_def sleeps_def split: if_splits\<close>)
qed

lemma exec_ok:
  assumes S: "sys_inv S" and a: "allowed e S"
  shows "\<exists>S'. exec e S = Some S' \<and> sys_inv S'"
proof -
  note k = sys_invD(1)[OF S]
  have r: "\<exists>S'. on_k f S = Some S' \<and> sys_inv S'" if "\<exists>s'. f (sy_k S) = Some s' \<and> resched (sy_k S) s'" for f
    using that on_k_ok[OF S, of f] resched_inv[OF k] by (auto simp: resched_def)
  have w: "\<exists>S'. on_k f S = Some S' \<and> sys_inv S'" if "\<exists>s' ts. f (sy_k S) = Some s' \<and> wakes v ts (sy_k S) s'"
    and v: "\<forall>i. sem_waiter (sy_sem S i) \<noteq> v" for f v
  proof -
    from that(1) obtain s' ts where s': "f (sy_k S) = Some s'" "wakes v ts (sy_k S) s'" by blast
    then show ?thesis using v by (intro on_k_ok[where f = f, OF S s'(1) wakes_inv[OF k s'(2)]]) (auto simp: wakes_def)
  qed
  show ?thesis
  proof (cases e)
    case Tick
    then show ?thesis using r[of sched_softirq_handler] tick_ok[OF k] by simp
  next
    case Yield
    then show ?thesis using r[of task_yield] yield_ok[OF k] by simp
  next
    case (Sleep v)
    then have g: "\<not> idle_running (sy_k S)" "\<forall>i. sem_waiter (sy_sem S i) \<noteq> v" using a by auto
    from wait_queue_sleepon_ok[OF k g(1), of v] obtain s' where s': "wait_queue_sleepon v (sy_k S) = Some s'" "sleeps v (sy_k S) s'" by blast
    then show ?thesis using Sleep g on_k_ok[where f = "wait_queue_sleepon v", OF S s'(1) sleeps_inv[OF k s'(2) g(1)]] by (auto simp: sleeps_def)
  next
    case (Wake v)
    then show ?thesis using w[of "wait_queue_wakeup v" v] wait_queue_wakeup_wakes[OF k, of v] a by auto
  next
    case (Wake_all v)
    then show ?thesis using w[of "wait_queue_wakeup_all v" v] wait_queue_wakeup_all_wakes_all[OF k, of v] a by auto
  next
    case (Sem_down i)
    then show ?thesis using exec_sem_ok(3)[OF S] a by simp
  next
    case (Sem_try_down i)
    then show ?thesis using exec_sem_ok(2)[OF S] by simp
  next
    case (Sem_up i)
    then show ?thesis using exec_sem_ok(1)[OF S] by simp
  qed
qed

lemma reachable_inv: "kernel_step\<^sup>*\<^sup>* S S' \<Longrightarrow> sys_inv S \<Longrightarrow> sys_inv S'"
proof (induction rule: rtranclp_induct)
  case (step S1 S2)
  from step.hyps(2) obtain e where "allowed e S1" "exec e S1 = Some S2" by (rule kernel_stepE)
  with exec_ok[OF step.IH[OF step.prems]] show ?case by fastforce
qed


section \<open>Properties\<close>

text \<open>Where a task is: on the processor, on a ready queue, or on a wait list.\<close>

datatype place = On_cpu | Ready_queue nat | Wait_list nat

fun located :: "kst \<Rightarrow> tid \<Rightarrow> place \<Rightarrow> bool" where
  "located s t On_cpu = (t = task_current s)"
| "located s t (Ready_queue i) = (i < 4 \<and> t \<in> set (rq s i))"
| "located s t (Wait_list w) = (t \<in> set (k_wait s w))"

lemma located_unique:
  assumes inv: "kst_inv s" and t: "t \<in> set (k_global s)"
  shows "\<exists>!p. located s t p"
proof (rule ex_ex1I)
  show "\<exists>p. located s t p" using inv t
    by (auto simp: kst_inv_def none_lost_def alive_def queued_rq intro: located.simps[THEN iffD2])
next
  fix p q assume pq: "located s t p" "located s t q"
  have i: "queues_ok s" "task_current s \<notin> queued s" "waits_ok s" using inv by (auto simp: kst_inv_def running_ok_def sched_inv_def)
  have wait: "t \<notin> alive s" if "t \<in> set (k_wait s w)" for w using waiting_not_alive that inv by (auto simp: kst_inv_def)
  have pr: "i = j" if "i < 4" "j < 4" "t \<in> set (rq s i)" "t \<in> set (rq s j)" for i j
    using queues_okD(6)[OF i(1) that(1,3)] queues_okD(6)[OF i(1) that(2,4)] by simp
  have wl: "v = w" if "t \<in> set (k_wait s v)" "t \<in> set (k_wait s w)" for v w
    using i(3) that by (auto simp: waits_ok_def)
  show "p = q" using pq wait i(2) pr wl
    by (cases p; cases q) (auto simp: alive_def queued_rq)
qed


definition demo_sys :: sys where
  "demo_sys = \<lparr>sy_sem = (\<lambda>i. \<lparr>counter = 0, sem_lock = \<lparr>wait_lock = 0, m_wait_list = 1, waiters = 0\<rparr>, sem_waiter = 50 + i\<rparr>),
     sy_k = demo_wait\<lparr>k_su := (k_su demo_wait)\<lparr>su_idle := 9\<rparr>, k_global := [7, 8, 9, 20, 21]\<rparr>\<rparr>"

lemma demo_sys_inv: "sys_inv demo_sys"
proof -
  let ?k = "sy_k demo_sys"
  have "queues_ok ?k = queues_ok demo_state" "queued ?k = queued demo_state" "task_current ?k = task_current demo_state"
    by (simp_all add: queues_ok_def queued_def demo_sys_def demo_wait_def)
  then have s: "sched_inv ?k" "queued ?k = queued demo_state" "task_current ?k = 7" "k_wait ?k = (\<lambda>_. [])(50 := [20, 21])"
    using demo_state_inv by (simp_all add: sched_inv_def demo_state_def demo_sys_def demo_wait_def)
  have q: "8 \<in> queued ?k" "9 \<in> queued ?k" unfolding s(2) queued_rq
    by (rule exI[of _ 3], simp add: demo_state_def) (rule exI[of _ 1], simp add: demo_state_def)
  have "running_ok ?k" unfolding running_ok_def using s q by (auto simp: alive_def demo_sys_def demo_wait_def demo_state_def)
  moreover have "waits_ok ?k" unfolding waits_ok_def wait_ok_def s(3,4)
    by (auto simp: demo_sys_def demo_wait_def demo_state_def demo_task_def)
  moreover have "none_lost ?k" unfolding none_lost_def s(4) alive_def s(3) using q
    by (auto simp: demo_sys_def intro!: exI[of _ 50])
  moreover have "sems_ok demo_sys" by (auto simp: sems_ok_def demo_sys_def mutex_idle_def inj_def)
  ultimately show ?thesis by (simp add: sys_inv_def kst_inv_def)
qed


end
