(* ===== verification/Path.thy ===== *)
theory Path
  imports OS_Prelude
begin

text \<open>
  Paths of the file-system layer: \<^verbatim>\<open>src/fs/fsal/path.c\<close>. A C string is the list of its
  characters without the terminator. \<open>None\<close> as the result of a whole operation is a failed
  assertion or a write or read past a fixed buffer.
\<close>

section \<open>Strings\<close>

abbreviation (input) MAX_PATH :: nat where "MAX_PATH \<equiv> 256"
abbreviation (input) FASL_PATH_LEN :: nat where "FASL_PATH_LEN \<equiv> 24"
abbreviation (input) FASL_PATH_NR :: nat where "FASL_PATH_NR \<equiv> 12"
abbreviation (input) SLASH :: char where "SLASH \<equiv> CHR ''/''"

definition strchr_at :: "char \<Rightarrow> string \<Rightarrow> nat option" where
  "strchr_at c s = scan_index (\<lambda>x. x = c) s"

definition strrchr_at :: "char \<Rightarrow> string \<Rightarrow> nat option" where
  "strrchr_at c s = map_option (\<lambda>i. length s - 1 - i) (scan_index (\<lambda>x. x = c) (rev s))"

section \<open>Cleaning a path\<close>

text \<open>
  \<^verbatim>\<open>parse_path_afterward\<close>: the next component and what follows it, if anything does. The
  component is written to a buffer of \<^verbatim>\<open>MAX_PATH\<close> bytes.
\<close>

definition parse_path_afterward :: "string \<Rightarrow> (string \<times> string option) option" where
  "parse_path_afterward path =
     (let p1 = (case path of [] \<Rightarrow> [] | c # r \<Rightarrow> if c = SLASH then dropWhile (\<lambda>x. x = SLASH) r else path);
          name = takeWhile (\<lambda>x. x \<noteq> SLASH) p1; rest = dropWhile (\<lambda>x. x \<noteq> SLASH) p1 in
      if length name \<ge> MAX_PATH then None else Some (name, if rest = [] then None else Some rest))"

definition wash_step :: "string \<Rightarrow> string \<Rightarrow> string option" where
  "wash_step name new =
     (if name = ''..'' then
        (case strrchr_at SLASH new of
           None \<Rightarrow> None
         | Some i \<Rightarrow> if i \<noteq> 0 then Some (take i new) else Some (take (i + 1) new))
      else if name \<noteq> ''.'' then
        (let n1 = (if new \<noteq> ''/'' then new @ ''/'' else new) in Some (n1 @ name))
      else Some new)"

lemma parse_path_shrinks:
  assumes "parse_path_afterward path = Some (name, Some rest)"
  shows "length rest < length path"
proof -
  define p1 where "p1 = (case path of [] \<Rightarrow> [] | c # r \<Rightarrow> if c = SLASH then dropWhile (\<lambda>x. x = SLASH) r else path)"
  have r: "rest = dropWhile (\<lambda>x. x \<noteq> SLASH) p1" "rest \<noteq> []"
    using assms by (auto simp: parse_path_afterward_def Let_def p1_def[symmetric] split: if_splits)
  show ?thesis
  proof (cases path)
    case Nil
    then show ?thesis using r by (simp add: p1_def)
  next
    case (Cons c s)
    show ?thesis
    proof (cases "c = SLASH")
      case True
      then have "length rest \<le> length s" unfolding r(1) p1_def Cons
        by (simp add: order_trans[OF length_dropWhile_le length_dropWhile_le])
      then show ?thesis using Cons by simp
    next
      case False
      then have "rest = dropWhile (\<lambda>x. x \<noteq> SLASH) s" unfolding r(1) p1_def Cons by simp
      then show ?thesis using Cons length_dropWhile_le[of "\<lambda>x. x \<noteq> SLASH" s] by simp
    qed
  qed
qed

text \<open>The loop of \<^verbatim>\<open>wash_path\<close>. After the last component the name buffer is cleared, which ends it.\<close>

function wash_loop :: "string \<Rightarrow> string option \<Rightarrow> string \<Rightarrow> string option" where
  "wash_loop name sub new =
     (if name = [] then Some new
      else case wash_step name new of None \<Rightarrow> None
      | Some new' \<Rightarrow>
          (case sub of None \<Rightarrow> Some new'
           | Some p \<Rightarrow> (case parse_path_afterward p of None \<Rightarrow> None
               | Some (n, s) \<Rightarrow> wash_loop n s new')))"
  by pat_completeness auto
termination
proof (relation "measure (\<lambda>(_, sub, _). case sub of None \<Rightarrow> 0 | Some p \<Rightarrow> Suc (length p))", simp)
  fix name sub new new' p ns n s
  assume "sub = Some p" "parse_path_afterward p = Some ns" "(n, s) = ns"
  then show "((n, s, new'), name, sub, new) \<in> measure (\<lambda>(_, sub, _). case sub of None \<Rightarrow> 0 | Some p \<Rightarrow> Suc (length p))"
    using parse_path_shrinks[of p n] by (cases s) auto
qed

declare wash_loop.simps [simp del]

definition strip_newlines :: "string \<Rightarrow> string" where
  "strip_newlines s = rev (dropWhile (\<lambda>c. c = CHR 0x0A \<or> c = CHR 0x0D) (rev s))"

definition wash_path :: "string \<Rightarrow> string option" where
  "wash_path old_path =
     (if old_path = [] \<or> hd old_path \<noteq> SLASH then None
      else case parse_path_afterward old_path of None \<Rightarrow> None
      | Some (name, sub) \<Rightarrow>
          if name = [] then Some ''/'' else map_option strip_newlines (wash_loop name sub ''/''))"

text \<open>\<open>cwd\<close> is what \<^verbatim>\<open>kfile_getcwd\<close> stores, \<open>None\<close> if it fails.\<close>

definition make_abs_path :: "string \<Rightarrow> string option \<Rightarrow> string option" where
  "make_abs_path path cwd =
     (let a1 = (if path = [] \<or> hd path \<noteq> SLASH then
                  (case cwd of None \<Rightarrow> []
                   | Some d \<Rightarrow> (case strchr_at SLASH d of None \<Rightarrow> d
                       | Some i \<Rightarrow> if drop (i + 1) d \<noteq> [] then d @ ''/'' else d))
                else []);
          a2 = (if path = ''/'' then ''/'' else a1 @ ''/'' @ path) in
      if length a2 \<ge> MAX_PATH then None else Some a2)"

definition build_path :: "string \<Rightarrow> string option \<Rightarrow> string option" where
  "build_path path cwd =
     (case make_abs_path path cwd of None \<Rightarrow> None
      | Some a \<Rightarrow> (case strchr_at SLASH a of None \<Rightarrow> None | Some i \<Rightarrow> wash_path (drop i a)))"

definition path_get_filename :: "string \<Rightarrow> string" where
  "path_get_filename path = (case strrchr_at SLASH path of None \<Rightarrow> path | Some i \<Rightarrow> drop (i + 1) path)"


section \<open>The table of mounted file systems\<close>

text \<open>
  \<open>fp_fsal\<close> is the file-system interface an entry points to, \<open>None\<close> for a free entry; \<open>pt_setdown\<close> records
  the devices \<^verbatim>\<open>try_setdown_block_device\<close> is called for. The three name fields are buffers of
  \<^verbatim>\<open>FASL_PATH_LEN\<close> bytes; writing a longer name into one runs past it.
\<close>

record fsal_path_t =
  fp_fsal :: "nat option"
  fp_path :: string
  fp_alpath :: string
  fp_devpath :: string

record path_tbl =
  pt_table :: "fsal_path_t list"
  pt_master :: "nat option"
  pt_setdown :: "string list"

datatype fsal_path_type_t = FSAL_PATH_TYPE_PHYSIC | FSAL_PATH_TYPE_VIRTUAL | FSAL_PATH_TYPE_DEVICE

definition name_buffer :: "string \<Rightarrow> string option" where
  "name_buffer s = (if length s < FASL_PATH_LEN then Some s else None)"

definition fsal_path_init :: "bool \<Rightarrow> path_tbl \<Rightarrow> unit res \<times> path_tbl" where
  "fsal_path_init mem_ok T =
     (if \<not> mem_ok then (Inl E_FAIL, T)
      else (Inr (), T\<lparr>pt_table := replicate FASL_PATH_NR \<lparr>fp_fsal = None, fp_path = [], fp_alpath = [], fp_devpath = []\<rparr>,
              pt_master := None\<rparr>))"

definition fsal_path_alloc :: "path_tbl \<Rightarrow> nat option" where
  "fsal_path_alloc T = scan_index (\<lambda>e. fp_fsal e = None) (pt_table T)"

definition cmp_path :: "fsal_path_type_t \<Rightarrow> fsal_path_t \<Rightarrow> string" where
  "cmp_path ptype e = (case ptype of FSAL_PATH_TYPE_PHYSIC \<Rightarrow> fp_path e | FSAL_PATH_TYPE_VIRTUAL \<Rightarrow> fp_alpath e
     | FSAL_PATH_TYPE_DEVICE \<Rightarrow> fp_devpath e)"

text \<open>The name that is looked up: the path up to its second slash.\<close>

definition top_name :: "string \<Rightarrow> nat \<Rightarrow> string" where
  "top_name path i = (case strchr_at SLASH (drop (i + 1) path) of None \<Rightarrow> path | Some j \<Rightarrow> take (i + 1 + j) path)"

definition fsal_path_find_with_type :: "fsal_path_type_t \<Rightarrow> string \<Rightarrow> bool \<Rightarrow> path_tbl \<Rightarrow> nat option option" where
  "fsal_path_find_with_type ptype path inmaster T =
     (case strchr_at SLASH path of
        None \<Rightarrow> Some None
      | Some i \<Rightarrow>
          if drop (i + 1) path = [] \<and> inmaster then Some (pt_master T)
          else do {
            name \<leftarrow> name_buffer (top_name path i);
            case scan_index (\<lambda>e. fp_fsal e \<noteq> None \<and> name = cmp_path ptype e) (pt_table T) of
              Some k \<Rightarrow> Some (Some k)
            | None \<Rightarrow> Some (if inmaster then pt_master T else None) })"

abbreviation fsal_path_find :: "string \<Rightarrow> bool \<Rightarrow> path_tbl \<Rightarrow> nat option option" where
  "fsal_path_find \<equiv> fsal_path_find_with_type FSAL_PATH_TYPE_VIRTUAL"

definition dev_name :: "string \<Rightarrow> string" where
  "dev_name devpath = (case strrchr_at SLASH devpath of None \<Rightarrow> devpath | Some i \<Rightarrow> drop (i + 1) devpath)"

definition fsal_path_insert :: "string \<Rightarrow> string \<Rightarrow> string \<Rightarrow> nat \<Rightarrow> path_tbl \<Rightarrow> (unit res \<times> path_tbl) option" where
  "fsal_path_insert devpath path alpath fsal T = do {
     fp \<leftarrow> fsal_path_find alpath False T;
     if fp \<noteq> None then Some (Inl E_FAIL, T)
     else case fsal_path_alloc T of
       None \<Rightarrow> Some (Inl E_FAIL, T)
     | Some k \<Rightarrow> do {
         p \<leftarrow> name_buffer path;
         a \<leftarrow> name_buffer alpath;
         d \<leftarrow> name_buffer (dev_name devpath);
         Some (Inr (), T\<lparr>pt_table := (pt_table T)[k := \<lparr>fp_fsal = Some fsal, fp_path = p, fp_alpath = a, fp_devpath = d\<rparr>],
                  pt_master := (if pt_master T = None then Some k else pt_master T)\<rparr>) } }"

definition entry_clear :: "nat \<Rightarrow> path_tbl \<Rightarrow> path_tbl" where
  "entry_clear k T = T\<lparr>pt_table := (pt_table T)[k := (pt_table T ! k)\<lparr>fp_fsal := None, fp_path := []\<rparr>]\<rparr>"

definition fsal_path_remove :: "string \<Rightarrow> path_tbl \<Rightarrow> unit res \<times> path_tbl" where
  "fsal_path_remove p T =
     (case scan_index (\<lambda>e. fp_fsal e \<noteq> None \<and> (p = fp_path e
             \<or> (case strrchr_at SLASH p of None \<Rightarrow> False | Some i \<Rightarrow> drop (i + 1) p = fp_devpath e))) (pt_table T) of
        None \<Rightarrow> (Inl E_FAIL, T)
      | Some k \<Rightarrow> (Inr (), (entry_clear k T)\<lparr>pt_setdown := pt_setdown T @ [fp_devpath (pt_table T ! k)]\<rparr>))"

definition fsal_path_remove_alpath :: "string \<Rightarrow> path_tbl \<Rightarrow> unit res \<times> path_tbl" where
  "fsal_path_remove_alpath p T =
     (case scan_index (\<lambda>e. fp_fsal e \<noteq> None \<and> p = fp_alpath e) (pt_table T) of
        None \<Rightarrow> (Inl E_FAIL, T)
      | Some k \<Rightarrow> (Inr (), entry_clear k T))"

text \<open>
  \<^verbatim>\<open>fsal_path_switch\<close>, which also cuts a slash off the end of the old path: the second component of
  the result is the old path afterwards. \<open>k\<close> is the entry \<^verbatim>\<open>fpath\<close>.
\<close>

definition fsal_path_switch :: "nat option \<Rightarrow> string \<Rightarrow> path_tbl \<Rightarrow> ((string \<times> string) res) option" where
  "fsal_path_switch fpath old_path T =
     (case fpath of None \<Rightarrow> Some (Inl E_FAIL)
      | Some k \<Rightarrow>
      (case strchr_at SLASH old_path of None \<Rightarrow> Some (Inl E_FAIL)
       | Some i \<Rightarrow>
          (let e = pt_table T ! k; top = drop i old_path in
           case strchr_at SLASH (drop 1 top) of
             None \<Rightarrow> Some (Inr (fp_path e @ (if fpath = pt_master T \<and> drop 1 top \<noteq> [] \<and> fp_alpath e \<noteq> top then top else []), old_path))
           | Some j \<Rightarrow>
               (let st = drop (1 + j) top in
                if drop 1 st = [] then
                  (let top' = take (1 + j) top in
                   Some (Inr (fp_path e @ (if fpath = pt_master T \<and> drop 1 top' \<noteq> [] \<and> fp_alpath e \<noteq> top' then top' else []), take (i + 1 + j) old_path)))
                else do {
                  f \<leftarrow> fsal_path_find top False T;
                  Some (Inr (fp_path e @ (if f = None then top else st), old_path)) }))))"


section \<open>Reference\<close>

text \<open>The components of a path, what a sequence of them means, and the canonical path of a sequence.\<close>

fun split_slash :: "string \<Rightarrow> string list" where
  "split_slash [] = [[]]"
| "split_slash (c # s) = (if c = SLASH then [] # split_slash s else (c # hd (split_slash s)) # tl (split_slash s))"

definition components :: "string \<Rightarrow> string list" where
  "components s = filter (\<lambda>w. w \<noteq> []) (split_slash s)"

definition norm_step :: "string \<Rightarrow> string list \<Rightarrow> string list" where
  "norm_step w st = (if w = ''..'' then butlast st else if w = ''.'' then st else st @ [w])"

definition normalise :: "string list \<Rightarrow> string list" where
  "normalise ws = fold norm_step ws []"

definition joined :: "string list \<Rightarrow> string" where
  "joined ws = concat (map ((#) SLASH) ws)"

definition render :: "string list \<Rightarrow> string" where
  "render ws = (if ws = [] then ''/'' else joined ws)"

definition comp_ok :: "string \<Rightarrow> bool" where
  "comp_ok w \<longleftrightarrow> w \<noteq> [] \<and> SLASH \<notin> set w"

lemma split_slash_ne [simp]: "split_slash s \<noteq> []" by (cases s) auto

lemma components_Cons_slash: "components (SLASH # s) = components s" by (simp add: components_def)

lemma components_drop_slashes: "components (dropWhile (\<lambda>x. x = SLASH) s) = components s"
  by (induction s) (auto simp: components_Cons_slash)

lemma split_slash_word: "SLASH \<notin> set w \<Longrightarrow> split_slash (w @ s) = (w @ hd (split_slash s)) # tl (split_slash s)"
  by (induction w) auto

lemma components_word:
  assumes "SLASH \<notin> set w" "s = [] \<or> hd s = SLASH"
  shows "components (w @ s) = (if w = [] then components s else w # components s)"
proof (cases s)
  case Nil
  then show ?thesis using split_slash_word[OF assms(1), of "[]"] by (simp add: components_def)
next
  case (Cons c t)
  then have "c = SLASH" using assms(2) by simp
  then have "split_slash s = [] # split_slash t" by (simp add: Cons)
  then show ?thesis using split_slash_word[OF assms(1), of s] by (simp add: components_def)
qed

lemma components_ok: "w \<in> set (components s) \<Longrightarrow> comp_ok w"
proof -
  have "w \<in> set (split_slash s) \<Longrightarrow> SLASH \<notin> set w" for w
    by (induction s arbitrary: w) (auto dest: list.set_sel(2)[OF split_slash_ne] intro: hd_in_set[OF split_slash_ne] split: if_splits)
  then show "w \<in> set (components s) \<Longrightarrow> comp_ok w" by (auto simp: components_def comp_ok_def)
qed

lemma components_joined: "\<forall>w \<in> set ws. comp_ok w \<Longrightarrow> components (joined ws @ s) = ws @ components s" if "s = [] \<or> hd s = SLASH"
  using that
proof (induction ws)
  case (Cons w ws)
  have h: "joined ws @ s = [] \<or> hd (joined ws @ s) = SLASH" using Cons.prems(2) by (cases ws) (auto simp: joined_def)
  have "components (joined (w # ws) @ s) = components (w @ (joined ws @ s))" by (simp add: joined_def components_Cons_slash)
  also have "\<dots> = w # components (joined ws @ s)"
    using components_word[OF _ h, of w] Cons.prems(1) by (simp add: comp_ok_def)
  finally show ?case using Cons by simp
qed (simp add: joined_def)

lemma components_render: "\<forall>w \<in> set ws. comp_ok w \<Longrightarrow> components (render ws) = ws"
  using components_joined[of "[]" ws] by (auto simp: render_def components_def)

lemma norm_step_ok: "comp_ok w \<Longrightarrow> \<forall>v \<in> set st. comp_ok v \<Longrightarrow> \<forall>v \<in> set (norm_step w st). comp_ok v"
  by (auto simp: norm_step_def dest: in_set_butlastD)

lemma normalise_no_dots: "''.'' \<notin> set (normalise ws)" "''..'' \<notin> set (normalise ws)"
proof -
  have "P \<notin> set st \<Longrightarrow> P = ''.'' \<or> P = ''..'' \<Longrightarrow> P \<notin> set (fold norm_step ws st)" for P st
  proof (induction ws arbitrary: st)
    case (Cons w ws)
    have "P \<notin> set (norm_step w st)" using Cons.prems by (auto simp: norm_step_def dest: in_set_butlastD)
    then show ?case using Cons by simp
  qed simp
  then show "''.'' \<notin> set (normalise ws)" "''..'' \<notin> set (normalise ws)" by (simp_all add: normalise_def)
qed

lemma normalise_id: "''.'' \<notin> set ws \<Longrightarrow> ''..'' \<notin> set ws \<Longrightarrow> normalise ws = ws"
proof -
  have "''.'' \<notin> set ws \<Longrightarrow> ''..'' \<notin> set ws \<Longrightarrow> fold norm_step ws st = st @ ws" for st
    by (induction ws arbitrary: st) (auto simp: norm_step_def)
  then show "''.'' \<notin> set ws \<Longrightarrow> ''..'' \<notin> set ws \<Longrightarrow> normalise ws = ws" by (simp add: normalise_def)
qed

lemma normalise_sub: "set (normalise ws) \<subseteq> set ws"
proof -
  have "set (fold norm_step ws st) \<subseteq> set st \<union> set ws" for st
  proof (induction ws arbitrary: st)
    case (Cons w ws)
    have "set (norm_step w st) \<subseteq> insert w (set st)" by (auto simp: norm_step_def dest: in_set_butlastD)
    then show ?case using Cons[of "norm_step w st"] by auto
  qed simp
  then show ?thesis using \<open>\<And>st. set (fold norm_step ws st) \<subseteq> set st \<union> set ws\<close>[of "[]"] by (simp add: normalise_def)
qed


section \<open>The loop computes the reference\<close>

lemma strrchr_last: "SLASH \<notin> set w \<Longrightarrow> strrchr_at SLASH (s @ SLASH # w) = Some (length s)"
proof -
  assume w: "SLASH \<notin> set w"
  have "scan_index (\<lambda>x. x = SLASH) (rev w @ SLASH # rev s) = Some (length w)"
    unfolding scan_index_Some_iff using w by (auto simp: nth_append in_set_conv_nth rev_nth)
  then show ?thesis by (simp add: strrchr_at_def)
qed

lemma joined_snoc: "joined (st @ [w]) = joined st @ SLASH # w" by (simp add: joined_def)

lemma joined_slash: "\<forall>w \<in> set st. comp_ok w \<Longrightarrow> st \<noteq> [] \<Longrightarrow> joined st \<noteq> ''/''"
  by (cases st) (auto simp: joined_def comp_ok_def)

lemma wash_step_render:
  assumes "\<forall>v \<in> set st. comp_ok v"
  shows "wash_step w (render st) = Some (render (norm_step w st))"
proof (cases "w = ''..''")
  case True
  show ?thesis
  proof (cases st rule: rev_cases)
    case Nil
    have "strrchr_at SLASH ''/'' = Some 0" by (simp add: strrchr_at_def)
    then show ?thesis using True Nil by (simp add: wash_step_def norm_step_def render_def)
  next
    case (snoc ys y)
    then have r: "strrchr_at SLASH (render st) = Some (length (joined ys))" "render st = joined ys @ SLASH # y"
      using assms strrchr_last[of y "joined ys"] by (auto simp: render_def joined_snoc comp_ok_def)
    have "joined ys = [] \<longleftrightarrow> ys = []" by (cases ys) (auto simp: joined_def)
    then show ?thesis using True r snoc by (auto simp: wash_step_def norm_step_def render_def)
  qed
next
  case False
  have "st \<noteq> [] \<Longrightarrow> joined st \<noteq> ''/''" using joined_slash assms by blast
  then show ?thesis using False
    by (auto simp: wash_step_def norm_step_def render_def joined_snoc Let_def) (simp_all add: joined_def)
qed

lemma parse_path_components:
  assumes fit: "\<forall>w \<in> set (components p). length w < 256"
  shows "\<exists>n s. parse_path_afterward p = Some (n, s) \<and> SLASH \<notin> set n \<and> (n = [] \<longrightarrow> s = None)
    \<and> components p = (if n = [] then [] else n # (case s of None \<Rightarrow> [] | Some r \<Rightarrow> components r))"
proof -
  define p1 where "p1 = (case p of [] \<Rightarrow> [] | c # r \<Rightarrow> if c = SLASH then dropWhile (\<lambda>x. x = SLASH) r else p)"
  define n where "n = takeWhile (\<lambda>x. x \<noteq> SLASH) p1"
  define r where "r = dropWhile (\<lambda>x. x \<noteq> SLASH) p1"
  have c1: "components p = components p1"
    by (auto simp: p1_def components_Cons_slash components_drop_slashes split: list.splits)
  have p1: "p1 = n @ r" by (simp add: n_def r_def)
  have sn: "SLASH \<notin> set n" by (auto simp: n_def dest: set_takeWhileD)
  have r: "r = [] \<or> hd r = SLASH" using hd_dropWhile[of "\<lambda>x. x \<noteq> SLASH" p1] by (auto simp: r_def)
  have ne: "n = [] \<Longrightarrow> r = []"
  proof -
    assume n: "n = []"
    have "p1 = [] \<or> hd p1 \<noteq> SLASH" using hd_dropWhile[of "\<lambda>x. x = SLASH" "tl p"]
      by (cases p) (auto simp: p1_def)
    then show "r = []" using n by (cases p1) (auto simp: n_def r_def)
  qed
  have comps: "components p = (if n = [] then [] else n # components r)"
    using components_word[OF sn r] c1 p1 ne by (auto simp: components_def)
  then have "n \<noteq> [] \<Longrightarrow> length n < 256" using fit by simp
  then have "length n < 256" by (cases "n = []") auto
  then have "parse_path_afterward p = Some (n, if r = [] then None else Some r)"
    unfolding parse_path_afterward_def Let_def p1_def[symmetric] n_def[symmetric] r_def[symmetric] by simp
  then show ?thesis using sn comps ne by (auto simp: components_def)
qed

lemma wash_loop_render:
  assumes "\<forall>v \<in> set st. comp_ok v" "SLASH \<notin> set n" "\<And>r. s = Some r \<Longrightarrow> \<forall>w \<in> set (components r). length w < 256"
  shows "wash_loop n s (render st) = Some (render (if n = [] then st
    else fold norm_step (n # (case s of None \<Rightarrow> [] | Some r \<Rightarrow> components r)) st))"
  using assms
proof (induction n s "render st" arbitrary: st rule: wash_loop.induct)
  case (1 n s)
  show ?case
  proof (cases "n = []")
    case True
    then show ?thesis by (simp add: wash_loop.simps[of "[]"])
  next
    case False
    note st = wash_step_render[OF 1(2), of n]
    have ok': "\<forall>v \<in> set (norm_step n st). comp_ok v" using norm_step_ok[OF _ 1(2), of n] 1(3) False by (simp add: comp_ok_def)
    show ?thesis
    proof (cases s)
      case None
      then show ?thesis using False st by (simp add: wash_loop.simps[of n])
    next
      case (Some r)
      from parse_path_components[OF 1(4)[OF Some]] obtain m t where p: "parse_path_afterward r = Some (m, t)" "SLASH \<notin> set m" "m = [] \<Longrightarrow> t = None"
        "components r = (if m = [] then [] else m # (case t of None \<Rightarrow> [] | Some q \<Rightarrow> components q))" by blast
      have fit: "\<forall>w \<in> set (components q). length w < 256" if "t = Some q" for q
        using 1(4)[OF Some] p(3,4) that by (cases "m = []") simp_all
      have "wash_loop m t (render (norm_step n st)) = Some (render (if m = [] then norm_step n st
          else fold norm_step (m # (case t of None \<Rightarrow> [] | Some q \<Rightarrow> components q)) (norm_step n st)))"
        by (rule 1(1)[OF False st Some p(1) refl ok' p(2) fit])
      then show ?thesis using False st Some p by (simp add: wash_loop.simps[of n])
    qed
  qed
qed

lemma strip_newlines_id: "\<forall>c \<in> set s. c \<noteq> CHR 0x0A \<and> c \<noteq> CHR 0x0D \<Longrightarrow> strip_newlines s = s"
  by (cases s rule: rev_cases) (auto simp: strip_newlines_def)

lemma split_slash_chars: "w \<in> set (split_slash s) \<Longrightarrow> set w \<subseteq> set s"
proof (induction s arbitrary: w)
  case (Cons c s)
  have "set (hd (split_slash s)) \<subseteq> set s" by (rule Cons.IH) simp
  moreover have "w \<in> set (tl (split_slash s)) \<Longrightarrow> set w \<subseteq> set s" by (rule Cons.IH) (rule list.set_sel(2)[OF split_slash_ne])
  ultimately show ?case using Cons.prems Cons.IH[of w] by (auto split: if_splits)
qed simp

lemma wash_path_reference:
  assumes abs: "old \<noteq> []" "hd old = SLASH" and fit: "\<forall>w \<in> set (components old). length w < 256"
    and nl: "\<forall>c \<in> set old. c \<noteq> CHR 0x0A \<and> c \<noteq> CHR 0x0D"
  shows "wash_path old = Some (render (normalise (components old)))"
proof -
  from parse_path_components[OF fit] obtain n s where p: "parse_path_afterward old = Some (n, s)" "SLASH \<notin> set n"
    "components old = (if n = [] then [] else n # (case s of None \<Rightarrow> [] | Some r \<Rightarrow> components r))" by blast
  show ?thesis
  proof (cases "n = []")
    case True
    then show ?thesis using abs p by (simp add: wash_path_def normalise_def render_def)
  next
    case False
    then have "\<forall>w \<in> set (components r). length w < 256" if "s = Some r" for r using fit p(3) that by simp
    then have "wash_loop n s (render []) = Some (render (normalise (components old)))"
      using wash_loop_render[of "[]" n s] p False by (simp add: normalise_def)
    moreover have "\<forall>c \<in> set (render (normalise (components old))). c \<noteq> CHR 0x0A \<and> c \<noteq> CHR 0x0D"
    proof -
      have "set w \<subseteq> set old" if "w \<in> set (normalise (components old))" for w
        using that normalise_sub[of "components old"] split_slash_chars[of w old] by (auto simp: components_def)
      then show ?thesis using nl by (auto simp: render_def joined_def)
    qed
    ultimately show ?thesis using abs p False strip_newlines_id by (simp add: wash_path_def render_def split: if_splits)
  qed
qed



text \<open>
  A line break at the end is removed after the components have been compared, so that a
  component \<^verbatim>\<open>..\<close> can come out of the cleaning.
\<close>

lemma wash_path_leaves_dotdot: "wash_path (''/a/..'' @ [CHR 0x0A]) = Some ''/a/..''"
  by code_simp


section \<open>Relative paths\<close>

lemma split_slash_append: "split_slash (a @ SLASH # b) = split_slash a @ split_slash b"
  by (induction a) (auto simp: hd_append tl_append split: list.splits)

lemma components_append: "components (a @ SLASH # b) = components a @ components b"
  by (simp add: components_def split_slash_append)

lemma split_slash_length: "w \<in> set (split_slash s) \<Longrightarrow> length w \<le> length s"
proof (induction s arbitrary: w)
  case (Cons c s)
  have "length (hd (split_slash s)) \<le> length s" by (rule Cons.IH) simp
  moreover have "w \<in> set (tl (split_slash s)) \<Longrightarrow> length w \<le> length s" by (rule Cons.IH) (rule list.set_sel(2)[OF split_slash_ne])
  ultimately show ?case using Cons.prems Cons.IH[of w] by (auto split: if_splits)
qed simp

lemma strchr_head: "strchr_at SLASH (SLASH # s) = Some 0" by (simp add: strchr_at_def)

text \<open>\<^verbatim>\<open>build_path\<close> turns a path as the user gives it into the canonical absolute path: an absolute path is cleaned, a
  relative one is taken from the current directory, which is stored in canonical form.\<close>

theorem build_path_correct:
  assumes ds: "\<forall>w \<in> set ds. comp_ok w" and len: "length (render ds) + length path < 254"
    and nl: "\<forall>c \<in> set (render ds) \<union> set path. c \<noteq> CHR 0x0A \<and> c \<noteq> CHR 0x0D"
  shows "build_path path (Some (render ds))
    = Some (render (normalise ((if path \<noteq> [] \<and> hd path = SLASH then [] else ds) @ components path)))"
proof -
  define d where "d = (if path = [] \<or> hd path \<noteq> SLASH then (if ds = [] then ''/'' else render ds @ ''/'') else [])"
  have r: "\<exists>t. render ds = SLASH # t \<and> (t = [] \<longleftrightarrow> ds = [])"
    using ds by (cases ds) (auto simp: render_def joined_def comp_ok_def)
  then obtain t where t: "render ds = SLASH # t" "t = [] \<longleftrightarrow> ds = []" by blast
  define a where "a = (if path = ''/'' then ''/'' else d @ ''/'' @ path)"
  have a: "make_abs_path path (Some (render ds)) = Some a"
    using len t by (auto simp: make_abs_path_def a_def d_def strchr_head Let_def)
  have h: "a \<noteq> [] \<and> hd a = SLASH" using t by (auto simp: a_def d_def)
  then have i: "strchr_at SLASH a = Some 0" by (cases a) (auto simp: strchr_head)
  have la: "length a < 256" using len t by (auto simp: a_def d_def)
  then have fit: "\<forall>w \<in> set (components a). length w < 256"
    using split_slash_length[of _ a] by (force simp: components_def)
  have na: "\<forall>c \<in> set a. c \<noteq> CHR 0x0A \<and> c \<noteq> CHR 0x0D" using nl t by (auto simp: a_def d_def)
  have cd: "components d = (if path \<noteq> [] \<and> hd path = SLASH then [] else ds)"
    using components_append[of "render ds" "[]"] components_render[OF ds] by (auto simp: d_def components_def)
  have "components a = components d @ components path"
    using cd components_append[of d path] by (auto simp: a_def components_def)
  then show ?thesis using wash_path_reference[of a] h fit na i a cd by (simp add: build_path_def)
qed

theorem build_path_correct_witness:
  "build_path ''../lib/x'' (Some (render [''usr'', ''bin''])) = Some ''/usr/lib/x''"
  using build_path_correct[of "[''usr'', ''bin'']" "''../lib/x''"]
  by (simp add: comp_ok_def components_def normalise_def norm_step_def render_def joined_def)


section \<open>Mount points\<close>

text \<open>The entry that serves a mount point, if one is in use.\<close>

definition mounted :: "string \<Rightarrow> path_tbl \<Rightarrow> nat option" where
  "mounted a T = scan_index (\<lambda>e. fp_fsal e \<noteq> None \<and> a = fp_alpath e) (pt_table T)"

definition mount_name :: "string \<Rightarrow> bool" where
  "mount_name a \<longleftrightarrow> (\<exists>n. a = SLASH # n \<and> comp_ok n) \<and> length a < 24"

lemma strchr_word: "SLASH \<notin> set n \<Longrightarrow> strchr_at SLASH (n @ r) = (case r of [] \<Rightarrow> None | c # _ \<Rightarrow> if c = SLASH then Some (length n) else strchr_at SLASH (n @ r))"
proof (cases r)
  case Nil
  assume "SLASH \<notin> set n"
  then have "scan_index (\<lambda>x. x = SLASH) n = None" unfolding scan_index_None by auto
  then show ?thesis using Nil by (simp add: strchr_at_def)
next
  case (Cons c t)
  assume n: "SLASH \<notin> set n"
  show ?thesis
  proof (cases "c = SLASH")
    case True
    have "scan_index (\<lambda>x. x = SLASH) (n @ SLASH # t) = Some (length n)"
      unfolding scan_index_Some_iff using n by (auto simp: nth_append in_set_conv_nth)
    then show ?thesis using Cons True by (simp add: strchr_at_def)
  qed (simp add: Cons)
qed

lemma find_mounted:
  assumes a: "mount_name a" and r: "rest = [] \<or> hd rest = SLASH"
  shows "fsal_path_find (a @ rest) inm T = Some (case mounted a T of Some k \<Rightarrow> Some k | None \<Rightarrow> if inm then pt_master T else None)"
proof -
  obtain n where n: "a = SLASH # n" "n \<noteq> []" "SLASH \<notin> set n" "length a < 24" using a by (auto simp: mount_name_def comp_ok_def)
  have h: "strchr_at SLASH (a @ rest) = Some 0" using n by (simp add: strchr_head)
  have "top_name (a @ rest) 0 = a"
    using strchr_word[OF n(3), of rest] r n(1) by (cases rest) (auto simp: top_name_def)
  then have nb: "name_buffer (top_name (a @ rest) 0) = Some a" using n(4) by (simp add: name_buffer_def)
  have "drop (0 + 1) (a @ rest) \<noteq> []" using n by simp
  then have "fsal_path_find (a @ rest) inm T = (case mounted a T of Some k \<Rightarrow> Some (Some k) | None \<Rightarrow> Some (if inm then pt_master T else None))"
    unfolding fsal_path_find_with_type_def h option.case nb mounted_def cmp_path_def by (simp only: bind.bind_lunit if_False simp_thms fsal_path_type_t.case)
  then show ?thesis by (simp split: option.split)
qed

lemma mounted_upd:
  assumes k: "k < length (pt_table T)" and free: "fp_fsal (pt_table T ! k) = None" and tb: "pt_table T' = (pt_table T)[k := e]"
    and e: "fp_fsal e \<noteq> None" and new: "mounted (fp_alpath e) T = None"
  shows "mounted a T' = (if a = fp_alpath e then Some k else mounted a T)"
proof (cases "a = fp_alpath e")
  case True
  have "\<not> (fp_fsal (pt_table T ! j) \<noteq> None \<and> fp_alpath e = fp_alpath (pt_table T ! j))" if "j < length (pt_table T)" for j
    using new nth_mem[OF that] by (auto simp: mounted_def scan_index_None)
  then have "mounted (fp_alpath e) T' = Some k" unfolding mounted_def scan_index_Some_iff tb using k e by auto
  then show ?thesis using True by simp
next
  case False
  let ?P = "\<lambda>e. fp_fsal e \<noteq> None \<and> a = fp_alpath e"
  have "?P (pt_table T' ! j) = ?P (pt_table T ! j)" if "j < length (pt_table T)" for j
    using False free k that unfolding tb by (auto simp: nth_list_update)
  moreover have "length (pt_table T') = length (pt_table T)" by (simp add: tb)
  ultimately have "mounted a T' = Some j \<longleftrightarrow> mounted a T = Some j" for j
    unfolding mounted_def scan_index_Some_iff by (metis less_trans)
  then show ?thesis using False by (metis option.exhaust)
qed

lemma fsal_path_insert_ok:
  assumes a: "mount_name a" and lens: "length path < 24" "length (dev_name dev) < 24" and new: "mounted a T = None"
    and free: "fsal_path_alloc T = Some k"
  shows "\<exists>T'. fsal_path_insert dev path a fsal T = Some (Inr (), T') \<and> k < length (pt_table T)
    \<and> pt_table T' = (pt_table T)[k := \<lparr>fp_fsal = Some fsal, fp_path = path, fp_alpath = a, fp_devpath = dev_name dev\<rparr>]
    \<and> (\<forall>b. mounted b T' = (if b = a then Some k else mounted b T))"
proof -
  have k: "k < length (pt_table T)" "fp_fsal (pt_table T ! k) = None"
    using free unfolding fsal_path_alloc_def by (auto dest: scan_index_Some)
  have f: "fsal_path_find a False T = Some None" using find_mounted[OF a, of "[]" False T] new by simp
  let ?e = "\<lparr>fp_fsal = Some fsal, fp_path = path, fp_alpath = a, fp_devpath = dev_name dev\<rparr>"
  define T' where "T' = T\<lparr>pt_table := (pt_table T)[k := ?e], pt_master := (if pt_master T = None then Some k else pt_master T)\<rparr>"
  have "fsal_path_insert dev path a fsal T = Some (Inr (), T')"
    using f free a lens by (simp add: fsal_path_insert_def name_buffer_def T'_def mount_name_def)
  moreover have "mounted b T' = (if b = a then Some k else mounted b T)" for b
    using mounted_upd[OF k, of T' ?e b] new by (simp add: T'_def)
  ultimately show ?thesis using k(1) by (auto simp: T'_def)
qed

lemma switch_below:
  assumes a: "mount_name a" and m: "mounted a T = Some k" and r: "r \<noteq> []"
  shows "fsal_path_switch (Some k) (a @ SLASH # r) T = Some (Inr (fp_path (pt_table T ! k) @ SLASH # r, a @ SLASH # r))"
proof -
  obtain n where n: "a = SLASH # n" "n \<noteq> []" "SLASH \<notin> set n" using a by (auto simp: mount_name_def comp_ok_def)
  have "strchr_at SLASH (drop 1 (a @ SLASH # r)) = Some (length n)" using strchr_word[OF n(3), of "SLASH # r"] n(1) by simp
  moreover have "fsal_path_find (a @ SLASH # r) False T = Some (Some k)" using find_mounted[OF a, of "SLASH # r" False T] m by simp
  moreover have "drop (1 + length n) (a @ SLASH # r) = SLASH # r" using n(1) by simp
  ultimately show ?thesis using n(1) r by (simp add: fsal_path_switch_def strchr_head Let_def)
qed

text \<open>C25: After a successful \<^verbatim>\<open>fsal_path_insert\<close> every path at or below the mount point is served by the new entry,
  \<^verbatim>\<open>fsal_path_switch\<close> replaces the mount point by the path on the device, a second insert under the same name is
  refused, every other mount point is served as before, and \<^verbatim>\<open>fsal_path_remove_alpath\<close> undoes the insert.\<close>

theorem fsal_path_insert_serves:
  assumes a: "mount_name a" and lens: "length path < 24" "length (dev_name dev) < 24" and new: "mounted a T = None"
    and free: "fsal_path_alloc T = Some k"
  shows "\<exists>T'. fsal_path_insert dev path a fsal T = Some (Inr (), T')
    \<and> (\<forall>inm rest. rest = [] \<or> hd rest = SLASH \<longrightarrow> fsal_path_find (a @ rest) inm T' = Some (Some k))
    \<and> (\<forall>r. r \<noteq> [] \<longrightarrow> fsal_path_switch (Some k) (a @ SLASH # r) T' = Some (Inr (path @ SLASH # r, a @ SLASH # r)))
    \<and> (\<forall>d p f. fsal_path_insert d p a f T' = Some (Inl E_FAIL, T'))
    \<and> (\<forall>b. mount_name b \<and> b \<noteq> a \<longrightarrow> fsal_path_find b False T' = fsal_path_find b False T)
    \<and> (\<exists>T''. fsal_path_remove_alpath a T' = (Inr (), T'') \<and> fsal_path_find a False T'' = Some None)"
proof -
  let ?e = "\<lparr>fp_fsal = Some fsal, fp_path = path, fp_alpath = a, fp_devpath = dev_name dev\<rparr>"
  obtain T' where T': "fsal_path_insert dev path a fsal T = Some (Inr (), T')" "k < length (pt_table T)"
    "pt_table T' = (pt_table T)[k := ?e]" "\<And>b. mounted b T' = (if b = a then Some k else mounted b T)"
    using fsal_path_insert_ok[OF assms] by auto
  have m: "mounted a T' = Some k" using T'(4) by simp
  have "fsal_path_find (a @ rest) inm T' = Some (Some k)" if "rest = [] \<or> hd rest = SLASH" for inm rest
    using find_mounted[OF a that, of inm T'] m by simp
  moreover have "fsal_path_switch (Some k) (a @ SLASH # r) T' = Some (Inr (path @ SLASH # r, a @ SLASH # r))" if "r \<noteq> []" for r
    using switch_below[OF a m that] T'(2,3) by simp
  moreover have "fsal_path_insert d p a f T' = Some (Inl E_FAIL, T')" for d p f
    using find_mounted[OF a, of "[]" False T'] m by (simp add: fsal_path_insert_def)
  moreover have "fsal_path_find b False T' = fsal_path_find b False T" if "mount_name b \<and> b \<noteq> a" for b
    using find_mounted[of b "[]" False T'] find_mounted[of b "[]" False T] that T'(4)[of b] by simp
  moreover have "fsal_path_remove_alpath a T' = (Inr (), entry_clear k T')"
    using m by (simp add: fsal_path_remove_alpath_def mounted_def)
  moreover have "mounted a (entry_clear k T') = None"
  proof -
    have "\<not> (fp_fsal e \<noteq> None \<and> a = fp_alpath e)" if e: "e \<in> set (pt_table (entry_clear k T'))" for e
    proof -
      from e obtain j where j: "j < length (pt_table T)" "e = pt_table (entry_clear k T') ! j"
        by (auto simp: in_set_conv_nth entry_clear_def T'(3))
      show ?thesis
      proof (cases "j = k")
        case True
        then show ?thesis using j T'(2) by (simp add: entry_clear_def T'(3))
      next
        case False
        then have "e = pt_table T ! j" using j by (simp add: entry_clear_def T'(3))
        then show ?thesis using new nth_mem[OF j(1)] by (auto simp: mounted_def scan_index_None)
      qed
    qed
    then show ?thesis by (auto simp: mounted_def scan_index_None)
  qed
  then have "fsal_path_find a False (entry_clear k T') = Some None" using find_mounted[OF a, of "[]" False "entry_clear k T'"] by simp
  ultimately show ?thesis using T'(1) by blast
qed

definition demo_tbl :: path_tbl where
  "demo_tbl = snd (fsal_path_init True \<lparr>pt_table = [], pt_master = None, pt_setdown = []\<rparr>)"

theorem fsal_path_insert_serves_witness:
  "\<exists>T'. fsal_path_insert ''/dev/hda'' ''1:'' ''/root'' 1 demo_tbl = Some (Inr (), T')
     \<and> fsal_path_find ''/root/bin'' False T' = Some (Some 0)
     \<and> fsal_path_switch (Some 0) ''/root/bin'' T' = Some (Inr (''1:/bin'', ''/root/bin''))"
proof -
  have m: "mount_name ''/root''" by (simp add: mount_name_def comp_ok_def)
  have d: "length (dev_name ''/dev/hda'') < 24" by (simp add: dev_name_def strrchr_at_def)
  have f: "mounted ''/root'' demo_tbl = None" "fsal_path_alloc demo_tbl = Some 0"
    by (simp_all add: mounted_def demo_tbl_def fsal_path_init_def fsal_path_alloc_def scan_index_None scan_index_Some_iff)
  have l: "length ''1:'' < 24" by simp
  from fsal_path_insert_serves[OF m l d f, of 1] obtain T' where
    "fsal_path_insert ''/dev/hda'' ''1:'' ''/root'' 1 demo_tbl = Some (Inr (), T')"
    "\<forall>inm rest. rest = [] \<or> hd rest = SLASH \<longrightarrow> fsal_path_find (''/root'' @ rest) inm T' = Some (Some 0)"
    "\<forall>r. r \<noteq> [] \<longrightarrow> fsal_path_switch (Some 0) (''/root'' @ SLASH # r) T' = Some (Inr (''1:'' @ SLASH # r, ''/root'' @ SLASH # r))" by blast
  then show ?thesis using spec[of "\<lambda>r. r \<noteq> [] \<longrightarrow> fsal_path_switch (Some 0) (''/root'' @ SLASH # r) T' = _ r" "''bin''"]
    by (intro exI[of _ T']) (auto dest: spec[of _ "''/bin''"] spec[of _ "''bin''"])
qed

text \<open>The lookup copies the first component into a buffer of 24 bytes without a check.\<close>

lemma fsal_path_find_overflows:
  assumes "comp_ok n" "length n \<ge> 23" "rest = [] \<or> hd rest = SLASH"
  shows "fsal_path_find ((SLASH # n) @ rest) inm T = None"
proof -
  have "top_name ((SLASH # n) @ rest) 0 = SLASH # n"
    using strchr_word[of n rest] assms by (cases rest) (auto simp: top_name_def comp_ok_def)
  moreover have "strchr_at SLASH ((SLASH # n) @ rest) = Some 0" by (simp add: strchr_head)
  moreover have "n \<noteq> []" using assms(1) by (simp add: comp_ok_def)
  ultimately show ?thesis using assms(2) by (simp add: fsal_path_find_with_type_def name_buffer_def)
qed

end
