(* ===== verification/Exception.thy ===== *)
theory Exception
  imports Mutexqueue
begin

text \<open>
  Exceptions, the kernel's form of signals: \<^verbatim>\<open>src/kernel/exception.c\<close>, and of
  \<^verbatim>\<open>src/arch/x86/mach-i386/interrupt/interrupt.c\<close> the translation of processor faults into exceptions and the
  frames on the user stack that call a handler and return from it. Every task has a manager
  with two lists: exceptions that the kernel acts on, and exceptions for which the program has a
  handler. A node of a list that has been given back to the allocator is marked with
  \<open>ex_live = False\<close>; to use it gives \<open>None\<close>, as does an index outside the arrays of the manager.
\<close>

section \<open>Data\<close>

abbreviation (input) EXP_CODE_USER :: u32 where "EXP_CODE_USER \<equiv> 1"
abbreviation (input) EXP_CODE_INT :: u32 where "EXP_CODE_INT \<equiv> 2"
abbreviation (input) EXP_CODE_ILL :: u32 where "EXP_CODE_ILL \<equiv> 3"
abbreviation (input) EXP_CODE_TRAP :: u32 where "EXP_CODE_TRAP \<equiv> 4"
abbreviation (input) EXP_CODE_BUS :: u32 where "EXP_CODE_BUS \<equiv> 6"
abbreviation (input) EXP_CODE_SEGV :: u32 where "EXP_CODE_SEGV \<equiv> 7"
abbreviation (input) EXP_CODE_FPE :: u32 where "EXP_CODE_FPE \<equiv> 8"
abbreviation (input) EXP_CODE_FINALHIT :: u32 where "EXP_CODE_FINALHIT \<equiv> 9"
abbreviation (input) EXP_CODE_PIPE :: u32 where "EXP_CODE_PIPE \<equiv> 10"
abbreviation (input) EXP_CODE_STKFLT :: u32 where "EXP_CODE_STKFLT \<equiv> 11"
abbreviation (input) EXP_CODE_ALRM :: u32 where "EXP_CODE_ALRM \<equiv> 12"
abbreviation (input) EXP_CODE_CHLD :: u32 where "EXP_CODE_CHLD \<equiv> 14"
abbreviation (input) EXP_CODE_CONT :: u32 where "EXP_CODE_CONT \<equiv> 15"
abbreviation (input) EXP_CODE_STOP :: u32 where "EXP_CODE_STOP \<equiv> 16"
abbreviation (input) EXP_CODE_DEVICE :: u32 where "EXP_CODE_DEVICE \<equiv> 20"
abbreviation (input) EXP_CODE_MAX_NR :: u32 where "EXP_CODE_MAX_NR \<equiv> 21"

record exception_t =
  ex_code :: u32
  ex_flags :: u32
  ex_source :: int
  ex_live :: bool

record exception_manager_t =
  em_exception_list :: "exception_t list"
  em_catch_list :: "exception_t list"
  em_exception_number :: u32
  em_catch_number :: u32
  em_in_user_mode :: int
  em_block :: "u32 list"
  em_catch :: "u32 list"
  em_handlers :: "u32 list"

text \<open>The managers of all tasks beside the state of the scheduler.\<close>

record xst =
  x_em :: "tid \<Rightarrow> exception_manager_t"
  x_k :: kst

abbreviation upd_em :: "tid \<Rightarrow> exception_manager_t \<Rightarrow> xst \<Rightarrow> xst" where
  "upd_em t em X \<equiv> X\<lparr>x_em := (x_em X)(t := em)\<rparr>"


section \<open>Managers\<close>

text \<open>The loop that clears the sets runs over \<^verbatim>\<open>EXCEPTION_SETS_SIZE\<close>, which is 1.\<close>

definition exception_manager_init :: "exception_manager_t \<Rightarrow> exception_manager_t" where
  "exception_manager_init em = em\<lparr>em_exception_list := [], em_catch_list := [], em_exception_number := 0, em_catch_number := 0,
     em_in_user_mode := 0, em_block := (em_block em)[0 := 0], em_catch := (em_catch em)[0 := 0], em_handlers := (em_handlers em)[0 := 0]\<rparr>"

text \<open>The nodes are freed but stay linked.\<close>

definition exception_manager_exit :: "exception_manager_t \<Rightarrow> exception_manager_t option" where
  "exception_manager_exit em =
     (if \<not> list_all ex_live (em_exception_list em @ em_catch_list em) then None
      else Some (em\<lparr>em_exception_list := map (ex_live_update (\<lambda>_. False)) (em_exception_list em), em_exception_number := 0,
        em_in_user_mode := 0, em_catch_list := map (ex_live_update (\<lambda>_. False)) (em_catch_list em), em_catch_number := 0\<rparr>))"

definition exception_create :: "bool \<Rightarrow> u32 \<Rightarrow> int \<Rightarrow> u32 \<Rightarrow> exception_t option" where
  "exception_create mem_ok code source flags =
     (if mem_ok then Some \<lparr>ex_code = code, ex_flags = flags, ex_source = source, ex_live = True\<rparr> else None)"

text \<open>The bit of a code in a set: word \<^verbatim>\<open>code / 32\<close>, bit \<^verbatim>\<open>code % 32\<close>.\<close>

definition set_word :: "u32 list \<Rightarrow> u32 \<Rightarrow> u32 option" where
  "set_word ws code = (let i = unat (code div 32) in if i < length ws then Some (ws ! i) else None)"

definition code_bit :: "u32 \<Rightarrow> u32" where
  "code_bit code = push_bit (unat (code mod 32)) 1"

definition set_incl :: "u32 list \<Rightarrow> u32 \<Rightarrow> u32 list option" where
  "set_incl ws code = map_option (\<lambda>w. ws[unat (code div 32) := w OR code_bit code]) (set_word ws code)"

definition set_excl :: "u32 list \<Rightarrow> u32 \<Rightarrow> u32 list option" where
  "set_excl ws code = map_option (\<lambda>w. ws[unat (code div 32) := w AND NOT (code_bit code)]) (set_word ws code)"

text \<open>The masked word is assigned to a \<^verbatim>\<open>bool\<close>, a macro for \<^verbatim>\<open>char\<close>, and cut to eight bits.\<close>

definition exception_was_blocked :: "exception_manager_t \<Rightarrow> u32 \<Rightarrow> bool option" where
  "exception_was_blocked em code =
     (if code = EXP_CODE_FINALHIT \<or> code = EXP_CODE_STOP then Some False
      else map_option (\<lambda>w. to_char (uint (w AND code_bit code)) \<noteq> 0) (set_word (em_block em) code))"

definition exception_can_catch :: "exception_manager_t \<Rightarrow> u32 \<Rightarrow> bool option" where
  "exception_can_catch em code =
     (if code = EXP_CODE_FINALHIT \<or> code = EXP_CODE_STOP then Some False
      else map_option (\<lambda>w. to_char (uint (w AND code_bit code)) \<noteq> 0) (set_word (em_catch em) code))"

definition exception_enable_catch :: "exception_manager_t \<Rightarrow> u32 \<Rightarrow> (unit res \<times> exception_manager_t) option" where
  "exception_enable_catch em code =
     (if code = EXP_CODE_FINALHIT \<or> code = EXP_CODE_STOP then Some (Inl E_FAIL, em)
      else map_option (\<lambda>ws. (Inr (), em\<lparr>em_catch := ws\<rparr>)) (set_incl (em_catch em) code))"

definition exception_disable_catch :: "exception_manager_t \<Rightarrow> u32 \<Rightarrow> (unit res \<times> exception_manager_t) option" where
  "exception_disable_catch em code =
     (if code = EXP_CODE_FINALHIT \<or> code = EXP_CODE_STOP then Some (Inl E_FAIL, em)
      else map_option (\<lambda>ws. (Inr (), em\<lparr>em_catch := ws\<rparr>)) (set_excl (em_catch em) code))"

definition exception_enable_block :: "exception_manager_t \<Rightarrow> u32 \<Rightarrow> exception_manager_t option" where
  "exception_enable_block em code =
     (if code = EXP_CODE_FINALHIT \<or> code = EXP_CODE_STOP then Some em
      else map_option (\<lambda>ws. em\<lparr>em_block := ws\<rparr>) (set_incl (em_block em) code))"

definition exception_disable_block :: "exception_manager_t \<Rightarrow> u32 \<Rightarrow> exception_manager_t option" where
  "exception_disable_block em code =
     (if code = EXP_CODE_FINALHIT \<or> code = EXP_CODE_STOP then Some em
      else map_option (\<lambda>ws. em\<lparr>em_block := ws\<rparr>) (set_excl (em_block em) code))"

text \<open>Linking a node writes the link of the node before it.\<close>

definition exception_add_normal :: "exception_manager_t \<Rightarrow> exception_t \<Rightarrow> exception_manager_t option" where
  "exception_add_normal em exp =
     (if em_exception_list em \<noteq> [] \<and> \<not> ex_live (last (em_exception_list em)) then None
      else Some (em\<lparr>em_exception_list := em_exception_list em @ [exp], em_exception_number := em_exception_number em + 1\<rparr>))"

definition exception_del_normal :: "exception_manager_t \<Rightarrow> exception_t \<Rightarrow> exception_manager_t option" where
  "exception_del_normal em exp =
     (if exp \<notin> set (em_exception_list em) then None
      else Some (em\<lparr>em_exception_list := remove1 exp (em_exception_list em), em_exception_number := em_exception_number em - 1\<rparr>))"

definition exception_add_catch :: "exception_manager_t \<Rightarrow> exception_t \<Rightarrow> exception_manager_t option" where
  "exception_add_catch em exp =
     (if em_catch_list em \<noteq> [] \<and> \<not> ex_live (last (em_catch_list em)) then None
      else Some (em\<lparr>em_catch_list := em_catch_list em @ [exp], em_catch_number := em_catch_number em + 1\<rparr>))"

definition exception_del_catch :: "exception_manager_t \<Rightarrow> exception_t \<Rightarrow> exception_manager_t option" where
  "exception_del_catch em exp =
     (if exp \<notin> set (em_catch_list em) then None
      else Some (em\<lparr>em_catch_list := remove1 exp (em_catch_list em), em_catch_number := em_catch_number em - 1\<rparr>))"

text \<open>
  \<open>copy_list\<close> is one of the two loops of \<^verbatim>\<open>exception_copy\<close>. The list \<open>oks\<close> holds the
  results of the allocations, in order; its rest is returned with the destination. A failed allocation gives up the whole copy.
\<close>

fun copy_list :: "(exception_manager_t \<Rightarrow> exception_t \<Rightarrow> exception_manager_t option) \<Rightarrow> exception_t list \<Rightarrow> bool list
    \<Rightarrow> exception_manager_t \<Rightarrow> (unit res \<times> bool list \<times> exception_manager_t) option" where
  "copy_list add [] oks dest = Some (Inr (), oks, dest)"
| "copy_list add (e # es) oks dest =
     (if \<not> ex_live e then None
      else case exception_create (oks \<noteq> [] \<and> hd oks) (ex_code e) (ex_source e) (ex_flags e) of
        None \<Rightarrow> map_option (\<lambda>d. (Inl E_FAIL, tl oks, d)) (exception_manager_exit dest)
      | Some exp \<Rightarrow> do { d \<leftarrow> add dest exp; copy_list add es (tl oks) d })"

definition exception_copy :: "bool list \<Rightarrow> exception_manager_t \<Rightarrow> exception_manager_t \<Rightarrow> (unit res \<times> exception_manager_t) option" where
  "exception_copy oks dest src = do {
     (r, oks1, d1) \<leftarrow> copy_list exception_add_normal (em_exception_list src) oks dest;
     case r of Inl e \<Rightarrow> Some (Inl e, d1)
     | Inr _ \<Rightarrow> do {
         (r2, oks2, d2) \<leftarrow> copy_list exception_add_catch (em_catch_list src) oks1 d1;
         Some (r2, d2) } }"


section \<open>Sending\<close>

definition exception_filter :: "tid \<Rightarrow> u32 \<Rightarrow> kst \<Rightarrow> (bool \<times> kst) option" where
  "exception_filter target code s =
     (if code = EXP_CODE_CONT
      then do { s' \<leftarrow> (if t_state (k_task s target) = TASK_STOPPED then task_wakeup target s else Some s); Some (True, s') }
      else Some (False, s))"

text \<open>The two places that put a new exception on a list of the target and wake it.\<close>

definition send_to :: "bool \<Rightarrow> (exception_manager_t \<Rightarrow> exception_t \<Rightarrow> exception_manager_t option) \<Rightarrow> tid \<Rightarrow> u32 \<Rightarrow> xst
    \<Rightarrow> (unit res \<times> xst) option" where
  "send_to mem_ok add target code X =
     (let s = x_k X in
      case exception_create mem_ok code (t_pid (k_task s (task_current s))) 0 of
        None \<Rightarrow> Some (Inl E_NOMEM, X)
      | Some exp \<Rightarrow> do {
          em \<leftarrow> add (x_em X target) exp;
          s' \<leftarrow> task_wakeup target s;
          Some (Inr (), (upd_em target em X)\<lparr>x_k := s'\<rparr>) })"

definition exception_send :: "bool \<Rightarrow> int \<Rightarrow> u32 \<Rightarrow> xst \<Rightarrow> (unit res \<times> xst) option" where
  "exception_send mem_ok pid code X =
     (if code \<ge> EXP_CODE_MAX_NR \<or> pid < 0 then Some (Inl E_INVAL, X)
      else case task_find_by_pid pid (x_k X) of
        None \<Rightarrow> Some (Inl E_SRCH, X)
      | Some target \<Rightarrow> do {
          blocked \<leftarrow> exception_was_blocked (x_em X target) code;
          if blocked \<or> em_in_user_mode (x_em X target) \<noteq> 0 then Some (Inl E_PERM, X)
          else do {
            catch \<leftarrow> exception_can_catch (x_em X target) code;
            if catch then send_to mem_ok exception_add_catch target code X
            else do {
              (filtered, s1) \<leftarrow> exception_filter target code (x_k X);
              if filtered then Some (Inr (), X\<lparr>x_k := s1\<rparr>)
              else send_to mem_ok exception_add_normal target code (X\<lparr>x_k := s1\<rparr>) } } })"

fun send_each :: "(tid \<Rightarrow> bool) \<Rightarrow> int \<Rightarrow> u32 \<Rightarrow> tid list \<Rightarrow> xst \<Rightarrow> xst option" where
  "send_each mem_ok pgid code [] X = Some X"
| "send_each mem_ok pgid code (t # ts) X =
     (if t_pgid (k_task (x_k X) t) = pgid
      then do { (r, X') \<leftarrow> exception_send (mem_ok t) (t_pid (k_task (x_k X) t)) code X; send_each mem_ok pgid code ts X' }
      else send_each mem_ok pgid code ts X)"

definition exception_send_group :: "(tid \<Rightarrow> bool) \<Rightarrow> int \<Rightarrow> u32 \<Rightarrow> xst \<Rightarrow> (unit res \<times> xst) option" where
  "exception_send_group mem_ok pgid code X =
     (if pgid < 0 then Some (Inl E_FAIL, X)
      else map_option (\<lambda>X'. (Inr (), X')) (send_each mem_ok pgid code (k_global (x_k X)) X))"

definition exception_force :: "bool \<Rightarrow> int \<Rightarrow> u32 \<Rightarrow> xst \<Rightarrow> (unit res \<times> xst) option" where
  "exception_force mem_ok pid code X =
     (case task_find_by_pid pid (x_k X) of
        None \<Rightarrow> Some (Inl E_SRCH, X)
      | Some target \<Rightarrow> do {
          em \<leftarrow> exception_disable_block (x_em X target) code;
          exception_send mem_ok pid code (upd_em target em X) })"

definition exception_force_self :: "bool \<Rightarrow> u32 \<Rightarrow> xst \<Rightarrow> (unit res \<times> xst) option" where
  "exception_force_self mem_ok code X = exception_force mem_ok (t_pid (k_task (x_k X) (task_current (x_k X)))) code X"

definition exception_raise :: "bool \<Rightarrow> u32 \<Rightarrow> xst \<Rightarrow> (unit res \<times> xst) option" where
  "exception_raise mem_ok code X = exception_send mem_ok (t_pid (k_task (x_k X) (task_current (x_k X)))) code X"


section \<open>Looking at pending exceptions\<close>

definition causes_exit :: "u32 \<Rightarrow> bool" where
  "causes_exit code \<longleftrightarrow> code \<notin> {EXP_CODE_CHLD, EXP_CODE_USER, EXP_CODE_STOP, EXP_CODE_CONT, EXP_CODE_TRAP, EXP_CODE_ALRM}"

fun any_exception :: "(u32 \<Rightarrow> bool) \<Rightarrow> exception_t list \<Rightarrow> bool option" where
  "any_exception P [] = Some False"
| "any_exception P (e # es) = (if \<not> ex_live e then None else if P (ex_code e) then Some True else any_exception P es)"

definition exception_cause_exit :: "exception_manager_t \<Rightarrow> bool option" where
  "exception_cause_exit em = do {
     a \<leftarrow> any_exception causes_exit (em_exception_list em);
     if a then Some True else any_exception causes_exit (em_catch_list em) }"

definition exception_cause_exit_when_wait :: "exception_manager_t \<Rightarrow> bool option" where
  "exception_cause_exit_when_wait em = do {
     c \<leftarrow> exception_cause_exit em;
     if c then do {
       a \<leftarrow> any_exception (\<lambda>code. code \<noteq> EXP_CODE_INT) (em_exception_list em);
       if a then Some True else any_exception (\<lambda>code. code \<noteq> EXP_CODE_INT) (em_catch_list em) }
     else Some False }"


section \<open>Delivery\<close>

text \<open>
  What \<^verbatim>\<open>exception_dispatch\<close> does with an exception: nothing, stop the task (another task runs; when
  it is continued the loop of \<^verbatim>\<open>exception_check_kernel\<close> goes on), or call \<^verbatim>\<open>sys_exit\<close> with the given
  status, which does not return.
\<close>

datatype dispatch = Ignored | Stopped | Exits int

definition exception_dispatch :: "exception_t \<Rightarrow> kst \<Rightarrow> (dispatch \<times> kst) option" where
  "exception_dispatch exp s =
     (if ex_code exp \<in> {EXP_CODE_CHLD, EXP_CODE_USER, EXP_CODE_ALRM} then Some (Ignored, s)
      else if ex_code exp = EXP_CODE_STOP
      then do {
        s' \<leftarrow> task_block TASK_STOPPED (upd_task (task_current s) (t_exit_status_update (\<lambda>_. sint (- ex_code exp))) s);
        Some (Stopped, s') }
      else if ex_code exp = EXP_CODE_TRAP then Some (Ignored, s)
      else Some (Exits (sint (- ex_code exp)), s))"

function check_loop :: "tid \<Rightarrow> xst \<Rightarrow> (dispatch \<times> xst) option" where
  "check_loop c X =
     (case em_exception_list (x_em X c) of
        [] \<Rightarrow> Some (Ignored, X)
      | e # _ \<Rightarrow>
          if \<not> ex_live e then None
          else case exception_del_normal (x_em X c) e of
            None \<Rightarrow> None
          | Some em \<Rightarrow>
              (case exception_dispatch e (x_k X) of
                 None \<Rightarrow> None
               | Some (Ignored, s) \<Rightarrow> check_loop c ((upd_em c em X)\<lparr>x_k := s\<rparr>)
               | Some (d, s) \<Rightarrow> Some (d, (upd_em c em X)\<lparr>x_k := s\<rparr>)))"
  by pat_completeness auto
termination
  by (relation "measure (\<lambda>(c, X). length (em_exception_list (x_em X c)))")
    (auto simp: exception_del_normal_def split: if_splits)

declare check_loop.simps [simp del]

definition exception_check_kernel :: "xst \<Rightarrow> (dispatch res \<times> xst) option" where
  "exception_check_kernel X =
     (let c = task_current (x_k X); em = x_em X c in
      if em_exception_number em = 0 \<or> em_exception_list em = [] then Some (Inl E_FAIL, X)
      else map_option (\<lambda>(d, X'). (Inr d, X')) (check_loop c X))"

text \<open>The code and the handler for which a frame is built, if the exception has a handler.\<close>

definition exception_handle :: "exception_t \<Rightarrow> exception_manager_t \<Rightarrow> ((u32 \<times> u32) option \<times> exception_manager_t) option" where
  "exception_handle exp em =
     (let i = unat (ex_code exp) in
      if i \<ge> length (em_handlers em) then None
      else if em_handlers em ! i \<noteq> 0 then Some (Some (ex_code exp, em_handlers em ! i), em\<lparr>em_in_user_mode := 1\<rparr>)
      else Some (None, em))"

definition exception_check_user :: "xst \<Rightarrow> ((u32 \<times> u32) option res \<times> xst) option" where
  "exception_check_user X =
     (let c = task_current (x_k X); em = x_em X c in
      if em_catch_number em = 0 \<or> em_in_user_mode em \<noteq> 0 then Some (Inl E_FAIL, X)
      else case em_catch_list em of
        [] \<Rightarrow> Some (Inl E_FAIL, X)
      | e # _ \<Rightarrow>
          if \<not> ex_live e then None
          else do {
            em1 \<leftarrow> exception_del_catch em e;
            (h, em2) \<leftarrow> exception_handle e em1;
            Some (Inr h, upd_em c em2 X) })"

definition exception_check :: "xst \<Rightarrow> (dispatch \<times> (u32 \<times> u32) option \<times> xst) option" where
  "exception_check X = do {
     (r, X1) \<leftarrow> exception_check_kernel X;
     case r of
       Inr Stopped \<Rightarrow> Some (Stopped, None, X1)
     | Inr (Exits st) \<Rightarrow> Some (Exits st, None, X1)
     | _ \<Rightarrow> do {
         (h, X2) \<leftarrow> exception_check_user X1;
         Some (Ignored, (case h of Inr (Some h) \<Rightarrow> Some h | _ \<Rightarrow> None), X2) } }"


section \<open>System calls\<close>

definition sys_expsend :: "bool \<Rightarrow> int \<Rightarrow> u32 \<Rightarrow> xst \<Rightarrow> (unit res \<times> xst) option" where
  "sys_expsend mem_ok pid code X = exception_send mem_ok pid code X"

definition sys_expcatch :: "u32 \<Rightarrow> u32 \<Rightarrow> umem \<Rightarrow> xst \<Rightarrow> (unit res \<times> xst) option" where
  "sys_expcatch code handler um X =
     (if code \<ge> EXP_CODE_MAX_NR then Some (Inl E_INVAL, X)
      else if safety_check_range handler 4096 um \<noteq> Inr () then Some (Inl E_INVAL, X)
      else let c = task_current (x_k X) in do {
        (r, em) \<leftarrow> (if handler \<noteq> 0 then exception_enable_catch (x_em X c) code else exception_disable_catch (x_em X c) code);
        if r = Inr () then
          if unat code < length (em_handlers em)
          then Some (Inr (), upd_em c (em\<lparr>em_handlers := (em_handlers em)[unat code := handler]\<rparr>) X) else None
        else Some (Inr (), upd_em c em X) })"

definition sys_expblock :: "u32 \<Rightarrow> u32 \<Rightarrow> xst \<Rightarrow> (unit res \<times> xst) option" where
  "sys_expblock code state X =
     (if code \<ge> EXP_CODE_MAX_NR then Some (Inl E_INVAL, X)
      else let c = task_current (x_k X) in do {
        em \<leftarrow> (if state \<noteq> 0 then exception_enable_block (x_em X c) code else exception_disable_block (x_em X c) code);
        Some (Inr (), upd_em c em X) })"

definition sys_expmask :: "xst \<Rightarrow> u32 option" where
  "sys_expmask X = set_word (em_block (x_em X (task_current (x_k X)))) 0"

definition sys_exphandler :: "u32 \<Rightarrow> xst \<Rightarrow> u32 option" where
  "sys_exphandler code X =
     (let hs = em_handlers (x_em X (task_current (x_k X))) in
      if code \<ge> EXP_CODE_MAX_NR then Some 0 else if unat code < length hs then Some (hs ! unat code) else None)"


section \<open>Frames on the user stack\<close>

record trap_frame_t =
  tf_vec_no :: u32
  tf_edi :: u32
  tf_esi :: u32
  tf_ebp :: u32
  tf_esp_dummy :: u32
  tf_ebx :: u32
  tf_edx :: u32
  tf_ecx :: u32
  tf_eax :: u32
  tf_gs :: u32
  tf_fs :: u32
  tf_es :: u32
  tf_ds :: u32
  tf_error_code :: u32
  tf_eip :: u32
  tf_cs :: u32
  tf_eflags :: u32
  tf_esp :: u32
  tf_ss :: u32

text \<open>
  The frame for a handler is 92 bytes: return address, code, 76 bytes of saved registers and at offset 84
  eight bytes of code. User memory is a store of such frames.
\<close>

record exception_frame_t =
  ef_ret_addr :: u32
  ef_code :: u32
  ef_trap_frame :: trap_frame_t
  ef_ret_code :: "u8 list"

abbreviation (input) USER_CODE_SEL :: u32 where "USER_CODE_SEL \<equiv> 35"
abbreviation (input) USER_DATA_SEL :: u32 where "USER_DATA_SEL \<equiv> 43"
abbreviation (input) SYS_EXPRET :: u32 where "SYS_EXPRET \<equiv> 114"

definition le_bytes :: "u32 \<Rightarrow> u8 list" where
  "le_bytes w = map (\<lambda>i. ucast (drop_bit (8 * i) w)) [0..<4]"

definition exception_frame_build :: "u32 \<Rightarrow> u32 \<Rightarrow> trap_frame_t \<Rightarrow> (u32 \<Rightarrow> exception_frame_t) \<Rightarrow> trap_frame_t \<times> (u32 \<Rightarrow> exception_frame_t)" where
  "exception_frame_build code handler frame mem =
     (let a = (tf_esp frame - 92) AND (- 8);
          ef = \<lparr>ef_ret_addr = a + 84, ef_code = code, ef_trap_frame = frame,
                ef_ret_code = [0xb8] @ le_bytes SYS_EXPRET @ [0xcd, 0x40] @ drop 7 (ef_ret_code (mem a))\<rparr>
      in (frame\<lparr>tf_eip := handler, tf_esp := a, tf_ds := USER_DATA_SEL, tf_es := USER_DATA_SEL, tf_fs := USER_DATA_SEL,
            tf_gs := USER_DATA_SEL, tf_ss := USER_DATA_SEL, tf_cs := USER_CODE_SEL\<rparr>, mem(a := ef)))"

definition exception_return :: "trap_frame_t \<Rightarrow> (u32 \<Rightarrow> exception_frame_t) \<Rightarrow> xst \<Rightarrow> trap_frame_t \<times> xst" where
  "exception_return frame mem X =
     (let c = task_current (x_k X) in
      (ef_trap_frame (mem (tf_esp frame - 4)), upd_em c ((x_em X c)\<lparr>em_in_user_mode := 0\<rparr>) X))"

text \<open>
  The translation of a processor fault by \<^verbatim>\<open>interrupt_general_handler\<close>. A page fault is handled by the page
  tables first and is not in this table.
\<close>

definition fault_exception :: "u32 \<Rightarrow> u32 option" where
  "fault_exception vec =
     (if vec = 0 \<or> vec = 6 then Some EXP_CODE_ILL
      else if vec = 7 then Some EXP_CODE_DEVICE
      else if vec \<in> {9, 16, 19} then Some EXP_CODE_FPE
      else if vec \<in> {4, 5, 10, 17} then Some EXP_CODE_BUS
      else if vec \<in> {11, 13} then Some EXP_CODE_SEGV
      else if vec = 12 then Some EXP_CODE_STKFLT
      else if vec \<in> {18, 2} then Some EXP_CODE_INT
      else if vec = 8 then Some EXP_CODE_FINALHIT
      else if vec \<in> {1, 3} then Some EXP_CODE_TRAP
      else None)"

definition interrupt_general_handler :: "bool \<Rightarrow> (xst \<Rightarrow> xst option) \<Rightarrow> bool \<Rightarrow> u32 \<Rightarrow> xst \<Rightarrow> xst option" where
  "interrupt_general_handler mem_ok page_do_fault task_init_done vec X =
     (if vec = 0x27 \<or> vec = 0x2f then Some X
      else if \<not> task_init_done then None
      else if vec = 14 then page_do_fault X
      else case fault_exception vec of
        None \<Rightarrow> Some X
      | Some code \<Rightarrow> map_option snd (exception_force_self mem_ok code X))"


section \<open>Invariant\<close>

definition em_ok :: "exception_manager_t \<Rightarrow> bool" where
  "em_ok em \<longleftrightarrow> em_exception_number em = of_nat (length (em_exception_list em)) \<and> em_catch_number em = of_nat (length (em_catch_list em))
     \<and> (\<forall>e \<in> set (em_exception_list em @ em_catch_list em). ex_live e \<and> ex_code e < EXP_CODE_MAX_NR)
     \<and> length (em_block em) = 1 \<and> length (em_catch em) = 1 \<and> length (em_handlers em) = 21"

definition xst_ok :: "xst \<Rightarrow> bool" where
  "xst_ok X \<longleftrightarrow> sched_inv (x_k X) \<and> \<not> TASK_NOT_READY (k_task (x_k X) (task_current (x_k X))) \<and> (\<forall>t. em_ok (x_em X t))"

text \<open>A bit of a set, as far as the kernel can see it.\<close>

definition visible :: "u32 list \<Rightarrow> u32 \<Rightarrow> bool" where
  "visible ws code \<longleftrightarrow> code < 8 \<and> bit (ws ! 0) (unat code)"

lemma and_pow2: "w AND 2 ^ n = of_bool (bit w n) * 2 ^ n" for w :: u32
  by (rule bit_word_eqI) (auto simp: bit_simps)

lemma code_cases:
  assumes "code < EXP_CODE_MAX_NR"
  shows "unat code < 21" "code div 32 = 0" "unat (code mod 32) = unat code"
proof -
  show n: "unat code < 21" using assms by (simp add: word_less_nat_alt)
  then have "unat (code div 32) = 0" "unat (code mod 32) = unat code" by (simp_all add: unat_div unat_mod)
  then show "code div 32 = 0" "unat (code mod 32) = unat code" by (simp_all add: unat_eq_0)
qed

lemma to_char_pow2: "n < 21 \<Longrightarrow> to_char (2 ^ n) \<noteq> 0 \<longleftrightarrow> n < 8"
proof -
  assume "n < 21"
  then have "n \<in> {0,1,2,3,4,5,6,7,8,9,10,11,12,13,14,15,16,17,18,19,20}" by (simp only: insert_iff empty_iff) presburger
  then show ?thesis by (auto simp: to_char_def)
qed

lemma uint_pow2: "n < 21 \<Longrightarrow> uint (2 ^ n :: u32) = 2 ^ n"
proof -
  assume "n < 21"
  then have "unat (2 ^ n :: u32) = 2 ^ n" by (intro unat_pow2) simp
  then have "int (unat (2 ^ n :: u32)) = 2 ^ n" by (simp only: of_nat_power of_nat_numeral)
  then show ?thesis unfolding of_nat_unat .
qed

lemma seen_bit:
  assumes c: "code < EXP_CODE_MAX_NR" and l: "length ws = 1"
  shows "map_option (\<lambda>w. to_char (uint (w AND code_bit code)) \<noteq> 0) (set_word ws code) = Some (visible ws code)"
proof -
  note cc = code_cases[OF c]
  have "to_char (uint (w AND code_bit code)) \<noteq> 0 \<longleftrightarrow> bit w (unat code) \<and> unat code < 8" for w :: u32
    using to_char_pow2[OF cc(1)] uint_pow2[OF cc(1)] cc(3)
    by (cases "bit w (unat code)") (simp_all add: code_bit_def push_bit_eq_mult and_pow2 to_char_def)
  moreover have "code < 8 \<longleftrightarrow> unat code < 8" by (simp add: word_less_nat_alt)
  ultimately show ?thesis using l cc(2) by (auto simp: set_word_def visible_def)
qed

lemma masks_seen:
  assumes "code < EXP_CODE_MAX_NR" "em_ok em"
  shows "exception_was_blocked em code = Some (visible (em_block em) code)" "exception_can_catch em code = Some (visible (em_catch em) code)"
  using assms seen_bit[of code] by (auto simp: exception_was_blocked_def exception_can_catch_def em_ok_def visible_def)


section \<open>Sending reaches exactly the target\<close>

text \<open>What waking a task does: a task that sleeps or is stopped leaves its wait list and becomes ready.\<close>

definition woken :: "tid \<Rightarrow> kst \<Rightarrow> kst \<Rightarrow> bool" where
  "woken t s s' \<longleftrightarrow> (if TASK_NOT_READY (k_task s t)
     then t_state (k_task s' t) = TASK_READY \<and> queued s' = insert t (queued s)
       \<and> (\<forall>w. k_wait s' w = (if TASK_IN_WAITLIST (k_task s t) then removeAll t (k_wait s w) else k_wait s w))
       \<and> (\<forall>u. u \<noteq> t \<longrightarrow> k_task s' u = k_task s u) \<and> task_current s' = task_current s
     else s' = s)"

lemma task_wakeup_woken:
  assumes "xst_ok X"
  shows "\<exists>s'. task_wakeup t (x_k X) = Some s' \<and> woken t (x_k X) s' \<and> sched_inv s' \<and> task_current s' = task_current (x_k X)
    \<and> \<not> TASK_NOT_READY (k_task s' (task_current s'))"
proof (cases "TASK_NOT_READY (k_task (x_k X) t)")
  case True
  then have "t \<noteq> task_current (x_k X)" using assms by (auto simp: xst_ok_def)
  with wakeup_linked_ok[OF _ True] assms show ?thesis by (fastforce simp: woken_def xst_ok_def True)
next
  case False
  then show ?thesis using assms by (simp add: task_wakeup_def woken_def xst_ok_def)
qed

lemma em_ok_add:
  assumes "em_ok em" "ex_code e < EXP_CODE_MAX_NR" "ex_live e"
  shows "\<exists>em'. exception_add_normal em e = Some em' \<and> em_ok em' \<and> em' = em\<lparr>em_exception_list := em_exception_list em @ [e], em_exception_number := em_exception_number em + 1\<rparr>"
    "\<exists>em'. exception_add_catch em e = Some em' \<and> em_ok em' \<and> em' = em\<lparr>em_catch_list := em_catch_list em @ [e], em_catch_number := em_catch_number em + 1\<rparr>"
  using assms by (auto simp: exception_add_normal_def exception_add_catch_def em_ok_def)

text \<open>The lists of pending codes of a task, for the kernel and for its handlers.\<close>

definition pending :: "tid \<Rightarrow> xst \<Rightarrow> u32 list" where
  "pending t X = map ex_code (em_exception_list (x_em X t))"

definition caught :: "tid \<Rightarrow> xst \<Rightarrow> u32 list" where
  "caught t X = map ex_code (em_catch_list (x_em X t))"

lemma send_to_ok:
  assumes X: "xst_ok X" and c: "code < EXP_CODE_MAX_NR"
    and add: "\<And>e. ex_code e = code \<Longrightarrow> ex_live e \<Longrightarrow> \<exists>em'. add (x_em X t) e = Some em' \<and> em_ok em' \<and> P em'"
  shows "\<exists>X'. send_to True add t code X = Some (Inr (), X') \<and> xst_ok X' \<and> P (x_em X' t) \<and> (\<forall>u. u \<noteq> t \<longrightarrow> x_em X' u = x_em X u)
    \<and> woken t (x_k X) (x_k X')"
proof -
  let ?e = "\<lparr>ex_code = code, ex_flags = 0, ex_source = t_pid (k_task (x_k X) (task_current (x_k X))), ex_live = True\<rparr>"
  obtain em where em: "add (x_em X t) ?e = Some em" "em_ok em" "P em" using add[of ?e] by auto
  obtain s' where s': "task_wakeup t (x_k X) = Some s'" "woken t (x_k X) s'" "sched_inv s'" "\<not> TASK_NOT_READY (k_task s' (task_current s'))"
    using task_wakeup_woken[OF X] by blast
  have "send_to True add t code X = Some (Inr (), (upd_em t em X)\<lparr>x_k := s'\<rparr>)"
    using em(1) s'(1) by (simp add: send_to_def exception_create_def Let_def)
  then show ?thesis using em s' X by (auto simp: xst_ok_def)
qed

lemma exception_send_unfold:
  assumes X: "xst_ok X" and t: "task_find_by_pid pid (x_k X) = Some t" and c: "code < EXP_CODE_MAX_NR" "\<not> pid < 0"
  shows "exception_send mem_ok pid code X = (if visible (em_block (x_em X t)) code \<or> em_in_user_mode (x_em X t) \<noteq> 0 then Some (Inl E_PERM, X)
      else if visible (em_catch (x_em X t)) code then send_to mem_ok exception_add_catch t code X
      else do {
        (filtered, s1) \<leftarrow> exception_filter t code (x_k X);
        if filtered then Some (Inr (), X\<lparr>x_k := s1\<rparr>) else send_to mem_ok exception_add_normal t code (X\<lparr>x_k := s1\<rparr>) })"
proof -
  have "\<not> code \<ge> EXP_CODE_MAX_NR" using c(1) by simp
  then show ?thesis using assms masks_seen[OF c(1), of "x_em X t"] by (simp add: exception_send_def xst_ok_def)
qed

lemma exception_send_ok:
  assumes X: "xst_ok X"
  shows "\<exists>r X'. exception_send mem_ok pid code X = Some (r, X') \<and> xst_ok X'
    \<and> (case task_find_by_pid pid (x_k X) of
         None \<Rightarrow> X' = X \<and> r = (if code \<ge> 21 \<or> pid < 0 then Inl E_INVAL else Inl E_SRCH)
       | Some t \<Rightarrow>
           if code \<ge> 21 \<or> pid < 0 then X' = X \<and> r = Inl E_INVAL
           else if visible (em_block (x_em X t)) code \<or> em_in_user_mode (x_em X t) \<noteq> 0 then X' = X \<and> r = Inl E_PERM
           else if code = EXP_CODE_CONT then r = Inr () \<and> x_em X' = x_em X
             \<and> (if t_state (k_task (x_k X) t) = TASK_STOPPED then woken t (x_k X) (x_k X') else x_k X' = x_k X)
           else if \<not> mem_ok then X' = X \<and> r = Inl E_NOMEM
           else r = Inr () \<and> woken t (x_k X) (x_k X') \<and> (\<forall>u. u \<noteq> t \<longrightarrow> x_em X' u = x_em X u)
             \<and> (if visible (em_catch (x_em X t)) code
                then caught t X' = caught t X @ [code] \<and> pending t X' = pending t X
                else pending t X' = pending t X @ [code] \<and> caught t X' = caught t X))"
proof (cases "(code \<ge> 21 \<or> pid < 0) \<or> task_find_by_pid pid (x_k X) = None")
  case True
  then show ?thesis using X by (auto simp: exception_send_def split: option.splits)
next
  case False
  then obtain t where t: "task_find_by_pid pid (x_k X) = Some t" and c: "code < 21" "\<not> code \<ge> 21" "\<not> pid < 0" by auto
  have em: "em_ok (x_em X t)" using X by (simp add: xst_ok_def)
  let ?b = "visible (em_block (x_em X t)) code \<or> em_in_user_mode (x_em X t) \<noteq> 0"
  note send = exception_send_unfold[OF X t c(1,3), of mem_ok]
  have v15: "code = EXP_CODE_CONT \<Longrightarrow> \<not> visible ws code" for ws by (simp add: visible_def)
  show ?thesis
  proof (cases "?b")
    case True
    then show ?thesis using send t c X by auto
  next
    case nb: False
    consider (cont) "code = EXP_CODE_CONT" | (nomem) "code \<noteq> EXP_CODE_CONT" "\<not> mem_ok"
      | (catch) "code \<noteq> EXP_CODE_CONT" mem_ok "visible (em_catch (x_em X t)) code"
      | (normal) "code \<noteq> EXP_CODE_CONT" mem_ok "\<not> visible (em_catch (x_em X t)) code" by blast
    then show ?thesis
    proof cases
      case cont
      obtain s' where s': "task_wakeup t (x_k X) = Some s'" "woken t (x_k X) s'" "sched_inv s'" "\<not> TASK_NOT_READY (k_task s' (task_current s'))"
        using task_wakeup_woken[OF X] by blast
      show ?thesis using send nb t c cont v15 s' X by (auto simp: exception_filter_def xst_ok_def)
    next
      case nomem
      then show ?thesis using send nb t c X by (auto simp: exception_filter_def send_to_def exception_create_def Let_def)
    next
      case catch
      have "\<exists>X'. send_to True exception_add_catch t code X = Some (Inr (), X') \<and> xst_ok X'
          \<and> (map ex_code (em_catch_list (x_em X' t)) = caught t X @ [code] \<and> map ex_code (em_exception_list (x_em X' t)) = pending t X)
          \<and> (\<forall>u. u \<noteq> t \<longrightarrow> x_em X' u = x_em X u) \<and> woken t (x_k X) (x_k X')"
        by (rule send_to_ok[OF X c(1)]) (use em_ok_add(2)[OF em] c in \<open>auto simp: caught_def pending_def\<close>)
      then show ?thesis using send nb t c catch by (auto simp: caught_def pending_def)
    next
      case normal
      have "\<exists>X'. send_to True exception_add_normal t code X = Some (Inr (), X') \<and> xst_ok X'
          \<and> (map ex_code (em_exception_list (x_em X' t)) = pending t X @ [code] \<and> map ex_code (em_catch_list (x_em X' t)) = caught t X)
          \<and> (\<forall>u. u \<noteq> t \<longrightarrow> x_em X' u = x_em X u) \<and> woken t (x_k X) (x_k X')"
        by (rule send_to_ok[OF X c(1)]) (use em_ok_add(1)[OF em] c in \<open>auto simp: caught_def pending_def\<close>)
      then show ?thesis using send nb t c normal by (auto simp: caught_def pending_def exception_filter_def)
    qed
  qed
qed

text \<open>C19: \<^verbatim>\<open>exception_send\<close> for every argument, in a sound state. A bad code or pid, an unknown
  process, a blocked code, a target that is running a handler and a failed allocation are
  refused with the documented error and change nothing. \<^verbatim>\<open>EXP_CODE_CONT\<close> continues a stopped target and is
  not queued. Any other code is appended to exactly one list of the target: the list for its
  handlers if the catch set has a bit for it that the kernel can see (a code below 8), the kernel's
  list otherwise; no other list of any task changes, the target is woken if it slept, and the
  state stays sound.\<close>

theorem exception_send_correct:
  assumes X: "xst_ok X"
  shows "\<exists>r X'. exception_send mem_ok pid code X = Some (r, X') \<and> xst_ok X'
    \<and> (case task_find_by_pid pid (x_k X) of
         None \<Rightarrow> X' = X \<and> r = (if code \<ge> 21 \<or> pid < 0 then Inl E_INVAL else Inl E_SRCH)
       | Some t \<Rightarrow>
           if code \<ge> 21 \<or> pid < 0 then X' = X \<and> r = Inl E_INVAL
           else if visible (em_block (x_em X t)) code \<or> em_in_user_mode (x_em X t) \<noteq> 0 then X' = X \<and> r = Inl E_PERM
           else if code = EXP_CODE_CONT then r = Inr () \<and> x_em X' = x_em X
             \<and> (if t_state (k_task (x_k X) t) = TASK_STOPPED then woken t (x_k X) (x_k X') else x_k X' = x_k X)
           else if \<not> mem_ok then X' = X \<and> r = Inl E_NOMEM
           else r = Inr () \<and> woken t (x_k X) (x_k X') \<and> (\<forall>u. u \<noteq> t \<longrightarrow> x_em X' u = x_em X u)
             \<and> (if visible (em_catch (x_em X t)) code
                then caught t X' = caught t X @ [code] \<and> pending t X' = pending t X
                else pending t X' = pending t X @ [code] \<and> caught t X' = caught t X))"
  by (rule exception_send_ok[OF X])

definition demo_em :: exception_manager_t where
  "demo_em = \<lparr>em_exception_list = [], em_catch_list = [], em_exception_number = 0, em_catch_number = 0, em_in_user_mode = 0,
     em_block = [0], em_catch = [4], em_handlers = (replicate 21 0)[2 := 0x8000]\<rparr>"

definition demo_xst :: xst where
  "demo_xst = \<lparr>x_em = (\<lambda>_. demo_em), x_k = demo_state\<rparr>"

lemma demo_xst_ok: "xst_ok demo_xst"
  using demo_state_inv by (simp add: xst_ok_def demo_xst_def em_ok_def demo_em_def demo_state_def demo_task_def TASK_NOT_READY_def)

theorem exception_send_correct_witness:
  "\<exists>X'. exception_send True 9 2 demo_xst = Some (Inr (), X') \<and> caught 9 X' = [2] \<and> pending 9 X' = []"
proof -
  have "task_find_by_pid 9 (x_k demo_xst) = Some 9" by (simp add: demo_xst_def demo_state_def task_find_by_pid_def demo_task_def)
  moreover have "visible [4] 2" "\<not> visible [0] 2" by (simp_all add: visible_def)
  ultimately show ?thesis using exception_send_correct[OF demo_xst_ok, of True 9 2]
    by (auto simp: demo_xst_def demo_em_def caught_def pending_def)
qed

text \<open>
  The kernel does not see the bits of codes from 8 on: a handler that a task installs for them, such as
  \<^verbatim>\<open>EXP_CODE_ALRM\<close>, is accepted and never called, the exception goes to the kernel's list.
\<close>

lemma exception_high_codes_uncaught:
  assumes "8 \<le> code"
  shows "\<not> visible ws code"
  using assms by (auto simp: visible_def)


section \<open>Delivery\<close>

text \<open>The codes that the kernel drops.\<close>

definition dropped :: "exception_t \<Rightarrow> bool" where
  "dropped e \<longleftrightarrow> ex_code e \<in> {EXP_CODE_CHLD, EXP_CODE_USER, EXP_CODE_ALRM, EXP_CODE_TRAP}"

definition with_pending :: "tid \<Rightarrow> exception_t list \<Rightarrow> xst \<Rightarrow> xst" where
  "with_pending c es X = upd_em c ((x_em X c)\<lparr>em_exception_list := es, em_exception_number := of_nat (length es)\<rparr>) X"

lemma with_pending_simps [simp]:
  "x_k (with_pending c es X) = x_k X" "em_exception_list (x_em (with_pending c es X) c) = es"
  "em_catch_list (x_em (with_pending c es X) u) = em_catch_list (x_em X u)" "u \<noteq> c \<Longrightarrow> x_em (with_pending c es X) u = x_em X u"
  "with_pending c es (with_pending c es' X) = with_pending c es X" "pending c (with_pending c es X) = map ex_code es"
  by (simp_all add: with_pending_def pending_def)

lemma with_pending_ok:
  assumes "xst_ok X" "set es \<subseteq> set (em_exception_list (x_em X c))"
  shows "xst_ok (with_pending c es X)"
  using assms by (auto simp: xst_ok_def em_ok_def with_pending_def)

lemma with_pending_same: "em_ok (x_em X c) \<Longrightarrow> with_pending c (em_exception_list (x_em X c)) X = X"
proof -
  assume "em_ok (x_em X c)"
  then have "(x_em X c)\<lparr>em_exception_list := em_exception_list (x_em X c), em_exception_number := of_nat (length (em_exception_list (x_em X c)))\<rparr> = x_em X c"
    by (cases "x_em X c") (simp add: em_ok_def)
  then show ?thesis unfolding with_pending_def by (simp only: fun_upd_triv) simp
qed

lemma check_loop_step:
  assumes "em_ok (x_em X c)" "em_exception_list (x_em X c) = e # es"
  shows "check_loop c X = (if dropped e then check_loop c (with_pending c es X)
     else if ex_code e = EXP_CODE_STOP then map_option (\<lambda>(d, s). (d, (with_pending c es X)\<lparr>x_k := s\<rparr>)) (exception_dispatch e (x_k X))
     else Some (Exits (sint (- ex_code e)), with_pending c es X))"
proof -
  have del: "exception_del_normal (x_em X c) e = Some ((x_em X c)\<lparr>em_exception_list := es, em_exception_number := of_nat (length es)\<rparr>)"
    and live: "ex_live e"
    using assms by (auto simp: exception_del_normal_def em_ok_def)
  show ?thesis using assms(2) live
    by (auto simp: check_loop.simps[of c X] del exception_dispatch_def dropped_def with_pending_def bind_eq_Some_conv split: option.splits dispatch.splits)
qed

lemma check_loop_ok:
  assumes "em_ok (x_em X c)"
  shows "check_loop c X = (case dropWhile dropped (em_exception_list (x_em X c)) of
        [] \<Rightarrow> Some (Ignored, with_pending c [] X)
      | e # es' \<Rightarrow> if ex_code e = EXP_CODE_STOP
          then map_option (\<lambda>(d, s). (d, (with_pending c es' X)\<lparr>x_k := s\<rparr>)) (exception_dispatch e (x_k X))
          else Some (Exits (sint (- ex_code e)), with_pending c es' X))"
  using assms
proof (induction "em_exception_list (x_em X c)" arbitrary: X)
  case Nil
  then show ?case using with_pending_same[OF Nil(2)] by (simp add: check_loop.simps[of c X])
next
  case (Cons e es)
  note l = Cons.hyps(2)[symmetric]
  have ok: "em_ok (x_em (with_pending c es X) c)" using Cons.prems l by (auto simp: em_ok_def with_pending_def)
  show ?case
    using check_loop_step[OF Cons.prems l] Cons.hyps(1)[of "with_pending c es X", OF _ ok] l by (simp del: dropWhile_eq_Nil_conv split: list.split)
qed

lemma stop_ok:
  assumes X: "xst_ok X" and some: "\<exists>i < 4. rq (x_k X) i \<noteq> []" and e: "ex_code e = EXP_CODE_STOP"
  defines "c \<equiv> task_current (x_k X)"
  shows "\<exists>s'. exception_dispatch e (x_k X) = Some (Stopped, s') \<and> sched_inv s' \<and> task_current s' \<noteq> c
    \<and> \<not> TASK_NOT_READY (k_task s' (task_current s')) \<and> t_state (k_task s' c) = TASK_STOPPED
    \<and> t_exit_status (k_task s' c) = sint (- EXP_CODE_STOP)"
proof -
  let ?f = "t_exit_status_update (\<lambda>_. sint (- ex_code e))" and ?s = "x_k X"
  have inv: "sched_inv ?s" and nq: "c \<notin> queued ?s" using X by (auto simp: xst_ok_def sched_inv_def c_def)
  have i1: "sched_inv (upd_task c ?f ?s)"
    using inv nq queues_ok_upd_task[of ?s c ?f] queues_okD(8)[of ?s] by (simp add: sched_inv_def prio_ok_def)
  obtain i where i: "i < 4" "rq (upd_task c ?f ?s) i \<noteq> []" using some by auto
  obtain s' where s': "task_block TASK_STOPPED (upd_task c ?f ?s) = Some s'" "sched_inv s'"
    "task_current s' \<in> queued (upd_task c ?f ?s)" "t_state (k_task s' (task_current s')) = TASK_RUNNING"
    "\<And>t. t \<noteq> task_current s' \<Longrightarrow> k_task s' t = (if t = task_current (upd_task c ?f ?s)
       then (k_task (upd_task c ?f ?s) t)\<lparr>t_state := TASK_STOPPED\<rparr> else k_task (upd_task c ?f ?s) t)"
    using task_block_ok[OF i1 i, of TASK_STOPPED] by auto
  have ne: "task_current s' \<noteq> c" using s'(3) nq by auto
  then have "k_task s' c = (?f (k_task ?s c))\<lparr>t_state := TASK_STOPPED\<rparr>" using s'(5)[of c] by (simp add: c_def)
  then show ?thesis using s' ne e by (auto simp: exception_dispatch_def c_def TASK_NOT_READY_def)
qed

text \<open>C22: \<^verbatim>\<open>exception_check_kernel\<close> always comes to an end. It takes the pending exceptions of the
  running task in the order in which they arrived: it drops those that have no effect, and with the first
  other one either stops the task (it leaves the processor in state \<^verbatim>\<open>TASK_STOPPED\<close> and another task
  runs) or ends it with the negated code as status. Later exceptions stay pending, the exceptions
  for handlers are not touched, and the state stays sound.\<close>

theorem exception_check_kernel_correct:
  assumes X: "xst_ok X" and some: "\<exists>i < 4. rq (x_k X) i \<noteq> []"
    and few: "length (em_exception_list (x_em X (task_current (x_k X)))) < 2 ^ 32"
  shows "\<exists>r X'. exception_check_kernel X = Some (r, X') \<and> xst_ok X'
    \<and> (let c = task_current (x_k X); es = em_exception_list (x_em X c) in
       (\<forall>u. em_catch_list (x_em X' u) = em_catch_list (x_em X u))
       \<and> (\<forall>u. u \<noteq> c \<longrightarrow> x_em X' u = x_em X u)
       \<and> (if es = [] then r = Inl E_FAIL \<and> X' = X
          else case dropWhile dropped es of
            [] \<Rightarrow> r = Inr Ignored \<and> pending c X' = [] \<and> x_k X' = x_k X
          | e # es' \<Rightarrow> pending c X' = map ex_code es'
              \<and> (if ex_code e = EXP_CODE_STOP
                 then r = Inr Stopped \<and> t_state (k_task (x_k X') c) = TASK_STOPPED \<and> task_current (x_k X') \<noteq> c
                   \<and> t_exit_status (k_task (x_k X') c) = sint (- EXP_CODE_STOP)
                 else r = Inr (Exits (sint (- ex_code e))) \<and> x_k X' = x_k X)))"
proof -
  define c where "c = task_current (x_k X)"
  define es where "es = em_exception_list (x_em X c)"
  have em: "em_ok (x_em X c)" using X by (simp add: xst_ok_def)
  note sub = with_pending_ok[OF X, of _ c, folded es_def] and loop = check_loop_ok[OF em, folded es_def]
  show ?thesis
  proof (cases "es = []")
    case True
    then show ?thesis using X by (simp add: exception_check_kernel_def c_def[symmetric] es_def Let_def)
  next
    case ne: False
    have n: "em_exception_number (x_em X c) \<noteq> 0"
      using em ne few by (simp add: em_ok_def es_def c_def[symmetric] word_of_nat_eq_0_iff nat_dvd_not_less)
    then have chk: "exception_check_kernel X = map_option (\<lambda>(d, X'). (Inr d, X')) (check_loop c X)"
      using ne by (simp add: exception_check_kernel_def c_def[symmetric] es_def Let_def)
    show ?thesis
    proof (cases "dropWhile dropped es")
      case Nil
      then show ?thesis using chk loop ne sub[of "[]"] by (simp del: dropWhile_eq_Nil_conv add: c_def[symmetric] es_def[symmetric] Let_def)
    next
      case (Cons e es')
      have s: "set es' \<subseteq> set es" using Cons set_dropWhileD[of _ dropped es] by (metis list.set_intros(2) subsetI)
      show ?thesis
      proof (cases "ex_code e = EXP_CODE_STOP")
        case True
        obtain s' where s': "exception_dispatch e (x_k X) = Some (Stopped, s')" "sched_inv s'" "task_current s' \<noteq> c"
          "\<not> TASK_NOT_READY (k_task s' (task_current s'))" "t_state (k_task s' c) = TASK_STOPPED"
          "t_exit_status (k_task s' c) = sint (- EXP_CODE_STOP)"
          using stop_ok[OF X some True] unfolding c_def by blast
        then show ?thesis using chk loop ne Cons True sub[OF s]
          by (auto simp: c_def[symmetric] es_def[symmetric] Let_def xst_ok_def pending_def)
      next
        case False
        then show ?thesis using chk loop ne Cons sub[OF s] by (simp add: c_def[symmetric] es_def[symmetric] Let_def)
      qed
    qed
  qed
qed

definition demo_pending :: xst where
  "demo_pending = with_pending 7 [\<lparr>ex_code = 14, ex_flags = 0, ex_source = 9, ex_live = True\<rparr>, \<lparr>ex_code = 16, ex_flags = 0, ex_source = 9, ex_live = True\<rparr>,
     \<lparr>ex_code = 2, ex_flags = 0, ex_source = 9, ex_live = True\<rparr>] demo_xst"

theorem exception_check_kernel_correct_witness:
  "\<exists>X'. exception_check_kernel demo_pending = Some (Inr Stopped, X') \<and> pending 7 X' = [2] \<and> task_current (x_k X') \<noteq> 7"
proof -
  have c: "task_current (x_k demo_pending) = 7" "x_k demo_pending = demo_state" by (simp_all add: demo_pending_def demo_xst_def demo_state_def)
  have "xst_ok demo_pending"
    using demo_xst_ok by (auto simp: demo_pending_def xst_ok_def em_ok_def with_pending_def)
  moreover have "\<exists>i < 4. rq (x_k demo_pending) i \<noteq> []" by (intro exI[of _ 1]) (simp add: c demo_state_def)
  ultimately show ?thesis using exception_check_kernel_correct[of demo_pending] unfolding c(1)
    by (force simp: demo_pending_def dropped_def Let_def)
qed


section \<open>Handlers return to where the task was\<close>

lemma align8: "unat (x AND (- 8) :: u32) = unat x div 8 * 8"
proof -
  have m: "(- 8 :: u32) = NOT (mask 3)" by (simp add: mask_eq_exp_minus_1)
  have "x AND (- 8) = push_bit 3 (drop_bit 3 x)" unfolding m by (rule bit_word_eqI) (auto simp: bit_simps)
  moreover have "unat (push_bit 3 (drop_bit 3 x)) = take_bit 32 (push_bit 3 (unat x div 8))"
    by (simp add: unsigned_push_bit_eq drop_bit_eq_div unat_div)
  moreover have "push_bit 3 (unat x div 8) < 2 ^ 32"
    using unat_lt_32[of x] times_div_less_eq_dividend[of 8 "unat x"] by (simp add: push_bit_eq_mult)
  ultimately show ?thesis by (simp add: take_bit_nat_eq_self push_bit_eq_mult)
qed

text \<open>C23: Calling a handler and coming back. \<^verbatim>\<open>exception_frame_build\<close> makes the interrupted task
  continue at the handler, in user mode, with an aligned frame below its stack pointer whose return address
  holds the instructions of \<^verbatim>\<open>SYS_EXPRET\<close>. If the handler leaves the frame alone and returns, so that the return address is
  popped, \<^verbatim>\<open>exception_return\<close> restores every register of the interrupted task and lets the
  next exception in.\<close>

theorem exception_frame_roundtrip:
  assumes b: "exception_frame_build code handler frame mem = (frame1, mem1)"
    and ret: "tf_esp frame2 = tf_esp frame1 + 4" "mem2 (tf_esp frame1) = mem1 (tf_esp frame1)"
    and r: "exception_return frame2 mem2 X = (frame3, X')"
  shows "frame3 = frame \<and> em_in_user_mode (x_em X' (task_current (x_k X))) = 0
    \<and> tf_eip frame1 = handler \<and> tf_cs frame1 = 35 \<and> tf_ss frame1 = 43 \<and> tf_eflags frame1 = tf_eflags frame
    \<and> tf_esp frame1 AND 7 = 0 \<and> (unat (tf_esp frame) \<ge> 99 \<longrightarrow> unat (tf_esp frame1) + 92 \<le> unat (tf_esp frame) \<and> unat (tf_esp frame) \<le> unat (tf_esp frame1) + 99)
    \<and> ef_ret_addr (mem1 (tf_esp frame1)) = tf_esp frame1 + 84
    \<and> take 7 (ef_ret_code (mem1 (tf_esp frame1))) = [0xb8, 114, 0, 0, 0, 0xcd, 0x40]"
proof -
  define a where "a = (tf_esp frame - 92) AND (- 8)"
  have f: "tf_esp frame1 = a" "tf_eip frame1 = handler" "tf_cs frame1 = 35" "tf_ss frame1 = 43" "tf_eflags frame1 = tf_eflags frame"
    and m: "ef_trap_frame (mem1 a) = frame" "ef_ret_addr (mem1 a) = a + 84" "take 7 (ef_ret_code (mem1 a)) = [0xb8, 114, 0, 0, 0, 0xcd, 0x40]"
    using b by (auto simp: exception_frame_build_def Let_def a_def le_bytes_def upt_rec)
  have al: "a AND 7 = 0" by (simp add: a_def and.assoc)
  have low: "unat a = unat (tf_esp frame - 92) div 8 * 8" unfolding a_def by (rule align8)
  have "unat (tf_esp frame - 92) = unat (tf_esp frame) - 92" if "unat (tf_esp frame) \<ge> 99"
    using that unat_sub[of 92 "tf_esp frame"] by (simp add: word_le_nat_alt)
  then have "unat a + 92 \<le> unat (tf_esp frame) \<and> unat (tf_esp frame) \<le> unat a + 99" if "unat (tf_esp frame) \<ge> 99"
    using that low by presburger
  then show ?thesis using f m al r ret by (auto simp: exception_return_def Let_def)
qed

definition demo_frame :: trap_frame_t where
  "demo_frame = \<lparr>tf_vec_no = 64, tf_edi = 0, tf_esi = 0, tf_ebp = 0, tf_esp_dummy = 0, tf_ebx = 1, tf_edx = 2, tf_ecx = 3, tf_eax = 4,
     tf_gs = 43, tf_fs = 43, tf_es = 43, tf_ds = 43, tf_error_code = 0, tf_eip = 0x1000, tf_cs = 35, tf_eflags = 0x202, tf_esp = 0x7fff0005, tf_ss = 43\<rparr>"

definition demo_ustack :: "u32 \<Rightarrow> exception_frame_t" where
  "demo_ustack = (\<lambda>_. \<lparr>ef_ret_addr = 0, ef_code = 0, ef_trap_frame = demo_frame, ef_ret_code = replicate 8 0\<rparr>)"

theorem exception_frame_roundtrip_witness:
  "let (frame1, mem1) = exception_frame_build 2 0x8000 (demo_frame\<lparr>tf_eax := 9\<rparr>) demo_ustack in
     tf_eip frame1 = 0x8000 \<and> fst (exception_return (frame1\<lparr>tf_esp := tf_esp frame1 + 4, tf_eax := 114\<rparr>) mem1 demo_xst) = demo_frame\<lparr>tf_eax := 9\<rparr>"
proof -
  obtain frame1 mem1 where b: "exception_frame_build 2 0x8000 (demo_frame\<lparr>tf_eax := 9\<rparr>) demo_ustack = (frame1, mem1)" by fastforce
  let ?f2 = "frame1\<lparr>tf_esp := tf_esp frame1 + 4, tf_eax := 114\<rparr>"
  obtain frame3 X' where r: "exception_return ?f2 mem1 demo_xst = (frame3, X')" by fastforce
  from exception_frame_roundtrip[OF b _ refl r] show ?thesis by (simp add: b r)
qed

end
