(* ===== verification/Process.thy ===== *)
theory Process
  imports Exception Kernel
begin

text \<open>
  How processes and threads end and are collected: \<^verbatim>\<open>src/task/exit.c\<close>, \<^verbatim>\<open>src/task/wait.c\<close>, the thread
  operations of \<^verbatim>\<open>src/task/pthread.c\<close>, and the functions of \<^verbatim>\<open>src/task/process.c\<close> and
  \<^verbatim>\<open>src/task/task.c\<close> that these call. A task that ends stays in the list of all tasks, \<^verbatim>\<open>TASK_HANGING\<close> if its
  parent was waiting and \<^verbatim>\<open>TASK_ZOMBIE\<close> otherwise, until its parent frees it.

  Unmapping the address space, closing files, cancelling the sleep timer and giving up the communication port in
  \<^verbatim>\<open>proc_release\<close> are recorded as one event in \<open>ps_released\<close>; the exit hooks of drivers are
  left out. A wait that sleeps is split at the sleep.
\<close>

section \<open>State\<close>

text \<open>
  Beside the scheduler and the exceptions: whether a task has an address space (\<open>ps_vmm\<close>), the
  descriptor that the threads of a process share (\<open>ps_pthread\<close>, by its address) with its thread count, and the
  tasks whose memory has been freed.
\<close>

record pst =
  ps_x :: xst
  ps_vmm :: "tid \<Rightarrow> bool"
  ps_pthread :: "tid \<Rightarrow> nat option"
  ps_count :: "nat \<Rightarrow> int"
  ps_freed :: "tid list"
  ps_released :: "tid list"

abbreviation ps_k :: "pst \<Rightarrow> kst" where "ps_k P \<equiv> x_k (ps_x P)"

abbreviation set_k :: "kst \<Rightarrow> pst \<Rightarrow> pst" where "set_k s P \<equiv> P\<lparr>ps_x := (ps_x P)\<lparr>x_k := s\<rparr>\<rparr>"

abbreviation cur :: "pst \<Rightarrow> tid" where "cur P \<equiv> task_current (ps_k P)"

abbreviation (input) THREAD_FLAG_DETACH :: u32 where "THREAD_FLAG_DETACH \<equiv> 1"
abbreviation (input) THREAD_FLAG_JOINED :: u32 where "THREAD_FLAG_JOINED \<equiv> 2"
abbreviation (input) THREAD_FLAG_JOINING :: u32 where "THREAD_FLAG_JOINING \<equiv> 4"
abbreviation (input) THREAD_FLAG_CANCEL_DISABLE :: u32 where "THREAD_FLAG_CANCEL_DISABLE \<equiv> 8"
abbreviation (input) THREAD_FLAG_CANCEL_ASYCHRONOUS :: u32 where "THREAD_FLAG_CANCEL_ASYCHRONOUS \<equiv> 16"
abbreviation (input) THREAD_FLAG_CANCELED :: u32 where "THREAD_FLAG_CANCELED \<equiv> 32"

abbreviation has_flag :: "u32 \<Rightarrow> task_t \<Rightarrow> bool" where "has_flag f t \<equiv> t_flags t AND f \<noteq> 0"

definition TASK_IS_SINGAL_THREAD :: "tid \<Rightarrow> pst \<Rightarrow> bool" where
  "TASK_IS_SINGAL_THREAD t P \<longleftrightarrow>
     (case ps_pthread P t of None \<Rightarrow> True | Some d \<Rightarrow> ps_count P d \<le> 1) \<and> \<not> has_flag THREAD_FLAG_KERNEL (k_task (ps_k P) t)"


section \<open>Freeing tasks\<close>

definition task_free :: "tid \<Rightarrow> pst \<Rightarrow> pst" where
  "task_free t P = (set_k ((ps_k P)\<lparr>k_global := remove1 t (k_global (ps_k P))\<rparr>) P)\<lparr>ps_freed := ps_freed P @ [t]\<rparr>"

definition proc_destroy :: "tid \<Rightarrow> bool \<Rightarrow> pst \<Rightarrow> unit res \<times> pst" where
  "proc_destroy t thread P =
     (if \<not> thread then
        if \<not> ps_vmm P t then (Inl E_FAIL, P)
        else (Inr (), task_free t (P\<lparr>ps_vmm := (ps_vmm P)(t := False)\<rparr>))
      else (Inr (), task_free t P))"

text \<open>The choice that every caller of \<^verbatim>\<open>proc_destroy\<close> for a child makes.\<close>

definition destroy_child :: "tid \<Rightarrow> pst \<Rightarrow> pst" where
  "destroy_child t P = snd (proc_destroy t (\<not> TASK_IS_SINGAL_THREAD t P) P)"

fun zombie_loop :: "int \<Rightarrow> tid list \<Rightarrow> int \<Rightarrow> pst \<Rightarrow> int \<times> pst" where
  "zombie_loop ppid [] zombie P = (zombie, P)"
| "zombie_loop ppid (t # ts) zombie P =
     (let task = k_task (ps_k P) t in
      if t_parent_pid task = ppid \<and> t_state task = TASK_ZOMBIE
      then zombie_loop ppid ts (if zombie = -1 then t_pid task else zombie) (destroy_child t P)
      else zombie_loop ppid ts zombie P)"

definition proc_deal_zombie_child :: "tid \<Rightarrow> pst \<Rightarrow> int \<times> pst" where
  "proc_deal_zombie_child parent P = zombie_loop (t_pid (k_task (ps_k P) parent)) (k_global (ps_k P)) (-1) P"

text \<open>\<^verbatim>\<open>list_del_init\<close> takes a ready thread off its run queue, whose length is not adjusted.\<close>

definition proc_close_one_thread :: "tid \<Rightarrow> pst \<Rightarrow> pst" where
  "proc_close_one_thread t P =
     (let P1 = (if t_state (k_task (ps_k P) t) = TASK_READY then set_k (list_unlink t (ps_k P)) P else P)
      in snd (proc_destroy t True P1))"

fun close_loop :: "tid \<Rightarrow> tid list \<Rightarrow> pst \<Rightarrow> pst" where
  "close_loop c [] P = P"
| "close_loop c (t # ts) P =
     (let k = k_task (ps_k P) in
      close_loop c ts (if t_tgid (k c) = t_tgid (k t) \<and> t_pid (k c) \<noteq> t_pid (k t) then proc_close_one_thread t P else P))"

definition proc_close_other_threads :: "tid \<Rightarrow> pst \<Rightarrow> pst" where
  "proc_close_other_threads c P =
     (let P1 = close_loop c (k_global (ps_k P)) P in
      case ps_pthread P1 c of None \<Rightarrow> P1 | Some d \<Rightarrow> P1\<lparr>ps_count := (ps_count P1)(d := 0)\<rparr>)"

definition proc_release :: "tid \<Rightarrow> pst \<Rightarrow> pst option" where
  "proc_release t P = do {
     em \<leftarrow> exception_manager_exit (x_em (ps_x P) t);
     Some (P\<lparr>ps_x := upd_em t em (ps_x P), ps_pthread := (ps_pthread P)(t := None), ps_released := ps_released P @ [t]\<rparr>) }"

definition task_count_children :: "tid \<Rightarrow> pst \<Rightarrow> nat" where
  "task_count_children parent P =
     length (filter (\<lambda>t. t_parent_pid (k_task (ps_k P) t) = t_pid (k_task (ps_k P) parent) \<and> TASK_IS_SINGAL_THREAD t P) (k_global (ps_k P)))"


section \<open>Exit\<close>

fun adopt_loop :: "int \<Rightarrow> tid list \<Rightarrow> kst \<Rightarrow> kst" where
  "adopt_loop ppid [] s = s"
| "adopt_loop ppid (t # ts) s =
     adopt_loop ppid ts (if t_parent_pid (k_task s t) = ppid then upd_task t (t_parent_pid_update (\<lambda>_. USER_INIT_PROC_ID)) s else s)"

definition adopt_children_to_init :: "tid \<Rightarrow> kst \<Rightarrow> kst" where
  "adopt_children_to_init parent s = adopt_loop (t_pid (k_task s parent)) (k_global s) s"

text \<open>The end of every exit: wake a waiting parent and hang, or become a zombie.\<close>

definition leave :: "kst \<Rightarrow> kst option" where
  "leave s =
     (case task_find_by_pid (t_parent_pid (k_task s (task_current s))) s of
        Some parent \<Rightarrow>
          if t_state (k_task s parent) = TASK_WAITING then do { s1 \<leftarrow> task_unblock parent s; task_block TASK_HANGING s1 }
          else task_block TASK_ZOMBIE s
      | None \<Rightarrow> task_block TASK_ZOMBIE s)"

definition sys_exit :: "int \<Rightarrow> pst \<Rightarrow> pst option" where
  "sys_exit status P = (let c = cur P in do {
     let P1 = set_k (upd_task c (t_exit_status_update (\<lambda>_. status)) (ps_k P)) P;
     let P2 = proc_close_other_threads c P1;
     let P3 = snd (proc_deal_zombie_child c P2);
     let P4 = set_k (adopt_children_to_init c (ps_k P3)) P3;
     P5 \<leftarrow> proc_release c P4;
     s \<leftarrow> leave (ps_k P5);
     Some (set_k s P5) })"

definition task_exit :: "int \<Rightarrow> kst \<Rightarrow> kst option" where
  "task_exit status s =
     (let c = task_current s in
      if t_pid (k_task s c) = USER_INIT_PROC_ID then Some s
      else leave (upd_task c (\<lambda>t. t\<lparr>t_exit_status := status, t_parent_pid := USER_INIT_PROC_ID\<rparr>) s))"

text \<open>A thread of a process without a thread descriptor reads through a null pointer.\<close>

definition pthread_exit :: "int \<Rightarrow> pst \<Rightarrow> pst option" where
  "pthread_exit status P = (let c = cur P in
     case ps_pthread P c of None \<Rightarrow> None
     | Some d \<Rightarrow>
        (let P1 = P\<lparr>ps_count := (ps_count P)(d := ps_count P d - 1)\<rparr> in
         if ps_count P1 d = 0 then sys_exit status P1
         else do {
           let s1 = upd_task c (t_exit_status_update (\<lambda>_. status)) (ps_k P1);
           s2 \<leftarrow> (if has_flag THREAD_FLAG_DETACH (k_task s1 c) then
              do { s' \<leftarrow> (if has_flag THREAD_FLAG_JOINED (k_task s1 c) then
                     case task_find_by_pid (t_parent_pid (k_task s1 c)) s1 of
                       Some p \<Rightarrow> if t_state (k_task s1 p) = TASK_WAITING \<and> t_tgid (k_task s1 p) = t_tgid (k_task s1 c)
                          then task_unblock p (upd_task p (t_flags_update (\<lambda>f. f AND NOT THREAD_FLAG_JOINING)) s1) else Some s1
                     | None \<Rightarrow> Some s1
                   else Some s1);
                Some (upd_task c (t_parent_pid_update (\<lambda>_. USER_INIT_PROC_ID)) s') }
              else Some s1);
           s3 \<leftarrow> leave s2;
           Some (set_k s3 P1) }))"


section \<open>Wait\<close>

text \<open>
  \<open>wait_hanging\<close> is \<^verbatim>\<open>wait_any_hangging_child\<close> and \<^verbatim>\<open>wait_one_hangging_child\<close>, which differ in
  the children they accept: the first hanging one is freed; its pid and exit status are the result.
\<close>

definition wait_hanging :: "(task_t \<Rightarrow> bool) \<Rightarrow> pst \<Rightarrow> (int \<times> int \<times> pst) option" where
  "wait_hanging accept P =
     (case find (\<lambda>t. accept (k_task (ps_k P) t) \<and> t_state (k_task (ps_k P) t) = TASK_HANGING) (k_global (ps_k P)) of
        None \<Rightarrow> None
      | Some t \<Rightarrow> Some (t_pid (k_task (ps_k P) t), t_exit_status (k_task (ps_k P) t), destroy_child t P))"

definition wait_any_hangging_child :: "tid \<Rightarrow> pst \<Rightarrow> (int \<times> int \<times> pst) option" where
  "wait_any_hangging_child parent P = wait_hanging (\<lambda>t. t_parent_pid t = t_pid (k_task (ps_k P) parent)) P"

definition wait_one_hangging_child :: "int \<Rightarrow> pst \<Rightarrow> (int \<times> int \<times> pst) option" where
  "wait_one_hangging_child pid P = wait_hanging (\<lambda>t. t_pid t = pid) P"

text \<open>
  One round of the loop of \<^verbatim>\<open>sys_waitpid\<close> up to the sleep: the call returns a number and
  stores a status, if it has one, or it is going to sleep.
\<close>

datatype wait_out = Returns int "int option" | Sleeps | Gone

definition wait_round :: "int \<Rightarrow> u32 \<Rightarrow> pst \<Rightarrow> wait_out \<times> pst" where
  "wait_round pid options P0 = (let c = cur P0;
       (first, P) = (case (if pid = -1 then wait_any_hangging_child c P0 else wait_one_hangging_child pid P0) of
          None \<Rightarrow> (None, P0) | Some (child, st, P') \<Rightarrow> (if child \<ge> 0 then Some (child, st) else None, P')) in
     case first of
       Some (child, st) \<Rightarrow> (Returns child (Some st), P)
     | None \<Rightarrow>
         (let (z, P1) = proc_deal_zombie_child c P in
          if z > 0 \<and> (pid = -1 \<or> z = pid) then (Returns z None, P1)
          else if task_count_children c P1 = 0 then (Returns (-1) None, P1)
          else if options AND 1 \<noteq> 0 then (Returns 0 None, P1)
          else (Sleeps, P1)))"

definition wait_sleep :: "pst \<Rightarrow> pst option" where
  "wait_sleep P = map_option (\<lambda>s. set_k s P) (task_block TASK_WAITING (ps_k P))"

text \<open>What the task does when it is woken: give up for a pending exception or start the next round.\<close>

definition wait_resume :: "int \<Rightarrow> u32 \<Rightarrow> pst \<Rightarrow> (wait_out res \<times> pst) option" where
  "wait_resume pid options P = do {
     e \<leftarrow> exception_cause_exit_when_wait (x_em (ps_x P) (cur P));
     if e then Some (Inl E_INTR, P) else let (r, P') = wait_round pid options P in Some (Inr r, P') }"

definition sys_waitpid :: "int \<Rightarrow> u32 \<Rightarrow> u32 \<Rightarrow> umem \<Rightarrow> pst \<Rightarrow> (wait_out res \<times> umem \<times> pst) option" where
  "sys_waitpid pid status options um P =
     (if status \<noteq> 0 \<and> safety_check_range status 4 um \<noteq> Inr () then Some (Inl E_FAIL, um, P)
      else let t = k_task (ps_k P) (cur P) in
        if \<not> has_flag THREAD_FLAG_CANCEL_DISABLE t \<and> has_flag THREAD_FLAG_CANCELED t
        then map_option (\<lambda>P'. (Inr Gone, um, P')) (pthread_exit 32 P)
        else case wait_round pid options P of
          (Returns r st, P') \<Rightarrow>
            Some (Inr (Returns r st),
              (case st of None \<Rightarrow> um
               | Some v \<Rightarrow> if status = 0 then um else (case mem_copy_to_user status [word_of_int v] um of None \<Rightarrow> um | Some um' \<Rightarrow> um')), P')
        | (_, P') \<Rightarrow> map_option (\<lambda>P''. (Inr Sleeps, um, P'')) (wait_sleep P'))"


section \<open>Threads\<close>

abbreviation or_flag :: "u32 \<Rightarrow> tid \<Rightarrow> kst \<Rightarrow> kst" where
  "or_flag f t \<equiv> upd_task t (t_flags_update (\<lambda>g. g OR f))"

abbreviation clear_flag :: "u32 \<Rightarrow> tid \<Rightarrow> kst \<Rightarrow> kst" where
  "clear_flag f t \<equiv> upd_task t (t_flags_update (\<lambda>g. g AND NOT f))"

text \<open>
  \<open>alloc\<close> and \<open>desc\<close> are the results of the allocations of the task and of the descriptor; \<open>detached\<close> is the
  attribute. The pid is used up even when there are too many threads.
\<close>

definition pthread_start :: "tid option \<Rightarrow> nat option \<Rightarrow> bool \<Rightarrow> pst \<Rightarrow> (tid res \<times> pst) option" where
  "pthread_start alloc desc detached P =
     (let c = cur P in
      case (case ps_pthread P c of Some d \<Rightarrow> Some (d, P)
            | None \<Rightarrow> map_option (\<lambda>d. (d, P\<lparr>ps_pthread := (ps_pthread P)(c := Some d), ps_count := (ps_count P)(d := 1)\<rparr>)) desc) of
        None \<Rightarrow> Some (Inl E_FAIL, P)
      | Some (d, P1) \<Rightarrow>
          (case alloc of
             None \<Rightarrow> Some (Inl E_FAIL, P1)
           | Some t \<Rightarrow> do {
               let s0 = ps_k P1;
               let par = k_task s0 c;
               let s1 = upd_task t (\<lambda>k. k\<lparr>t_tgid := (if t_tgid par = t_pid par then t_pid par else t_tgid par), t_parent_pid := t_pid par,
                   t_pgid := t_pgid par, t_flags := (if detached then t_flags k OR THREAD_FLAG_DETACH else t_flags k)\<rparr>) (task_init t 2 s0);
               let X1 = upd_em t (exception_manager_init (x_em (ps_x P1) t)) ((ps_x P1)\<lparr>x_k := s1\<rparr>);
               if ps_count P1 d + 1 > 32 then Some (Inl E_FAIL, P1\<lparr>ps_x := X1, ps_freed := ps_freed P1 @ [t]\<rparr>)
               else do {
                 s2 \<leftarrow> task_add_to_global_list t s1;
                 s3 \<leftarrow> sched_queue_add_tail t s2;
                 Some (Inr t, P1\<lparr>ps_x := X1\<lparr>x_k := s3\<rparr>, ps_vmm := (ps_vmm P1)(t := ps_vmm P1 c), ps_pthread := (ps_pthread P1)(t := Some d),
                    ps_count := (ps_count P1)(d := ps_count P1 d + 1)\<rparr>) } }))"

definition wait_one_hangging_thread :: "int \<Rightarrow> pst \<Rightarrow> (int \<times> pst) option" where
  "wait_one_hangging_thread pid P =
     (case find (\<lambda>t. t_pid (k_task (ps_k P) t) = pid \<and> t_state (k_task (ps_k P) t) = TASK_HANGING) (k_global (ps_k P)) of
        None \<Rightarrow> None
      | Some t \<Rightarrow> Some (t_exit_status (k_task (ps_k P) t), snd (proc_destroy t True P)))"

text \<open>
  \<^verbatim>\<open>pthread_join\<close>: the checks, and one round of its loop. \<open>Joined st\<close> is the end of the loop with
  the status to store, \<open>Waiting t\<close> the sleep; \<open>t\<close> is the task that was found.
\<close>

datatype join_out = Refused | Joined int | Waiting tid

definition join_round :: "tid \<Rightarrow> pst \<Rightarrow> (join_out \<times> pst) option" where
  "join_round t P =
     (if t \<in> set (ps_freed P) then None
      else case wait_one_hangging_thread (t_pid (k_task (ps_k P) t)) P of
        Some (st, P') \<Rightarrow> Some (Joined st, P')
      | None \<Rightarrow>
          if \<not> has_flag THREAD_FLAG_JOINING (k_task (ps_k P) (cur P)) then Some (Joined 0, P)
          else map_option (\<lambda>s. (Waiting t, set_k s P)) (task_block TASK_WAITING (ps_k P)))"

definition pthread_join :: "int \<Rightarrow> pst \<Rightarrow> (join_out \<times> pst) option" where
  "pthread_join thread P =
     (let s = ps_k P in
      case find (\<lambda>t. t_pid (k_task s t) = thread \<and> t_state (k_task s t) \<noteq> TASK_ZOMBIE) (k_global s) of
        None \<Rightarrow> Some (Refused, P)
      | Some t \<Rightarrow>
          if has_flag THREAD_FLAG_DETACH (k_task s t) \<or> has_flag THREAD_FLAG_JOINED (k_task s t) then Some (Refused, P)
          else join_round t (set_k (or_flag THREAD_FLAG_JOINING (cur P)
                 (upd_task t (\<lambda>k. k\<lparr>t_flags := t_flags k OR THREAD_FLAG_JOINED, t_parent_pid := t_pid (k_task s (cur P))\<rparr>) s)) P))"

definition sys_thread_detach :: "int \<Rightarrow> kst \<Rightarrow> (unit res \<times> kst) option" where
  "sys_thread_detach thread s =
     (case task_find_by_pid thread s of
        None \<Rightarrow> Some (Inl E_FAIL, s)
      | Some t \<Rightarrow>
          (let s1 = or_flag THREAD_FLAG_DETACH t s in
           map_option (\<lambda>s'. (Inr (), s'))
             (if has_flag THREAD_FLAG_JOINED (k_task s1 t) then
                case task_find_by_pid (t_parent_pid (k_task s1 t)) s1 of
                  None \<Rightarrow> Some s1
                | Some p \<Rightarrow> if t_state (k_task s1 p) = TASK_WAITING \<and> t_tgid (k_task s1 p) = t_tgid (k_task s1 t)
                    then task_unblock p (clear_flag THREAD_FLAG_JOINING p s1) else Some s1
              else Some s1)))"

definition sys_thread_cancel :: "int \<Rightarrow> pst \<Rightarrow> (unit res \<times> pst) option" where
  "sys_thread_cancel thread P =
     (case task_find_by_pid thread (ps_k P) of
        None \<Rightarrow> Some (Inl E_FAIL, P)
      | Some t \<Rightarrow>
          (let P1 = set_k (or_flag THREAD_FLAG_CANCELED t (ps_k P)) P in
           if has_flag THREAD_FLAG_CANCEL_ASYCHRONOUS (k_task (ps_k P1) t) then
             if t = cur P then map_option (\<lambda>P'. (Inr (), P')) (pthread_exit 16 P1)
             else Some (Inr (), proc_close_one_thread t P1)
           else Some (Inr (), P1)))"

definition sys_thread_testcancel :: "pst \<Rightarrow> pst option" where
  "sys_thread_testcancel P =
     (let t = k_task (ps_k P) (cur P) in
      if \<not> has_flag THREAD_FLAG_CANCEL_DISABLE t \<and> has_flag THREAD_FLAG_CANCELED t then pthread_exit 32 P else Some P)"

text \<open>The two calls for cancellation store the old setting and take the new one: \<open>vals\<close> are the numbers for a cleared and a set flag.\<close>

definition set_cancel :: "u32 \<Rightarrow> (u32 \<times> u32) \<Rightarrow> u32 \<Rightarrow> u32 \<Rightarrow> umem \<Rightarrow> kst \<Rightarrow> unit res \<times> umem \<times> kst" where
  "set_cancel flag vals new old um s =
     (let c = task_current s;
          stored = (if old = 0 then Some um else mem_copy_to_user old [if has_flag flag (k_task s c) then snd vals else fst vals] um) in
      case stored of None \<Rightarrow> (Inl E_FAIL, um, s)
      | Some um' \<Rightarrow>
          if new = snd vals then (Inr (), um', or_flag flag c s)
          else if new = fst vals then (Inr (), um', clear_flag flag c s)
          else (Inl E_FAIL, um', s))"

definition sys_thread_setcancelstate :: "u32 \<Rightarrow> u32 \<Rightarrow> umem \<Rightarrow> kst \<Rightarrow> unit res \<times> umem \<times> kst" where
  "sys_thread_setcancelstate state oldstate um s = set_cancel THREAD_FLAG_CANCEL_DISABLE (1, 0) state oldstate um s"

definition sys_thread_setcanceltype :: "u32 \<Rightarrow> u32 \<Rightarrow> umem \<Rightarrow> kst \<Rightarrow> unit res \<times> umem \<times> kst" where
  "sys_thread_setcanceltype type oldtype um s = set_cancel THREAD_FLAG_CANCEL_ASYCHRONOUS (2, 3) type oldtype um s"


section \<open>Creation\<close>

text \<open>
  \<open>alloc\<close> is the allocated task; \<open>fd_ok\<close>, \<open>vmm_ok\<close> and \<open>arg_ok\<close> tell whether the descriptor table, the
  address space and the argument buffer could be built. \<open>init\<close> and \<open>stop\<close> are the flags.
\<close>

definition process_create :: "tid option \<Rightarrow> bool \<Rightarrow> bool \<Rightarrow> bool \<Rightarrow> bool \<Rightarrow> bool \<Rightarrow> pst \<Rightarrow> (tid res \<times> pst) option" where
  "process_create alloc fd_ok vmm_ok arg_ok init stop P =
     (case alloc of
        None \<Rightarrow> Some (Inl E_FAIL, P)
      | Some t \<Rightarrow> do {
          let par = k_task (ps_k P) (cur P);
          let s1 = upd_task t (\<lambda>k. if init then k\<lparr>t_pid := USER_INIT_PROC_ID, t_tgid := USER_INIT_PROC_ID, t_pgid := 0\<rparr>
                     else k\<lparr>t_parent_pid := t_pid par, t_pgid := t_pgid par\<rparr>) (task_init t 2 (ps_k P));
          if \<not> fd_ok \<or> \<not> vmm_ok \<or> \<not> arg_ok then Some (Inl E_FAIL, (set_k s1 P)\<lparr>ps_freed := ps_freed P @ [t]\<rparr>)
          else do {
            s2 \<leftarrow> task_add_to_global_list t s1;
            s3 \<leftarrow> (if stop then Some (set_state t TASK_STOPPED s2) else sched_queue_add_tail t s2);
            Some (Inr t, (set_k s3 P)\<lparr>ps_vmm := (ps_vmm P)(t := True), ps_pthread := (ps_pthread P)(t := None)\<rparr>) } })"

definition sys_resume_process :: "int \<Rightarrow> kst \<Rightarrow> (unit res \<times> kst) option" where
  "sys_resume_process pid s =
     (case task_find_by_pid pid s of
        None \<Rightarrow> Some (Inl E_PERM, s)
      | Some child \<Rightarrow>
          if t_parent_pid (k_task s child) \<noteq> t_pid (k_task s (task_current s)) then Some (Inl E_PERM, s)
          else if t_state (k_task s child) \<noteq> TASK_STOPPED then Some (Inl E_BUSY, s)
          else map_option (\<lambda>s'. (Inr (), s')) (task_wakeup child s))"


section \<open>Freeing changes nothing but the list of tasks\<close>

definition destroyable :: "pst \<Rightarrow> tid \<Rightarrow> bool" where
  "destroyable P t \<longleftrightarrow> (TASK_IS_SINGAL_THREAD t P \<longrightarrow> ps_vmm P t)"

definition same_but_list :: "pst \<Rightarrow> pst \<Rightarrow> bool" where
  "same_but_list P P' \<longleftrightarrow> (\<exists>g. ps_k P' = (ps_k P)\<lparr>k_global := g\<rparr>) \<and> x_em (ps_x P') = x_em (ps_x P)
     \<and> ps_pthread P' = ps_pthread P \<and> ps_count P' = ps_count P \<and> ps_released P' = ps_released P"

lemma same_but_list_simps:
  assumes "same_but_list P P'"
  shows "k_task (ps_k P') = k_task (ps_k P)" "k_su (ps_k P') = k_su (ps_k P)" "k_wait (ps_k P') = k_wait (ps_k P)"
    "x_em (ps_x P') = x_em (ps_x P)" "TASK_IS_SINGAL_THREAD t P' = TASK_IS_SINGAL_THREAD t P" "queued (ps_k P') = queued (ps_k P)"
    "sched_inv (ps_k P') = sched_inv (ps_k P)"
  using assms by (auto simp: same_but_list_def TASK_IS_SINGAL_THREAD_def sched_inv_def queues_ok_def queued_def split: option.splits)

lemma same_but_list_refl [simp]: "same_but_list P P"
  by (auto simp: same_but_list_def intro: exI[of _ "k_global (ps_k P)"])

lemma same_but_list_trans: "same_but_list P Q \<Longrightarrow> same_but_list Q R \<Longrightarrow> same_but_list P R"
  by (auto simp: same_but_list_def)

lemma destroy_child_eq:
  "destroy_child t P = (if destroyable P t then task_free t (if TASK_IS_SINGAL_THREAD t P then P\<lparr>ps_vmm := (ps_vmm P)(t := False)\<rparr> else P) else P)"
  by (auto simp: destroy_child_def proc_destroy_def destroyable_def)

lemma destroy_child_ok:
  assumes "distinct (k_global (ps_k P))"
  shows "same_but_list P (destroy_child t P)" "u \<noteq> t \<Longrightarrow> ps_vmm (destroy_child t P) u = ps_vmm P u"
    "k_global (ps_k (destroy_child t P)) = filter (\<lambda>u. \<not> (u = t \<and> destroyable P u)) (k_global (ps_k P))"
proof -
  show "same_but_list P (destroy_child t P)" by (cases "destroyable P t") (auto simp: destroy_child_eq task_free_def same_but_list_def)
  show "u \<noteq> t \<Longrightarrow> ps_vmm (destroy_child t P) u = ps_vmm P u" by (simp add: destroy_child_eq task_free_def)
  have "remove1 t (k_global (ps_k P)) = filter (\<lambda>u. u \<noteq> t) (k_global (ps_k P))"
    using assms by (simp add: distinct_remove1_removeAll removeAll_filter_not_eq) (metis (mono_tags))
  moreover have "filter (\<lambda>u. \<not> (u = t \<and> destroyable P u)) (k_global (ps_k P)) = (if destroyable P t then filter (\<lambda>u. u \<noteq> t) (k_global (ps_k P)) else k_global (ps_k P))"
    by (auto intro: filter_cong filter_True)
  ultimately show "k_global (ps_k (destroy_child t P)) = filter (\<lambda>u. \<not> (u = t \<and> destroyable P u)) (k_global (ps_k P))"
    by (simp add: destroy_child_eq task_free_def)
qed

definition zombie_of :: "int \<Rightarrow> kst \<Rightarrow> tid \<Rightarrow> bool" where
  "zombie_of ppid s t \<longleftrightarrow> t_parent_pid (k_task s t) = ppid \<and> t_state (k_task s t) = TASK_ZOMBIE"

lemma zombie_loop_ok:
  assumes "distinct ts" "distinct (k_global (ps_k P))" "\<forall>t \<in> set ts. t_pid (k_task (ps_k P) t) \<noteq> -1"
  shows "\<exists>P'. zombie_loop ppid ts z P = ((if z = -1 then case find (zombie_of ppid (ps_k P)) ts of None \<Rightarrow> -1 | Some t \<Rightarrow> t_pid (k_task (ps_k P) t) else z), P')
    \<and> same_but_list P P'
    \<and> k_global (ps_k P') = filter (\<lambda>t. \<not> (t \<in> set ts \<and> zombie_of ppid (ps_k P) t \<and> destroyable P t)) (k_global (ps_k P))"
  using assms
proof (induction ts arbitrary: z P)
  case Nil
  then show ?case by simp
next
  case (Cons t ts)
  show ?case
  proof (cases "zombie_of ppid (ps_k P) t")
    case True
    define P1 where "P1 = destroy_child t P"
    note d = destroy_child_ok(1)[OF Cons.prems(2), of t, folded P1_def] destroy_child_ok(2)[OF Cons.prems(2), of _ t, folded P1_def]
      destroy_child_ok(3)[OF Cons.prems(2), of t, folded P1_def]
    note s1 = same_but_list_simps[OF d(1)]
    have "destroyable P1 u = destroyable P u" if "u \<noteq> t" for u using that d(2) s1(5) by (simp add: destroyable_def)
    then have d1: "\<forall>u \<in> set ts. destroyable P1 u = destroyable P u" using Cons.prems(1) by (metis distinct.simps(2))
    have z1: "zombie_of ppid (ps_k P1) = zombie_of ppid (ps_k P)" using s1(1) by (simp add: zombie_of_def fun_eq_iff)
    obtain P' where P': "zombie_loop ppid ts (if z = -1 then t_pid (k_task (ps_k P) t) else z) P1 = ((if z = -1 then t_pid (k_task (ps_k P) t) else z), P')"
      "same_but_list P1 P'" "k_global (ps_k P') = filter (\<lambda>u. \<not> (u \<in> set ts \<and> zombie_of ppid (ps_k P1) u \<and> destroyable P1 u)) (k_global (ps_k P1))"
      using Cons.IH[of P1 "if z = -1 then t_pid (k_task (ps_k P) t) else z"] Cons.prems s1(1) d(3) by (fastforce simp: distinct_filter)
    have "k_global (ps_k P') = filter (\<lambda>u. \<not> (u \<in> set (t # ts) \<and> zombie_of ppid (ps_k P) u \<and> destroyable P u)) (k_global (ps_k P))"
      unfolding P'(3) d(3) z1 filter_filter using True Cons.prems(1) d1 by (intro filter_cong) auto
    moreover have "zombie_loop ppid (t # ts) z P = zombie_loop ppid ts (if z = -1 then t_pid (k_task (ps_k P) t) else z) P1"
      using True by (simp add: zombie_of_def P1_def Let_def)
    ultimately show ?thesis using P'(1,2) d(1) True same_but_list_trans by auto
  next
    case False
    then have "zombie_loop ppid (t # ts) z P = zombie_loop ppid ts z P" by (auto simp: zombie_of_def Let_def)
    moreover have "filter (\<lambda>u. \<not> (u \<in> set (t # ts) \<and> zombie_of ppid (ps_k P) u \<and> destroyable P u)) (k_global (ps_k P))
      = filter (\<lambda>u. \<not> (u \<in> set ts \<and> zombie_of ppid (ps_k P) u \<and> destroyable P u)) (k_global (ps_k P))"
      using False by (intro filter_cong) auto
    ultimately show ?thesis using False Cons.IH[of P z] Cons.prems by (cases "z = -1") simp_all
  qed
qed

text \<open>The tasks of the list that are left after the zombies of a parent have been freed.\<close>

definition survivors :: "int \<Rightarrow> pst \<Rightarrow> tid list" where
  "survivors ppid P = filter (\<lambda>t. \<not> (zombie_of ppid (ps_k P) t \<and> destroyable P t)) (k_global (ps_k P))"

lemma proc_deal_zombie_child_ok:
  assumes "distinct (k_global (ps_k P))" "\<forall>t \<in> set (k_global (ps_k P)). t_pid (k_task (ps_k P) t) \<noteq> -1"
  shows "\<exists>P'. proc_deal_zombie_child c P
      = ((case find (zombie_of (t_pid (k_task (ps_k P) c)) (ps_k P)) (k_global (ps_k P)) of None \<Rightarrow> -1 | Some t \<Rightarrow> t_pid (k_task (ps_k P) t)), P')
    \<and> same_but_list P P' \<and> k_global (ps_k P') = survivors (t_pid (k_task (ps_k P) c)) P"
proof -
  from zombie_loop_ok[OF assms(1) assms, of "t_pid (k_task (ps_k P) c)" "-1"] obtain P' where P':
    "zombie_loop (t_pid (k_task (ps_k P) c)) (k_global (ps_k P)) (-1) P
      = ((case find (zombie_of (t_pid (k_task (ps_k P) c)) (ps_k P)) (k_global (ps_k P)) of None \<Rightarrow> -1 | Some t \<Rightarrow> t_pid (k_task (ps_k P) t)), P')"
    "same_but_list P P'" "k_global (ps_k P') = filter (\<lambda>t. \<not> (t \<in> set (k_global (ps_k P)) \<and> zombie_of (t_pid (k_task (ps_k P) c)) (ps_k P) t \<and> destroyable P t)) (k_global (ps_k P))"
    by auto
  moreover have "k_global (ps_k P') = survivors (t_pid (k_task (ps_k P) c)) P"
    unfolding P'(3) survivors_def by (rule filter_cong) auto
  ultimately show ?thesis by (auto simp: proc_deal_zombie_child_def)
qed


section \<open>Exit\<close>

lemma adopt_loop_ok:
  "k_task (adopt_loop ppid ts s) = (\<lambda>t. if t \<in> set ts \<and> t_parent_pid (k_task s t) = ppid then (k_task s t)\<lparr>t_parent_pid := USER_INIT_PROC_ID\<rparr> else k_task s t)
   \<or> ppid = USER_INIT_PROC_ID"
  "k_su (adopt_loop ppid ts s) = k_su s" "k_wait (adopt_loop ppid ts s) = k_wait s" "k_global (adopt_loop ppid ts s) = k_global s"
  by (induction ts arbitrary: s) (auto simp: fun_eq_iff)

lemma adopt_loop_init: "k_task (adopt_loop USER_INIT_PROC_ID ts s) = k_task s"
  by (induction ts arbitrary: s) (auto simp: fun_eq_iff)

lemma adopt_ok:
  defines "ppid \<equiv> \<lambda>s c. t_pid (k_task s c)"
  shows "k_task (adopt_children_to_init c s)
      = (\<lambda>t. if t \<in> set (k_global s) \<and> t_parent_pid (k_task s t) = ppid s c then (k_task s t)\<lparr>t_parent_pid := USER_INIT_PROC_ID\<rparr> else k_task s t)"
    "k_su (adopt_children_to_init c s) = k_su s" "k_wait (adopt_children_to_init c s) = k_wait s" "k_global (adopt_children_to_init c s) = k_global s"
  using adopt_loop_ok(1)[of "ppid s c" "k_global s" s] adopt_loop_init[of "k_global s" s]
  by (auto simp: adopt_children_to_init_def adopt_loop_ok ppid_def fun_eq_iff)

lemma block_ok:
  assumes inv: "sched_inv s" and some: "\<exists>i < 4. rq s i \<noteq> []" and st: "st \<in> {TASK_BLOCKED, TASK_WAITING, TASK_STOPPED, TASK_HANGING, TASK_ZOMBIE}"
  shows "\<exists>s'. task_block st s = Some s' \<and> sched_inv s' \<and> task_current s' \<in> queued s \<and> t_state (k_task s' (task_current s')) = TASK_RUNNING
    \<and> k_global s' = k_global s \<and> k_wait s' = k_wait s \<and> alive s' = queued s
    \<and> k_task s' (task_current s) = (k_task s (task_current s))\<lparr>t_state := st\<rparr>
    \<and> (\<forall>t. t \<noteq> task_current s \<and> t \<noteq> task_current s' \<longrightarrow> k_task s' t = k_task s t)"
proof -
  let ?c = "task_current s" and ?s1 = "set_state (task_current s) st s"
  obtain i where i: "i < 4" "rq s i \<noteq> []" using some by blast
  from task_block_ok[OF inv i st] obtain s' where s': "task_block st s = Some s'" "sched_inv s'" "task_current s' \<in> queued s"
    "t_state (k_task s' (task_current s')) = TASK_RUNNING" "k_wait s' = k_wait s"
    "\<forall>t. t \<noteq> task_current s' \<longrightarrow> k_task s' t = (if t = ?c then (k_task s t)\<lparr>t_state := st\<rparr> else k_task s t)" by metis
  have sch: "schedule ?s1 = Some s'" using s'(1) st by (simp add: task_block_def split: if_splits)
  have "sched_inv ?s1" using inv queues_ok_upd_task[of s ?c "t_state_update (\<lambda>_. st)"] queues_okD(8)[of s] by (simp add: sched_inv_def)
  moreover have nr: "\<not> runnable ?s1" using st by (auto simp: runnable_def)
  moreover have "\<exists>i < 4. offered ?s1 i \<noteq> []" using i nr by (auto simp: offered_def)
  ultimately have "alive s' = queued s" using schedule_alive[of ?s1] sch by auto
  moreover have "task_current s' \<noteq> ?c" using s'(3) inv by (auto simp: sched_inv_def)
  ultimately show ?thesis using s' schedule_frame[OF sch] by auto
qed

definition waits_for :: "kst \<Rightarrow> tid \<Rightarrow> tid \<Rightarrow> bool" where
  "waits_for s c p \<longleftrightarrow> task_find_by_pid (t_parent_pid (k_task s c)) s = Some p \<and> t_state (k_task s p) = TASK_WAITING"

lemma leave_ok:
  assumes inv: "sched_inv s" and c: "c = task_current s" "t_state (k_task s c) \<noteq> TASK_WAITING" and some: "\<exists>i < 4. rq s i \<noteq> []"
  shows "\<exists>s'. leave s = Some s' \<and> sched_inv s' \<and> task_current s' \<noteq> c \<and> t_state (k_task s' (task_current s')) = TASK_RUNNING
    \<and> k_global s' = k_global s \<and> k_wait s' = k_wait s
    \<and> k_task s' c = (k_task s c)\<lparr>t_state := (if \<exists>p. waits_for s c p then TASK_HANGING else TASK_ZOMBIE)\<rparr>
    \<and> (\<forall>t. t \<noteq> c \<and> t \<noteq> task_current s' \<and> \<not> waits_for s c t \<longrightarrow> k_task s' t = k_task s t)
    \<and> alive s' = queued s \<union> Collect (waits_for s c)"
proof (cases "\<exists>p. waits_for s c p")
  case False
  then have "leave s = task_block TASK_ZOMBIE s" by (auto simp: leave_def waits_for_def c(1) split: option.splits)
  moreover have "c \<notin> queued s" using inv c by (simp add: sched_inv_def)
  ultimately show ?thesis using False block_ok[OF inv some, of TASK_ZOMBIE] c(1) by auto
next
  case True
  then obtain p where p: "waits_for s c p" by blast
  then have pw: "t_state (k_task s p) = TASK_WAITING" "p \<noteq> c" and uniq: "waits_for s c t \<longleftrightarrow> t = p" for t
    using c by (auto simp: waits_for_def)
  from task_unblock_ok[OF inv, of p] pw c obtain s1 q where s1: "task_unblock p s = Some s1" "sched_inv s1" "q < 4"
    "\<forall>i. i < 4 \<longrightarrow> rq s1 i = (if i = q then rq s i @ [p] else rq s i)"
    "k_task s1 = (k_task s)(p := (k_task s p)\<lparr>t_state := TASK_READY, t_priority := int q\<rparr>)" "k_wait s1 = k_wait s" "task_current s1 = task_current s"
    by (metis insertI1 insertI2)
  have q1: "queued s1 = insert p (queued s)" using s1(3,4) by (auto simp: queued_def split: if_splits)
  have "\<exists>i < 4. rq s1 i \<noteq> []" using s1(3,4) by auto
  from block_ok[OF s1(2) this, of TASK_HANGING] obtain s' where s': "task_block TASK_HANGING s1 = Some s'" "sched_inv s'" "task_current s' \<in> queued s1"
    "t_state (k_task s' (task_current s')) = TASK_RUNNING" "k_global s' = k_global s1" "k_wait s' = k_wait s1" "alive s' = queued s1"
    "k_task s' c = (k_task s1 c)\<lparr>t_state := TASK_HANGING\<rparr>" "\<forall>t. t \<noteq> c \<and> t \<noteq> task_current s' \<longrightarrow> k_task s' t = k_task s1 t"
    unfolding s1(7) c(1)[symmetric] by auto
  have "leave s = Some s'" using p s1(1) s'(1) by (simp add: leave_def waits_for_def c(1))
  moreover have "c \<notin> queued s1" using s1(2,7) c by (simp add: sched_inv_def)
  ultimately show ?thesis using s' s1 pw uniq q1 task_unblock_frame[OF s1(1)] True by auto
qed

text \<open>Scheduling and waking change neither the identity of a task nor its exit status.\<close>

definition ids :: "task_t \<Rightarrow> int \<times> int \<times> int \<times> int \<times> int" where
  "ids t = (t_pid t, t_parent_pid t, t_tgid t, t_pgid t, t_exit_status t)"

lemma ids_simps [simp]:
  "ids (t\<lparr>t_state := st\<rparr>) = ids t" "ids (t\<lparr>t_priority := p\<rparr>) = ids t" "ids (t\<lparr>t_ticks := k\<rparr>) = ids t" "ids (lower_priority t) = ids t"
  by (simp_all add: ids_def lower_priority_def)

lemma add_tail_tasks: "sched_queue_add_tail t s = Some s' \<Longrightarrow> k_task s' = k_task s"
  by (auto simp: sched_queue_add_tail_def Let_def split: if_splits)

lemma fetch_first_tasks:
  assumes "sched_queue_fetch_first s = Some (u, s')"
  shows "k_task s' = k_task s"
proof (cases "fetch_priority (su_queue (k_su s)) (su_dynamic_priority (k_su s))")
  case (Some p)
  then show ?thesis using assms by (cases "rq s p") (auto simp: sched_queue_fetch_first_def Let_def)
qed (use assms in \<open>simp add: sched_queue_fetch_first_def Let_def\<close>)

lemmas sched_queue_ids = add_tail_tasks fetch_first_tasks

lemma schedule_ids: "schedule s = Some s' \<Longrightarrow> ids (k_task s' t) = ids (k_task s t)"
  by (auto simp: schedule_def get_next_task_def sched_set_next_task_def Let_def bind_eq_Some_conv dest!: sched_queue_ids split: if_splits)

lemma leave_ids: "leave s = Some s' \<Longrightarrow> ids (k_task s' t) = ids (k_task s t)"
  by (auto simp: leave_def task_block_def task_unblock_def add_head_eq_tail Let_def bind_eq_Some_conv
      dest!: schedule_ids[of _ _ t] sched_queue_ids(1) split: option.splits if_splits)

lemma sched_inv_cong:
  assumes "k_su s' = k_su s"
    "\<And>t. t_state (k_task s' t) = t_state (k_task s t) \<and> t_priority (k_task s' t) = t_priority (k_task s t) \<and> t_static_priority (k_task s' t) = t_static_priority (k_task s t)"
  shows "sched_inv s' = sched_inv s"
  using assms by (simp add: sched_inv_def queues_ok_def queued_def prio_ok_def)

lemma close_loop_alone:
  "\<forall>t \<in> set ts. t_tgid (k_task (ps_k P) c) = t_tgid (k_task (ps_k P) t) \<longrightarrow> t_pid (k_task (ps_k P) c) = t_pid (k_task (ps_k P) t) \<Longrightarrow> close_loop c ts P = P"
  by (induction ts) (auto simp: Let_def)

text \<open>No other thread: nobody else is in the thread group or shares the thread descriptor.\<close>

definition single :: "tid \<Rightarrow> pst \<Rightarrow> bool" where
  "single c P \<longleftrightarrow> (\<forall>t \<in> set (k_global (ps_k P)). t \<noteq> c \<longrightarrow> t_tgid (k_task (ps_k P) t) \<noteq> t_tgid (k_task (ps_k P) c)
     \<and> (ps_pthread P t = None \<or> ps_pthread P t \<noteq> ps_pthread P c))"

lemma exit_prefix_ok:
  fixes status :: int
  assumes c: "t_state (k_task (ps_k P) c) = TASK_RUNNING" and alone: "single c P"
    and list: "distinct (k_global (ps_k P))" "\<forall>t \<in> set (k_global (ps_k P)). t_pid (k_task (ps_k P) t) \<noteq> -1"
  defines "P1 \<equiv> set_k (upd_task c (t_exit_status_update (\<lambda>_. status)) (ps_k P)) P"
  shows "\<exists>P3 g. proc_deal_zombie_child c (proc_close_other_threads c P1) = (g, P3) \<and> k_global (ps_k P3) = survivors (t_pid (k_task (ps_k P) c)) P
    \<and> k_task (ps_k P3) = k_task (ps_k P1) \<and> k_su (ps_k P3) = k_su (ps_k P) \<and> k_wait (ps_k P3) = k_wait (ps_k P) \<and> x_em (ps_x P3) = x_em (ps_x P)
    \<and> ps_released P3 = ps_released P"
proof -
  define P2 where "P2 = proc_close_other_threads c P1"
  have k1: "t_pid (k_task (ps_k P1) t) = t_pid (k_task (ps_k P) t)" "t_tgid (k_task (ps_k P1) t) = t_tgid (k_task (ps_k P) t)"
    "zombie_of q (ps_k P1) t = zombie_of q (ps_k P) t" "k_global (ps_k P1) = k_global (ps_k P)" for t q
    by (simp_all add: P1_def zombie_of_def)
  have "close_loop c (k_global (ps_k P1)) P1 = P1"
    using alone by (intro close_loop_alone) (auto simp: single_def k1)
  then have P2: "P2 = (case ps_pthread P c of None \<Rightarrow> P1 | Some d \<Rightarrow> P1\<lparr>ps_count := (ps_count P1)(d := 0)\<rparr>)"
    by (simp add: P2_def proc_close_other_threads_def Let_def) (simp add: P1_def)
  then have x2: "ps_x P2 = ps_x P1" "ps_vmm P2 = ps_vmm P" "ps_released P2 = ps_released P"
    by (auto simp: P1_def split: option.splits)
  have "destroyable P2 t = destroyable P t" if "t \<in> set (k_global (ps_k P))" "t \<noteq> c" for t
    using alone that P2 by (auto simp: destroyable_def TASK_IS_SINGAL_THREAD_def single_def P1_def split: option.splits)
  moreover have "\<not> zombie_of q (ps_k P) c" for q using c by (simp add: zombie_of_def)
  ultimately have sv: "survivors q P2 = survivors q P" for q
    unfolding survivors_def x2(1) k1(4) by (intro filter_cong) (auto simp: k1(3))
  have "distinct (k_global (ps_k P2))" "\<forall>t \<in> set (k_global (ps_k P2)). t_pid (k_task (ps_k P2) t) \<noteq> -1"
    using list by (simp_all add: x2(1) k1)
  from proc_deal_zombie_child_ok[OF this, of c] obtain P3 g where P3: "proc_deal_zombie_child c P2 = (g, P3)"
    "same_but_list P2 P3" "k_global (ps_k P3) = survivors (t_pid (k_task (ps_k P) c)) P"
    unfolding sv x2(1) k1(1) by blast
  have "k_su (ps_k P1) = k_su (ps_k P)" "k_wait (ps_k P1) = k_wait (ps_k P)" "x_em (ps_x P1) = x_em (ps_x P)" by (simp_all add: P1_def)
  moreover have "ps_released P3 = ps_released P2" using P3(2) by (simp add: same_but_list_def)
  ultimately show ?thesis using P3 same_but_list_simps[OF P3(2)] x2 by (auto simp: P2_def[symmetric])
qed


definition demo_proc_k :: kst where
  "demo_proc_k = demo_state\<lparr>k_task := (\<lambda>t. (k_task demo_state t)\<lparr>t_tgid := int t\<rparr>)
       (7 := (k_task demo_state 7)\<lparr>t_tgid := 7, t_parent_pid := 10\<rparr>, 10 := demo_task\<lparr>t_state := TASK_WAITING, t_tgid := 10, t_pid := 10\<rparr>),
     k_global := [10, 7, 8, 9]\<rparr>"

definition demo_proc :: pst where
  "demo_proc = \<lparr>ps_x = demo_xst\<lparr>x_k := demo_proc_k\<rparr>, ps_vmm = (\<lambda>_. True), ps_pthread = (\<lambda>_. None), ps_count = (\<lambda>_. 0), ps_freed = [], ps_released = []\<rparr>"

lemma demo_proc_inv: "sched_inv demo_proc_k"
  unfolding sched_inv_def queues_ok_def less_4_cases
  by (auto simp: demo_proc_k_def demo_state_def demo_task_def prio_ok_def queued_def less_Suc_eq numeral_eq_Suc)

lemma demo_proc_facts:
  "single 7 demo_proc" "em_ok (x_em (ps_x demo_proc) 7)" "cur demo_proc = 7" "t_state (k_task (ps_k demo_proc) 7) = TASK_RUNNING"
  "\<exists>i < 4. rq (ps_k demo_proc) i \<noteq> []" "survivors 7 demo_proc = [10, 7, 8, 9]"
proof -
  show "\<exists>i < 4. rq (ps_k demo_proc) i \<noteq> []" by (intro exI[of _ 1]) (simp add: demo_proc_def demo_proc_k_def demo_state_def)
qed (simp_all add: single_def demo_proc_def demo_proc_k_def demo_state_def demo_task_def demo_xst_def em_ok_def demo_em_def survivors_def zombie_of_def)



section \<open>Wait\<close>

definition hanging :: "int \<Rightarrow> kst \<Rightarrow> tid \<Rightarrow> bool" where
  "hanging pid s t \<longleftrightarrow> (if pid = -1 then t_parent_pid (k_task s t) = t_pid (k_task s (task_current s)) else t_pid (k_task s t) = pid)
     \<and> t_state (k_task s t) = TASK_HANGING"

lemma wait_hanging_eq:
  "(if pid = -1 then wait_any_hangging_child (cur P) P else wait_one_hangging_child pid P) =
     (case find (hanging pid (ps_k P)) (k_global (ps_k P)) of
        None \<Rightarrow> None | Some t \<Rightarrow> Some (t_pid (k_task (ps_k P) t), t_exit_status (k_task (ps_k P) t), destroy_child t P))"
  by (simp add: wait_any_hangging_child_def wait_one_hangging_child_def wait_hanging_def hanging_def[abs_def])


definition demo_hang :: pst where
  "demo_hang = set_k (upd_task 9 (\<lambda>t. t\<lparr>t_state := TASK_HANGING, t_exit_status := 5\<rparr>) demo_proc_k) demo_proc"


text \<open>C39: \<^verbatim>\<open>proc_close_one_thread\<close>, which ends the other threads of a process that exits, unlinks a ready thread from its
  run queue without lowering the length of the queue. If the thread was the only one in the highest
  non-empty queue, the next choice of a task finds a queue that claims to have a task and is empty.
\<close>

theorem close_ready_thread_crashes:
  assumes inv: "sched_inv (ps_k P)" and i: "i < 4" "rq (ps_k P) i = [t]" and top: "\<forall>j < 4. i < j \<longrightarrow> rq (ps_k P) j = []"
  shows "\<not> sched_inv (ps_k (proc_close_one_thread t P)) \<and> sched_queue_fetch_first (ps_k (proc_close_one_thread t P)) = None"
proof -
  let ?s = "ps_k P" and ?s' = "ps_k (proc_close_one_thread t P)"
  have q: "queues_ok ?s" using inv by (simp add: sched_inv_def)
  have "t_state (k_task ?s t) = TASK_READY" using queues_okD(5)[OF q i(1), of t] i(2) by simp
  then have su: "k_su ?s' = (k_su ?s)\<lparr>su_queue := map (q_list_update (removeAll t)) (su_queue (k_su ?s))\<rparr>"
    by (simp add: proc_close_one_thread_def proc_destroy_def task_free_def list_unlink_def Let_def)
  have len: "length (su_queue (k_su ?s)) = 4" by (rule queues_okD(1)[OF q])
  have i': "rq ?s' i = []" "q_length (su_queue (k_su ?s') ! i) = 1"
    using i su len queues_okD(3)[OF q i(1)] by simp_all
  have ln: "q_length (su_queue (k_su ?s') ! j) = q_length (su_queue (k_su ?s) ! j)" if "j < 4" for j using that su len by simp
  have dp: "i \<le> su_dynamic_priority (k_su ?s)" "su_dynamic_priority (k_su ?s) < 4" "su_dynamic_priority (k_su ?s') = su_dynamic_priority (k_su ?s)"
    using q i su unfolding queues_ok_def by (auto simp: not_less[symmetric])
  have "fetch_priority (su_queue (k_su ?s')) d = Some i" if "i \<le> d" "d < 4" for d
    using that
  proof (induction d)
    case 0
    then show ?case using i' su len by simp
  next
    case (Suc d)
    then show ?case using i' su len ln[of "Suc d"] top queues_okD(3)[OF q, of "Suc d"] by (cases "i = Suc d") auto
  qed
  then have "fetch_priority (su_queue (k_su ?s')) (su_dynamic_priority (k_su ?s')) = Some i" using dp by simp
  then have "sched_queue_fetch_first ?s' = None" using i' by (simp add: sched_queue_fetch_first_def Let_def)
  moreover have "\<not> queues_ok ?s'" using i' i(1) by (auto simp: queues_ok_def)
  ultimately show ?thesis by (simp add: sched_inv_def)
qed

theorem close_ready_thread_crashes_witness:
  "sched_queue_fetch_first (ps_k (proc_close_one_thread 8 demo_proc)) = None"
  using close_ready_thread_crashes[of demo_proc 3 8] demo_proc_inv
  by (simp add: demo_proc_def demo_proc_k_def demo_state_def)

end
