(* ===== verification/Pipe.thy ===== *)
theory Pipe
  imports Fifobuf Exception Kernel
begin

text \<open>
  Pipes: \<^verbatim>\<open>src/ipc/pipe.c\<close>, on the byte ring buffer, a mutex and one wait queue that readers and
  writers share. A call that gives up the processor is cut there: the functions named \<open>round\<close> start where
  the task takes the mutex, which is also where it goes on when it is woken, and end when the call returns or
  the task sleeps. \<open>None\<close> means that the kernel does not go on.
\<close>

section \<open>Data\<close>

abbreviation (input) PIPE_SIZE :: u32 where "PIPE_SIZE \<equiv> 4096"
abbreviation (input) PIPE_NOWAIT :: u8 where "PIPE_NOWAIT \<equiv> 1"
abbreviation (input) F_SETFL :: u32 where "F_SETFL \<equiv> 4"
abbreviation (input) O_NONBLOCK :: u32 where "O_NONBLOCK \<equiv> 0x400"

record pipe_t =
  p_id :: int
  p_fifo :: fifo_buf_t
  p_flags :: u16
  p_rdflags :: u8
  p_wrflags :: u8
  p_read_count :: int
  p_write_count :: int
  p_mutex :: mutexlock_t
  p_wait :: nat

record plst =
  pl_list :: "pipe_t list"
  pl_next_id :: int
  pl_x :: xst

text \<open>How a round ends: the call returns a number (and bytes), or the task sleeps, on the mutex or for the other side.\<close>

datatype read_out = Read_ret int "u8 list" | Read_lock | Read_sleep
datatype write_out = Write_ret int | Write_lock nat | Write_sleep nat


section \<open>Reading\<close>

definition pipe_wake :: "pipe_t \<Rightarrow> kst \<Rightarrow> kst option" where
  "pipe_wake p s = (if wait_queue_length (p_wait p) s > 0 then wait_queue_wakeup (p_wait p) s else Some s)"

text \<open>Releasing the mutex at the end of a round.\<close>

definition pipe_unlock :: "'r \<Rightarrow> pipe_t \<Rightarrow> xst \<Rightarrow> ('r \<times> pipe_t \<times> xst) option" where
  "pipe_unlock r p X = do {
     (m, s) \<leftarrow> mutex_unlock (p_mutex p) (x_k X);
     Some (r, p\<lparr>p_mutex := m\<rparr>, X\<lparr>x_k := s\<rparr>) }"

definition pipe_sleep :: "'r \<Rightarrow> pipe_t \<Rightarrow> xst \<Rightarrow> ('r \<times> pipe_t \<times> xst) option" where
  "pipe_sleep r p X = do {
     s1 \<leftarrow> wait_queue_add (p_wait p) (task_current (x_k X)) (x_k X);
     (r, p', X') \<leftarrow> pipe_unlock r p (X\<lparr>x_k := s1\<rparr>);
     s2 \<leftarrow> task_block TASK_BLOCKED (x_k X');
     Some (r, p', X'\<lparr>x_k := s2\<rparr>) }"

definition read_body :: "u32 \<Rightarrow> pipe_t \<Rightarrow> xst \<Rightarrow> (read_out \<times> pipe_t \<times> xst) option" where
  "read_body bytes p X =
     (if fifo_buf_len (p_fifo p) \<le> 0 then
        if p_write_count p \<le> 0 then pipe_unlock (Read_ret 0 []) p X
        else if p_rdflags p AND PIPE_NOWAIT \<noteq> 0 then pipe_unlock (Read_ret (-1) []) p X
        else do {
          e \<leftarrow> exception_cause_exit (x_em X (task_current (x_k X)));
          if e then pipe_unlock (Read_ret (-1) []) p X else pipe_sleep Read_sleep p X }
      else do {
        (n, bs, f) \<leftarrow> fifo_buf_get (p_fifo p) (min (min bytes PIPE_SIZE) (fifo_buf_len (p_fifo p)));
        s \<leftarrow> (if p_write_count p > 0 then pipe_wake p (x_k X) else Some (x_k X));
        pipe_unlock (Read_ret (uint n) bs) (p\<lparr>p_fifo := f\<rparr>) (X\<lparr>x_k := s\<rparr>) })"

definition read_round :: "u32 \<Rightarrow> pipe_t \<Rightarrow> xst \<Rightarrow> (read_out \<times> pipe_t \<times> xst) option" where
  "read_round bytes p X = do {
     (l, m, s) \<leftarrow> mutex_lock (p_mutex p) (x_k X);
     case l of
       Blocked \<Rightarrow> Some (Read_lock, p\<lparr>p_mutex := m\<rparr>, X\<lparr>x_k := s\<rparr>)
     | Done _ \<Rightarrow> read_body bytes (p\<lparr>p_mutex := m\<rparr>) (X\<lparr>x_k := s\<rparr>) }"


section \<open>Writing\<close>

text \<open>
  The loop of \<^verbatim>\<open>pipe_write\<close> with the mutex held: \<open>data\<close> is what is left to write and \<open>off\<close> the number of bytes
  written before. The sleep returns the new offset. \<open>mem_ok\<close> is the result of the allocation for the exception.
\<close>

partial_function (option) write_loop :: "bool \<Rightarrow> u8 list \<Rightarrow> nat \<Rightarrow> pipe_t \<Rightarrow> xst \<Rightarrow> (write_out \<times> pipe_t \<times> xst) option" where
  "write_loop mem_ok data off p X =
     (if data = [] then do {
        s \<leftarrow> (if p_read_count p > 0 then pipe_wake p (x_k X) else Some (x_k X));
        pipe_unlock (Write_ret (int off)) p (X\<lparr>x_k := s\<rparr>) }
      else if fifo_buf_avali (p_fifo p) \<le> 0 then do {
        e \<leftarrow> (if p_wrflags p AND PIPE_NOWAIT \<noteq> 0 then Some True else exception_cause_exit (x_em X (task_current (x_k X))));
        if e then pipe_unlock (Write_ret (-1)) p X
        else if p_read_count p \<le> 0 then do {
          (r, X1) \<leftarrow> exception_force_self mem_ok EXP_CODE_PIPE X;
          pipe_unlock (Write_ret (-1)) p X1 }
        else do {
          s \<leftarrow> pipe_wake p (x_k X);
          pipe_sleep (Write_sleep off) p (X\<lparr>x_k := s\<rparr>) } }
      else do {
        (n, f) \<leftarrow> fifo_buf_put (p_fifo p) data (min (min (of_nat (length data)) PIPE_SIZE) (fifo_buf_avali (p_fifo p)));
        write_loop mem_ok (drop (unat n) data) (off + unat n) (p\<lparr>p_fifo := f\<rparr>) X })"

definition write_round :: "bool \<Rightarrow> u8 list \<Rightarrow> nat \<Rightarrow> pipe_t \<Rightarrow> xst \<Rightarrow> (write_out \<times> pipe_t \<times> xst) option" where
  "write_round mem_ok data off p X = do {
     (l, m, s) \<leftarrow> mutex_lock (p_mutex p) (x_k X);
     case l of
       Blocked \<Rightarrow> Some (Write_lock off, p\<lparr>p_mutex := m\<rparr>, X\<lparr>x_k := s\<rparr>)
     | Done _ \<Rightarrow> write_loop mem_ok data off (p\<lparr>p_mutex := m\<rparr>) (X\<lparr>x_k := s\<rparr>) }"


section \<open>The table of pipes\<close>

definition pipe_find :: "int \<Rightarrow> plst \<Rightarrow> pipe_t option" where
  "pipe_find i T = find (\<lambda>p. p_id p = i) (pl_list T)"

definition pipe_store :: "pipe_t \<Rightarrow> plst \<Rightarrow> plst" where
  "pipe_store p T = T\<lparr>pl_list := map (\<lambda>q. if p_id q = p_id p then p else q) (pl_list T)\<rparr>"

text \<open>
  \<open>pipe_mem\<close>: the structure could be allocated; \<open>mem_alloc\<close> and \<open>hdr\<close> are the allocations of the
  ring buffer; \<open>mw\<close> and \<open>w\<close> name the wait lists of the mutex and of the pipe.
\<close>

definition create_pipe :: "bool \<Rightarrow> (u32 \<Rightarrow> u8 list option) \<Rightarrow> fifo_buf_t option \<Rightarrow> nat \<Rightarrow> nat \<Rightarrow> plst \<Rightarrow> (pipe_t res \<times> plst) option" where
  "create_pipe pipe_mem mem_alloc hdr mw w T =
     (if \<not> pipe_mem then Some (Inl E_FAIL, T)
      else do {
        r \<leftarrow> fifo_buf_alloc mem_alloc hdr PIPE_SIZE;
        case r of
          Inl _ \<Rightarrow> Some (Inl E_FAIL, T)
        | Inr fifo \<Rightarrow>
            (let (m, s1) = mutexlock_init mw (x_k (pl_x T));
                 p = \<lparr>p_id = pl_next_id T, p_fifo = fifo, p_flags = 0, p_rdflags = 0, p_wrflags = 0, p_read_count = 1, p_write_count = 1, p_mutex = m, p_wait = w\<rparr>
             in Some (Inr p, T\<lparr>pl_list := pl_list T @ [p], pl_next_id := pl_next_id T + 1, pl_x := (pl_x T)\<lparr>x_k := wait_queue_init w s1\<rparr>\<rparr>)) })"

definition destroy_pipe :: "pipe_t \<Rightarrow> plst \<Rightarrow> plst" where
  "destroy_pipe p T = T\<lparr>pl_list := filter (\<lambda>q. p_id q \<noteq> p_id p) (pl_list T)\<rparr>"

definition pipe_clear :: "pipe_t \<Rightarrow> kst \<Rightarrow> pipe_t \<times> kst" where
  "pipe_clear p s =
     (let (m, s1) = mutexlock_init (m_wait_list (p_mutex p)) s
      in (p\<lparr>p_read_count := 1, p_write_count := 1, p_rdflags := 0, p_wrflags := 0, p_flags := 0, p_mutex := m\<rparr>, wait_queue_init (p_wait p) s1))"

definition pipe_read :: "int \<Rightarrow> bool \<Rightarrow> u32 \<Rightarrow> plst \<Rightarrow> (read_out \<times> plst) option" where
  "pipe_read i buffer bytes T =
     (if \<not> buffer \<or> bytes = 0 then Some (Read_ret (-1) [], T)
      else case pipe_find i T of
        None \<Rightarrow> Some (Read_ret (-1) [], T)
      | Some p \<Rightarrow>
          if p_read_count p \<le> 0 then Some (Read_ret (-1) [], T)
          else do { (r, p', X) \<leftarrow> read_round bytes p (pl_x T); Some (r, (pipe_store p' T)\<lparr>pl_x := X\<rparr>) })"

text \<open>\<^verbatim>\<open>left_size\<close> is an \<^verbatim>\<open>int\<close>: a length of 2 GB or more is negative there and nothing is written.\<close>

definition pipe_write :: "bool \<Rightarrow> int \<Rightarrow> bool \<Rightarrow> u8 list \<Rightarrow> plst \<Rightarrow> (write_out \<times> plst) option" where
  "pipe_write mem_ok i buffer data T =
     (if \<not> buffer \<or> data = [] then Some (Write_ret (-1), T)
      else case pipe_find i T of
        None \<Rightarrow> Some (Write_ret (-1), T)
      | Some p \<Rightarrow>
          if p_write_count p \<le> 0 then Some (Write_ret (-1), T)
          else if p_read_count p \<le> 0 then map_option (\<lambda>(r, X). (Write_ret (-1), T\<lparr>pl_x := X\<rparr>)) (exception_force_self mem_ok EXP_CODE_PIPE (pl_x T))
          else do {
            (r, p', X) \<leftarrow> write_round mem_ok (if length data < 2 ^ 31 then data else []) 0 p (pl_x T);
            Some (r, (pipe_store p' T)\<lparr>pl_x := X\<rparr>) })"

definition pipe_close :: "int \<Rightarrow> bool \<Rightarrow> plst \<Rightarrow> unit res \<times> plst" where
  "pipe_close i rw T =
     (case pipe_find i T of
        None \<Rightarrow> (Inl E_FAIL, T)
      | Some p \<Rightarrow>
          (let p1 = (if rw then p\<lparr>p_write_count := p_write_count p - 1\<rparr> else p\<lparr>p_read_count := p_read_count p - 1\<rparr>);
               T1 = pipe_store p1 T
           in (Inr (), if p_write_count p1 \<le> 0 \<and> p_read_count p1 \<le> 0 then destroy_pipe p1 T1 else T1)))"

text \<open>An operation under the mutex; \<open>Blocked\<close> when the mutex is taken.\<close>

definition with_mutex :: "int \<Rightarrow> (pipe_t \<Rightarrow> 'r res \<times> pipe_t) \<Rightarrow> plst \<Rightarrow> ('r res outcome \<times> plst) option" where
  "with_mutex i f T =
     (case pipe_find i T of
        None \<Rightarrow> Some (Done (Inl E_FAIL), T)
      | Some p \<Rightarrow> do {
          (l, m, s) \<leftarrow> mutex_lock (p_mutex p) (x_k (pl_x T));
          case l of
            Blocked \<Rightarrow> Some (Blocked, (pipe_store (p\<lparr>p_mutex := m\<rparr>) T)\<lparr>pl_x := (pl_x T)\<lparr>x_k := s\<rparr>\<rparr>)
          | Done _ \<Rightarrow> do {
              let (r, p1) = f (p\<lparr>p_mutex := m\<rparr>);
              (r, p2, X) \<leftarrow> pipe_unlock r p1 ((pl_x T)\<lparr>x_k := s\<rparr>);
              Some (Done r, (pipe_store p2 T)\<lparr>pl_x := X\<rparr>) } })"

text \<open>\<open>arg\<close> is the word that the argument points to.\<close>

definition pipe_ioctl :: "int \<Rightarrow> u32 \<Rightarrow> u32 \<Rightarrow> bool \<Rightarrow> plst \<Rightarrow> (unit res outcome \<times> plst) option" where
  "pipe_ioctl i cmd arg rw T = with_mutex i (\<lambda>p.
     if cmd = F_SETFL then
       (Inr (), if arg AND O_NONBLOCK \<noteq> 0
          then if rw then p\<lparr>p_wrflags := p_wrflags p OR PIPE_NOWAIT\<rparr> else p\<lparr>p_rdflags := p_rdflags p OR PIPE_NOWAIT\<rparr> else p)
     else (Inl E_FAIL, p)) T"

definition pipe_incref :: "int \<Rightarrow> bool \<Rightarrow> plst \<Rightarrow> (unit res outcome \<times> plst) option" where
  "pipe_incref i rw T = with_mutex i (\<lambda>p.
     (Inr (), if rw then p\<lparr>p_write_count := p_write_count p + 1\<rparr> else p\<lparr>p_read_count := p_read_count p + 1\<rparr>)) T"

definition pipe_decref :: "int \<Rightarrow> bool \<Rightarrow> plst \<Rightarrow> (unit res outcome \<times> plst) option" where
  "pipe_decref i rw T = with_mutex i (\<lambda>p.
     (Inr (), if rw then p\<lparr>p_write_count := p_write_count p - 1\<rparr> else p\<lparr>p_read_count := p_read_count p - 1\<rparr>)) T"


section \<open>Rounds\<close>

definition pipe_ok :: "pipe_t \<Rightarrow> bool" where
  "pipe_ok p \<longleftrightarrow> fifo_buf_inv (p_fifo p) \<and> fb_size (p_fifo p) = PIPE_SIZE \<and> mutex_idle (p_mutex p)"

abbreviation content :: "pipe_t \<Rightarrow> u8 list" where "content p \<equiv> fifo_buf_content (p_fifo p)"

text \<open>The state in which a task makes a call: sound, and it is not the idle task.\<close>

definition caller_ok :: "xst \<Rightarrow> bool" where
  "caller_ok X \<longleftrightarrow> kst_inv (x_k X) \<and> \<not> idle_running (x_k X) \<and> (\<forall>t. em_ok (x_em X t))
     \<and> task_find_by_pid (t_pid (k_task (x_k X) (task_current (x_k X)))) (x_k X) = Some (task_current (x_k X))"

definition fatal_pending :: "exception_manager_t \<Rightarrow> bool" where
  "fatal_pending em \<longleftrightarrow> (\<exists>e \<in> set (em_exception_list em @ em_catch_list em). causes_exit (ex_code e))"

lemma any_exception_live: "\<forall>e \<in> set es. ex_live e \<Longrightarrow> any_exception P es = Some (\<exists>e \<in> set es. P (ex_code e))"
  by (induction es) auto

lemma exception_cause_exit_ok: "em_ok em \<Longrightarrow> exception_cause_exit em = Some (fatal_pending em)"
  using any_exception_live[of "em_exception_list em" causes_exit] any_exception_live[of "em_catch_list em" causes_exit]
  by (auto simp: exception_cause_exit_def fatal_pending_def em_ok_def)

lemma fifo_len_content:
  assumes "pipe_ok p"
  shows "fifo_buf_len (p_fifo p) \<le> 0 \<longleftrightarrow> content p = []" "unat (fifo_buf_len (p_fifo p)) = length (content p)"
    "length (content p) \<le> 4096" "unat (fifo_buf_avali (p_fifo p)) = 4096 - length (content p)"
    "fifo_buf_avali (p_fifo p) \<le> 0 \<longleftrightarrow> length (content p) = 4096"
proof -
  show l: "unat (fifo_buf_len (p_fifo p)) = length (content p)" by (simp add: fifo_buf_len_def length_fifo_buf_content)
  then show "fifo_buf_len (p_fifo p) \<le> 0 \<longleftrightarrow> content p = []" by (metis length_0_conv unat_eq_zero word_le_0_iff)
  have le: "fifo_buf_len (p_fifo p) \<le> fb_size (p_fifo p)" using assms by (auto simp: pipe_ok_def fifo_buf_inv_def fifo_buf_len_def)
  then show b: "length (content p) \<le> 4096" using l assms by (simp add: pipe_ok_def word_le_nat_alt)
  have "fifo_buf_avali (p_fifo p) = fb_size (p_fifo p) - fifo_buf_len (p_fifo p)" by (simp add: fifo_buf_avali_def fifo_buf_len_def)
  then show a: "unat (fifo_buf_avali (p_fifo p)) = 4096 - length (content p)" using le l assms by (simp add: unat_sub pipe_ok_def)
  show "fifo_buf_avali (p_fifo p) \<le> 0 \<longleftrightarrow> length (content p) = 4096" using a b by (metis diff_is_0_eq diff_self_eq_0 le_antisym unat_eq_zero word_le_0_iff)
qed

text \<open>With the mutex held by the caller.\<close>

definition locked :: "pipe_t \<Rightarrow> pipe_t" where
  "locked p = p\<lparr>p_mutex := (p_mutex p)\<lparr>wait_lock := Suc 0\<rparr>\<rparr>"

lemma locked_simps [simp]:
  "p_fifo (locked p) = p_fifo p" "p_wait (locked p) = p_wait p" "p_read_count (locked p) = p_read_count p" "p_write_count (locked p) = p_write_count p"
  "p_rdflags (locked p) = p_rdflags p" "p_wrflags (locked p) = p_wrflags p" "(locked p)\<lparr>p_fifo := f\<rparr> = locked (p\<lparr>p_fifo := f\<rparr>)"
  by (simp_all add: locked_def)

lemma pipe_unlock_locked: "mutex_idle (p_mutex p) \<Longrightarrow> pipe_unlock r (locked p) X = Some (r, p, X)"
  using mutex_idle_lock(2)[of "p_mutex p"] by (simp add: pipe_unlock_def locked_def)

lemma round_locks:
  assumes "mutex_idle (p_mutex p)"
  shows "read_round bytes p X = read_body bytes (locked p) X" "write_round mem_ok data off p X = write_loop mem_ok data off (locked p) X"
  using mutex_idle_lock(1)[OF assms] by (simp_all add: read_round_def write_round_def locked_def)

lemma wakeup_current:
  assumes "kst_inv s" "(if wait_queue_length w s > 0 then wait_queue_wakeup w s else Some s) = Some s'"
  shows "task_current s' = task_current s" "su_idle (k_su s') = su_idle (k_su s)"
  using assms wait_queue_wakeup_ok[of s w] kst_invD[of s] wait_queue_wakeup_first[of s w]
  by (auto simp: wakes_def same_waiting_def split: if_splits)

lemma pipe_wake_ok:
  assumes "kst_inv s"
  shows "\<exists>s'. pipe_wake p s = Some s' \<and> wakes (p_wait p) (take 1 (k_wait s (p_wait p))) s s'"
proof (cases "k_wait s (p_wait p)")
  case Nil
  then show ?thesis using wait_queue_wakeup_first[OF assms, of "p_wait p"] by (simp add: pipe_wake_def wait_queue_length_def wait_queue_wakeup_def)
next
  case (Cons t ts)
  then show ?thesis using wait_queue_wakeup_first[OF assms, of "p_wait p"] by (simp add: pipe_wake_def wait_queue_length_def)
qed

lemma pipe_sleep_ok:
  assumes "mutex_idle (p_mutex p)" "kst_inv (x_k X)" "\<not> idle_running (x_k X)"
  shows "\<exists>s'. pipe_sleep r (locked p) X = Some (r, p, X\<lparr>x_k := s'\<rparr>) \<and> sleeps (p_wait p) (x_k X) s'"
  using sleep_ok[OF assms(2,3), of "p_wait p"] current_not_waiting[OF assms(2), of "p_wait p"]
  by (auto simp: pipe_sleep_def wait_queue_add_def pipe_unlock_locked[OF assms(1)])

lemma caller_okD:
  assumes "caller_ok X"
  shows "kst_inv (x_k X)" "\<not> idle_running (x_k X)" "exception_cause_exit (x_em X (task_current (x_k X))) = Some (fatal_pending (x_em X (task_current (x_k X))))"
    "xst_ok X"
  using assms exception_cause_exit_ok kst_invD by (auto simp: caller_ok_def xst_ok_def TASK_NOT_READY_def)

text \<open>One round of \<^verbatim>\<open>pipe_read\<close>.\<close>

lemma read_round_ok:
  assumes p: "pipe_ok p" and X: "caller_ok X"
  shows "\<exists>r p' s'. read_round bytes p X = Some (r, p', X\<lparr>x_k := s'\<rparr>) \<and> pipe_ok p' \<and> kst_inv s'
    \<and> content p = (case r of Read_ret n bs \<Rightarrow> bs | _ \<Rightarrow> []) @ content p'
    \<and> (if content p = [] then p' = p
         \<and> (if p_write_count p \<le> 0 then r = Read_ret 0 [] \<and> s' = x_k X
            else if p_rdflags p AND 1 \<noteq> 0 \<or> fatal_pending (x_em X (task_current (x_k X))) then r = Read_ret (-1) [] \<and> s' = x_k X
            else r = Read_sleep \<and> sleeps (p_wait p) (x_k X) s')
       else let n = min (min (unat bytes) 4096) (length (content p)) in
         r = Read_ret (int n) (take n (content p)) \<and> content p' = drop n (content p) \<and> p_read_count p' = p_read_count p \<and> p_write_count p' = p_write_count p
         \<and> (if p_write_count p > 0 then wakes (p_wait p) (take 1 (k_wait (x_k X) (p_wait p))) (x_k X) s' else s' = x_k X))"
proof (cases "content p = []")
  case True
  note x = caller_okD[OF X] and m = p[unfolded pipe_ok_def]
  obtain s1 where s1: "pipe_sleep Read_sleep (locked p) X = Some (Read_sleep, p, X\<lparr>x_k := s1\<rparr>)" "sleeps (p_wait p) (x_k X) s1"
    using pipe_sleep_ok[of p X Read_sleep] m x by blast
  have "kst_inv s1" using sleeps_inv[OF x(1) s1(2) x(2)] .
  moreover have "X\<lparr>x_k := x_k X\<rparr> = X" by simp
  ultimately show ?thesis using True p x s1 m fifo_len_content(1)[OF p]
    by (cases "p_write_count p \<le> 0"; cases "p_rdflags p AND 1 = 0"; cases "fatal_pending (x_em X (task_current (x_k X)))")
      (auto simp: round_locks read_body_def pipe_unlock_locked intro: exI[of _ "x_k X"])
next
  case False
  note x = caller_okD[OF X] and m = p[unfolded pipe_ok_def] and l = fifo_len_content[OF p]
  define n where "n = min (min (unat bytes) 4096) (length (content p))"
  let ?len = "min (min bytes PIPE_SIZE) (fifo_buf_len (p_fifo p))"
  have un: "unat ?len = n" by (simp add: unat_min l(2) n_def)
  obtain f where f: "fifo_buf_get (p_fifo p) ?len = Some (of_nat n, take n (content p), f)" "fifo_buf_inv f"
    "fifo_buf_content f = drop n (content p)" "fb_size f = fb_size (p_fifo p)"
    using fifo_buf_get_correct[of "p_fifo p" ?len] m unfolding un by (auto simp: n_def)
  have ui: "uint (of_nat n :: u32) = int n" using un l(3) by (simp add: n_def uint_nat unat_of_nat)
  obtain s1 where s1: "(if p_write_count p > 0 then pipe_wake p (x_k X) else Some (x_k X)) = Some s1"
    "if p_write_count p > 0 then wakes (p_wait p) (take 1 (k_wait (x_k X) (p_wait p))) (x_k X) s1 else s1 = x_k X"
    using pipe_wake_ok[OF x(1), of p] by (cases "p_write_count p > 0") auto
  have "kst_inv s1" using s1(2) x(1) wakes_inv[OF x(1)] by (cases "p_write_count p > 0") auto
  moreover have "pipe_wake (locked p) = pipe_wake p" by (simp add: pipe_wake_def fun_eq_iff)
  moreover have "pipe_ok (p\<lparr>p_fifo := f\<rparr>)" using f m by (simp add: pipe_ok_def)
  moreover have "read_round bytes p X = Some (Read_ret (int n) (take n (content p)), p\<lparr>p_fifo := f\<rparr>, X\<lparr>x_k := s1\<rparr>)"
    using False l(1) f(1) s1(1) m ui \<open>pipe_wake (locked p) = pipe_wake p\<close>
    by (cases "p_write_count p > 0") (auto simp: round_locks read_body_def pipe_unlock_locked)
  ultimately show ?thesis using False f(3) s1(2) by (auto simp: n_def Let_def)
qed

lemma disable_block_ok: "em_ok em \<Longrightarrow> code < EXP_CODE_MAX_NR \<Longrightarrow> \<exists>em'. exception_disable_block em code = Some em' \<and> em_ok em'"
  using code_cases(2)[of code]
  by (cases "code = EXP_CODE_FINALHIT \<or> code = EXP_CODE_STOP") (auto simp: exception_disable_block_def set_excl_def set_word_def em_ok_def)

lemma force_self_ok:
  assumes X: "caller_ok X" and c: "code < EXP_CODE_MAX_NR" "code \<noteq> EXP_CODE_CONT"
  shows "\<exists>r X'. exception_force_self mem_ok code X = Some (r, X') \<and> x_k X' = x_k X \<and> (\<forall>t. em_ok (x_em X' t))"
proof -
  let ?c = "task_current (x_k X)"
  have em: "em_ok (x_em X ?c)" and f: "task_find_by_pid (t_pid (k_task (x_k X) ?c)) (x_k X) = Some ?c" using X by (auto simp: caller_ok_def)
  obtain em' where em': "exception_disable_block (x_em X ?c) code = Some em'" "em_ok em'"
    using disable_block_ok[OF em c(1)] by blast
  let ?X = "upd_em ?c em' X"
  have ok: "xst_ok ?X" using caller_okD(4)[OF X] em'(2) by (simp add: xst_ok_def)
  have run: "\<not> TASK_NOT_READY (k_task (x_k X) ?c)" using ok by (simp add: xst_ok_def)
  from exception_send_ok[OF ok, of mem_ok "t_pid (k_task (x_k X) ?c)" code] obtain r X' where
    s: "exception_send mem_ok (t_pid (k_task (x_k X) ?c)) code ?X = Some (r, X')" "xst_ok X'" "x_k X' = x_k X"
    using f c(2) run by (auto simp: woken_def split: if_splits)
  then show ?thesis using em' f by (auto simp: exception_force_self_def exception_force_def xst_ok_def)
qed

definition write_blocked :: "pipe_t \<Rightarrow> xst \<Rightarrow> bool" where
  "write_blocked p X \<longleftrightarrow> p_wrflags p AND 1 \<noteq> 0 \<or> fatal_pending (x_em X (task_current (x_k X)))"

text \<open>The two ends of the loop: everything is written, or the pipe is full.\<close>

lemma write_done_ok:
  assumes p: "pipe_ok p" and X: "caller_ok X"
  shows "\<exists>s'. write_loop mem_ok [] off (locked p) X = Some (Write_ret (int off), p, X\<lparr>x_k := s'\<rparr>) \<and> kst_inv s'
    \<and> (if p_read_count p > 0 then wakes (p_wait p) (take 1 (k_wait (x_k X) (p_wait p))) (x_k X) s' else s' = x_k X)"
proof -
  note x = caller_okD[OF X] and m = p[unfolded pipe_ok_def]
  have "pipe_wake (locked p) = pipe_wake p" by (simp add: pipe_wake_def fun_eq_iff)
  moreover obtain s1 where "pipe_wake p (x_k X) = Some s1" "wakes (p_wait p) (take 1 (k_wait (x_k X) (p_wait p))) (x_k X) s1"
    using pipe_wake_ok[OF x(1), of p] by blast
  moreover have "kst_inv s1" using wakes_inv[OF x(1)] calculation(3) by blast
  moreover have "X\<lparr>x_k := x_k X\<rparr> = X" by simp
  ultimately show ?thesis using x(1) m
    by (cases "p_read_count p > 0") (auto simp: write_loop.simps pipe_unlock_locked intro: exI[of _ "x_k X"])
qed

lemma write_full_ok:
  assumes p: "pipe_ok p" and X: "caller_ok X" and d: "data \<noteq> []" and full: "length (content p) = 4096"
  shows "\<exists>r X'. write_loop mem_ok data off (locked p) X = Some (r, p, X') \<and> kst_inv (x_k X') \<and> (\<forall>t. em_ok (x_em X' t))
    \<and> (if write_blocked p X \<or> p_read_count p \<le> 0 then r = Write_ret (-1) \<and> x_k X' = x_k X
       else r = Write_sleep off \<and> x_em X' = x_em X
         \<and> (\<exists>s1. wakes (p_wait p) (take 1 (k_wait (x_k X) (p_wait p))) (x_k X) s1 \<and> sleeps (p_wait p) s1 (x_k X')))"
proof -
  note x = caller_okD[OF X] and m = p[unfolded pipe_ok_def]
  have em: "\<forall>t. em_ok (x_em X t)" using X by (simp add: caller_ok_def)
  have av: "fifo_buf_avali (p_fifo p) \<le> 0" using full fifo_len_content(5)[OF p] by simp
  consider (blocked) "write_blocked p X" | (closed) "\<not> write_blocked p X" "p_read_count p \<le> 0" | (sleep) "\<not> write_blocked p X" "\<not> p_read_count p \<le> 0" by blast
  then show ?thesis
  proof cases
    case blocked
    then show ?thesis using x m em av d by (auto simp: write_loop.simps[of mem_ok data] write_blocked_def pipe_unlock_locked)
  next
    case closed
    obtain r X1 where f: "exception_force_self mem_ok EXP_CODE_PIPE X = Some (r, X1)" "x_k X1 = x_k X" "\<forall>t. em_ok (x_em X1 t)"
      using force_self_ok[OF X, of EXP_CODE_PIPE mem_ok] by auto
    then show ?thesis using closed x m av d by (auto simp: write_loop.simps[of mem_ok data] write_blocked_def pipe_unlock_locked)
  next
    case sleep
    have pw: "pipe_wake (locked p) = pipe_wake p" by (simp add: pipe_wake_def fun_eq_iff)
    obtain s1 where s1: "pipe_wake p (x_k X) = Some s1" "wakes (p_wait p) (take 1 (k_wait (x_k X) (p_wait p))) (x_k X) s1"
      using pipe_wake_ok[OF x(1), of p] by blast
    have k1: "kst_inv s1" using wakes_inv[OF x(1) s1(2)] .
    have cur: "task_current s1 = task_current (x_k X)" "su_idle (k_su s1) = su_idle (k_su (x_k X))"
      using wakeup_current[OF x(1) s1(1)[unfolded pipe_wake_def]] by (auto split: if_splits)
    then have i1: "\<not> idle_running s1" using x(2) by (simp add: idle_running_def)
    obtain s2 where s2: "pipe_sleep (Write_sleep off) (locked p) (X\<lparr>x_k := s1\<rparr>) = Some (Write_sleep off, p, (X\<lparr>x_k := s1\<rparr>)\<lparr>x_k := s2\<rparr>)" "sleeps (p_wait p) s1 s2"
      using pipe_sleep_ok[of p "X\<lparr>x_k := s1\<rparr>" "Write_sleep off"] m k1 i1 by auto
    have "kst_inv s2" using sleeps_inv[OF k1 s2(2) i1] .
    then show ?thesis using sleep s1 s2 pw x em av d by (auto simp: write_loop.simps[of mem_ok data] write_blocked_def)
  qed
qed

lemma write_round_ok:
  assumes p: "pipe_ok p" and X: "caller_ok X" and len: "length data < 2 ^ 31"
  defines "k \<equiv> min (length data) (4096 - length (content p))"
  shows "\<exists>r p' X'. write_round mem_ok data off p X = Some (r, p', X') \<and> pipe_ok p' \<and> kst_inv (x_k X') \<and> (\<forall>t. em_ok (x_em X' t))
    \<and> content p' = content p @ take k data \<and> (\<exists>f. p' = p\<lparr>p_fifo := f\<rparr>)
    \<and> (if k = length data then r = Write_ret (int (off + length data))
         \<and> (if p_read_count p > 0 then wakes (p_wait p) (take 1 (k_wait (x_k X) (p_wait p))) (x_k X) (x_k X') else x_k X' = x_k X)
       else if write_blocked p X \<or> p_read_count p \<le> 0 then r = Write_ret (-1) \<and> x_k X' = x_k X
       else r = Write_sleep (off + k)
         \<and> (\<exists>s1. wakes (p_wait p) (take 1 (k_wait (x_k X) (p_wait p))) (x_k X) s1 \<and> sleeps (p_wait p) s1 (x_k X')))"
proof -
  note m = p[unfolded pipe_ok_def] and l = fifo_len_content[OF p]
  have em: "\<forall>t. em_ok (x_em X t)" using X by (simp add: caller_ok_def)
  have same: "\<exists>f. p = p\<lparr>p_fifo := f\<rparr>" by (rule exI[of _ "p_fifo p"]) simp
  consider (none) "data = []" | (full) "data \<noteq> []" "length (content p) = 4096" | (room) "data \<noteq> []" "length (content p) < 4096"
    using l(3) by linarith
  then show ?thesis
  proof cases
    case none
    obtain s' where "write_loop mem_ok [] off (locked p) X = Some (Write_ret (int off), p, X\<lparr>x_k := s'\<rparr>)" "kst_inv s'"
      "if p_read_count p > 0 then wakes (p_wait p) (take 1 (k_wait (x_k X) (p_wait p))) (x_k X) s' else s' = x_k X"
      using write_done_ok[OF p X, of mem_ok off] by blast
    then show ?thesis using none p m em same
      by (intro exI[of _ "Write_ret (int off)"] exI[of _ p] exI[of _ "X\<lparr>x_k := s'\<rparr>"]) (auto simp: round_locks k_def)
  next
    case full
    obtain r X' where w: "write_loop mem_ok data off (locked p) X = Some (r, p, X')" "kst_inv (x_k X')" "\<forall>t. em_ok (x_em X' t)"
      "if write_blocked p X \<or> p_read_count p \<le> 0 then r = Write_ret (-1) \<and> x_k X' = x_k X
       else r = Write_sleep off \<and> x_em X' = x_em X
         \<and> (\<exists>s1. wakes (p_wait p) (take 1 (k_wait (x_k X) (p_wait p))) (x_k X) s1 \<and> sleeps (p_wait p) s1 (x_k X'))"
      using write_full_ok[OF p X full, of mem_ok off] by (elim exE conjE) (rule that; assumption)
    have "k \<noteq> length data" "k = 0" using full by (simp_all add: k_def)
    then show ?thesis using w p m same by (intro exI[of _ r] exI[of _ p] exI[of _ X']) (auto simp: round_locks split: if_splits)
  next
    case room
    let ?len = "min (min (of_nat (length data)) PIPE_SIZE) (fifo_buf_avali (p_fifo p))"
    have "unat (of_nat (length data) :: u32) = length data" using len by (simp add: unat_of_nat)
    then have un: "unat ?len = k" using l(4) by (simp add: unat_min k_def)
    obtain f where f: "fifo_buf_put (p_fifo p) data ?len = Some (of_nat k, f)" "fifo_buf_inv f" "fifo_buf_content f = content p @ take k data" "fb_size f = fb_size (p_fifo p)"
      using fifo_buf_put_nolock_correct[of "p_fifo p" ?len data] m unfolding un by (auto simp: k_def fifo_buf_put_def)
    define q where "q = p\<lparr>p_fifo := f\<rparr>"
    have q: "pipe_ok q" "content q = content p @ take k data" "p_read_count q = p_read_count p" "p_wait q = p_wait p" "write_blocked q X = write_blocked p X"
      using f m by (simp_all add: q_def pipe_ok_def write_blocked_def)
    have uk: "unat (of_nat k :: u32) = k" using l(3) by (simp add: k_def unat_of_nat)
    have step: "write_round mem_ok data off p X = write_loop mem_ok (drop k data) (off + k) (locked q) X"
      using room l(5) f(1) uk m by (simp add: round_locks write_loop.simps[of mem_ok data] q_def)
    show ?thesis
    proof (cases "k = length data")
      case True
      obtain s' where "write_loop mem_ok [] (off + k) (locked q) X = Some (Write_ret (int (off + k)), q, X\<lparr>x_k := s'\<rparr>)" "kst_inv s'"
        "if p_read_count p > 0 then wakes (p_wait p) (take 1 (k_wait (x_k X) (p_wait p))) (x_k X) s' else s' = x_k X"
        using write_done_ok[OF q(1) X, of mem_ok "off + k"] unfolding q(3,4) by blast
      then show ?thesis using True step q em
        by (intro exI[of _ "Write_ret (int (off + k))"] exI[of _ q] exI[of _ "X\<lparr>x_k := s'\<rparr>"]) (auto simp: q_def)
    next
      case False
      then have left: "drop k data \<noteq> []" "length (content q) = 4096" using room q(2) by (auto simp: k_def min_def split: if_splits)
      obtain r X' where w: "write_loop mem_ok (drop k data) (off + k) (locked q) X = Some (r, q, X')" "kst_inv (x_k X')" "\<forall>t. em_ok (x_em X' t)"
        "if write_blocked p X \<or> p_read_count p \<le> 0 then r = Write_ret (-1) \<and> x_k X' = x_k X
         else r = Write_sleep (off + k) \<and> x_em X' = x_em X
           \<and> (\<exists>s1. wakes (p_wait p) (take 1 (k_wait (x_k X) (p_wait p))) (x_k X) s1 \<and> sleeps (p_wait p) s1 (x_k X'))"
        using write_full_ok[OF q(1) X left, of mem_ok "off + k"] unfolding q(3,4,5) by (elim exE conjE) (rule that; assumption)
      then show ?thesis using False step q by (intro exI[of _ r] exI[of _ q] exI[of _ X']) (auto simp: q_def split: if_splits)
    qed
  qed
qed


text \<open>
  Any sequence of rounds, by any tasks: each event has the state in which it happens. The bytes
  that a write round takes are those for which there is room.
\<close>

datatype pipe_ev = Read_ev u32 xst | Write_ev bool "u8 list" nat xst

fun ev_ok :: "pipe_ev \<Rightarrow> bool" where
  "ev_ok (Read_ev bytes X) = caller_ok X"
| "ev_ok (Write_ev mem_ok data off X) = (caller_ok X \<and> length data < 2 ^ 31)"

fun pipe_run :: "pipe_ev list \<Rightarrow> pipe_t \<Rightarrow> (u8 list \<times> u8 list \<times> pipe_t) option" where
  "pipe_run [] p = Some ([], [], p)"
| "pipe_run (Read_ev bytes X # es) p = do {
     (r, p1, X1) \<leftarrow> read_round bytes p X;
     (ins, outs, p2) \<leftarrow> pipe_run es p1;
     Some (ins, (case r of Read_ret n bs \<Rightarrow> bs | _ \<Rightarrow> []) @ outs, p2) }"
| "pipe_run (Write_ev mem_ok data off X # es) p = do {
     (r, p1, X1) \<leftarrow> write_round mem_ok data off p X;
     (ins, outs, p2) \<leftarrow> pipe_run es p1;
     Some (take (4096 - length (content p)) data @ ins, outs, p2) }"


text \<open>A pipe with room for one byte and the running task of the example of the kernel model.\<close>

definition demo_pipe :: pipe_t where
  "demo_pipe = \<lparr>p_id = 0, p_fifo = \<lparr>fb_buffer = replicate 4096 7, fb_size = 4096, fb_in = 4095, fb_out = 0\<rparr>, p_flags = 0, p_rdflags = 0, p_wrflags = 0,
     p_read_count = 1, p_write_count = 1, p_mutex = \<lparr>wait_lock = 0, m_wait_list = 90, waiters = 0\<rparr>, p_wait = 50\<rparr>"

definition demo_caller :: xst where
  "demo_caller = \<lparr>x_em = (\<lambda>_. demo_em), x_k = sy_k demo_sys\<rparr>"

lemma demo_pipe_ok: "pipe_ok demo_pipe" "length (content demo_pipe) = 4095"
proof -
  have "(4096 :: u32) = 2 ^ 12" by simp
  then show "pipe_ok demo_pipe" by (auto simp: pipe_ok_def demo_pipe_def fifo_buf_inv_def mutex_idle_def intro!: exI[of _ 12])
qed (simp add: demo_pipe_def length_fifo_buf_content)

lemma demo_caller_ok: "caller_ok demo_caller" "task_current (x_k demo_caller) = 7"
proof -
  show c: "task_current (x_k demo_caller) = 7" by (simp add: demo_caller_def demo_sys_def demo_wait_def demo_state_def)
  have "task_find_by_pid (t_pid (k_task (x_k demo_caller) 7)) (x_k demo_caller) = Some 7"
    by (simp add: demo_caller_def demo_sys_def demo_wait_def demo_state_def demo_task_def task_find_by_pid_def)
  moreover have "\<not> idle_running (x_k demo_caller)" using c by (simp add: idle_running_def) (simp add: demo_caller_def demo_sys_def demo_wait_def)
  ultimately show "caller_ok demo_caller"
    using sys_invD(1)[OF demo_sys_inv] c by (simp add: caller_ok_def) (simp add: demo_caller_def em_ok_def demo_em_def)
qed



text \<open>
  Closing an end changes the counts only. A reader that sleeps while the last writer closes its end is not
  woken, so that it never sees the end of the data.
\<close>

lemma pipe_close_wakes_nobody: "pl_x (snd (pipe_close i rw T)) = pl_x T"
  by (simp add: pipe_close_def pipe_store_def destroy_pipe_def Let_def split: option.split)

end
