(* ===== verification/Page.thy ===== *)
theory Page
  imports Mempool Memspace
begin

text \<open>
  Page tables: \<^verbatim>\<open>src/arch/x86/mach-i386/mm/page.c\<close> and \<^verbatim>\<open>src/arch/x86/include/arch/page.h\<close>. The state is
  physical memory by page frames (the address of the frame and the number of a 32-bit word in
  it), the register cr3 and the page allocator. The kernel reaches the tables the way the code does,
  through virtual addresses that the last entry of the directory maps back onto the tables, so
  every access to an entry is a translation by the processor. An access to an unmapped kernel
  address, a failed \<^verbatim>\<open>assert\<close> and a \<^verbatim>\<open>panic\<close> are \<open>None\<close>, as is a loop that does not end. The processor
  runs the kernel without write protection (only the paging bit of cr0 is set). Translation buffers
  are not modelled: every change is visible at once.
\<close>

section \<open>The processor\<close>

record pgst =
  pg_mem :: "u32 \<Rightarrow> nat \<Rightarrow> u32"
  pg_cr3 :: u32
  pg_pool :: mem_pool

abbreviation (input) PAGE_ATTR_PRESENT :: u32 where "PAGE_ATTR_PRESENT \<equiv> 1"
abbreviation (input) PAGE_ATTR_READ :: u32 where "PAGE_ATTR_READ \<equiv> 0"
abbreviation (input) PAGE_ATTR_WRITE :: u32 where "PAGE_ATTR_WRITE \<equiv> 2"
abbreviation (input) PAGE_ATTR_SYSTEM :: u32 where "PAGE_ATTR_SYSTEM \<equiv> 0"
abbreviation (input) PAGE_ATTR_USER :: u32 where "PAGE_ATTR_USER \<equiv> 4"
abbreviation (input) PROT_WRITE :: u32 where "PROT_WRITE \<equiv> 0x2"
abbreviation (input) PROT_USER :: u32 where "PROT_USER \<equiv> 0x10"
abbreviation (input) KERN_PAGE_ATTR :: u32 where "KERN_PAGE_ATTR \<equiv> 3"
abbreviation (input) KERN_BASE_VIR_ADDR :: u32 where "KERN_BASE_VIR_ADDR \<equiv> 0x80000000"
abbreviation (input) KERN_PAGE_DIR_PHY_ADDR :: u32 where "KERN_PAGE_DIR_PHY_ADDR \<equiv> 0x3f2000"
abbreviation (input) PAGE_ERR_PROTECT :: u32 where "PAGE_ERR_PROTECT \<equiv> 1"
abbreviation (input) PAGE_ERR_WRITE :: u32 where "PAGE_ERR_WRITE \<equiv> 2"
abbreviation (input) PAGE_ERR_USER :: u32 where "PAGE_ERR_USER \<equiv> 4"
abbreviation (input) MAX_MEM_SPACE_STACK_SIZE :: u32 where "MAX_MEM_SPACE_STACK_SIZE \<equiv> 0x1000000"

abbreviation present :: "u32 \<Rightarrow> bool" where
  "present e \<equiv> e AND PAGE_ATTR_PRESENT \<noteq> 0"

definition PAGE_MASKED :: "u32 \<Rightarrow> u32" where
  "PAGE_MASKED a = a AND NOT PAGE_LIMIT"

definition PAGE_DIR_ENTRY_IDX :: "u32 \<Rightarrow> u32" where
  "PAGE_DIR_ENTRY_IDX a = drop_bit 22 (a AND 0xffc00000)"

definition PAGE_TABLE_ENTRY_IDX :: "u32 \<Rightarrow> u32" where
  "PAGE_TABLE_ENTRY_IDX a = drop_bit 12 (a AND 0x003ff000)"

definition vir_addr_to_dir_entry :: "u32 \<Rightarrow> u32" where
  "vir_addr_to_dir_entry vaddr = 0xfffff000 + PAGE_DIR_ENTRY_IDX vaddr * 4"

definition vir_addr_to_table_entry :: "u32 \<Rightarrow> u32" where
  "vir_addr_to_table_entry vaddr = 0xffc00000 + drop_bit 10 (vaddr AND 0xffc00000) + PAGE_TABLE_ENTRY_IDX vaddr * 4"

text \<open>The two-level walk of the processor: the frame a virtual address lies in.\<close>

definition translate :: "pgst \<Rightarrow> u32 \<Rightarrow> u32 option" where
  "translate st a =
     (let pde = pg_mem st (pg_cr3 st) (unat (drop_bit 22 a)) in
      if \<not> present pde then None
      else let pte = pg_mem st (PAGE_MASKED pde) (unat (drop_bit 12 a AND 0x3ff)) in
        if present pte then Some (PAGE_MASKED pte) else None)"

definition word_in_page :: "u32 \<Rightarrow> nat" where
  "word_in_page a = unat (drop_bit 2 (a AND PAGE_LIMIT))"

definition vload :: "u32 \<Rightarrow> pgst \<Rightarrow> u32 option" where
  "vload a st = map_option (\<lambda>f. pg_mem st f (word_in_page a)) (translate st a)"

definition set_frame :: "u32 \<Rightarrow> (nat \<Rightarrow> u32) \<Rightarrow> pgst \<Rightarrow> pgst" where
  "set_frame f c st = st\<lparr>pg_mem := (pg_mem st)(f := c)\<rparr>"

definition vstore :: "u32 \<Rightarrow> u32 \<Rightarrow> pgst \<Rightarrow> pgst option" where
  "vstore a v st = map_option (\<lambda>f. set_frame f ((pg_mem st f)(word_in_page a := v)) st) (translate st a)"

text \<open>A whole page at a page-aligned address: \<^verbatim>\<open>memset\<close> to 0, and \<^verbatim>\<open>memcpy\<close> from and to a buffer.\<close>

definition vclear_page :: "u32 \<Rightarrow> pgst \<Rightarrow> pgst option" where
  "vclear_page a st = map_option (\<lambda>f. set_frame f (\<lambda>_. 0) st) (translate st a)"


section \<open>Entries\<close>

definition page_alloc_user :: "pgst \<Rightarrow> (u32 \<times> pgst) option" where
  "page_alloc_user st = map_option (\<lambda>(a, p). (a, st\<lparr>pg_pool := p\<rparr>)) (mem_node_alloc_pages 1 MEM_NODE_TYPE_USER (pg_pool st))"

definition page_free :: "u32 \<Rightarrow> pgst \<Rightarrow> pgst option" where
  "page_free a st = map_option (\<lambda>(_, p). st\<lparr>pg_pool := p\<rparr>) (mem_node_free_pages a (pg_pool st))"

text \<open>The loops of \<^verbatim>\<open>page_readable\<close> and \<^verbatim>\<open>page_writable\<close>: \<open>n\<close> pages are left.\<close>

fun pages_have :: "(u32 \<Rightarrow> bool) \<Rightarrow> nat \<Rightarrow> u32 \<Rightarrow> pgst \<Rightarrow> bool option" where
  "pages_have P 0 addr st = Some True"
| "pages_have P (Suc n) addr st = do {
     pte \<leftarrow> vload (vir_addr_to_table_entry addr) st;
     if P pte then pages_have P n (addr + PAGE_SIZE) st else Some False }"

definition page_readable :: "u32 \<Rightarrow> u32 \<Rightarrow> pgst \<Rightarrow> bool option" where
  "page_readable vaddr nbytes st = pages_have present (unat (PAGE_ALIGN nbytes) div 4096) (PAGE_MASKED vaddr) st"

definition page_writable :: "u32 \<Rightarrow> u32 \<Rightarrow> pgst \<Rightarrow> bool option" where
  "page_writable vaddr nbytes st =
     pages_have (\<lambda>pte. present pte \<and> pte AND PAGE_ATTR_WRITE \<noteq> 0) (unat (PAGE_ALIGN nbytes) div 4096) (PAGE_MASKED vaddr) st"

text \<open>
  A new page table: its address goes into the directory, then the table is cleared through the
  address at which it has appeared.
\<close>

definition new_table :: "u32 \<Rightarrow> u32 \<Rightarrow> pgst \<Rightarrow> pgst option" where
  "new_table va prot st = do {
     (t, st) \<leftarrow> page_alloc_user st;
     if t = 0 then None
     else do {
       st \<leftarrow> vstore (vir_addr_to_dir_entry va) (t OR prot OR PAGE_ATTR_PRESENT) st;
       vclear_page (PAGE_MASKED (vir_addr_to_table_entry va)) st } }"

definition page_link_addr :: "u32 \<Rightarrow> u32 \<Rightarrow> u32 \<Rightarrow> pgst \<Rightarrow> pgst option" where
  "page_link_addr va pa prot st = do {
     pde \<leftarrow> vload (vir_addr_to_dir_entry va) st;
     st \<leftarrow> (if present pde then Some st else new_table va prot st);
     pte \<leftarrow> vload (vir_addr_to_table_entry va) st;
     if present pte then None
     else vstore (vir_addr_to_table_entry va) (pa OR prot OR PAGE_ATTR_PRESENT) st }"

definition page_link_addr_unsafe :: "u32 \<Rightarrow> u32 \<Rightarrow> u32 \<Rightarrow> pgst \<Rightarrow> pgst option" where
  "page_link_addr_unsafe va pa prot st = do {
     pde \<leftarrow> vload (vir_addr_to_dir_entry va) st;
     st \<leftarrow> (if present pde then Some st else new_table va prot st);
     pte \<leftarrow> vload (vir_addr_to_table_entry va) st;
     st \<leftarrow> (if present pte
           then do { st \<leftarrow> page_free (PAGE_MASKED pte) st; vstore (vir_addr_to_table_entry va) 0 st }
           else Some st);
     vstore (vir_addr_to_table_entry va) (pa OR prot OR PAGE_ATTR_PRESENT) st }"

definition page_unlink_addr :: "u32 \<Rightarrow> pgst \<Rightarrow> pgst option" where
  "page_unlink_addr vaddr st = do {
     pte \<leftarrow> vload (vir_addr_to_table_entry vaddr) st;
     if present pte then vstore (vir_addr_to_table_entry vaddr) (pte AND NOT PAGE_ATTR_PRESENT) st else Some st }"

definition addr_vir2phy :: "u32 \<Rightarrow> pgst \<Rightarrow> u32 option" where
  "addr_vir2phy vaddr st = do {
     pte \<leftarrow> vload (vir_addr_to_table_entry vaddr) st;
     Some ((pte AND 0xfffff000) + (vaddr AND 0xfff)) }"


section \<open>Ranges\<close>

definition prot_attr :: "u32 \<Rightarrow> u32" where
  "prot_attr prot =
     (if prot AND PROT_USER \<noteq> 0 then PAGE_ATTR_USER else PAGE_ATTR_SYSTEM)
     OR (if prot AND PROT_WRITE \<noteq> 0 then PAGE_ATTR_WRITE else PAGE_ATTR_READ)"

partial_function (option) page_map_loop :: "u32 \<Rightarrow> u32 \<Rightarrow> u32 \<Rightarrow> pgst \<Rightarrow> (unit res \<times> pgst) option" where
  "page_map_loop start end' attr st =
     (if start < end' then do {
        (a, st) \<leftarrow> page_alloc_user st;
        if a = 0 then Some (Inl E_FAIL, st)
        else do {
          st \<leftarrow> page_link_addr start a attr st;
          page_map_loop (start + PAGE_SIZE) end' attr st } }
      else Some (Inr (), st))"

declare page_map_loop.simps [code]

definition page_map_addr :: "u32 \<Rightarrow> u32 \<Rightarrow> u32 \<Rightarrow> pgst \<Rightarrow> (unit res \<times> pgst) option" where
  "page_map_addr start len prot st =
     (let start = PAGE_MASKED start in page_map_loop start (start + len) (prot_attr prot) st)"

partial_function (option) map_fixed_loop :: "u32 \<Rightarrow> u32 \<Rightarrow> u32 \<Rightarrow> u32 \<Rightarrow> bool \<Rightarrow> pgst \<Rightarrow> pgst option" where
  "map_fixed_loop first pages end' attr remap st =
     (if first < end' then do {
        st \<leftarrow> (if remap then page_link_addr_unsafe first pages attr st else page_link_addr first pages attr st);
        map_fixed_loop (first + PAGE_SIZE) (pages + PAGE_SIZE) end' attr remap st }
      else Some st)"

declare map_fixed_loop.simps [code]

definition page_map_addr_fixed :: "u32 \<Rightarrow> u32 \<Rightarrow> u32 \<Rightarrow> u32 \<Rightarrow> pgst \<Rightarrow> (unit res \<times> pgst) option" where
  "page_map_addr_fixed start addr len prot st =
     (let first = PAGE_MASKED start in
      map_option (\<lambda>st. (Inr (), st))
        (map_fixed_loop first addr (first + PAGE_ALIGN len) (prot_attr prot) (prot AND PROT_REMAP \<noteq> 0) st))"

partial_function (option) unmap_loop :: "u32 \<Rightarrow> u32 \<Rightarrow> pgst \<Rightarrow> pgst option" where
  "unmap_loop start end' st =
     (if start < end' then do {
        paddr \<leftarrow> addr_vir2phy start st;
        st \<leftarrow> page_unlink_addr start st;
        st \<leftarrow> page_free paddr st;
        unmap_loop (start + PAGE_SIZE) end' st }
      else Some st)"

declare unmap_loop.simps [code]

definition page_unmap_addr :: "u32 \<Rightarrow> u32 \<Rightarrow> pgst \<Rightarrow> (unit res \<times> pgst) option" where
  "page_unmap_addr vaddr len st =
     (if len = 0 then Some (Inl E_FAIL, st)
      else let start = PAGE_MASKED vaddr in
        map_option (\<lambda>st. (Inr (), st)) (unmap_loop start (start + PAGE_ALIGN len) st))"

text \<open>Both branches of the test of the write flag give write access.\<close>

definition safe_attr :: "u32 \<Rightarrow> u32" where
  "safe_attr prot = (if prot AND PROT_USER \<noteq> 0 then PAGE_ATTR_USER else PAGE_ATTR_SYSTEM) OR PAGE_ATTR_WRITE"

fun map_safe_loop :: "nat \<Rightarrow> u32 \<Rightarrow> u32 \<Rightarrow> pgst \<Rightarrow> (unit res \<times> pgst) option" where
  "map_safe_loop 0 vaddr attr st = Some (Inr (), st)"
| "map_safe_loop (Suc n) vaddr attr st = do {
     pde \<leftarrow> vload (vir_addr_to_dir_entry vaddr) st;
     absent \<leftarrow> (if \<not> present pde then Some True
               else map_option (\<lambda>pte. \<not> present pte) (vload (vir_addr_to_table_entry vaddr) st));
     if absent then do {
       (a, st) \<leftarrow> page_alloc_user st;
       if a = 0 then Some (Inl E_FAIL, st)
       else do { st \<leftarrow> page_link_addr vaddr a attr st; map_safe_loop n (vaddr + PAGE_SIZE) attr st } }
     else map_safe_loop n (vaddr + PAGE_SIZE) attr st }"

definition page_map_addr_safe :: "u32 \<Rightarrow> u32 \<Rightarrow> u32 \<Rightarrow> pgst \<Rightarrow> (unit res \<times> pgst) option" where
  "page_map_addr_safe start len prot st =
     map_safe_loop (unat ((PAGE_ALIGN len + PAGE_SIZE - 1) div PAGE_SIZE)) (PAGE_MASKED start) (safe_attr prot) st"

text \<open>The table is named by the page of virtual addresses it is visible at.\<close>

fun table_empty_from :: "nat \<Rightarrow> u32 \<Rightarrow> pgst \<Rightarrow> bool option" where
  "table_empty_from 0 p st = Some True"
| "table_empty_from (Suc n) p st = do {
     pte \<leftarrow> vload p st;
     if present pte then Some False else table_empty_from n (p + 4) st }"

definition is_page_table_empty :: "u32 \<Rightarrow> pgst \<Rightarrow> bool option" where
  "is_page_table_empty page_table st = table_empty_from 1024 page_table st"

text \<open>
  The two nested loops of \<^verbatim>\<open>page_unmap_addr_safe\<close> visit one page per round. The outer loop reads the directory
  entry again only when the inner one has left the last entry of a table; \<open>inner\<close> says that the round is in
  the inner loop.
\<close>

fun unmap_safe_loop :: "nat \<Rightarrow> u32 \<Rightarrow> bool \<Rightarrow> bool \<Rightarrow> pgst \<Rightarrow> pgst option" where
  "unmap_safe_loop 0 vaddr inner fixed st = Some st"
| "unmap_safe_loop (Suc n) vaddr inner fixed st = do {
     pde \<leftarrow> vload (vir_addr_to_dir_entry vaddr) st;
     if inner \<or> present pde then do {
       pte \<leftarrow> vload (vir_addr_to_table_entry vaddr) st;
       paddr \<leftarrow> addr_vir2phy vaddr st;
       st \<leftarrow> (if present pte then do {
               st \<leftarrow> (if fixed then Some st else page_free paddr st);
               vstore (vir_addr_to_table_entry vaddr) (pte AND NOT PAGE_ATTR_PRESENT) st }
             else Some st);
       if n = 0 then do {
         empty \<leftarrow> is_page_table_empty (PAGE_MASKED (vir_addr_to_table_entry vaddr)) st;
         if empty then do {
           pde \<leftarrow> vload (vir_addr_to_dir_entry vaddr) st;
           st \<leftarrow> page_free (PAGE_MASKED pde) st;
           vstore (vir_addr_to_dir_entry vaddr) (pde AND NOT PAGE_ATTR_PRESENT) st }
         else Some st }
       else unmap_safe_loop n (vaddr + PAGE_SIZE) (PAGE_TABLE_ENTRY_IDX vaddr \<noteq> 1023) fixed st }
     else unmap_safe_loop n (vaddr + PAGE_SIZE) False fixed st }"

definition page_unmap_addr_safe :: "u32 \<Rightarrow> u32 \<Rightarrow> bool \<Rightarrow> pgst \<Rightarrow> (unit res \<times> pgst) option" where
  "page_unmap_addr_safe start len fixed st =
     map_option (\<lambda>st. (Inr (), st))
       (unmap_safe_loop (unat ((PAGE_ALIGN len + PAGE_SIZE - 1) div PAGE_SIZE)) (PAGE_MASKED start) False fixed st)"

text \<open>
  A new directory for a process: the upper half is that of the kernel, entry 0 too, and the last entry is the
  directory itself. The page is visible to the kernel at its physical address plus the base of
  the kernel; an allocation that fails is not noticed, and the directory is written over the frame at address 0.
\<close>

definition kern_page_dir_copy_to :: "pgst \<Rightarrow> (u32 \<times> pgst) option" where
  "kern_page_dir_copy_to st = do {
     (page, p) \<leftarrow> mem_node_alloc_pages 1 MEM_NODE_TYPE_NORMAL (pg_pool st);
     let kern = pg_mem st KERN_PAGE_DIR_PHY_ADDR;
         dir = (\<lambda>i. if i = 1023 then page OR KERN_PAGE_ATTR
                    else if i = 0 then kern 0
                    else if 512 \<le> i then kern i else 0)
     in Some (page + KERN_BASE_VIR_ADDR, set_frame page dir (st\<lparr>pg_pool := p\<rparr>)) }"


section \<open>Addresses of entries\<close>

lemma word_mask1: "(0xffc00000 :: u32) = NOT (mask 22)" by code_simp
lemma word_mask2: "(0x3ff000 :: u32) = push_bit 12 (mask 10)" by code_simp
lemma word_mask3: "(0x3ff :: u32) = mask 10" by code_simp
lemma word_mask4: "(0xfff :: u32) = mask 12" by code_simp
lemma word_mask5: "(0xfffff000 :: u32) = NOT (mask 12)" by code_simp

lemma dir_idx: "PAGE_DIR_ENTRY_IDX a = drop_bit 22 a"
  unfolding PAGE_DIR_ENTRY_IDX_def word_mask1 by (rule bit_word_eqI) (auto simp: bit_simps dest: bit_imp_le_length)

lemma tab_idx: "PAGE_TABLE_ENTRY_IDX a = drop_bit 12 a AND 0x3ff"
  unfolding PAGE_TABLE_ENTRY_IDX_def word_mask2 word_mask3 by (rule bit_word_eqI) (auto simp: bit_simps dest: bit_imp_le_length)

lemma unat_dir: "unat (drop_bit 22 a :: u32) = unat a div 4096 div 1024"
  by (simp add: unat_drop_bit_eq drop_bit_eq_div div_mult2_eq[symmetric] unat_div)

lemma unat_tab: "unat (drop_bit 12 a AND 0x3ff :: u32) = unat a div 4096 mod 1024"
  using unat_and_pow2_mask[of 10 "drop_bit 12 a :: u32"] by (simp add: unat_drop_bit_eq drop_bit_eq_div unat_div)

lemma unat_word_in_page: "word_in_page a = unat a mod 4096 div 4"
  using unat_and_pow2_mask[of 12 a] by (simp add: word_in_page_def unat_drop_bit_eq drop_bit_eq_div unat_div)

lemma hi_part: "drop_bit 10 (a AND 0xffc00000 :: u32) = 4096 * drop_bit 22 a"
proof -
  have "drop_bit 10 (a AND 0xffc00000 :: u32) = push_bit 12 (drop_bit 22 a)"
    unfolding word_mask1 by (rule bit_word_eqI) (auto simp: bit_simps dest: bit_imp_le_length)
  then show ?thesis by (simp add: push_bit_eq_mult mult.commute)
qed
lemma lt20: "unat (a :: u32) div 4096 < 1024 * 1024" using unat_lt_32[of a] by (simp add: less_mult_imp_div_less)

lemma unat_dir_entry: "unat (vir_addr_to_dir_entry a) = 0xfffff000 + 4 * (unat a div 4096 div 1024)"
proof -
  have "unat a div 4096 div 1024 < 1024" using lt20[of a] by (simp add: less_mult_imp_div_less)
  then show ?thesis unfolding vir_addr_to_dir_entry_def dir_idx by (simp add: unat_word_ariths unat_dir)
qed

lemma unat_table_entry: "unat (vir_addr_to_table_entry a) = 0xffc00000 + 4096 * (unat a div 4096 div 1024) + 4 * (unat a div 4096 mod 1024)"
proof -
  have "unat a div 4096 div 1024 < 1024" using lt20[of a] by (simp add: less_mult_imp_div_less)
  moreover have "unat a div 4096 mod 1024 < 1024" by simp
  ultimately show ?thesis unfolding vir_addr_to_table_entry_def tab_idx hi_part by (simp add: unat_word_ariths unat_dir unat_tab)
qed

abbreviation pn :: "u32 \<Rightarrow> nat" where "pn a \<equiv> unat a div 4096"

definition self_mapped :: "u32 \<Rightarrow> pgst \<Rightarrow> bool" where
  "self_mapped c st \<longleftrightarrow> present (pg_mem st c 1023) \<and> PAGE_MASKED (pg_mem st c 1023) = c"

lemma translate_nat:
  "translate st a = (let pde = pg_mem st (pg_cr3 st) (pn a div 1024); pte = pg_mem st (PAGE_MASKED pde) (pn a mod 1024) in
     if present pde \<and> present pte then Some (PAGE_MASKED pte) else None)"
  by (simp add: translate_def unat_dir unat_tab Let_def)

lemma unat_masked: "unat (PAGE_MASKED a) = 4096 * pn a"
proof -
  have "PAGE_MASKED a = push_bit 12 (drop_bit 12 a)"
    unfolding PAGE_MASKED_def word_mask4 by (rule bit_word_eqI) (auto simp: bit_simps)
  also have "\<dots> = a div 4096 * 4096" by (simp add: push_bit_eq_mult drop_bit_eq_div)
  finally have "unat (PAGE_MASKED a) = unat a div 4096 * 4096 mod 2 ^ 32" by (simp add: unat_word_ariths unat_div mod_mult_left_eq)
  also have "\<dots> = unat a div 4096 * 4096"
    using unat_lt_32[of a] by (intro mod_less) (metis div_times_less_eq_dividend order_le_less_trans)
  finally show ?thesis by simp
qed

lemma div_mod_parts:
  fixes q r k :: nat
  assumes "r < k"
  shows "(k * q + r) div k = q" "(k * q + r) mod k = r"
  using assms by auto

lemma pn_dir_lt: "pn a div 1024 < 1024"
  using lt20[of a] by (simp add: less_mult_imp_div_less)

lemma dir_entry_parts: "pn (vir_addr_to_dir_entry a) = 1024 * 1023 + 1023" "word_in_page (vir_addr_to_dir_entry a) = pn a div 1024"
proof -
  have u: "unat (vir_addr_to_dir_entry a) = 4096 * (1024 * 1023 + 1023) + 4 * (pn a div 1024)" by (simp add: unat_dir_entry)
  have "4 * (pn a div 1024) < 4096" using pn_dir_lt[of a] by simp
  note p = div_mod_parts[OF this, of "1024 * 1023 + 1023", folded u]
  show "pn (vir_addr_to_dir_entry a) = 1024 * 1023 + 1023" by (rule p(1))
  show "word_in_page (vir_addr_to_dir_entry a) = pn a div 1024" unfolding unat_word_in_page p(2) by simp
qed

lemma table_entry_parts: "pn (vir_addr_to_table_entry a) = 1024 * 1023 + pn a div 1024" "word_in_page (vir_addr_to_table_entry a) = pn a mod 1024"
proof -
  have u: "unat (vir_addr_to_table_entry a) = 4096 * (1024 * 1023 + pn a div 1024) + 4 * (pn a mod 1024)" by (simp add: unat_table_entry)
  have "4 * (pn a mod 1024) < 4096" by simp
  note p = div_mod_parts[OF this, of "1024 * 1023 + pn a div 1024", folded u]
  show "pn (vir_addr_to_table_entry a) = 1024 * 1023 + pn a div 1024" by (rule p(1))
  show "word_in_page (vir_addr_to_table_entry a) = pn a mod 1024" unfolding unat_word_in_page p(2) by simp
qed

lemma pn_masked [simp]: "pn (PAGE_MASKED a) = pn a" by (simp add: unat_masked)

lemma translate_page: "pn a = pn b \<Longrightarrow> translate st a = translate st b" by (simp only: translate_nat)

lemma translate_dir:
  assumes "self_mapped (pg_cr3 st) st"
  shows "translate st (vir_addr_to_dir_entry a) = Some (pg_cr3 st)"
  using assms unfolding translate_nat dir_entry_parts(1) by (simp add: self_mapped_def)

lemma translate_table:
  assumes "self_mapped (pg_cr3 st) st"
  shows "translate st (vir_addr_to_table_entry a) =
    (let pde = pg_mem st (pg_cr3 st) (pn a div 1024) in if present pde then Some (PAGE_MASKED pde) else None)"
  using assms unfolding translate_nat table_entry_parts(1) div_mod_parts[OF pn_dir_lt] by (simp add: self_mapped_def)

lemmas entry_access = vload_def vstore_def vclear_page_def translate_dir translate_table dir_entry_parts(2) table_entry_parts(2)
  translate_page[OF pn_masked]

section \<open>Invariant\<close>

text \<open>
  \<open>Ds\<close> is the set of all page directories. Entry 0 of a directory and those from 512 on belong to the kernel, the
  last one is the directory itself. The tables of the user half are pages of the allocator, all
  different; what they map is either a page in use that is no table or memory outside the
  allocator's area. \<open>pte_at c v\<close> is the entry that translates page \<open>v\<close> under directory \<open>c\<close>.
\<close>

abbreviation user_slots :: "nat set" where "user_slots \<equiv> {1..511}"

definition pte_at :: "u32 \<Rightarrow> nat \<Rightarrow> pgst \<Rightarrow> u32 option" where
  "pte_at c v st = (let pde = pg_mem st c (v div 1024); pte = pg_mem st (PAGE_MASKED pde) (v mod 1024) in
     if present pde \<and> present pte then Some pte else None)"

definition tables :: "u32 set \<Rightarrow> pgst \<Rightarrow> u32 set" where
  "tables Ds st = {PAGE_MASKED (pg_mem st c d) | c d. c \<in> Ds \<and> d \<in> user_slots \<and> present (pg_mem st c d)}"

definition leaf_ok :: "u32 set \<Rightarrow> pgst \<Rightarrow> u32 \<Rightarrow> bool" where
  "leaf_ok Ds st f \<longleftrightarrow> (if f \<in> user_area (pg_pool st) then f \<in> user_pages (pg_pool st) - tables Ds st else f \<notin> Ds)"

definition pg_ok :: "u32 set \<Rightarrow> pgst \<Rightarrow> bool" where
  "pg_ok Ds st \<longleftrightarrow> user_pool_ok (pg_pool st)
     \<and> (\<forall>c \<in> Ds. self_mapped c st \<and> c \<notin> user_area (pg_pool st))
     \<and> (\<forall>c \<in> Ds. \<forall>d. d < 1023 \<longrightarrow> d \<notin> user_slots \<longrightarrow> present (pg_mem st c d) \<longrightarrow> PAGE_MASKED (pg_mem st c d) \<notin> user_area (pg_pool st) \<union> Ds)
     \<and> tables Ds st \<subseteq> user_pages (pg_pool st)
     \<and> inj_on (\<lambda>(c, d). PAGE_MASKED (pg_mem st c d)) {(c, d). c \<in> Ds \<and> d \<in> user_slots \<and> present (pg_mem st c d)}
     \<and> (\<forall>c \<in> Ds. \<forall>v e. v div 1024 \<in> user_slots \<longrightarrow> pte_at c v st = Some e \<longrightarrow> leaf_ok Ds st (PAGE_MASKED e))"

text \<open>
  What a change of translations \<open>X\<close> keeps: the invariant, every other translation under every
  directory, and the content of all memory except directories and tables.
\<close>

definition pg_step :: "u32 set \<Rightarrow> (u32 \<times> nat) set \<Rightarrow> pgst \<Rightarrow> pgst \<Rightarrow> bool" where
  "pg_step Ds X st st' \<longleftrightarrow> pg_ok Ds st' \<and> pg_cr3 st' = pg_cr3 st \<and> user_area (pg_pool st') = user_area (pg_pool st)
     \<and> user_pages (pg_pool st) \<subseteq> user_pages (pg_pool st') \<and> tables Ds st \<subseteq> tables Ds st'
     \<and> tables Ds st' \<inter> user_pages (pg_pool st) \<subseteq> tables Ds st
     \<and> (\<forall>f. f \<notin> Ds \<union> tables Ds st' \<longrightarrow> pg_mem st' f = pg_mem st f)
     \<and> (\<forall>c \<in> Ds. \<forall>v. v div 1024 < 1023 \<longrightarrow> (c, v) \<notin> X \<longrightarrow> pte_at c v st' = pte_at c v st)"

lemma pg_step_refl: "pg_ok Ds st \<Longrightarrow> pg_step Ds {} st st"
  by (simp add: pg_step_def)

lemma pg_step_trans:
  assumes "pg_step Ds X st st1" "pg_step Ds Y st1 st2"
  shows "pg_step Ds (X \<union> Y) st st2"
proof -
  have "tables Ds st2 \<inter> user_pages (pg_pool st) \<subseteq> tables Ds st" using assms unfolding pg_step_def by blast
  moreover have "pg_mem st2 f = pg_mem st f" if "f \<notin> Ds \<union> tables Ds st2" for f
  proof -
    have "f \<notin> Ds \<union> tables Ds st1" using that assms(2) unfolding pg_step_def by blast
    then show ?thesis using that assms unfolding pg_step_def by simp
  qed
  ultimately show ?thesis using assms unfolding pg_step_def by auto
qed

lemma pg_okD:
  assumes "pg_ok Ds st" "c \<in> Ds"
  shows "user_pool_ok (pg_pool st)" "self_mapped c st" "c \<notin> user_area (pg_pool st)" "tables Ds st \<subseteq> user_area (pg_pool st)"
    "c \<notin> tables Ds st"
  using assms user_source.used_area[of "pg_pool st"] unfolding pg_ok_def by blast+

lemma tablesI: "c \<in> Ds \<Longrightarrow> d \<in> user_slots \<Longrightarrow> present (pg_mem st c d) \<Longrightarrow> PAGE_MASKED (pg_mem st c d) \<in> tables Ds st"
  unfolding tables_def by blast

text \<open>Writing an entry of a table changes one translation only.\<close>

lemma set_entry_ok:
  assumes ok: "pg_ok Ds st" and c: "c \<in> Ds" and v: "v div 1024 \<in> user_slots" and pr: "present (pg_mem st c (v div 1024))"
    and e: "present e \<Longrightarrow> leaf_ok Ds st (PAGE_MASKED e)"
  defines "T \<equiv> PAGE_MASKED (pg_mem st c (v div 1024))"
  defines "st' \<equiv> set_frame T ((pg_mem st T)(v mod 1024 := e)) st"
  shows "pg_step Ds {(c, v)} st st'" "pte_at c v st' = (if present e then Some e else None)" "tables Ds st' = tables Ds st"
proof -
  have T: "T \<in> tables Ds st" unfolding T_def using c v pr by (rule tablesI)
  have same: "pg_mem st' c' = pg_mem st c'" if "c' \<in> Ds" for c'
    using pg_okD[OF ok that] T by (auto simp: st'_def set_frame_def)
  have [simp]: "pg_pool st' = pg_pool st" "pg_cr3 st' = pg_cr3 st" by (simp_all add: st'_def set_frame_def)
  show tab: "tables Ds st' = tables Ds st" unfolding tables_def using same by (intro Collect_cong) metis
  have memT: "pg_mem st' T = (pg_mem st T)(v mod 1024 := e)" and memO: "f \<noteq> T \<Longrightarrow> pg_mem st' f = pg_mem st f" for f
    by (simp_all add: st'_def set_frame_def)
  show at: "pte_at c v st' = (if present e then Some e else None)"
    using pr memT unfolding pte_at_def same[OF c] T_def by (simp add: Let_def)
  have other: "pte_at c' v' st' = pte_at c' v' st" if c': "c' \<in> Ds" and v': "v' div 1024 < 1023" and ne: "(c', v') \<noteq> (c, v)" for c' v'
  proof (cases "present (pg_mem st c' (v' div 1024)) \<and> PAGE_MASKED (pg_mem st c' (v' div 1024)) = T")
    case True
    then have u: "v' div 1024 \<in> user_slots" using ok c' v' T pg_okD(4)[OF ok c] unfolding pg_ok_def by blast
    have "inj_on (\<lambda>(c, d). PAGE_MASKED (pg_mem st c d)) {(c, d). c \<in> Ds \<and> d \<in> user_slots \<and> present (pg_mem st c d)}"
      using ok by (simp add: pg_ok_def)
    then have "(c', v' div 1024) = (c, v div 1024)" using True u v pr c c' unfolding T_def by (elim inj_onD) auto
    then have "v' mod 1024 \<noteq> v mod 1024" using ne by (metis Pair_inject div_mult_mod_eq)
    then show ?thesis using True memT unfolding pte_at_def same[OF c'] by (simp add: Let_def)
  next
    case False
    then show ?thesis unfolding pte_at_def same[OF c'] by (auto simp: Let_def memO)
  qed
  have leaf: "leaf_ok Ds st' f = leaf_ok Ds st f" for f by (simp add: leaf_ok_def tab)
  have "pg_ok Ds st'"
    unfolding pg_ok_def tab leaf
  proof (intro conjI ballI allI impI)
    fix c' v' e' assume a: "c' \<in> Ds" "v' div 1024 \<in> user_slots" "pte_at c' v' st' = Some e'"
    show "leaf_ok Ds st (PAGE_MASKED e')"
    proof (cases "(c', v') = (c, v)")
      case True
      then show ?thesis using a(3) at e by (auto split: if_splits)
    next
      case False
      then have "pte_at c' v' st = Some e'" using other[OF a(1)] a(2,3) by auto
      then show ?thesis using ok a(1,2) unfolding pg_ok_def by blast
    qed
  next
    show "inj_on (\<lambda>(c, d). PAGE_MASKED (pg_mem st' c d)) {(c, d). c \<in> Ds \<and> d \<in> user_slots \<and> present (pg_mem st' c d)}"
    proof -
      have "inj_on (\<lambda>(c, d). PAGE_MASKED (pg_mem st c d)) {(c, d). c \<in> Ds \<and> d \<in> user_slots \<and> present (pg_mem st c d)}"
        using ok by (simp add: pg_ok_def)
      then show ?thesis using same by (auto simp: inj_on_def)
    qed
  qed (use ok same in \<open>auto simp: pg_ok_def self_mapped_def\<close>)
  then show "pg_step Ds {(c, v)} st st'" unfolding pg_step_def tab using other memO[OF _] T by (auto intro!: memO)
qed

text \<open>A page taken from the allocator is not in any table.\<close>

lemma pool_step:
  assumes ok: "pg_ok Ds st" and P: "user_pool_ok P" "user_area P = user_area (pg_pool st)" "user_pages (pg_pool st) \<subseteq> user_pages P"
  shows "pg_step Ds {} st (st\<lparr>pg_pool := P\<rparr>)"
proof -
  have t: "tables Ds (st\<lparr>pg_pool := P\<rparr>) = tables Ds st" by (simp add: tables_def)
  have at: "pte_at c v (st\<lparr>pg_pool := P\<rparr>) = pte_at c v st" for c v by (simp add: pte_at_def)
  have l: "leaf_ok Ds st f \<Longrightarrow> leaf_ok Ds (st\<lparr>pg_pool := P\<rparr>) f" for f using P by (auto simp: leaf_ok_def t split: if_splits)
  have "pg_ok Ds (st\<lparr>pg_pool := P\<rparr>)" unfolding pg_ok_def t at
  proof (intro conjI ballI allI impI)
    fix c v e assume "c \<in> Ds" "v div 1024 \<in> user_slots" "pte_at c v st = Some e"
    then show "leaf_ok Ds (st\<lparr>pg_pool := P\<rparr>) (PAGE_MASKED e)" using ok l unfolding pg_ok_def by blast
  qed (use ok P in \<open>auto simp: pg_ok_def self_mapped_def\<close>)
  then show ?thesis using P t at by (simp add: pg_step_def)
qed

lemma page_alloc_user_cases:
  assumes ok: "pg_ok Ds st"
  obtains a st' where "page_alloc_user st = Some (a, st')" "a \<noteq> 0" "a AND 0xfff = 0" "a \<notin> user_pages (pg_pool st)" "a \<in> user_area (pg_pool st)"
      "user_pages (pg_pool st') = insert a (user_pages (pg_pool st))" "user_avail (pg_pool st') + 1 = user_avail (pg_pool st)"
      "pg_step Ds {} st st'" "tables Ds st' = tables Ds st" "pg_mem st' = pg_mem st"
  | "page_alloc_user st = Some (0, st)" "user_avail (pg_pool st) = 0"
proof -
  have pok: "user_pool_ok (pg_pool st)" using ok by (simp add: pg_ok_def)
  show ?thesis
  proof (cases rule: user_source.alloc_cases[OF pok])
    case (1 a P)
    show ?thesis
      by (rule that(1)[of a "st\<lparr>pg_pool := P\<rparr>"]) (use 1 pool_step[OF ok] in \<open>auto simp: page_alloc_user_def tables_def\<close>)
  next
    case 2
    show ?thesis by (rule that(2)) (use 2 in \<open>auto simp: page_alloc_user_def\<close>)
  qed
qed

lemma masked_or:
  assumes "p AND 0xfff = 0" "b AND NOT 0xfff = 0"
  shows "PAGE_MASKED (p OR b OR 1) = p" "present (p OR b OR 1)"
proof -
  have "p = p AND (0xfff OR NOT 0xfff)" by (simp only: bit.disj_cancel_right and.right_neutral)
  also have "\<dots> = p AND NOT 0xfff" unfolding bit.conj_disj_distrib assms(1) by simp
  finally have "p AND NOT 0xfff = p" by simp
  moreover have "(1 :: u32) AND NOT 0xfff = 0" by code_simp
  ultimately show "PAGE_MASKED (p OR b OR 1) = p" using assms(2) by (simp add: PAGE_MASKED_def bit.conj_disj_distrib2)
  have "(p OR b OR 1) AND 1 = 1" by (simp add: bit.conj_disj_distrib2 ac_simps)
  then show "present (p OR b OR 1)" by simp
qed

text \<open>A new table leaves every translation as it was.\<close>

lemma new_table_ok:
  assumes ok: "pg_ok Ds st" and c: "c \<in> Ds" "pg_cr3 st = c" and v: "pn va div 1024 \<in> user_slots" and pr: "\<not> present (pg_mem st c (pn va div 1024))"
    and prot: "prot AND NOT 0xfff = 0" and av: "0 < user_avail (pg_pool st)"
  shows "\<exists>st'. new_table va prot st = Some st' \<and> pg_step Ds {} st st' \<and> present (pg_mem st' c (pn va div 1024))
    \<and> user_avail (pg_pool st') + 1 = user_avail (pg_pool st) \<and> pte_at c (pn va) st' = None"
proof -
  let ?d = "pn va div 1024"
  from page_alloc_user_cases[OF ok] av obtain t st1 where t: "page_alloc_user st = Some (t, st1)" "t \<noteq> 0" "t AND 0xfff = 0"
      "t \<notin> user_pages (pg_pool st)" "t \<in> user_area (pg_pool st)"
      "user_pages (pg_pool st1) = insert t (user_pages (pg_pool st))" "user_avail (pg_pool st1) + 1 = user_avail (pg_pool st)"
      "pg_step Ds {} st st1" "tables Ds st1 = tables Ds st" "pg_mem st1 = pg_mem st" by (metis less_irrefl)
  have ok1: "pg_ok Ds st1" and c1: "pg_cr3 st1 = c" and ar: "user_area (pg_pool st1) = user_area (pg_pool st)"
    using t(8) c(2) by (auto simp: pg_step_def)
  let ?e = "t OR prot OR 1"
  note e = masked_or[OF t(3) prot]
  define st2 where "st2 = set_frame c ((pg_mem st1 c)(?d := ?e)) st1"
  define st3 where "st3 = set_frame t (\<lambda>_. 0) st2"
  have tD: "t \<notin> Ds" using pg_okD(3)[OF ok] t(5) by blast
  have d1023: "?d \<noteq> 1023" using v by auto
  have self2: "self_mapped (pg_cr3 st2) st2" using pg_okD(2)[OF ok1 c(1)] d1023 c1 by (simp add: self_mapped_def st2_def set_frame_def)
  have run: "new_table va prot st = Some st3"
    using t(1,2) c1 pg_okD(2)[OF ok1 c(1)] self2 e
    by (simp add: new_table_def entry_access st2_def[symmetric] st3_def) (simp add: st2_def set_frame_def)
  have memc: "pg_mem st3 c = (pg_mem st c)(?d := ?e)" and memt: "pg_mem st3 t = (\<lambda>_. 0)"
    and memO: "f \<noteq> c \<Longrightarrow> f \<noteq> t \<Longrightarrow> pg_mem st3 f = pg_mem st f" for f
    using tD c(1) t(10) by (auto simp: st3_def st2_def set_frame_def)
  have [simp]: "pg_pool st3 = pg_pool st1" "pg_cr3 st3 = pg_cr3 st1" by (simp_all add: st3_def st2_def set_frame_def)
  have memD: "pg_mem st3 c' d = (if (c', d) = (c, ?d) then ?e else pg_mem st c' d)" if "c' \<in> Ds" for c' d
  proof -
    have "c' \<noteq> t" using that tD by auto
    then show ?thesis using memc memO[of c'] by (cases "c' = c") auto
  qed
  have tab: "tables Ds st3 = insert t (tables Ds st)"
  proof -
    have "x \<in> tables Ds st3 \<longleftrightarrow> x = t \<or> x \<in> tables Ds st" for x
      unfolding tables_def mem_Collect_eq using memD c(1) v e pr by (smt (verit) Pair_inject)
    then show ?thesis by blast
  qed
  have fr: "t \<notin> tables Ds st" using ok t(4) unfolding pg_ok_def by blast
  have at: "pte_at c' v' st3 = pte_at c' v' st" if c': "c' \<in> Ds" and v': "v' div 1024 < 1023" for c' v'
  proof (cases "(c', v' div 1024) = (c, ?d)")
    case True
    then show ?thesis using pr memt e memD[OF c'] by (simp add: pte_at_def Let_def)
  next
    case False
    then have m: "pg_mem st3 c' (v' div 1024) = pg_mem st c' (v' div 1024)" using memD[OF c'] by auto
    let ?F = "PAGE_MASKED (pg_mem st c' (v' div 1024))"
    have "?F \<noteq> c \<and> ?F \<noteq> t" if p: "present (pg_mem st c' (v' div 1024))"
    proof (cases "v' div 1024 \<in> user_slots")
      case True
      then show ?thesis using tablesI[OF c' True p] fr pg_okD(5)[OF ok c(1)] by auto
    next
      case False
      then have "?F \<notin> user_area (pg_pool st) \<union> Ds" using ok c' v' p unfolding pg_ok_def by blast
      then show ?thesis using t(5) c(1) by auto
    qed
    then show ?thesis using memO[of ?F] by (auto simp: pte_at_def m Let_def)
  qed
  have leaf: "leaf_ok Ds st f \<Longrightarrow> leaf_ok Ds st3 f" for f
    using t(4,6) by (auto simp: leaf_ok_def tab ar split: if_splits)
  have ok3: "pg_ok Ds st3"
    unfolding pg_ok_def tab
  proof (intro conjI ballI allI impI)
    fix c' v' e' assume a: "c' \<in> Ds" "v' div 1024 \<in> user_slots" "pte_at c' v' st3 = Some e'"
    then have "pte_at c' v' st = Some e'" using at[OF a(1)] by auto
    then show "leaf_ok Ds st3 (PAGE_MASKED e')" using ok a(1,2) leaf unfolding pg_ok_def by blast
  next
    let ?A = "{(c, d). c \<in> Ds \<and> d \<in> user_slots \<and> present (pg_mem st c d)}"
    have new: "{(c, d). c \<in> Ds \<and> d \<in> user_slots \<and> present (pg_mem st3 c d)} = insert (c, ?d) ?A"
      using memD c(1) v e(2) pr by (auto split: if_splits)
    have val: "(\<lambda>(c, d). PAGE_MASKED (pg_mem st3 c d)) x = (\<lambda>(c, d). PAGE_MASKED (pg_mem st c d)) x" if "x \<in> ?A" for x
      using that memD pr by (cases x) auto
    have "inj_on (\<lambda>(c, d). PAGE_MASKED (pg_mem st3 c d)) ?A \<longleftrightarrow> inj_on (\<lambda>(c, d). PAGE_MASKED (pg_mem st c d)) ?A"
      by (rule inj_on_cong) (rule val)
    moreover have "inj_on (\<lambda>(c, d). PAGE_MASKED (pg_mem st c d)) ?A" using ok by (simp add: pg_ok_def)
    moreover have "(\<lambda>(c, d). PAGE_MASKED (pg_mem st3 c d)) (c, ?d) = t" using memc e(1) by simp
    moreover have "t \<notin> (\<lambda>(c, d). PAGE_MASKED (pg_mem st3 c d)) ` ?A"
    proof
      assume "t \<in> (\<lambda>(c, d). PAGE_MASKED (pg_mem st3 c d)) ` ?A"
      then obtain x where "x \<in> ?A" "t = (\<lambda>(c, d). PAGE_MASKED (pg_mem st c d)) x" using val by (metis (no_types, lifting) imageE)
      then show False using fr tablesI[of "fst x" Ds "snd x" st] by (cases x) auto
    qed
    ultimately show "inj_on (\<lambda>(c, d). PAGE_MASKED (pg_mem st3 c d)) {(c, d). c \<in> Ds \<and> d \<in> user_slots \<and> present (pg_mem st3 c d)}"
      unfolding new inj_on_insert by blast
  next
    show "user_pool_ok (pg_pool st3)" using ok1 by (simp add: pg_ok_def)
    show "insert t (tables Ds st) \<subseteq> user_pages (pg_pool st3)" using ok t(6) unfolding pg_ok_def by auto
  next
    fix c' assume c': "c' \<in> Ds"
    show "self_mapped c' st3" using pg_okD(2)[OF ok c'] memD[OF c', of 1023] d1023 by (simp add: self_mapped_def)
    show "c' \<notin> user_area (pg_pool st3)" using pg_okD(3)[OF ok c'] ar by simp
  next
    fix c' d assume a: "c' \<in> Ds" "d < 1023" "d \<notin> user_slots" "present (pg_mem st3 c' d)"
    then have "pg_mem st3 c' d = pg_mem st c' d" using memD[OF a(1), of d] v by (auto split: if_splits)
    then show "PAGE_MASKED (pg_mem st3 c' d) \<notin> user_area (pg_pool st3) \<union> Ds" using ok a ar unfolding pg_ok_def by simp
  qed
  have "pte_at c (pn va) st3 = None" using at[OF c(1)] pr v by (auto simp: pte_at_def)
  moreover have "pg_mem st3 f = pg_mem st f" if "f \<notin> Ds \<union> insert t (tables Ds st)" for f using that c(1) by (intro memO) auto
  then have "pg_step Ds {} st st3" unfolding pg_step_def tab using ok3 at c1 c(2) ar t(4,6) by (simp add: subset_insertI)
  moreover have "present (pg_mem st3 c ?d)" using memc e(2) by simp
  ultimately show ?thesis using run t(7) by auto
qed

text \<open>\<^verbatim>\<open>page_link_addr\<close> of an unmapped user address adds exactly one translation.\<close>

lemma page_link_ok:
  assumes ok: "pg_ok Ds st" and c: "pg_cr3 st \<in> Ds" and v: "pn va div 1024 \<in> user_slots" and un: "pte_at (pg_cr3 st) (pn va) st = None"
    and prot: "prot AND NOT 0xfff = 0" and av: "0 < user_avail (pg_pool st)" and pa: "pa AND 0xfff = 0" "leaf_ok Ds st pa"
  shows "\<exists>st'. page_link_addr va pa prot st = Some st' \<and> pg_step Ds {(pg_cr3 st, pn va)} st st'
    \<and> pte_at (pg_cr3 st) (pn va) st' = Some (pa OR prot OR 1) \<and> user_avail (pg_pool st) \<le> user_avail (pg_pool st') + 1"
proof -
  let ?c = "pg_cr3 st" and ?d = "pn va div 1024"
  have "\<exists>st1. (if present (pg_mem st ?c ?d) then Some st else new_table va prot st) = Some st1 \<and> pg_step Ds {} st st1
      \<and> present (pg_mem st1 ?c ?d) \<and> user_avail (pg_pool st) \<le> user_avail (pg_pool st1) + 1 \<and> pte_at ?c (pn va) st1 = None"
  proof (cases "present (pg_mem st ?c ?d)")
    case True
    then show ?thesis using pg_step_refl[OF ok] un by auto
  next
    case False
    from new_table_ok[OF ok c refl v False prot av] False show ?thesis by auto
  qed
  then obtain st1 where s1: "(if present (pg_mem st ?c ?d) then Some st else new_table va prot st) = Some st1" "pg_step Ds {} st st1"
      "present (pg_mem st1 ?c ?d)" "user_avail (pg_pool st) \<le> user_avail (pg_pool st1) + 1" "pte_at ?c (pn va) st1 = None" by blast
  have ok1: "pg_ok Ds st1" and c1: "pg_cr3 st1 = ?c" using s1(2) by (auto simp: pg_step_def)
  have leaf: "leaf_ok Ds st1 pa" using pa(2) s1(2) by (auto simp: leaf_ok_def pg_step_def split: if_splits)
  let ?e = "pa OR prot OR 1"
  note e = masked_or[OF pa(1) prot]
  note w = set_entry_ok[OF ok1 c v s1(3), of ?e, unfolded e(1), OF leaf]
  let ?T = "PAGE_MASKED (pg_mem st1 ?c ?d)"
  let ?st' = "set_frame ?T ((pg_mem st1 ?T)(pn va mod 1024 := ?e)) st1"
  have np: "\<not> present (pg_mem st1 ?T (pn va mod 1024))" using s1(3,5) by (auto simp: pte_at_def Let_def split: if_splits)
  have "page_link_addr va pa prot st = Some ?st'"
    unfolding page_link_addr_def using s1(1,3) np c1 pg_okD(2)[OF ok c] pg_okD(2)[OF ok1 c] by (simp add: entry_access)
  moreover have "pg_step Ds {(?c, pn va)} st ?st'" using pg_step_trans[OF s1(2) w(1)] by simp
  ultimately show ?thesis using w(2) e(2) s1(4) by (auto simp: set_frame_def)
qed

text \<open>The pages \<open>V\<close> have been mapped, each to a page of its own that was not in use before.\<close>

definition mapped :: "u32 set \<Rightarrow> nat set \<Rightarrow> (nat \<Rightarrow> u32) \<Rightarrow> u32 \<Rightarrow> pgst \<Rightarrow> pgst \<Rightarrow> bool" where
  "mapped Ds V F attr st st' \<longleftrightarrow> pg_step Ds ({pg_cr3 st} \<times> V) st st' \<and> inj_on F V
     \<and> (\<forall>v \<in> V. pte_at (pg_cr3 st) v st' = Some (F v OR attr OR 1) \<and> F v AND 0xfff = 0
          \<and> F v \<in> user_pages (pg_pool st') - user_pages (pg_pool st))"

lemma mapped_empty: "pg_ok Ds st \<Longrightarrow> mapped Ds {} F attr st st"
  by (simp add: mapped_def pg_step_refl)

lemma mapped_step:
  assumes a: "pg_step Ds {} st st1" "user_pages (pg_pool st1) = insert a (user_pages (pg_pool st))" "a \<notin> user_pages (pg_pool st)" "a AND 0xfff = 0"
    and l: "pg_step Ds {(pg_cr3 st, v)} st1 st2" "pte_at (pg_cr3 st) v st2 = Some (a OR attr OR 1)"
    and m: "mapped Ds V F attr st2 st3" and v: "v \<notin> V" "v div 1024 < 1023" and c: "pg_cr3 st \<in> Ds"
  shows "mapped Ds (insert v V) (F(v := a)) attr st st3"
proof -
  have c2: "pg_cr3 st2 = pg_cr3 st" using a(1) l(1) by (simp add: pg_step_def)
  have s: "pg_step Ds ({pg_cr3 st} \<times> V) st2 st3" using m c2 by (simp add: mapped_def)
  have "{} \<union> {(pg_cr3 st, v)} \<union> {pg_cr3 st} \<times> V = {pg_cr3 st} \<times> insert v V" by auto
  then have "pg_step Ds ({pg_cr3 st} \<times> insert v V) st st3"
    using pg_step_trans[OF pg_step_trans[OF a(1) l(1)] s] by (simp only:)
  moreover have "pte_at (pg_cr3 st) v st3 = Some (a OR attr OR 1)" using s l(2) v c by (auto simp: pg_step_def)
  moreover have up: "insert a (user_pages (pg_pool st)) \<subseteq> user_pages (pg_pool st2)" "user_pages (pg_pool st2) \<subseteq> user_pages (pg_pool st3)"
    using a(2) l(1) s by (auto simp: pg_step_def)
  moreover have "F w \<notin> user_pages (pg_pool st2)" "F w \<in> user_pages (pg_pool st3)" "F w AND 0xfff = 0" "pte_at (pg_cr3 st) w st3 = Some (F w OR attr OR 1)" if "w \<in> V" for w
    using m that c2 by (auto simp: mapped_def)
  moreover have "inj_on (F(v := a)) (insert v V)"
  proof -
    have "inj_on F V" using m by (simp add: mapped_def)
    moreover have "a \<notin> F ` V" using up(1) \<open>\<And>w. w \<in> V \<Longrightarrow> F w \<notin> user_pages (pg_pool st2)\<close> by auto
    ultimately show ?thesis using v(1) by (auto simp: inj_on_def)
  qed
  ultimately show ?thesis using a(3,4) v(1) unfolding mapped_def by auto
qed

lemma leaf_fresh:
  assumes ok: "pg_ok Ds st" and "a \<notin> user_pages (pg_pool st)" "a \<in> user_area (pg_pool st)" "user_pages (pg_pool st1) = insert a (user_pages (pg_pool st))"
    "pg_step Ds {} st st1" "tables Ds st1 = tables Ds st"
  shows "leaf_ok Ds st1 a"
  using assms unfolding leaf_ok_def pg_step_def pg_ok_def by auto

lemma page_map_loop_ok:
  assumes ok: "pg_ok Ds st" and c: "pg_cr3 st \<in> Ds" and attr: "attr AND NOT 0xfff = 0"
    and s: "unat start = 4096 * s" "1024 \<le> s" and en: "unat end' \<le> 4096 * (s + n)" "4096 * (s + n) < unat end' + 4096 \<or> n = 0" "unat end' \<le> 0x80000000"
    and un: "\<forall>v \<in> {s..<s + n}. pte_at (pg_cr3 st) v st = None" and av: "2 * n \<le> user_avail (pg_pool st)"
  shows "\<exists>st' F. page_map_loop start end' attr st = Some (Inr (), st') \<and> mapped Ds {s..<s + n} F attr st st'"
  using ok c s en un av
proof (induction n arbitrary: start s st)
  case 0
  then have "\<not> start < end'" by (simp add: word_less_nat_alt)
  then show ?case using mapped_empty[OF 0(1)] page_map_loop.simps[of start end' attr st] by auto
next
  case (Suc n)
  have lt: "start < end'" using Suc.prems(3,6) by (simp add: word_less_nat_alt)
  have sl: "4096 * s < 0x80000000" using Suc.prems(6,7) by simp
  have slot: "s div 1024 \<in> user_slots" using sl Suc.prems(4) by (simp add: less_mult_imp_div_less div_greater_zero_iff Suc_le_eq)
  have pn: "pn start = s" using Suc.prems(3) by simp
  from page_alloc_user_cases[OF Suc.prems(1)] Suc.prems(9) obtain a st1 where a: "page_alloc_user st = Some (a, st1)" "a \<noteq> 0" "a AND 0xfff = 0"
      "a \<notin> user_pages (pg_pool st)" "a \<in> user_area (pg_pool st)" "user_pages (pg_pool st1) = insert a (user_pages (pg_pool st))"
      "user_avail (pg_pool st1) + 1 = user_avail (pg_pool st)" "pg_step Ds {} st st1" "tables Ds st1 = tables Ds st" by (metis Suc_neq_Zero le_zero_eq mult_eq_0_iff zero_neq_numeral)
  have ok1: "pg_ok Ds st1" and c1: "pg_cr3 st1 = pg_cr3 st" using a(8) by (auto simp: pg_step_def)
  have un1: "pte_at (pg_cr3 st1) (pn start) st1 = None" using a(8) c1 Suc.prems(2,8) slot pn by (auto simp: pg_step_def)
  have av1: "0 < user_avail (pg_pool st1)" "2 * n + 1 \<le> user_avail (pg_pool st1)" using a(7) Suc.prems(9) by auto
  obtain st2 where st2: "page_link_addr start a attr st1 = Some st2" "pg_step Ds {(pg_cr3 st, s)} st1 st2" "pte_at (pg_cr3 st) s st2 = Some (a OR attr OR 1)"
      "user_avail (pg_pool st1) \<le> user_avail (pg_pool st2) + 1"
    using page_link_ok[OF ok1 _ _ un1 attr av1(1) a(3) leaf_fresh[OF Suc.prems(1) a(4-6,8,9)]] c1 Suc.prems(2) slot pn by auto
  have c2: "pg_cr3 st2 = pg_cr3 st" and ok2: "pg_ok Ds st2" using st2(2) c1 by (auto simp: pg_step_def)
  have nx: "unat (start + 0x1000) = 4096 * (s + 1)" using Suc.prems(3) sl by (simp add: unat_word_ariths)
  have un2: "\<forall>v \<in> {s + 1..<s + 1 + n}. pte_at (pg_cr3 st2) v st2 = None"
  proof
    fix v assume v: "v \<in> {s + 1..<s + 1 + n}"
    then have "4096 * v < 0x80000000" using Suc.prems(6,7) by auto
    then have "v div 1024 < 1023" by (simp add: less_mult_imp_div_less)
    then show "pte_at (pg_cr3 st2) v st2 = None" using st2(2) a(8) v c1 c2 Suc.prems(2,8) by (auto simp: pg_step_def)
  qed
  have "\<exists>st' F. page_map_loop (start + 0x1000) end' attr st2 = Some (Inr (), st') \<and> mapped Ds {s + 1..<s + 1 + n} F attr st2 st'"
    by (rule Suc.IH) (use ok2 c2 Suc.prems nx un2 av1 st2(4) in auto)
  then obtain st' F where IH: "page_map_loop (start + 0x1000) end' attr st2 = Some (Inr (), st')" "mapped Ds {s + 1..<s + 1 + n} F attr st2 st'" by blast
  have "mapped Ds (insert s {s + 1..<s + 1 + n}) (F(s := a)) attr st st'"
    by (rule mapped_step[OF a(8,6,4,3) st2(2,3) IH(2)]) (use slot Suc.prems(2) in auto)
  moreover have "insert s {s + 1..<s + 1 + n} = {s..<s + Suc n}" by auto
  moreover have "page_map_loop start end' attr st = Some (Inr (), st')" using lt a(1,2) st2(1) IH(1) page_map_loop.simps[of start end' attr st] by simp
  ultimately show ?case by auto
qed

lemma attr_small [simp]: "prot_attr prot AND NOT 0xfff = 0" "safe_attr prot AND NOT 0xfff = 0"
proof -
  have "(x OR y) AND NOT 0xfff = 0" if "x AND NOT 0xfff = 0" "y AND NOT 0xfff = 0" for x y :: u32 using that by (simp add: bit.conj_disj_distrib2)
  moreover have "(4 :: u32) AND NOT 0xfff = 0" "(2 :: u32) AND NOT 0xfff = 0" by code_simp+
  ultimately show "prot_attr prot AND NOT 0xfff = 0" "safe_attr prot AND NOT 0xfff = 0" by (simp_all add: prot_attr_def safe_attr_def)
qed

text \<open>The pages that \<open>len\<close> bytes from the start of the page of \<open>a\<close> on touch.\<close>

definition pages_of :: "u32 \<Rightarrow> u32 \<Rightarrow> nat set" where
  "pages_of a len = {pn a..<pn a + (unat len + 4095) div 4096}"

lemma page_map_ok:
  assumes ok: "pg_ok Ds st" and c: "pg_cr3 st \<in> Ds" and start: "0x400000 \<le> start" "4096 * pn start + unat len \<le> 0x80000000"
    and un: "\<forall>v \<in> pages_of start len. pte_at (pg_cr3 st) v st = None" and av: "2 * card (pages_of start len) \<le> user_avail (pg_pool st)"
  shows "\<exists>st' F. page_map_addr start len prot st = Some (Inr (), st') \<and> mapped Ds (pages_of start len) F (prot_attr prot) st st'"
proof -
  let ?s = "pn start" and ?n = "(unat len + 4095) div 4096"
  have e: "unat (PAGE_MASKED start + len) = 4096 * ?s + unat len"
    using start(2) by (simp add: unat_word_ariths unat_masked)
  have "0x400000 \<le> unat start" using start(1) by (simp add: word_le_nat_alt)
  then have s: "1024 \<le> ?s" by (simp add: less_eq_div_iff_mult_less_eq)
  have n: "unat len \<le> 4096 * ?n" "4096 * ?n < unat len + 4096 \<or> ?n = 0"
    using mult_div_mod_eq[of 4096 "unat len + 4095"] mod_less_divisor[of 4096 "unat len + 4095"] by linarith+
  have en: "unat (PAGE_MASKED start + len) \<le> 4096 * (?s + ?n)"
    "4096 * (?s + ?n) < unat (PAGE_MASKED start + len) + 4096 \<or> ?n = 0" "unat (PAGE_MASKED start + len) \<le> 0x80000000"
    unfolding e add_mult_distrib2 using n start(2) by linarith+
  have "2 * ?n \<le> user_avail (pg_pool st)" using av by (simp add: pages_of_def)
  then show ?thesis using page_map_loop_ok[OF ok c attr_small(1) unat_masked s en un[unfolded pages_of_def]]
    unfolding page_map_addr_def Let_def pages_of_def by blast
qed

text \<open>C14: \<^verbatim>\<open>page_map_addr\<close> of an unmapped range of user addresses, with enough free pages for the range and its
  tables, succeeds: every page of the range is mapped with exactly the access the protection asks
  for, to a page of its own that was not in use before; no other translation of any process
  and no content of any page changes, and the tables of all processes stay separate.\<close>

theorem page_map_addr_correct:
  assumes "pg_ok Ds st" "pg_cr3 st \<in> Ds" "0x400000 \<le> start" "4096 * pn start + unat len \<le> 0x80000000"
    "\<forall>v \<in> pages_of start len. pte_at (pg_cr3 st) v st = None" "2 * card (pages_of start len) \<le> user_avail (pg_pool st)"
  shows "\<exists>st' F. page_map_addr start len prot st = Some (Inr (), st') \<and> mapped Ds (pages_of start len) F (prot_attr prot) st st'"
  by (rule page_map_ok[OF assms])

definition demo_pg :: pgst where
  "demo_pg = \<lparr>pg_mem = (\<lambda>f i. if f = 0x3f2000 \<and> i = 1023 then 0x3f2003 else 0), pg_cr3 = 0x3f2000, pg_pool = demo_pool\<rparr>"

lemma demo_pg_sel [simp]: "pg_cr3 demo_pg = 0x3f2000" "pg_pool demo_pg = demo_pool"
  by (simp_all add: demo_pg_def)

lemma demo_pg_none [simp]: "v div 1024 \<noteq> 1023 \<Longrightarrow> pte_at c v demo_pg = None"
  by (simp add: pte_at_def demo_pg_def)

lemma demo_user_pool: "user_pool_ok demo_pool" "0x3f2000 \<notin> user_area demo_pool" "user_avail demo_pool = 2"
proof -
  show "user_pool_ok demo_pool" unfolding user_pool_ok_def using demo_pool_ok by (simp add: demo_pool_def demo_range_def)
  have lay: "layout_ok demo_pool" using demo_pool_ok by (simp add: pool_ok_def)
  have R: "demo_range 0x300000 \<in> set demo_pool" "demo_pool ! 2 = demo_range 0x300000" by (simp_all add: demo_pool_def)
  have u: "unat (page_addr (demo_range 0x300000) i) = 4096 * i + 0x300000" if "i < 4" for i
    using page_addr_unat(1)[OF lay R(1), of i] that by (simp add: demo_range_def)
  show "0x3f2000 \<notin> user_area demo_pool"
  proof
    assume "0x3f2000 \<in> user_area demo_pool"
    then obtain i where "i < 4" "(0x3f2000 :: u32) = page_addr (demo_range 0x300000) i" unfolding user_area_def R(2) by (auto simp: demo_range_def)
    then have "unat (0x3f2000 :: u32) = 4096 * i + 0x300000" using u by metis
    then show False using \<open>i < 4\<close> by simp
  qed
  have "range_ok (demo_range 0x300000)" using demo_pool_ok R(1) by (simp add: pool_ok_def)
  then have "range_free_pages (demo_range 0x300000) = (\<Sum>k < 12. length (freel (demo_range 0x300000) k) * 2 ^ k)"
    by (intro range_free_pages_eq) (simp add: range_ok_def)
  also have "\<dots> = (\<Sum>k < (12 :: nat). if k = 1 then 2 else 0)" by (intro sum.cong) (auto simp: demo_range_sect)
  also have "\<dots> = 2" by simp
  finally show "user_avail demo_pool = 2" unfolding user_avail_def R(2) .
qed

lemma demo_pg_ok: "pg_ok {0x3f2000} demo_pg"
proof -
  have t: "tables {0x3f2000} demo_pg = {}" by (auto simp: tables_def demo_pg_def)
  have e: "{(c, d). c \<in> {0x3f2000} \<and> d \<in> user_slots \<and> present (pg_mem demo_pg c d)} = {}" by (auto simp: demo_pg_def)
  have "self_mapped 0x3f2000 demo_pg" by (simp add: self_mapped_def demo_pg_def PAGE_MASKED_def)
  moreover have "\<not> present (pg_mem demo_pg 0x3f2000 d)" if "d < 1023" for d using that by (simp add: demo_pg_def)
  moreover have "v div 1024 \<in> user_slots \<Longrightarrow> pte_at c v demo_pg = None" for c v by (rule demo_pg_none) auto
  ultimately show ?thesis unfolding pg_ok_def t e using demo_user_pool(1,2) by auto
qed

theorem page_map_addr_correct_witness:
  "\<exists>st' F. page_map_addr 0x400000 0x1000 0x12 demo_pg = Some (Inr (), st') \<and> mapped {0x3f2000} {1024} F 6 demo_pg st'"
proof -
  have p: "pages_of 0x400000 0x1000 = {1024}" by (auto simp: pages_of_def)
  have "prot_attr 0x12 = 6" by (simp add: prot_attr_def)
  then show ?thesis using page_map_addr_correct[where start = "0x400000" and len = "0x1000" and prot = "0x12", OF demo_pg_ok, unfolded p] demo_user_pool(3) by fastforce
qed

text \<open>A second concrete state: one directory maps page 1024 to a frame with data, the other is empty.\<close>

definition demo_range2 :: mem_range_t where
  "demo_range2 = (demo_range 0x300000)\<lparr>node_table := (\<lambda>i. if i < 2 then zero_node\<lparr>n_section := Some 0\<rparr> else zero_node)\<rparr>"

definition demo_pool2 :: mem_pool where
  "demo_pool2 = [demo_range 0x100000, demo_range 0x200000, demo_range2]"

definition demo_pg2 :: pgst where
  "demo_pg2 = \<lparr>pg_mem = (\<lambda>_ _. 0)(0x3f2000 := (\<lambda>_. 0)(1023 := 0x3f2003, 1 := 0x300007), 0x3f1000 := (\<lambda>_. 0)(1023 := 0x3f1003),
      0x300000 := (\<lambda>_. 0)(0 := 0x301007), 0x301000 := of_nat), pg_cr3 = 0x3f2000, pg_pool = demo_pool2\<rparr>"

lemma demo_pg2_sel [simp]: "pg_cr3 demo_pg2 = 0x3f2000" "pg_pool demo_pg2 = demo_pool2"
  by (simp_all add: demo_pg2_def)

lemma demo_range2_sect: "sect demo_range2 k = sect (demo_range 0x300000) k"
  by (simp add: demo_range2_def)

lemma demo_blocks2: "free_blocks demo_range2 = {(2, 1)}" "alloc_blocks demo_range2 = {(0, 0), (1, 0)}" "r_pages demo_range2 = 4"
    "r_start demo_range2 = 0x300000"
proof -
  show "free_blocks demo_range2 = {(2, 1)}" using demo_blocks(1)[of "0x300000"] by (simp add: free_blocks_def demo_range2_sect)
  show p: "r_pages demo_range2 = 4" "r_start demo_range2 = 0x300000" by (simp_all add: demo_range2_def demo_range_def)
  have n: "n_section (node_table demo_range2 i) = (if i < 2 then Some 0 else None)" for i by (simp add: demo_range2_def zero_node_def)
  show "alloc_blocks demo_range2 = {(0, 0), (1, 0)}"
    by (auto simp: alloc_blocks_def n p demo_range2_sect demo_range_sect split: if_splits)
qed

lemma demo_pool2_ok: "pool_ok demo_pool2"
proof -
  have r: "range_ok (demo_range a)" if "a \<in> {0x100000, 0x200000, 0x300000}" for a
    using demo_pool_ok that by (auto simp: pool_ok_def demo_pool_def)
  have "sections_ok demo_range2" using r[of "0x300000"] unfolding range_ok_def sections_ok_def demo_range2_sect by (simp add: demo_range2_def)
  then have "range_ok demo_range2" unfolding range_ok_def demo_blocks2 by (auto simp: disj_def blk_def demo_range2_def demo_range_def zero_node_def split: if_splits)
  moreover have "layout_ok demo_pool2" by (simp add: layout_ok_def demo_pool2_def demo_range2_def demo_range_def less_3_cases)
  ultimately show ?thesis using r by (auto simp: pool_ok_def demo_pool2_def)
qed

lemma demo_user_pool2: "user_pool_ok demo_pool2" "user_pages demo_pool2 = {0x300000, 0x301000}" "user_area demo_pool2 = {0x300000, 0x301000, 0x302000, 0x303000}"
    "user_avail demo_pool2 = 2"
proof -
  have n: "demo_pool2 ! 2 = demo_range2" by (simp add: demo_pool2_def)
  show "user_pool_ok demo_pool2" unfolding user_pool_ok_def n using demo_pool2_ok by (simp add: demo_blocks2)
  have pa: "page_addr demo_range2 0 = 0x300000" "page_addr demo_range2 1 = 0x301000" "page_addr demo_range2 2 = 0x302000" "page_addr demo_range2 3 = 0x303000"
    by (simp_all add: page_addr_def demo_blocks2)
  have "{b \<in> alloc_blocks demo_range2. snd b = 0} = {(0, 0), (1, 0)}" unfolding demo_blocks2 by auto
  then show "user_pages demo_pool2 = {0x300000, 0x301000}" unfolding user_pages_def n using pa by simp
  have "{..<4 :: nat} = {0, 1, 2, 3}" by auto
  then show "user_area demo_pool2 = {0x300000, 0x301000, 0x302000, 0x303000}" unfolding user_area_def n demo_blocks2 using pa by simp
  have "user_avail demo_pool2 = user_avail demo_pool"
    unfolding user_avail_def n range_free_pages_def demo_range2_sect by (simp add: demo_pool_def)
  then show "user_avail demo_pool2 = 2" by (simp add: demo_user_pool)
qed

lemma demo_pg2_at:
  assumes "v div 1024 < 1023"
  shows "pte_at 0x3f2000 v demo_pg2 = (if v = 1024 then Some 0x301007 else None)" "pte_at 0x3f1000 v demo_pg2 = None"
proof -
  have "v = 1024" if "v div 1024 = 1" "v mod 1024 = 0" using that div_mult_mod_eq[of v 1024] by simp
  then show "pte_at 0x3f2000 v demo_pg2 = (if v = 1024 then Some 0x301007 else None)" using assms
    by (auto simp: pte_at_def demo_pg2_def PAGE_MASKED_def)
  show "pte_at 0x3f1000 v demo_pg2 = None" using assms by (simp add: pte_at_def demo_pg2_def)
qed

lemma demo_pg2_ok: "pg_ok {0x3f2000, 0x3f1000} demo_pg2"
proof -
  have p: "present (pg_mem demo_pg2 c d) \<longleftrightarrow> (c, d) = (0x3f2000, 1)" if "c \<in> {0x3f2000, 0x3f1000}" "d < 1023" for c d
    using that by (auto simp: demo_pg2_def)
  have e: "{(c, d). c \<in> {0x3f2000, 0x3f1000} \<and> d \<in> user_slots \<and> present (pg_mem demo_pg2 c d)} = {(0x3f2000, 1)}"
  proof (rule set_eqI)
    fix x show "x \<in> {(c, d). c \<in> {0x3f2000, 0x3f1000} \<and> d \<in> user_slots \<and> present (pg_mem demo_pg2 c d)} \<longleftrightarrow> x \<in> {(0x3f2000, 1)}"
      using p[of "fst x" "snd x"] by (cases x) auto
  qed
  have m: "PAGE_MASKED (pg_mem demo_pg2 0x3f2000 1) = 0x300000" by (simp add: demo_pg2_def PAGE_MASKED_def)
  have t: "tables {0x3f2000, 0x3f1000} demo_pg2 = {0x300000}"
  proof -
    have "tables {0x3f2000, 0x3f1000} demo_pg2 = (\<lambda>(c, d). PAGE_MASKED (pg_mem demo_pg2 c d)) ` {(c, d). c \<in> {0x3f2000, 0x3f1000} \<and> d \<in> user_slots \<and> present (pg_mem demo_pg2 c d)}"
      unfolding tables_def by auto
    then show ?thesis unfolding e using m by simp
  qed
  have "self_mapped 0x3f2000 demo_pg2" "self_mapped 0x3f1000 demo_pg2" by (simp_all add: self_mapped_def demo_pg2_def PAGE_MASKED_def)
  moreover have "PAGE_MASKED 0x301007 = 0x301000" by (simp add: PAGE_MASKED_def)
  ultimately show ?thesis unfolding pg_ok_def e t leaf_ok_def using p demo_pg2_at by (auto simp: demo_user_pool2 split: if_splits)
qed

end
