(* ===== verification/Page_Fault.thy ===== *)
theory Page_Fault
  imports Page Exception
begin

text \<open>
  The page-fault handler of \<^verbatim>\<open>src/arch/x86/mach-i386/mm/page.c\<close>: demand paging, growth of the stack, write protection and
  the exceptions for illegal accesses. Its state is the page tables, the address space of the
  current task and the exception managers.
\<close>

section \<open>Page faults\<close>

record pfst =
  pf_pg :: pgst
  pf_vmm :: vmm_t
  pf_x :: xst

definition pf_raise :: "bool \<Rightarrow> u32 \<Rightarrow> pfst \<Rightarrow> (unit res \<times> pfst) option" where
  "pf_raise mem_ok code S = do {
     (_, X) \<leftarrow> exception_force_self mem_ok code (pf_x S);
     Some (Inl E_FAIL, S\<lparr>pf_x := X\<rparr>) }"

definition do_handle_no_page :: "u32 \<Rightarrow> u32 \<Rightarrow> pgst \<Rightarrow> (unit res \<times> pgst) option" where
  "do_handle_no_page addr prot st = page_map_addr addr PAGE_SIZE prot st"

definition do_page_no_write :: "u32 \<Rightarrow> pgst \<Rightarrow> (unit res \<times> pgst) option" where
  "do_page_no_write addr st =
     (if \<not> (USER_VMM_BASE_ADDR \<le> addr \<and> addr < USER_VMM_TOP_ADDR) then Some (Inl E_FAIL, st)
      else do {
        pde \<leftarrow> vload (vir_addr_to_dir_entry addr) st;
        if \<not> present pde then Some (Inl E_FAIL, st)
        else do {
          pte \<leftarrow> vload (vir_addr_to_table_entry addr) st;
          if \<not> present pte then Some (Inl E_FAIL, st)
          else map_option (\<lambda>st. (Inr (), st)) (vstore (vir_addr_to_table_entry addr) (pte OR PAGE_ATTR_WRITE) st) } })"

definition do_vir_mem_fault :: "bool \<Rightarrow> u32 \<Rightarrow> pfst \<Rightarrow> (unit res \<times> pfst) option" where
  "do_vir_mem_fault mem_ok addr S = pf_raise mem_ok EXP_CODE_SEGV S"

definition do_expand_stack :: "mem_space_t \<Rightarrow> u32 \<Rightarrow> vmm_t \<Rightarrow> vmm_t" where
  "do_expand_stack sp addr vmm =
     vmm\<lparr>mem_space_head := map (\<lambda>q. if sp_id q = sp_id sp then q\<lparr>sp_start := PAGE_MASKED addr\<rparr> else q) (mem_space_head vmm)\<rparr>"

definition do_protection_fault :: "bool \<Rightarrow> mem_space_t \<Rightarrow> u32 \<Rightarrow> bool \<Rightarrow> pfst \<Rightarrow> (unit res \<times> pfst) option" where
  "do_protection_fault mem_ok sp addr write S =
     (if \<not> write then pf_raise mem_ok EXP_CODE_SEGV S
      else do {
        (e, st) \<leftarrow> do_page_no_write addr (pf_pg S);
        if e \<noteq> Inr () then pf_raise mem_ok EXP_CODE_SEGV (S\<lparr>pf_pg := st\<rparr>)
        else do {
          (e, st) \<leftarrow> do_handle_no_page addr (page_prot sp) st;
          if e \<noteq> Inr () then pf_raise mem_ok EXP_CODE_SEGV (S\<lparr>pf_pg := st\<rparr>)
          else Some (Inr (), S\<lparr>pf_pg := st\<rparr>) } })"

text \<open>\<open>addr\<close> is the content of cr2. The result of \<^verbatim>\<open>do_handle_no_page\<close> is not looked at.\<close>

definition page_do_fault :: "bool \<Rightarrow> trap_frame_t \<Rightarrow> u32 \<Rightarrow> pfst \<Rightarrow> (unit res \<times> pfst) option" where
  "page_do_fault mem_ok frame addr S =
     (let user = USER_VMM_BASE_ADDR \<le> addr \<and> addr < USER_VMM_TOP_ADDR in
      if tf_error_code frame AND PAGE_ERR_USER = 0 \<and> \<not> user then None
      else if \<not> user then do { (_, S) \<leftarrow> do_vir_mem_fault mem_ok addr S; Some (Inl E_FAIL, S) }
      else if addr < PAGE_SIZE then pf_raise mem_ok EXP_CODE_SEGV S
      else case mem_space_find (pf_vmm S) addr of
        None \<Rightarrow> pf_raise mem_ok EXP_CODE_SEGV S
      | Some sp \<Rightarrow>
          let grow = addr < sp_start sp \<and> tf_error_code frame AND PAGE_ERR_USER \<noteq> 0;
              can = sp_flags sp AND MEM_SPACE_MAP_STACK \<noteq> 0 \<and> sp_end sp - sp_start sp < MAX_MEM_SPACE_STACK_SIZE
                    \<and> tf_esp frame \<le> addr + 32 in
          if grow \<and> \<not> can then pf_raise mem_ok EXP_CODE_SEGV S
          else let S = (if grow then S\<lparr>pf_vmm := do_expand_stack sp addr (pf_vmm S)\<rparr> else S) in
            if tf_error_code frame AND PAGE_ERR_PROTECT \<noteq> 0
            then do_protection_fault mem_ok sp addr (tf_error_code frame AND PAGE_ERR_WRITE \<noteq> 0) S
            else do {
              (_, st) \<leftarrow> do_handle_no_page addr (page_prot sp) (pf_pg S);
              Some (Inr (), S\<lparr>pf_pg := st\<rparr>) })"


section \<open>Legal accesses are served\<close>

text \<open>
  The condition under which the handler extends a stack downwards: the access is from user mode, the
  space is a stack of less than 16 MB, and the address is at most 32 bytes below the stack pointer.
\<close>

definition may_grow :: "trap_frame_t \<Rightarrow> u32 \<Rightarrow> mem_space_t \<Rightarrow> bool" where
  "may_grow frame addr sp \<longleftrightarrow> tf_error_code frame AND PAGE_ERR_USER \<noteq> 0 \<and> sp_flags sp AND MEM_SPACE_MAP_STACK \<noteq> 0
     \<and> sp_end sp - sp_start sp < MAX_MEM_SPACE_STACK_SIZE \<and> tf_esp frame \<le> addr + 32"

lemma pages_of_one: "pages_of a PAGE_SIZE = {pn a}"
  by (auto simp: pages_of_def)

lemma user_addr:
  assumes "0x400000 \<le> (a :: u32)" "a < 0x80000000"
  shows "\<not> a < PAGE_SIZE" "4096 * pn a + unat (0x1000 :: u32) \<le> 0x80000000"
proof -
  have u: "0x400000 \<le> unat a" "unat a < 0x80000000" using assms by (simp_all add: word_le_nat_alt word_less_nat_alt)
  then show "\<not> a < PAGE_SIZE" by (simp add: word_less_nat_alt)
  have "pn a < 0x80000" using u(2) by (simp add: less_mult_imp_div_less)
  then show "4096 * pn a + unat (0x1000 :: u32) \<le> 0x80000000" by simp
qed

lemma no_page_ok:
  assumes "pg_ok Ds st" "pg_cr3 st \<in> Ds" "0x400000 \<le> addr" "addr < 0x80000000" "pte_at (pg_cr3 st) (pn addr) st = None" "2 \<le> user_avail (pg_pool st)"
  shows "\<exists>st' F. do_handle_no_page addr prot st = Some (Inr (), st') \<and> mapped Ds {pn addr} F (prot_attr prot) st st'"
  unfolding do_handle_no_page_def pages_of_one[symmetric]
  by (rule page_map_ok) (use assms user_addr[OF assms(3,4)] in \<open>simp_all add: pages_of_one\<close>)


definition demo_space :: mem_space_t where
  "demo_space = mem_space_init 5 0x400000 0x402000 0x12 0"

definition demo_pf :: pfst where
  "demo_pf = \<lparr>pf_pg = demo_pg2, pf_vmm = demo_vmm\<lparr>mem_space_head := [demo_space]\<rparr>, pf_x = demo_xst\<rparr>"

lemma demo_pf_find: "mem_space_find (pf_vmm demo_pf) a = (if a < 0x402000 then Some demo_space else None)"
  by (simp add: demo_pf_def mem_space_find_def spaces_from_def demo_space_def mem_space_init_def)



section \<open>Illegal accesses are signalled\<close>

definition signalled :: "tid \<Rightarrow> u32 \<Rightarrow> xst \<Rightarrow> xst \<Rightarrow> bool" where
  "signalled t code X X' \<longleftrightarrow> (\<forall>u. u \<noteq> t \<longrightarrow> x_em X' u = x_em X u)
     \<and> (if visible (em_catch (x_em X t)) code
        then caught t X' = caught t X @ [code] \<and> pending t X' = pending t X
        else pending t X' = pending t X @ [code] \<and> caught t X' = caught t X)"

text \<open>
  A forced exception reaches the running task even when the task blocks it, unless it is already
  in a handler.
\<close>

lemma exception_force_self_ok:
  assumes X: "xst_ok X" and t: "t = task_current (x_k X)" "task_find_by_pid (t_pid (k_task (x_k X) t)) (x_k X) = Some t" "0 \<le> t_pid (k_task (x_k X) t)"
    and h: "em_in_user_mode (x_em X t) = 0"
  shows "\<exists>X'. exception_force_self True EXP_CODE_SEGV X = Some (Inr (), X') \<and> xst_ok X' \<and> signalled t EXP_CODE_SEGV X X'"
proof -
  have em: "em_ok (x_em X t)" using X by (simp add: xst_ok_def)
  then obtain w where w: "em_block (x_em X t) = [w]" by (auto simp: em_ok_def length_Suc_conv)
  define em' where "em' = (x_em X t)\<lparr>em_block := [w AND NOT 128]\<rparr>"
  have d: "exception_disable_block (x_em X t) EXP_CODE_SEGV = Some em'"
    by (simp add: exception_disable_block_def set_excl_def set_word_def w code_bit_def em'_def push_bit_eq_mult)
  let ?X = "upd_em t em' X"
  have X1: "xst_ok ?X" using X em by (simp add: xst_ok_def em'_def em_ok_def)
  have nb: "\<not> visible (em_block (x_em ?X t)) EXP_CODE_SEGV" by (simp add: visible_def em'_def bit_simps bit_numeral_rec)
  from exception_send_ok[OF X1, of True "t_pid (k_task (x_k X) t)" EXP_CODE_SEGV] t h nb obtain X'
    where "exception_send True (t_pid (k_task (x_k X) t)) EXP_CODE_SEGV ?X = Some (Inr (), X')" "xst_ok X'"
      "\<forall>u. u \<noteq> t \<longrightarrow> x_em X' u = x_em ?X u"
      "if visible (em_catch (x_em ?X t)) EXP_CODE_SEGV then caught t X' = caught t ?X @ [EXP_CODE_SEGV] \<and> pending t X' = pending t ?X
       else pending t X' = pending t ?X @ [EXP_CODE_SEGV] \<and> caught t X' = caught t ?X"
    by (auto simp: em'_def)
  then show ?thesis using d t by (auto simp: exception_force_self_def exception_force_def signalled_def caught_def pending_def em'_def)
qed

text \<open>The handler's state seen from the running task \<open>t\<close>, which is not in a handler.\<close>

definition fault_task :: "tid \<Rightarrow> xst \<Rightarrow> bool" where
  "fault_task t X \<longleftrightarrow> xst_ok X \<and> t = task_current (x_k X) \<and> task_find_by_pid (t_pid (k_task (x_k X) t)) (x_k X) = Some t
     \<and> 0 \<le> t_pid (k_task (x_k X) t) \<and> em_in_user_mode (x_em X t) = 0"

lemma pf_raise_ok:
  assumes "fault_task t (pf_x S)"
  shows "\<exists>S'. pf_raise True EXP_CODE_SEGV S = Some (Inl E_FAIL, S') \<and> pf_pg S' = pf_pg S \<and> pf_vmm S' = pf_vmm S
    \<and> xst_ok (pf_x S') \<and> signalled t EXP_CODE_SEGV (pf_x S) (pf_x S')"
  using exception_force_self_ok[of "pf_x S" t] assms by (auto simp: pf_raise_def fault_task_def)

definition illegal :: "trap_frame_t \<Rightarrow> u32 \<Rightarrow> vmm_t \<Rightarrow> bool" where
  "illegal frame addr vmm \<longleftrightarrow>
     (if addr < 0x80000000
      then addr < PAGE_SIZE \<or> (case mem_space_find vmm addr of None \<Rightarrow> True
        | Some sp \<Rightarrow> addr < sp_start sp \<and> tf_error_code frame AND PAGE_ERR_USER \<noteq> 0 \<and> \<not> may_grow frame addr sp)
      else tf_error_code frame AND PAGE_ERR_USER \<noteq> 0)"




section \<open>Write protection\<close>

lemma link_present_panics:
  assumes ok: "pg_ok Ds st" and c: "pg_cr3 st \<in> Ds" and e: "pte_at (pg_cr3 st) (pn va) st = Some e"
  shows "page_link_addr va pa prot st = None"
  using pg_okD(2)[OF ok c] e by (auto simp: page_link_addr_def entry_access pte_at_def Let_def split: if_splits)

lemma masked_or2: "PAGE_MASKED (e OR 2) = PAGE_MASKED e"
proof -
  have "(2 :: u32) AND NOT 0xfff = 0" by code_simp
  then show ?thesis by (simp add: PAGE_MASKED_def bit.conj_disj_distrib2)
qed

lemma present_or2: "present (e OR 2) = present e" for e :: u32
proof -
  have "(2 :: u32) AND 1 = 0" by code_simp
  then show ?thesis by (simp add: bit.conj_disj_distrib2)
qed

lemma no_write_ok:
  assumes ok: "pg_ok Ds st" and c: "pg_cr3 st \<in> Ds" and a: "0x400000 \<le> addr" "addr < 0x80000000" and e: "pte_at (pg_cr3 st) (pn addr) st = Some e"
  shows "\<exists>st'. do_page_no_write addr st = Some (Inr (), st') \<and> pg_step Ds {(pg_cr3 st, pn addr)} st st'
    \<and> pte_at (pg_cr3 st) (pn addr) st' = Some (e OR PAGE_ATTR_WRITE) \<and> pg_pool st' = pg_pool st"
proof -
  let ?c = "pg_cr3 st" and ?d = "pn addr div 1024"
  have u: "0x400000 \<le> unat addr" "unat addr < 0x80000000" using a by (simp_all add: word_le_nat_alt word_less_nat_alt)
  have slot: "?d \<in> user_slots" using u by (auto simp: less_mult_imp_div_less div_mult2_eq[symmetric] less_eq_div_iff_mult_less_eq)
  have pr: "present (pg_mem st ?c ?d)" "pg_mem st (PAGE_MASKED (pg_mem st ?c ?d)) (pn addr mod 1024) = e" "present e"
    using e by (auto simp: pte_at_def Let_def split: if_splits)
  have leaf: "leaf_ok Ds st (PAGE_MASKED (e OR 2))" using ok c slot e unfolding masked_or2 pg_ok_def by blast
  note w = set_entry_ok[OF ok c slot pr(1) leaf]
  have "do_page_no_write addr st = Some (Inr (), set_frame (PAGE_MASKED (pg_mem st ?c ?d)) ((pg_mem st (PAGE_MASKED (pg_mem st ?c ?d)))(pn addr mod 1024 := e OR 2)) st)"
    using pg_okD(2)[OF ok c] a pr by (simp add: do_page_no_write_def entry_access)
  then show ?thesis using w(1,2) pr(3) present_or2[of e] by (auto simp: set_frame_def)
qed

text \<open>C40: A write to a mapped page that is write-protected stops the whole kernel, whatever the page's space allows, as long as a
  free page is left: the handler first makes the entry writable and then asks for a new page at the same
  address, where the assertion that the entry is empty fails.\<close>

theorem write_protection_fault_panics:
  assumes "pg_ok Ds (pf_pg S)" "pg_cr3 (pf_pg S) \<in> Ds" "0x400000 \<le> addr" "addr < 0x80000000"
    "pte_at (pg_cr3 (pf_pg S)) (pn addr) (pf_pg S) = Some e" "0 < user_avail (pg_pool (pf_pg S))"
    "tf_error_code frame AND PAGE_ERR_PROTECT \<noteq> 0" "tf_error_code frame AND PAGE_ERR_WRITE \<noteq> 0"
    "mem_space_find (pf_vmm S) addr = Some sp" "sp_start sp \<le> addr"
  shows "page_do_fault mem_ok frame addr S = None"
proof -
  let ?st = "pf_pg S" and ?c = "pg_cr3 (pf_pg S)"
  obtain st1 where st1: "do_page_no_write addr ?st = Some (Inr (), st1)" "pg_step Ds {(?c, pn addr)} ?st st1"
      "pte_at ?c (pn addr) st1 = Some (e OR 2)" "pg_pool st1 = pg_pool ?st"
    using no_write_ok[OF assms(1-5)] by auto
  have ok1: "pg_ok Ds st1" and c1: "pg_cr3 st1 = ?c" using st1(2) by (auto simp: pg_step_def)
  from page_alloc_user_cases[OF ok1] assms(6) st1(4) obtain a st2 where st2: "page_alloc_user st1 = Some (a, st2)" "a \<noteq> 0" "pg_step Ds {} st1 st2"
    by (metis less_irrefl)
  have "pn addr < 0x80000" using assms(4) by (simp add: word_less_nat_alt less_mult_imp_div_less)
  then have "pn addr div 1024 < 1023" by (simp add: less_mult_imp_div_less)
  then have "pte_at (pg_cr3 st2) (pn (PAGE_MASKED addr)) st2 = Some (e OR 2)" using st2(3) st1(3) c1 assms(2) by (simp add: pg_step_def)
  then have "page_link_addr (PAGE_MASKED addr) a (prot_attr (page_prot sp)) st2 = None"
    using st2(3) c1 assms(2) by (intro link_present_panics[of Ds]) (auto simp: pg_step_def)
  moreover have "PAGE_MASKED addr < PAGE_MASKED addr + 0x1000"
    using \<open>pn addr < 0x80000\<close> by (simp add: word_less_nat_alt unat_word_ariths unat_masked)
  ultimately have "do_handle_no_page addr (page_prot sp) st1 = None"
    using st2(1,2) page_map_loop.simps[of "PAGE_MASKED addr" "PAGE_MASKED addr + 0x1000"] by (simp add: do_handle_no_page_def page_map_addr_def)
  moreover have "\<not> addr < sp_start sp" using assms(10) by simp
  ultimately show ?thesis using assms st1(1) user_addr(1)[OF assms(3,4)] by (simp add: page_do_fault_def do_protection_fault_def)
qed

theorem write_protection_fault_panics_witness:
  "page_do_fault True (demo_frame\<lparr>tf_error_code := 7\<rparr>) 0x400010 demo_pf = None"
proof (rule write_protection_fault_panics[of "{0x3f2000, 0x3f1000}" _ _ "0x301007" _ demo_space])
  show "pte_at (pg_cr3 (pf_pg demo_pf)) (pn 0x400010) (pf_pg demo_pf) = Some 0x301007"
    using demo_pg2_at(1)[of 1024] by (simp add: demo_pf_def)
qed (use demo_pg2_ok demo_user_pool2(4) demo_pf_find in \<open>simp_all add: demo_pf_def demo_space_def mem_space_init_def\<close>)

end
