(* ===== verification/Page_Copy.thy ===== *)
theory Page_Copy
  imports Page_Fault
begin

text \<open>
  The copy of an address space for \<^verbatim>\<open>fork\<close>: \<^verbatim>\<open>src/arch/x86/mach-i386/mm/vmm.c\<close>. The kernel runs on the directory of
  the parent, copies each page into a buffer, switches to the directory of the child, maps a
  page there, writes the buffer to it and switches back. A directory is named by its physical
  address. The parent is the running task, so a page that is not mapped yet is brought in by the
  page-fault handler in the middle of the copy.
\<close>

section \<open>Definitions\<close>

definition vmm_active_user :: "u32 \<Rightarrow> pgst \<Rightarrow> pgst" where
  "vmm_active_user page st = st\<lparr>pg_cr3 := page\<rparr>"

definition vmm_active_kernel :: "pgst \<Rightarrow> pgst" where
  "vmm_active_kernel st = st\<lparr>pg_cr3 := KERN_PAGE_DIR_PHY_ADDR\<rparr>"

text \<open>The argument is the address \<^verbatim>\<open>page_storage\<close> of the directory in the kernel's half, \<open>None\<close> for no address space.\<close>

definition vmm_active :: "u32 option \<Rightarrow> pgst \<Rightarrow> pgst" where
  "vmm_active vmm st = (case vmm of None \<Rightarrow> vmm_active_kernel st | Some page_storage \<Rightarrow> vmm_active_user (page_storage - KERN_BASE_VIR_ADDR) st)"

abbreviation active :: "u32 \<Rightarrow> pfst \<Rightarrow> pfst" where
  "active storage S \<equiv> S\<lparr>pf_pg := vmm_active (Some storage) (pf_pg S)\<rparr>"

text \<open>
  \<^verbatim>\<open>memcpy\<close> of a page from user memory. If the page is not mapped the handler runs with the
  error code of a read in kernel mode, and the copy goes on if it mapped the page (and faults forever otherwise).
\<close>

definition read_page :: "bool \<Rightarrow> trap_frame_t \<Rightarrow> u32 \<Rightarrow> pfst \<Rightarrow> ((nat \<Rightarrow> u32) \<times> pfst) option" where
  "read_page mem_ok frame a S = (case translate (pf_pg S) a of
       Some f \<Rightarrow> Some (pg_mem (pf_pg S) f, S)
     | None \<Rightarrow> do {
         (_, S) \<leftarrow> page_do_fault mem_ok (frame\<lparr>tf_error_code := 0\<rparr>) a S;
         f \<leftarrow> translate (pf_pg S) a;
         Some (pg_mem (pf_pg S) f, S) })"

definition write_page :: "u32 \<Rightarrow> (nat \<Rightarrow> u32) \<Rightarrow> pgst \<Rightarrow> pgst option" where
  "write_page a buf st = map_option (\<lambda>f. set_frame f buf st) (translate st a)"

definition do_copy_share_page :: "u32 \<Rightarrow> u32 \<Rightarrow> u32 \<Rightarrow> pfst \<Rightarrow> (unit res \<times> pfst) option" where
  "do_copy_share_page vaddr child parent S = do {
     paddr \<leftarrow> addr_vir2phy vaddr (pf_pg S);
     st \<leftarrow> page_link_addr vaddr paddr (PAGE_ATTR_WRITE OR PAGE_ATTR_USER) (vmm_active (Some child) (pf_pg S));
     Some (Inr (), S\<lparr>pf_pg := vmm_active (Some parent) st\<rparr>) }"

definition do_copy_normal_page :: "bool \<Rightarrow> trap_frame_t \<Rightarrow> u32 \<Rightarrow> u32 \<Rightarrow> u32 \<Rightarrow> pfst \<Rightarrow> (unit res \<times> pfst) option" where
  "do_copy_normal_page mem_ok frame vaddr child parent S = do {
     (buf, S) \<leftarrow> read_page mem_ok frame vaddr S;
     (paddr, st) \<leftarrow> page_alloc_user (vmm_active (Some child) (pf_pg S));
     if paddr = 0 then Some (Inl E_FAIL, S\<lparr>pf_pg := vmm_active (Some parent) st\<rparr>)
     else do {
       st \<leftarrow> page_link_addr vaddr paddr (PAGE_ATTR_WRITE OR PAGE_ATTR_USER) st;
       st \<leftarrow> write_page vaddr buf st;
       Some (Inr (), S\<lparr>pf_pg := vmm_active (Some parent) st\<rparr>) } }"

text \<open>The inner loop of \<^verbatim>\<open>vmm_copy_mapping\<close> over the pages of a space and the outer one over the spaces.\<close>

partial_function (option) copy_pages :: "bool \<Rightarrow> trap_frame_t \<Rightarrow> u32 \<Rightarrow> u32 \<Rightarrow> mem_space_t \<Rightarrow> u32 \<Rightarrow> pfst \<Rightarrow> (unit res \<times> pfst) option" where
  "copy_pages mem_ok frame child parent sp prog_vaddr S =
     (if prog_vaddr < sp_end sp then do {
        (e, S) \<leftarrow> (if sp_flags sp AND MEM_SPACE_MAP_SHARED \<noteq> 0 then do_copy_share_page prog_vaddr child parent S
                  else do_copy_normal_page mem_ok frame prog_vaddr child parent S);
        if e \<noteq> Inr () then Some (e, S)
        else copy_pages mem_ok frame child parent sp (prog_vaddr + PAGE_SIZE) S }
      else Some (Inr (), S))"

declare copy_pages.simps [code]

fun copy_spaces :: "bool \<Rightarrow> trap_frame_t \<Rightarrow> u32 \<Rightarrow> u32 \<Rightarrow> mem_space_t list \<Rightarrow> pfst \<Rightarrow> (unit res \<times> pfst) option" where
  "copy_spaces mem_ok frame child parent [] S = Some (Inr (), S)"
| "copy_spaces mem_ok frame child parent (sp # sps) S = do {
     (e, S) \<leftarrow> copy_pages mem_ok frame child parent sp (sp_start sp) S;
     if e \<noteq> Inr () then Some (e, S) else copy_spaces mem_ok frame child parent sps S }"

text \<open>\<open>buf_ok\<close> says that the buffer for a page could be allocated, \<open>mem_ok\<close> the same of exception nodes.\<close>

definition vmm_copy_mapping :: "bool \<Rightarrow> bool \<Rightarrow> trap_frame_t \<Rightarrow> u32 \<Rightarrow> u32 \<Rightarrow> pfst \<Rightarrow> (unit res \<times> pfst) option" where
  "vmm_copy_mapping buf_ok mem_ok frame child parent S =
     (if \<not> buf_ok then Some (Inl E_FAIL, S)
      else copy_spaces mem_ok frame child parent (mem_space_head (pf_vmm S)) S)"


section \<open>Steps that leave memory in use alone\<close>

text \<open>Like \<open>pg_step\<close>, but pages that were free before may have been written.\<close>

definition pg_grow :: "u32 set \<Rightarrow> (u32 \<times> nat) set \<Rightarrow> pgst \<Rightarrow> pgst \<Rightarrow> bool" where
  "pg_grow Ds X st st' \<longleftrightarrow> pg_ok Ds st' \<and> user_area (pg_pool st') = user_area (pg_pool st)
     \<and> user_pages (pg_pool st) \<subseteq> user_pages (pg_pool st') \<and> tables Ds st' \<inter> user_pages (pg_pool st) \<subseteq> tables Ds st
     \<and> (\<forall>f. leaf_ok Ds st f \<longrightarrow> pg_mem st' f = pg_mem st f)
     \<and> (\<forall>c \<in> Ds. \<forall>v. v div 1024 < 1023 \<longrightarrow> (c, v) \<notin> X \<longrightarrow> pte_at c v st' = pte_at c v st)"

lemma pg_grow_leaf: "pg_grow Ds X st st' \<Longrightarrow> leaf_ok Ds st f \<Longrightarrow> leaf_ok Ds st' f"
  by (auto simp: pg_grow_def leaf_ok_def split: if_splits)

lemma pg_grow_trans:
  assumes "pg_grow Ds X st st1" "pg_grow Ds Y st1 st2"
  shows "pg_grow Ds (X \<union> Y) st st2"
proof -
  have "pg_mem st2 f = pg_mem st f" if "leaf_ok Ds st f" for f
    using that assms pg_grow_leaf[OF assms(1) that] by (simp add: pg_grow_def)
  moreover have "tables Ds st2 \<inter> user_pages (pg_pool st) \<subseteq> tables Ds st" using assms unfolding pg_grow_def by blast
  ultimately show ?thesis using assms unfolding pg_grow_def by auto
qed

lemma pg_step_grow:
  assumes ok: "pg_ok Ds st" and s: "pg_step Ds X st st'"
  shows "pg_grow Ds X st st'"
proof -
  have "pg_mem st' f = pg_mem st f" if "leaf_ok Ds st f" for f
  proof -
    have "f \<notin> Ds" using that pg_okD(3)[OF ok] by (auto simp: leaf_ok_def split: if_splits)
    moreover have "tables Ds st' \<subseteq> user_area (pg_pool st)"
      using s user_source.used_area[of "pg_pool st'"] by (auto simp: pg_step_def pg_ok_def)
    then have "f \<notin> tables Ds st'" using that s by (auto simp: leaf_ok_def pg_step_def split: if_splits)
    ultimately show ?thesis using s by (simp add: pg_step_def)
  qed
  then show ?thesis using s by (simp add: pg_step_def pg_grow_def)
qed

lemma cr3_irrelevant [simp]:
  "pte_at c v (st\<lparr>pg_cr3 := x\<rparr>) = pte_at c v st" "tables Ds (st\<lparr>pg_cr3 := x\<rparr>) = tables Ds st" "leaf_ok Ds (st\<lparr>pg_cr3 := x\<rparr>) f = leaf_ok Ds st f"
  "pg_ok Ds (st\<lparr>pg_cr3 := x\<rparr>) = pg_ok Ds st" "pg_grow Ds X (st\<lparr>pg_cr3 := x\<rparr>) st' = pg_grow Ds X st st'"
  "pg_grow Ds X st (st'\<lparr>pg_cr3 := x\<rparr>) = pg_grow Ds X st st'"
proof -
  show a: "pte_at c v (st\<lparr>pg_cr3 := x\<rparr>) = pte_at c v st" for c v st by (simp add: pte_at_def)
  show b: "tables Ds (st\<lparr>pg_cr3 := x\<rparr>) = tables Ds st" for Ds st by (simp add: tables_def)
  show c: "leaf_ok Ds (st\<lparr>pg_cr3 := x\<rparr>) f = leaf_ok Ds st f" for Ds f st by (simp add: leaf_ok_def b)
  show d: "pg_ok Ds (st\<lparr>pg_cr3 := x\<rparr>) = pg_ok Ds st" for Ds st by (simp add: pg_ok_def a b c self_mapped_def)
  show "pg_grow Ds X (st\<lparr>pg_cr3 := x\<rparr>) st' = pg_grow Ds X st st'" "pg_grow Ds X st (st'\<lparr>pg_cr3 := x\<rparr>) = pg_grow Ds X st st'"
    by (simp_all add: pg_grow_def a b c d)
qed

lemma translate_pte: "translate st a = map_option PAGE_MASKED (pte_at (pg_cr3 st) (pn a) st)"
  by (simp add: translate_nat pte_at_def Let_def)

text \<open>Writing a page that is neither a directory nor a table changes no translation.\<close>

lemma set_leaf_ok:
  assumes ok: "pg_ok Ds st" and f: "f \<in> user_area (pg_pool st)" "f \<notin> tables Ds st"
  shows "pg_ok Ds (set_frame f x st)" "\<And>c v. c \<in> Ds \<Longrightarrow> v div 1024 < 1023 \<Longrightarrow> pte_at c v (set_frame f x st) = pte_at c v st"
    "tables Ds (set_frame f x st) = tables Ds st"
proof -
  let ?s = "set_frame f x st"
  have D: "pg_mem ?s c = pg_mem st c" if "c \<in> Ds" for c using pg_okD(3)[OF ok that] f(1) by (auto simp: set_frame_def)
  have [simp]: "pg_pool ?s = pg_pool st" by (simp add: set_frame_def)
  show t: "tables Ds ?s = tables Ds st" unfolding tables_def using D by (intro Collect_cong) metis
  show at: "pte_at c v ?s = pte_at c v st" if c: "c \<in> Ds" and v: "v div 1024 < 1023" for c v
  proof -
    let ?F = "PAGE_MASKED (pg_mem st c (v div 1024))"
    have "?F \<noteq> f" if p: "present (pg_mem st c (v div 1024))"
    proof (cases "v div 1024 \<in> user_slots")
      case True
      then show ?thesis using tablesI[OF c True p] f(2) by auto
    next
      case False
      then show ?thesis using ok c v p f(1) unfolding pg_ok_def by blast
    qed
    then show ?thesis unfolding pte_at_def D[OF c] by (auto simp: Let_def set_frame_def)
  qed
  have l: "leaf_ok Ds ?s g = leaf_ok Ds st g" for g by (simp add: leaf_ok_def t)
  have i: "{(c, d). c \<in> Ds \<and> d \<in> user_slots \<and> present (pg_mem ?s c d)} = {(c, d). c \<in> Ds \<and> d \<in> user_slots \<and> present (pg_mem st c d)}"
    using D by auto
  show "pg_ok Ds ?s" unfolding pg_ok_def t l
  proof (intro conjI ballI allI impI)
    fix c v e assume a: "c \<in> Ds" "v div 1024 \<in> user_slots" "pte_at c v ?s = Some e"
    then have "pte_at c v st = Some e" using at[OF a(1)] by auto
    then show "leaf_ok Ds st (PAGE_MASKED e)" using ok a unfolding pg_ok_def by blast
  next
    have "inj_on (\<lambda>(c, d). PAGE_MASKED (pg_mem st c d)) {(c, d). c \<in> Ds \<and> d \<in> user_slots \<and> present (pg_mem st c d)}" using ok by (simp add: pg_ok_def)
    then show "inj_on (\<lambda>(c, d). PAGE_MASKED (pg_mem ?s c d)) {(c, d). c \<in> Ds \<and> d \<in> user_slots \<and> present (pg_mem ?s c d)}"
      unfolding i by (rule inj_on_cong[THEN iffD1, rotated]) (use D in auto)
  qed (use ok D in \<open>auto simp: pg_ok_def self_mapped_def\<close>)
qed


section \<open>One page\<close>

abbreviation (input) child_attr :: u32 where "child_attr \<equiv> PAGE_ATTR_WRITE OR PAGE_ATTR_USER"

lemma child_attr_small: "child_attr AND NOT 0xfff = 0"
  by code_simp

text \<open>The pages \<open>V\<close> of the parent \<open>p\<close> are there for the child \<open>c\<close>: a shared page is the same frame, any other page has a new frame with the same content.\<close>

definition copied :: "u32 set \<Rightarrow> u32 \<Rightarrow> u32 \<Rightarrow> nat set \<Rightarrow> (nat \<Rightarrow> bool) \<Rightarrow> (nat \<Rightarrow> u32) \<Rightarrow> pgst \<Rightarrow> pgst \<Rightarrow> bool" where
  "copied Ds p c V shared F st st' \<longleftrightarrow> pg_grow Ds ({c} \<times> V) st st'
     \<and> (\<forall>v \<in> V. \<exists>e. pte_at p v st = Some e \<and> pte_at c v st' = Some (F v OR child_attr OR 1) \<and> F v AND 0xfff = 0
          \<and> (if shared v then F v = PAGE_MASKED e
             else F v \<in> user_pages (pg_pool st') - user_pages (pg_pool st) \<and> pg_mem st' (F v) = pg_mem st (PAGE_MASKED e)))
     \<and> inj_on F {v \<in> V. \<not> shared v}"

lemma copied_empty: "pg_ok Ds st \<Longrightarrow> copied Ds p c {} sh F st st"
  by (simp add: copied_def pg_grow_def)

lemma copied_union:
  assumes a: "copied Ds p c V sh F st st1" and b: "copied Ds p c W sh G st1 st2"
    and ok: "pg_ok Ds st" and D: "p \<in> Ds" "c \<in> Ds" "c \<noteq> p" and VW: "V \<inter> W = {}" and u: "\<forall>v \<in> V \<union> W. v div 1024 \<in> user_slots"
  shows "copied Ds p c (V \<union> W) sh (\<lambda>v. if v \<in> V then F v else G v) st st2"
proof -
  let ?H = "\<lambda>v. if v \<in> V then F v else G v"
  have g1: "pg_grow Ds ({c} \<times> V) st st1" and g2: "pg_grow Ds ({c} \<times> W) st1 st2" using a b by (auto simp: copied_def)
  have ok1: "pg_ok Ds st1" using g1 by (simp add: pg_grow_def)
  have lt: "v div 1024 < 1023" if "v \<in> V \<union> W" for v using bspec[OF u that] by simp
  have up: "user_pages (pg_pool st) \<subseteq> user_pages (pg_pool st1)" "user_pages (pg_pool st1) \<subseteq> user_pages (pg_pool st2)" using g1 g2 by (simp_all add: pg_grow_def)
  have "{c} \<times> V \<union> {c} \<times> W = {c} \<times> (V \<union> W)" by auto
  then have g: "pg_grow Ds ({c} \<times> (V \<union> W)) st st2" using pg_grow_trans[OF g1 g2] by simp
  have inV: "\<exists>e. pte_at p v st = Some e \<and> pte_at c v st2 = Some (F v OR child_attr OR 1) \<and> F v AND 0xfff = 0
      \<and> (if sh v then F v = PAGE_MASKED e else F v \<in> user_pages (pg_pool st2) - user_pages (pg_pool st) \<and> pg_mem st2 (F v) = pg_mem st (PAGE_MASKED e))"
    if v: "v \<in> V" for v
  proof -
    from a v obtain e where e: "pte_at p v st = Some e" "pte_at c v st1 = Some (F v OR child_attr OR 1)" "F v AND 0xfff = 0"
        "if sh v then F v = PAGE_MASKED e else F v \<in> user_pages (pg_pool st1) - user_pages (pg_pool st) \<and> pg_mem st1 (F v) = pg_mem st (PAGE_MASKED e)"
      unfolding copied_def by blast
    have "leaf_ok Ds st1 (F v)" using ok1 D(2) e(2) u v masked_or(1)[OF e(3) child_attr_small] unfolding pg_ok_def by (metis UnI1)
    then have "pg_mem st2 (F v) = pg_mem st1 (F v)" using g2 by (simp add: pg_grow_def)
    moreover have "v \<notin> W" using v VW by auto
    then have "pte_at c v st2 = pte_at c v st1" using g2 D(2) lt[of v] v by (simp add: pg_grow_def)
    ultimately show ?thesis using e up by (auto split: if_splits)
  qed
  have inW: "\<exists>e. pte_at p v st = Some e \<and> pte_at c v st2 = Some (G v OR child_attr OR 1) \<and> G v AND 0xfff = 0
      \<and> (if sh v then G v = PAGE_MASKED e else G v \<in> user_pages (pg_pool st2) - user_pages (pg_pool st) \<and> pg_mem st2 (G v) = pg_mem st (PAGE_MASKED e))"
    if v: "v \<in> W" for v
  proof -
    from b v obtain e where e: "pte_at p v st1 = Some e" "pte_at c v st2 = Some (G v OR child_attr OR 1)" "G v AND 0xfff = 0"
        "if sh v then G v = PAGE_MASKED e else G v \<in> user_pages (pg_pool st2) - user_pages (pg_pool st1) \<and> pg_mem st2 (G v) = pg_mem st1 (PAGE_MASKED e)"
      unfolding copied_def by blast
    have p: "pte_at p v st = Some e" using g1 D lt[of v] v e(1) by (auto simp: pg_grow_def)
    then have "leaf_ok Ds st (PAGE_MASKED e)" using ok D(1) u v unfolding pg_ok_def by blast
    then have "pg_mem st1 (PAGE_MASKED e) = pg_mem st (PAGE_MASKED e)" using g1 by (simp add: pg_grow_def)
    then show ?thesis using p e up by (auto split: if_splits)
  qed
  have "inj_on F {v \<in> V. \<not> sh v}" "inj_on G {v \<in> W. \<not> sh v}" using a b by (simp_all add: copied_def)
  moreover have "F v \<noteq> G w" "G w \<noteq> F v" if "v \<in> V" "\<not> sh v" "w \<in> W" "\<not> sh w" for v w
  proof -
    have "F v \<in> user_pages (pg_pool st1)" using a that(1,2) by (fastforce simp: copied_def)
    moreover have "G w \<notin> user_pages (pg_pool st1)" using b that(3,4) by (fastforce simp: copied_def)
    ultimately show "F v \<noteq> G w" "G w \<noteq> F v" by auto
  qed
  ultimately have "inj_on ?H {v \<in> V \<union> W. \<not> sh v}" unfolding inj_on_def by (auto split: if_splits)
  moreover have "\<exists>e. pte_at p v st = Some e \<and> pte_at c v st2 = Some (?H v OR child_attr OR 1) \<and> ?H v AND 0xfff = 0
      \<and> (if sh v then ?H v = PAGE_MASKED e else ?H v \<in> user_pages (pg_pool st2) - user_pages (pg_pool st) \<and> pg_mem st2 (?H v) = pg_mem st (PAGE_MASKED e))"
    if v: "v \<in> V \<union> W" for v
  proof (cases "v \<in> V")
    case True
    show ?thesis unfolding if_P[OF True] by (rule inV[OF True])
  next
    case False
    show ?thesis unfolding if_not_P[OF False] by (rule inW) (use v False in simp)
  qed
  ultimately show ?thesis unfolding copied_def using g by (intro conjI ballI)
qed

lemma copied_one:
  assumes "pg_grow Ds {(c, v)} st st'" "pte_at p v st = Some e" "pte_at c v st' = Some (a OR child_attr OR 1)" "a AND 0xfff = 0"
    "if sh v then a = PAGE_MASKED e else a \<in> user_pages (pg_pool st') - user_pages (pg_pool st) \<and> pg_mem st' a = pg_mem st (PAGE_MASKED e)"
  shows "copied Ds p c {v} sh (\<lambda>_. a) st st'"
  using assms by (simp add: copied_def inj_on_def)

lemma copy_page_ok:
  assumes ok: "pg_ok Ds (pf_pg S)" and D: "pg_cr3 (pf_pg S) = p" "p \<in> Ds" "c \<in> Ds" "c \<noteq> p"
    and cs: "cs - 0x80000000 = c" "ps - 0x80000000 = p"
    and va: "unat va = 4096 * v" "v div 1024 \<in> user_slots" and e: "pte_at p v (pf_pg S) = Some e" and un: "pte_at c v (pf_pg S) = None"
    and av: "2 \<le> user_avail (pg_pool (pf_pg S))"
  shows "\<exists>S' a. (if sh v then do_copy_share_page va cs ps S else do_copy_normal_page mem_ok frame va cs ps S) = Some (Inr (), S')
    \<and> copied Ds p c {v} sh (\<lambda>_. a) (pf_pg S) (pf_pg S') \<and> pf_vmm S' = pf_vmm S \<and> pf_x S' = pf_x S \<and> pg_cr3 (pf_pg S') = p
    \<and> user_avail (pg_pool (pf_pg S)) \<le> user_avail (pg_pool (pf_pg S')) + 2"
proof -
  let ?st = "pf_pg S"
  have pn: "pn va = v" using va(1) by simp
  define st0 where "st0 = ?st\<lparr>pg_cr3 := c\<rparr>"
  have act: "vmm_active (Some cs) st = st\<lparr>pg_cr3 := c\<rparr>" "vmm_active (Some ps) st = st\<lparr>pg_cr3 := p\<rparr>" for st
    using cs by (simp_all add: vmm_active_def vmm_active_user_def)
  have ok0: "pg_ok Ds st0" and un0: "pte_at (pg_cr3 st0) (pn va) st0 = None" and c0: "pg_cr3 st0 \<in> Ds" and s0: "pn va div 1024 \<in> user_slots"
    and p0: "pg_pool st0 = pg_pool ?st"
    using ok un D pn va(2) by (simp_all add: st0_def)
  have leaf: "leaf_ok Ds ?st (PAGE_MASKED e)" using ok D(2) va(2) e unfolding pg_ok_def by blast
  show ?thesis
  proof (cases "sh v")
    case True
    have "va AND 0xfff = 0" using unat_and_fff[of va] va(1) by (simp add: unat_eq_0[symmetric])
    moreover have "present (pg_mem ?st p (v div 1024))" "pg_mem ?st (PAGE_MASKED (pg_mem ?st p (v div 1024))) (v mod 1024) = e"
      using e by (auto simp: pte_at_def Let_def split: if_splits)
    ultimately have phy: "addr_vir2phy va ?st = Some (PAGE_MASKED e)"
      using pg_okD(2)[OF ok D(2)] D(1) pn by (simp add: addr_vir2phy_def entry_access word_mask5 word_mask4 PAGE_MASKED_def)
    have al: "PAGE_MASKED e AND 0xfff = 0" using unat_and_fff[of "PAGE_MASKED e"] by (simp add: unat_eq_0[symmetric] unat_masked)
    have "leaf_ok Ds st0 (PAGE_MASKED e)" using leaf by (simp add: st0_def)
    from page_link_ok[OF ok0 c0 s0 un0 child_attr_small _ al this] av p0 obtain st1 where l: "page_link_addr va (PAGE_MASKED e) child_attr st0 = Some st1"
        "pg_step Ds {(pg_cr3 st0, pn va)} st0 st1" "pte_at (pg_cr3 st0) (pn va) st1 = Some (PAGE_MASKED e OR child_attr OR 1)"
        "user_avail (pg_pool st0) \<le> user_avail (pg_pool st1) + 1" by auto
    have "pg_grow Ds {(c, v)} ?st (st1\<lparr>pg_cr3 := p\<rparr>)" using pg_step_grow[OF ok0 l(2)] pn by (simp add: st0_def)
    then have "copied Ds p c {v} sh (\<lambda>_. PAGE_MASKED e) ?st (st1\<lparr>pg_cr3 := p\<rparr>)"
      by (rule copied_one[OF _ e]) (use l(3) pn al True in \<open>simp_all add: st0_def\<close>)
    moreover have "do_copy_share_page va cs ps S = Some (Inr (), S\<lparr>pf_pg := st1\<lparr>pg_cr3 := p\<rparr>\<rparr>)"
      using phy l(1) by (simp add: do_copy_share_page_def act st0_def)
    ultimately show ?thesis using True l(4) p0 by auto
  next
    case False
    have tr: "translate ?st va = Some (PAGE_MASKED e)" using e D(1) pn by (simp add: translate_pte)
    from page_alloc_user_cases[OF ok0] av p0 obtain a st1 where a: "page_alloc_user st0 = Some (a, st1)" "a \<noteq> 0" "a AND 0xfff = 0"
        "a \<notin> user_pages (pg_pool st0)" "a \<in> user_area (pg_pool st0)" "user_pages (pg_pool st1) = insert a (user_pages (pg_pool st0))"
        "user_avail (pg_pool st1) + 1 = user_avail (pg_pool st0)" "pg_step Ds {} st0 st1" "tables Ds st1 = tables Ds st0" "pg_mem st1 = pg_mem st0"
      by (metis not_numeral_le_zero)
    have ok1: "pg_ok Ds st1" and c1: "pg_cr3 st1 = c" using a(8) by (auto simp: pg_step_def st0_def)
    have un1: "pte_at (pg_cr3 st1) (pn va) st1 = None" using un pn a(10) by (simp add: c1 pte_at_def st0_def)
    have leaf1: "leaf_ok Ds st1 a" by (rule leaf_fresh[OF ok0 a(4,5,6,8,9)])
    obtain st2 where l: "page_link_addr va a child_attr st1 = Some st2" "pg_step Ds {(c, v)} st1 st2" "pte_at c v st2 = Some (a OR child_attr OR 1)"
        "user_avail (pg_pool st1) \<le> user_avail (pg_pool st2) + 1"
      using page_link_ok[OF ok1 _ s0 un1 child_attr_small _ a(3) leaf1] c1 D(3) pn a(7) av p0 by auto
    have ok2: "pg_ok Ds st2" and c2: "pg_cr3 st2 = c" using l(2) c1 by (auto simp: pg_step_def)
    have g: "pg_grow Ds {(c, v)} ?st st2"
      using pg_grow_trans[OF pg_step_grow[OF ok0 a(8)] pg_step_grow[OF ok1 l(2)]] by (simp add: st0_def)
    have leaf2: "leaf_ok Ds st2 a" using pg_grow_leaf[OF pg_step_grow[OF ok1 l(2)] leaf1] .
    have ar: "a \<in> user_area (pg_pool st2)" using a(5,8) l(2) by (simp add: pg_step_def)
    have at: "a \<notin> tables Ds st2" using leaf2 ar by (simp add: leaf_ok_def)
    let ?st3 = "set_frame a (pg_mem ?st (PAGE_MASKED e)) st2"
    note w = set_leaf_ok[OF ok2 ar at, where x = "pg_mem ?st (PAGE_MASKED e)"]
    have "pg_mem ?st3 f = pg_mem ?st f" if "leaf_ok Ds ?st f" for f
    proof -
      have "f \<noteq> a" using that a(4,5) p0 by (auto simp: leaf_ok_def split: if_splits)
      then show ?thesis using g that by (simp add: pg_grow_def set_frame_def)
    qed
    then have "pg_grow Ds {(c, v)} ?st ?st3" using g w by (simp add: pg_grow_def set_frame_def)
    moreover have lt: "v div 1024 < 1023" using va(2) by simp
    ultimately have "copied Ds p c {v} sh (\<lambda>_. a) ?st (?st3\<lparr>pg_cr3 := p\<rparr>)"
      by (intro copied_one[OF _ e]) (use w(2)[OF D(3) lt] l(2,3) a(3,4,6) False p0 in \<open>auto simp: set_frame_def pg_step_def\<close>)
    moreover have "do_copy_normal_page mem_ok frame va cs ps S = Some (Inr (), S\<lparr>pf_pg := ?st3\<lparr>pg_cr3 := p\<rparr>\<rparr>)"
    proof -
      have "read_page mem_ok frame va S = Some (pg_mem ?st (PAGE_MASKED e), S)" using tr by (simp add: read_page_def)
      moreover have "translate st2 va = Some a" using l(3) c2 pn masked_or(1)[OF a(3) child_attr_small] by (simp add: translate_pte)
      ultimately show ?thesis using a(1,2) l(1) by (simp add: do_copy_normal_page_def write_page_def act st0_def)
    qed
    ultimately show ?thesis using False l(4) a(7) p0 by (auto simp: set_frame_def)
  qed
qed


section \<open>Whole spaces\<close>

text \<open>The state of the copy: it runs under the directory \<open>p\<close> of the parent; \<open>V\<close> is still to be copied.\<close>

definition to_copy :: "u32 set \<Rightarrow> u32 \<Rightarrow> u32 \<Rightarrow> nat set \<Rightarrow> pgst \<Rightarrow> bool" where
  "to_copy Ds p c V st \<longleftrightarrow> pg_ok Ds st \<and> pg_cr3 st = p \<and> p \<in> Ds \<and> c \<in> Ds \<and> c \<noteq> p \<and> finite V \<and> 2 * card V \<le> user_avail (pg_pool st)
     \<and> (\<forall>v \<in> V. v div 1024 \<in> user_slots \<and> pte_at p v st \<noteq> None \<and> pte_at c v st = None)"

lemma to_copy_step:
  assumes "to_copy Ds p c (V \<union> W) st" "V \<inter> W = {}" "copied Ds p c V sh F st st'" "pg_cr3 st' = p"
    "user_avail (pg_pool st) \<le> user_avail (pg_pool st') + 2 * card V"
  shows "to_copy Ds p c W st'"
proof -
  have g: "pg_grow Ds ({c} \<times> V) st st'" using assms(3) by (simp add: copied_def)
  have "pte_at p v st' = pte_at p v st \<and> pte_at c v st' = pte_at c v st" if "v \<in> W" for v
  proof -
    have "v \<notin> V" "v div 1024 \<in> user_slots" using that assms(1,2) by (auto simp: to_copy_def)
    then show ?thesis using g assms(1) by (simp add: pg_grow_def to_copy_def)
  qed
  moreover have "card (V \<union> W) = card V + card W" using assms(1,2) by (intro card_Un_disjoint) (auto simp: to_copy_def)
  ultimately show ?thesis using assms g by (auto simp: to_copy_def pg_grow_def)
qed

definition copy_result :: "u32 set \<Rightarrow> u32 \<Rightarrow> u32 \<Rightarrow> nat set \<Rightarrow> (nat \<Rightarrow> bool) \<Rightarrow> (nat \<Rightarrow> u32) \<Rightarrow> pfst \<Rightarrow> pfst \<Rightarrow> bool" where
  "copy_result Ds p c V sh F S S' \<longleftrightarrow> copied Ds p c V sh F (pf_pg S) (pf_pg S') \<and> pf_vmm S' = pf_vmm S \<and> pf_x S' = pf_x S \<and> pg_cr3 (pf_pg S') = p
     \<and> user_avail (pg_pool (pf_pg S)) \<le> user_avail (pg_pool (pf_pg S')) + 2 * card V"

lemma copy_result_union:
  assumes "to_copy Ds p c (V \<union> W) (pf_pg S)" "V \<inter> W = {}" "copy_result Ds p c V sh F S S1" "copy_result Ds p c W sh G S1 S2"
  shows "copy_result Ds p c (V \<union> W) sh (\<lambda>v. if v \<in> V then F v else G v) S S2"
proof -
  have "card (V \<union> W) = card V + card W" using assms(1,2) by (intro card_Un_disjoint) (auto simp: to_copy_def)
  moreover have "copied Ds p c (V \<union> W) sh (\<lambda>v. if v \<in> V then F v else G v) (pf_pg S) (pf_pg S2)"
    by (rule copied_union[of _ _ _ _ _ _ _ "pf_pg S1"]) (use assms in \<open>auto simp: to_copy_def copy_result_def\<close>)
  ultimately show ?thesis using assms(3,4) by (simp add: copy_result_def)
qed

lemma to_copy_rest: "to_copy Ds p c (V \<union> W) (pf_pg S) \<Longrightarrow> V \<inter> W = {} \<Longrightarrow> copy_result Ds p c V sh F S S1 \<Longrightarrow> to_copy Ds p c W (pf_pg S1)"
  using to_copy_step by (auto simp: copy_result_def)

lemma copy_pages_ok:
  assumes "to_copy Ds p c {s..<s + n} (pf_pg S)" "cs - 0x80000000 = c" "ps - 0x80000000 = p" "unat va = 4096 * s" "unat (sp_end sp) = 4096 * (s + n)"
    "\<forall>v \<in> {s..<s + n}. sh v \<longleftrightarrow> sp_flags sp AND MEM_SPACE_MAP_SHARED \<noteq> 0"
  shows "\<exists>S' F. copy_pages mem_ok frame cs ps sp va S = Some (Inr (), S') \<and> copy_result Ds p c {s..<s + n} sh F S S'"
  using assms
proof (induction n arbitrary: s va S)
  case 0
  then have "\<not> va < sp_end sp" by (simp add: word_less_nat_alt)
  then show ?case using 0(1) copied_empty[of Ds "pf_pg S"] copy_pages.simps[of mem_ok frame cs ps sp va S] by (auto simp: copy_result_def to_copy_def)
next
  case (Suc n)
  have lt: "va < sp_end sp" using Suc.prems(4,5) by (simp add: word_less_nat_alt)
  have V: "{s..<s + Suc n} = {s} \<union> {s + 1..<s + 1 + n}" "{s} \<inter> {s + 1..<s + 1 + n} = {}" by auto
  note tc = Suc.prems(1)[unfolded V(1)]
  have sh: "sh s \<longleftrightarrow> sp_flags sp AND MEM_SPACE_MAP_SHARED \<noteq> 0" using Suc.prems(6) by simp
  have av: "2 \<le> user_avail (pg_pool (pf_pg S))" using Suc.prems(1) by (simp add: to_copy_def)
  obtain e where e: "pte_at p s (pf_pg S) = Some e" using tc by (auto simp: to_copy_def)
  have "\<exists>S1 a. (if sh s then do_copy_share_page va cs ps S else do_copy_normal_page mem_ok frame va cs ps S) = Some (Inr (), S1)
      \<and> copied Ds p c {s} sh (\<lambda>_. a) (pf_pg S) (pf_pg S1) \<and> pf_vmm S1 = pf_vmm S \<and> pf_x S1 = pf_x S \<and> pg_cr3 (pf_pg S1) = p
      \<and> user_avail (pg_pool (pf_pg S)) \<le> user_avail (pg_pool (pf_pg S1)) + 2"
    by (rule copy_page_ok[where e = e]) (use tc Suc.prems(2-4) av e in \<open>auto simp: to_copy_def\<close>)
  then obtain S1 a where one: "(if sh s then do_copy_share_page va cs ps S else do_copy_normal_page mem_ok frame va cs ps S) = Some (Inr (), S1)"
      "copy_result Ds p c {s} sh (\<lambda>_. a) S S1" by (auto simp: copy_result_def)
  have "4096 * (s + 1) \<le> unat (sp_end sp)" using Suc.prems(5) by simp
  then have nx: "unat (va + 0x1000) = 4096 * (s + 1)" using Suc.prems(4) unat_lt_32[of "sp_end sp"] by (simp add: unat_word_ariths)
  have "\<exists>S' F. copy_pages mem_ok frame cs ps sp (va + 0x1000) S1 = Some (Inr (), S') \<and> copy_result Ds p c {s + 1..<s + 1 + n} sh F S1 S'"
    by (rule Suc.IH[OF to_copy_rest[OF tc V(2) one(2)] Suc.prems(2,3) nx]) (use Suc.prems in auto)
  then obtain S' F where IH: "copy_pages mem_ok frame cs ps sp (va + 0x1000) S1 = Some (Inr (), S')" "copy_result Ds p c {s + 1..<s + 1 + n} sh F S1 S'" by blast
  have "copy_pages mem_ok frame cs ps sp va S = Some (Inr (), S')"
    using lt one(1) IH(1) unfolding copy_pages.simps[of mem_ok frame cs ps sp va S] sh by simp
  then show ?case using copy_result_union[OF tc V(2) one(2) IH(2)] unfolding V(1)[symmetric] by blast
qed

definition sp_pages :: "mem_space_t \<Rightarrow> nat set" where
  "sp_pages sp = {pn (sp_start sp)..<pn (sp_end sp)}"

definition space_pages :: "mem_space_t list \<Rightarrow> nat set" where
  "space_pages sps = (\<Union>sp \<in> set sps. sp_pages sp)"

definition shared_page :: "mem_space_t list \<Rightarrow> nat \<Rightarrow> bool" where
  "shared_page sps v \<longleftrightarrow> (\<exists>sp \<in> set sps. v \<in> sp_pages sp \<and> sp_flags sp AND MEM_SPACE_MAP_SHARED \<noteq> 0)"

definition spaces_aligned :: "mem_space_t list \<Rightarrow> bool" where
  "spaces_aligned sps \<longleftrightarrow> (\<forall>sp \<in> set sps. sp_start sp AND 0xfff = 0 \<and> sp_end sp AND 0xfff = 0)"

lemma aligned_nat: "a AND 0xfff = 0 \<Longrightarrow> unat a = 4096 * pn a" for a :: u32
  using unat_and_fff[of a] by (auto simp: mult_div_mod_eq[symmetric])

lemma sp_pages_disjoint:
  assumes "spaces_wf (sp # sps)" "q \<in> set sps"
  shows "sp_pages sp \<inter> sp_pages q = {}"
proof -
  have "pn (sp_end sp) \<le> pn (sp_start q)" using assms by (simp add: spaces_wf_simps word_le_nat_alt div_le_mono)
  then show ?thesis by (auto simp: sp_pages_def)
qed

lemma shared_page_space:
  assumes "spaces_wf sps" "sp \<in> set sps" "v \<in> sp_pages sp"
  shows "shared_page sps v \<longleftrightarrow> sp_flags sp AND MEM_SPACE_MAP_SHARED \<noteq> 0"
  using assms
proof (induction sps)
  case (Cons q sps)
  then show ?case using sp_pages_disjoint[OF Cons.prems(1)] unfolding shared_page_def spaces_wf_simps by fastforce
qed simp

lemma copy_spaces_ok:
  assumes "to_copy Ds p c (space_pages sps) (pf_pg S)" "cs - 0x80000000 = c" "ps - 0x80000000 = p" "spaces_wf sps" "spaces_aligned sps"
    "\<forall>sp \<in> set sps. \<forall>v \<in> sp_pages sp. sh v \<longleftrightarrow> sp_flags sp AND MEM_SPACE_MAP_SHARED \<noteq> 0"
  shows "\<exists>S' F. copy_spaces mem_ok frame cs ps sps S = Some (Inr (), S') \<and> copy_result Ds p c (space_pages sps) sh F S S'"
  using assms
proof (induction sps arbitrary: S)
  case Nil
  then show ?case using copied_empty[of Ds "pf_pg S"] by (auto simp: copy_result_def to_copy_def space_pages_def)
next
  case (Cons sp sps)
  have V: "space_pages (sp # sps) = sp_pages sp \<union> space_pages sps" by (simp add: space_pages_def)
  have dj: "sp_pages sp \<inter> space_pages sps = {}" using sp_pages_disjoint[OF Cons.prems(4)] by (auto simp: space_pages_def)
  note tc = Cons.prems(1)[unfolded V]
  let ?s = "pn (sp_start sp)" and ?n = "pn (sp_end sp) - pn (sp_start sp)"
  have le: "?s \<le> pn (sp_end sp)" using Cons.prems(4) by (simp add: spaces_wf_simps word_less_nat_alt div_le_mono)
  then have P: "sp_pages sp = {?s..<?s + ?n}" by (simp add: sp_pages_def)
  have al: "unat (sp_start sp) = 4096 * ?s" "unat (sp_end sp) = 4096 * (?s + ?n)"
    using Cons.prems(5) aligned_nat le by (simp_all add: spaces_aligned_def)
  have "to_copy Ds p c (sp_pages sp) (pf_pg S)"
    using tc card_mono[of "sp_pages sp \<union> space_pages sps" "sp_pages sp"] by (auto simp: to_copy_def)
  then have "\<exists>S1 F. copy_pages mem_ok frame cs ps sp (sp_start sp) S = Some (Inr (), S1) \<and> copy_result Ds p c (sp_pages sp) sh F S S1"
    unfolding P by (rule copy_pages_ok) (use Cons.prems al P in auto)
  then obtain S1 F where one: "copy_pages mem_ok frame cs ps sp (sp_start sp) S = Some (Inr (), S1)" "copy_result Ds p c (sp_pages sp) sh F S S1" by blast
  have "\<exists>S' G. copy_spaces mem_ok frame cs ps sps S1 = Some (Inr (), S') \<and> copy_result Ds p c (space_pages sps) sh G S1 S'"
    by (rule Cons.IH[OF to_copy_rest[OF tc dj one(2)]]) (use Cons.prems in \<open>auto simp: spaces_wf_simps spaces_aligned_def\<close>)
  then obtain S' G where rest: "copy_spaces mem_ok frame cs ps sps S1 = Some (Inr (), S')" "copy_result Ds p c (space_pages sps) sh G S1 S'" by blast
  then show ?case using one(1) copy_result_union[OF tc dj one(2) rest(2)] unfolding V by auto
qed


definition demo_fork :: pfst where
  "demo_fork = demo_pf\<lparr>pf_vmm := demo_vmm\<lparr>mem_space_head := [mem_space_init 5 0x400000 0x401000 0x12 0]\<rparr>\<rparr>"


end
