(* ===== verification/Files.thy ===== *)
theory Files
  imports Path Pipe
begin

text \<open>
  Open files and file descriptors: \<^verbatim>\<open>src/fs/fsal/file.c\<close>, \<^verbatim>\<open>src/fs/fsal/fd.c\<close>, opening, closing and references of
  \<^verbatim>\<open>src/fs/fsal/fsalif.c\<close>, and the calls of \<^verbatim>\<open>src/fs/fsif.c\<close> that change descriptors. There is one table of open files
  with a reference count each, and a table of descriptors per task; a descriptor refers to a file,
  to an end of a pipe or to a socket. The file systems are arguments (the record \<open>below\<close>): whether
  the device, the FAT driver or the network stack accepts a call. \<open>None\<close> is an access outside an array or through a null pointer, or
  a wait for the mutex of a pipe.
\<close>

section \<open>Data\<close>

abbreviation (input) FSAL_FILE_OPEN_NR :: nat where "FSAL_FILE_OPEN_NR \<equiv> 128"
abbreviation (input) LOCAL_FILE_OPEN_NR :: nat where "LOCAL_FILE_OPEN_NR \<equiv> 128"
abbreviation (input) FILE_FD_IS_USED :: u32 where "FILE_FD_IS_USED \<equiv> 0x80000000"
abbreviation (input) FILE_FD_NORMAL :: u32 where "FILE_FD_NORMAL \<equiv> 1"
abbreviation (input) FILE_FD_SOCKET :: u32 where "FILE_FD_SOCKET \<equiv> 4"
abbreviation (input) FILE_FD_PIPE0 :: u32 where "FILE_FD_PIPE0 \<equiv> 0x10"
abbreviation (input) FILE_FD_PIPE1 :: u32 where "FILE_FD_PIPE1 \<equiv> 0x20"
abbreviation (input) FILE_FD_TYPE_MASK :: u32 where "FILE_FD_TYPE_MASK \<equiv> 0xff"
abbreviation (input) FILE_FD_CLOEXEC :: u32 where "FILE_FD_CLOEXEC \<equiv> 0x1000"

record fsal_file_t =
  ff_reference :: int
  ff_flags :: int
  ff_fsal :: "nat option"

datatype fsal_kind = Fsif | Pipeif_rd | Pipeif_wr | Netif_fsal

record file_fd_t =
  ffd_handle :: int
  ffd_flags :: u32
  ffd_offset :: int
  ffd_fsal :: "fsal_kind option"

record file_man_t =
  fds :: "file_fd_t list"
  fm_cwd :: string

record fdst =
  fs_table :: "fsal_file_t list"
  fs_man :: "tid \<Rightarrow> file_man_t option"
  fs_cur :: tid
  fs_paths :: path_tbl
  fs_pipes :: plst

record below =
  b_mem :: bool
  b_open :: "nat \<Rightarrow> string \<Rightarrow> u32 \<Rightarrow> bool"
  b_close :: "nat \<Rightarrow> nat \<Rightarrow> bool"
  b_net_close :: "int \<Rightarrow> bool"
  b_net_incref :: "int \<Rightarrow> bool"
  b_fcntl :: "fsal_kind \<Rightarrow> int \<Rightarrow> int \<Rightarrow> int res"

abbreviation (input) OUT_RANGE :: "int \<Rightarrow> nat \<Rightarrow> bool" where
  "OUT_RANGE x n \<equiv> x < 0 \<or> int n \<le> x"

abbreviation free_fd :: file_fd_t where
  "free_fd \<equiv> \<lparr>ffd_handle = -1, ffd_flags = 0, ffd_offset = 0, ffd_fsal = None\<rparr>"


section \<open>The table of open files\<close>

definition fsal_file_table_init :: "bool \<Rightarrow> fsal_file_t list res" where
  "fsal_file_table_init mem_ok =
     (if mem_ok then Inr (replicate FSAL_FILE_OPEN_NR \<lparr>ff_reference = 0, ff_flags = 0, ff_fsal = None\<rparr>) else Inl E_FAIL)"

definition fsal_file_alloc :: "fsal_file_t list \<Rightarrow> (nat \<times> fsal_file_t list) option" where
  "fsal_file_alloc T = map_option (\<lambda>i. (i, T[i := \<lparr>ff_reference = 0, ff_flags = 1, ff_fsal = None\<rparr>])) (scan_index (\<lambda>f. ff_flags f = 0) T)"

definition fsal_file_free :: "nat \<Rightarrow> fsal_file_t list \<Rightarrow> unit res \<times> fsal_file_t list" where
  "fsal_file_free i T = (if ff_flags (T ! i) = 0 then (Inl E_FAIL, T) else (Inr (), T[i := (T ! i)\<lparr>ff_flags := 0\<rparr>]))"

definition fsal_file_inc_reference :: "fsal_file_t \<Rightarrow> fsal_file_t" where
  "fsal_file_inc_reference f = f\<lparr>ff_reference := ff_reference f + 1\<rparr>"

definition fsal_file_dec_reference :: "fsal_file_t \<Rightarrow> fsal_file_t" where
  "fsal_file_dec_reference f = (if ff_reference f > 0 then f\<lparr>ff_reference := ff_reference f - 1\<rparr> else f)"

definition fsal_file_need_close :: "fsal_file_t \<Rightarrow> bool" where
  "fsal_file_need_close f \<longleftrightarrow> ff_reference f \<le> 0"

definition FSAL_BAD_FILE :: "int \<Rightarrow> fsal_file_t list \<Rightarrow> bool" where
  "FSAL_BAD_FILE idx T \<longleftrightarrow> OUT_RANGE idx FSAL_FILE_OPEN_NR \<or> ff_flags (T ! nat idx) = 0 \<or> ff_fsal (T ! nat idx) = None"

definition fsalif_incref :: "int \<Rightarrow> fsal_file_t list \<Rightarrow> unit res \<times> fsal_file_t list" where
  "fsalif_incref idx T =
     (if FSAL_BAD_FILE idx T then (Inl E_FAIL, T) else (Inr (), T[nat idx := fsal_file_inc_reference (T ! nat idx)]))"

definition fsalif_decref :: "int \<Rightarrow> fsal_file_t list \<Rightarrow> unit res \<times> fsal_file_t list" where
  "fsalif_decref idx T =
     (if FSAL_BAD_FILE idx T then (Inl E_FAIL, T) else (Inr (), T[nat idx := fsal_file_dec_reference (T ! nat idx)]))"

text \<open>The adapter of a mounted file system, here that of devices; the others have the same shape.\<close>

definition devif_open :: "below \<Rightarrow> nat \<Rightarrow> string \<Rightarrow> u32 \<Rightarrow> fsal_file_t list \<Rightarrow> nat res \<times> fsal_file_t list" where
  "devif_open B fsal path flags T =
     (case fsal_file_alloc T of
        None \<Rightarrow> (Inl E_FAIL, T)
      | Some (i, T) \<Rightarrow>
          if \<not> b_mem B then (Inl E_NOMEM, snd (fsal_file_free i T))
          else let T = T[i := (T ! i)\<lparr>ff_fsal := Some fsal\<rparr>] in
            if \<not> b_open B fsal path flags then (Inl E_FAIL, snd (fsal_file_free i T)) else (Inr i, T))"

text \<open>The close of the FAT adapter can fail (\<open>b_close\<close>), and then keeps the file.\<close>

definition drv_close :: "below \<Rightarrow> nat \<Rightarrow> int \<Rightarrow> fsal_file_t list \<Rightarrow> unit res \<times> fsal_file_t list" where
  "drv_close B fsal idx T =
     (if FSAL_BAD_FILE idx T \<or> \<not> b_close B fsal (nat idx) then (Inl E_FAIL, T) else fsal_file_free (nat idx) T)"

definition fsalif_open :: "below \<Rightarrow> string \<Rightarrow> u32 \<Rightarrow> path_tbl \<Rightarrow> fsal_file_t list \<Rightarrow> (nat res \<times> fsal_file_t list) option" where
  "fsalif_open B path flags P T = do {
     fpath \<leftarrow> fsal_path_find path True P;
     case fpath of
       None \<Rightarrow> Some (Inl E_FAIL, T)
     | Some k \<Rightarrow> (case fp_fsal (pt_table P ! k) of
         None \<Rightarrow> Some (Inl E_FAIL, T)
       | Some fsal \<Rightarrow> do {
           r \<leftarrow> fsal_path_switch fpath path P;
           case r of
             Inl _ \<Rightarrow> Some (Inl E_FAIL, T)
           | Inr (new_path, _) \<Rightarrow>
               (case devif_open B fsal new_path flags T of
                  (Inl e, T) \<Rightarrow> Some (Inl e, T)
                | (Inr i, T) \<Rightarrow> Some (Inr i, snd (fsalif_incref (int i) T))) }) }"

definition fsalif_close :: "below \<Rightarrow> int \<Rightarrow> fsal_file_t list \<Rightarrow> unit res \<times> fsal_file_t list" where
  "fsalif_close B idx T =
     (if FSAL_BAD_FILE idx T then (Inl E_FAIL, T)
      else let fsal = the (ff_fsal (T ! nat idx)) in
        case fsalif_decref idx T of
          (Inl _, T) \<Rightarrow> (Inl E_INVAL, T)
        | (Inr _, T) \<Rightarrow>
            if \<not> fsal_file_need_close (T ! nat idx) then (Inr (), T) else drv_close B fsal idx T)"


section \<open>Descriptors\<close>

abbreviation upd_man :: "tid \<Rightarrow> file_man_t \<Rightarrow> fdst \<Rightarrow> fdst" where
  "upd_man t m S \<equiv> S\<lparr>fs_man := (fs_man S)(t := Some m)\<rparr>"

definition fs_fd_init :: "bool \<Rightarrow> tid \<Rightarrow> fdst \<Rightarrow> unit res \<times> fdst" where
  "fs_fd_init mem_ok t S =
     (if mem_ok then (Inr (), upd_man t \<lparr>fds = replicate LOCAL_FILE_OPEN_NR free_fd, fm_cwd = ''/''\<rparr> S)
      else (Inl E_FAIL, S\<lparr>fs_man := (fs_man S)(t := None)\<rparr>))"

text \<open>The scan starts at \<open>basefd\<close>; a negative start reads in front of the table.\<close>

definition fsal_fd_alloc :: "int \<Rightarrow> fdst \<Rightarrow> (int \<times> fdst) option" where
  "fsal_fd_alloc basefd S = do {
     m \<leftarrow> fs_man S (fs_cur S);
     if basefd < 0 then None
     else case scan_index (\<lambda>f. ffd_flags f = 0) (drop (nat basefd) (fds m)) of
       None \<Rightarrow> Some (-1, S)
     | Some j \<Rightarrow> (let i = nat basefd + j in
         Some (int i, upd_man (fs_cur S) (m\<lparr>fds := (fds m)[i := \<lparr>ffd_handle = -1, ffd_flags = FILE_FD_IS_USED, ffd_offset = 0, ffd_fsal = None\<rparr>]\<rparr>) S)) }"

definition fsal_fd_free :: "int \<Rightarrow> fdst \<Rightarrow> (unit res \<times> fdst) option" where
  "fsal_fd_free fd S =
     (if OUT_RANGE fd LOCAL_FILE_OPEN_NR then Some (Inl E_FAIL, S)
      else do {
        m \<leftarrow> fs_man S (fs_cur S);
        if ffd_flags (fds m ! nat fd) = 0 then Some (Inl E_FAIL, S)
        else Some (Inr (), upd_man (fs_cur S) (m\<lparr>fds := (fds m)[nat fd := free_fd]\<rparr>) S) })"

definition filefd_set_fsal :: "u32 \<Rightarrow> file_fd_t \<Rightarrow> file_fd_t" where
  "filefd_set_fsal flags f = f\<lparr>ffd_fsal :=
     (if flags = FILE_FD_NORMAL then Some Fsif else if flags = FILE_FD_PIPE0 then Some Pipeif_rd
      else if flags = FILE_FD_PIPE1 then Some Pipeif_wr else if flags = FILE_FD_SOCKET then Some Netif_fsal else None)\<rparr>"

definition fd_install :: "int \<Rightarrow> u32 \<Rightarrow> nat \<Rightarrow> fdst \<Rightarrow> fdst option" where
  "fd_install resid flags fd S = do {
     m \<leftarrow> fs_man S (fs_cur S);
     let f = fds m ! fd in
       Some (upd_man (fs_cur S) (m\<lparr>fds := (fds m)[fd := filefd_set_fsal flags (f\<lparr>ffd_handle := resid, ffd_offset := 0, ffd_flags := ffd_flags f OR flags\<rparr>)]\<rparr>) S) }"

definition local_fd_install_based :: "int \<Rightarrow> u32 \<Rightarrow> int \<Rightarrow> fdst \<Rightarrow> (int \<times> fdst) option" where
  "local_fd_install_based resid flags basefd S =
     (if OUT_RANGE resid FSAL_FILE_OPEN_NR then Some (-1, S)
      else do {
        (fd, S) \<leftarrow> fsal_fd_alloc basefd S;
        if fd < 0 then Some (-1, S) else map_option (\<lambda>S. (fd, S)) (fd_install resid flags (nat fd) S) })"

definition local_fd_install :: "int \<Rightarrow> u32 \<Rightarrow> fdst \<Rightarrow> (int \<times> fdst) option" where
  "local_fd_install resid flags S =
     (if OUT_RANGE resid FSAL_FILE_OPEN_NR then Some (-1, S)
      else do {
        (fd, S) \<leftarrow> fsal_fd_alloc 0 S;
        if fd < 0 then Some (-1, S) else map_option (\<lambda>S. (fd, S)) (fd_install resid flags (nat fd) S) })"

definition local_fd_install_to :: "int \<Rightarrow> int \<Rightarrow> u32 \<Rightarrow> fdst \<Rightarrow> (int \<times> fdst) option" where
  "local_fd_install_to resid newfd flags S =
     (if OUT_RANGE resid FSAL_FILE_OPEN_NR \<or> OUT_RANGE newfd LOCAL_FILE_OPEN_NR then Some (-1, S)
      else map_option (\<lambda>S. (newfd, S)) (fd_install resid flags (nat newfd) S))"

definition local_fd_uninstall :: "int \<Rightarrow> fdst \<Rightarrow> (unit res \<times> fdst) option" where
  "local_fd_uninstall fd S = (if OUT_RANGE fd LOCAL_FILE_OPEN_NR then Some (Inl E_FAIL, S) else fsal_fd_free fd S)"

text \<open>The outer \<open>None\<close> is the missing table, the inner one the null pointer for a number out of range.\<close>

definition fd_local_to_file :: "int \<Rightarrow> fdst \<Rightarrow> file_fd_t option option" where
  "fd_local_to_file fd S =
     (if OUT_RANGE fd LOCAL_FILE_OPEN_NR then Some None else map_option (\<lambda>m. Some (fds m ! nat fd)) (fs_man S (fs_cur S)))"

definition handle_to_local_fd :: "int \<Rightarrow> u32 \<Rightarrow> fdst \<Rightarrow> int option" where
  "handle_to_local_fd handle flags S =
     map_option (\<lambda>m. case scan_index (\<lambda>f. ffd_handle f = handle \<and> ffd_flags f AND flags \<noteq> 0) (fds m) of None \<Rightarrow> -1 | Some i \<Rightarrow> int i)
       (fs_man S (fs_cur S))"

definition FILE_FD_IS_BAD :: "file_fd_t option \<Rightarrow> bool" where
  "FILE_FD_IS_BAD f = (case f of None \<Rightarrow> True | Some f \<Rightarrow> ffd_handle f < 0 \<or> ffd_flags f = 0 \<or> ffd_fsal f = None)"


section \<open>Calls\<close>

text \<open>The calls through the table of operations of a descriptor.\<close>

definition ffd_close :: "below \<Rightarrow> fsal_kind \<Rightarrow> int \<Rightarrow> fdst \<Rightarrow> unit res \<times> fdst" where
  "ffd_close B k h S = (case k of
       Fsif \<Rightarrow> (case fsalif_close B h (fs_table S) of (e, T) \<Rightarrow> (e, S\<lparr>fs_table := T\<rparr>))
     | Pipeif_rd \<Rightarrow> (case pipe_close h False (fs_pipes S) of (e, P) \<Rightarrow> (e, S\<lparr>fs_pipes := P\<rparr>))
     | Pipeif_wr \<Rightarrow> (case pipe_close h True (fs_pipes S) of (e, P) \<Rightarrow> (e, S\<lparr>fs_pipes := P\<rparr>))
     | Netif_fsal \<Rightarrow> (if b_net_close B h then Inr () else Inl E_FAIL, S))"

definition pipe_call :: "(unit res outcome \<times> plst) option \<Rightarrow> fdst \<Rightarrow> (unit res \<times> fdst) option" where
  "pipe_call r S = (case r of Some (Done e, P) \<Rightarrow> Some (e, S\<lparr>fs_pipes := P\<rparr>) | _ \<Rightarrow> None)"

definition ffd_incref :: "below \<Rightarrow> fsal_kind \<Rightarrow> int \<Rightarrow> fdst \<Rightarrow> (unit res \<times> fdst) option" where
  "ffd_incref B k h S = (case k of
       Fsif \<Rightarrow> (case fsalif_incref h (fs_table S) of (e, T) \<Rightarrow> Some (e, S\<lparr>fs_table := T\<rparr>))
     | Pipeif_rd \<Rightarrow> pipe_call (pipe_incref h False (fs_pipes S)) S
     | Pipeif_wr \<Rightarrow> pipe_call (pipe_incref h True (fs_pipes S)) S
     | Netif_fsal \<Rightarrow> Some (if b_net_incref B h then Inr () else Inl E_FAIL, S))"

text \<open>\<open>user_ok\<close> and \<open>permitted\<close> are the checks of the user's buffer and of the account.\<close>

definition sys_open :: "below \<Rightarrow> bool \<Rightarrow> bool \<Rightarrow> string \<Rightarrow> u32 \<Rightarrow> fdst \<Rightarrow> (int res \<times> fdst) option" where
  "sys_open B user_ok permitted path flags S =
     (if \<not> user_ok then Some (Inl E_INVAL, S)
      else if \<not> permitted then Some (Inl E_PERM, S)
      else do {
        abs_path \<leftarrow> build_path path (map_option fm_cwd (fs_man S (fs_cur S)));
        (h, T) \<leftarrow> fsalif_open B abs_path flags (fs_paths S) (fs_table S);
        case h of
          Inl _ \<Rightarrow> Some (Inl E_NOENT, S\<lparr>fs_table := T\<rparr>)
        | Inr i \<Rightarrow> map_option (\<lambda>(fd, S). (if fd < 0 then Inl E_FAIL else Inr fd, S)) (local_fd_install (int i) FILE_FD_NORMAL (S\<lparr>fs_table := T\<rparr>)) })"

definition sys_close :: "below \<Rightarrow> int \<Rightarrow> fdst \<Rightarrow> (unit res \<times> fdst) option" where
  "sys_close B fd S = do {
     ffd \<leftarrow> fd_local_to_file fd S;
     if FILE_FD_IS_BAD ffd then Some (Inl E_INVAL, S)
     else case ffd_close B (the (ffd_fsal (the ffd))) (ffd_handle (the ffd)) S of
       (Inl _, S) \<Rightarrow> Some (Inl E_FAIL, S)
     | (Inr _, S) \<Rightarrow> local_fd_uninstall fd S }"

definition fsif_incref :: "below \<Rightarrow> int \<Rightarrow> fdst \<Rightarrow> (unit res \<times> fdst) option" where
  "fsif_incref B fd S = do {
     ffd \<leftarrow> fd_local_to_file fd S;
     if FILE_FD_IS_BAD ffd then Some (Inl E_FAIL, S) else ffd_incref B (the (ffd_fsal (the ffd))) (ffd_handle (the ffd)) S }"

definition fd_result :: "(int \<times> fdst) option \<Rightarrow> (int res \<times> fdst) option" where
  "fd_result r = map_option (\<lambda>(fd, S). (if fd < 0 then Inl E_FAIL else Inr fd, S)) r"

text \<open>What \<^verbatim>\<open>sys_dup\<close>, \<^verbatim>\<open>sys_dup2\<close> and \<^verbatim>\<open>F_DUPFD\<close> share: one more reference, then a new descriptor.\<close>

definition dup_to :: "below \<Rightarrow> file_fd_t \<Rightarrow> (int \<Rightarrow> u32 \<Rightarrow> fdst \<Rightarrow> (int \<times> fdst) option) \<Rightarrow> fdst \<Rightarrow> (int res \<times> fdst) option" where
  "dup_to B ffd install S = do {
     (e, S) \<leftarrow> ffd_incref B (the (ffd_fsal ffd)) (ffd_handle ffd) S;
     if e \<noteq> Inr () then Some (Inl E_INVAL, S)
     else fd_result (install (ffd_handle ffd) (ffd_flags ffd AND FILE_FD_TYPE_MASK) S) }"

definition sys_dup :: "below \<Rightarrow> int \<Rightarrow> fdst \<Rightarrow> (int res \<times> fdst) option" where
  "sys_dup B oldfd S = do {
     ffd \<leftarrow> fd_local_to_file oldfd S;
     if FILE_FD_IS_BAD ffd then Some (Inl E_INVAL, S) else dup_to B (the ffd) local_fd_install S }"

text \<open>
  \<^verbatim>\<open>sys_dup2\<close> closes \<open>newfd\<close> if it is open and then, like \<^verbatim>\<open>sys_dup\<close>, takes the smallest free number.
\<close>

definition sys_dup2 :: "below \<Rightarrow> int \<Rightarrow> int \<Rightarrow> fdst \<Rightarrow> (int res \<times> fdst) option" where
  "sys_dup2 B oldfd newfd S = do {
     ffd \<leftarrow> fd_local_to_file oldfd S;
     if FILE_FD_IS_BAD ffd then Some (Inl E_INVAL, S)
     else if oldfd = newfd then Some (Inr newfd, S)
     else do {
       newffd \<leftarrow> fd_local_to_file newfd S;
       (e, S) \<leftarrow> (case newffd of
           Some f \<Rightarrow> if ffd_handle f \<ge> 0 \<and> ffd_flags f \<noteq> 0 then sys_close B newfd S else Some (Inr (), S)
         | None \<Rightarrow> Some (Inr (), S));
       if e \<noteq> Inr () then Some (Inl E_FAIL, S)
       else dup_to B (the ffd) local_fd_install S } }"

text \<open>\<open>F_SETFL\<close> goes to the object below. \<open>F_SETFD\<close> sets the flag and returns -1.\<close>

datatype fcntl_cmd = F_DUPFD | F_GETFD | F_SETFD | F_GETFL | F_SETFL | Other_cmd

definition sys_fcntl :: "below \<Rightarrow> int \<Rightarrow> fcntl_cmd \<Rightarrow> int \<Rightarrow> fdst \<Rightarrow> (int res \<times> fdst) option" where
  "sys_fcntl B fd cmd arg S = do {
     ffd \<leftarrow> fd_local_to_file fd S;
     if FILE_FD_IS_BAD ffd then Some (Inl E_INVAL, S)
     else case cmd of
       F_DUPFD \<Rightarrow> dup_to B (the ffd) (\<lambda>h fl. local_fd_install_based h fl arg) S
     | F_GETFD \<Rightarrow> Some (Inr (if ffd_flags (the ffd) AND FILE_FD_CLOEXEC \<noteq> 0 then 1 else 0), S)
     | F_SETFD \<Rightarrow> do {
         m \<leftarrow> fs_man S (fs_cur S);
         let fl = ffd_flags (the ffd);
             fl' = (if odd arg then fl OR FILE_FD_CLOEXEC else fl AND NOT FILE_FD_CLOEXEC)
         in Some (Inl E_FAIL, upd_man (fs_cur S) (m\<lparr>fds := (fds m)[nat fd := (the ffd)\<lparr>ffd_flags := fl'\<rparr>]\<rparr>) S) }
     | F_SETFL \<Rightarrow> Some (b_fcntl B (the (ffd_fsal (the ffd))) (ffd_handle (the ffd)) arg, S)
     | _ \<Rightarrow> Some (Inl E_FAIL, S) }"

text \<open>A new pipe gets a descriptor for each end.\<close>

definition sys_pipe :: "bool \<Rightarrow> (plst \<Rightarrow> (pipe_t res \<times> plst) option) \<Rightarrow> fdst \<Rightarrow> ((int \<times> int) res \<times> fdst) option" where
  "sys_pipe user_ok new_pipe S =
     (if \<not> user_ok then Some (Inl E_INVAL, S)
      else do {
        (r, P) \<leftarrow> new_pipe (fs_pipes S);
        case r of
          Inl _ \<Rightarrow> Some (Inl E_INVAL, S\<lparr>fs_pipes := P\<rparr>)
        | Inr p \<Rightarrow> do {
            (rfd, S) \<leftarrow> local_fd_install (p_id p) FILE_FD_PIPE0 (S\<lparr>fs_pipes := P\<rparr>);
            if rfd < 0 then Some (Inl E_AGAIN, S\<lparr>fs_pipes := destroy_pipe p (fs_pipes S)\<rparr>)
            else do {
              (wfd, S) \<leftarrow> local_fd_install (p_id p) FILE_FD_PIPE1 S;
              if wfd < 0 then do {
                (_, S) \<leftarrow> local_fd_uninstall rfd S;
                Some (Inl E_AGAIN, S\<lparr>fs_pipes := destroy_pipe p (fs_pipes S)\<rparr>) }
              else Some (Inr (rfd, wfd), S) } } })"

text \<open>The loops of \<^verbatim>\<open>fs_fd_exit\<close>, \<^verbatim>\<open>fs_fd_copy\<close> and \<^verbatim>\<open>fs_fd_reinit\<close> over the numbers of descriptors.\<close>

fun close_each :: "below \<Rightarrow> (file_fd_t \<Rightarrow> nat \<Rightarrow> bool) \<Rightarrow> nat list \<Rightarrow> fdst \<Rightarrow> fdst option" where
  "close_each B P [] S = Some S"
| "close_each B P (i # is) S = do {
     m \<leftarrow> fs_man S (fs_cur S);
     S \<leftarrow> (if P (fds m ! i) i then map_option snd (sys_close B (int i) S) else Some S);
     close_each B P is S }"

text \<open>\<^verbatim>\<open>fs_fd_exit\<close> closes descriptors of the running task and frees the table of \<open>task\<close>.\<close>

definition fs_fd_exit :: "below \<Rightarrow> tid \<Rightarrow> fdst \<Rightarrow> (unit res \<times> fdst) option" where
  "fs_fd_exit B t S =
     (if fs_man S t = None then Some (Inl E_FAIL, S)
      else do {
        S \<leftarrow> close_each B (\<lambda>_ _. True) [0..<LOCAL_FILE_OPEN_NR] S;
        Some (Inr (), S\<lparr>fs_man := (fs_man S)(t := None)\<rparr>) })"

definition fs_fd_reinit :: "below \<Rightarrow> fdst \<Rightarrow> (unit res \<times> fdst) option" where
  "fs_fd_reinit B S =
     (if fs_man S (fs_cur S) = None then Some (Inl E_FAIL, S)
      else map_option (\<lambda>S. (Inr (), S))
        (close_each B (\<lambda>f i. ffd_flags f \<noteq> 0 \<and> (i < 3 \<longrightarrow> ffd_flags f AND FILE_FD_CLOEXEC \<noteq> 0)) [0..<LOCAL_FILE_OPEN_NR] S))"

fun copy_each :: "below \<Rightarrow> tid \<Rightarrow> tid \<Rightarrow> nat list \<Rightarrow> fdst \<Rightarrow> fdst option" where
  "copy_each B src dest [] S = Some S"
| "copy_each B src dest (i # is) S = do {
     m \<leftarrow> fs_man S src;
     d \<leftarrow> fs_man S dest;
     S \<leftarrow> (if ffd_flags (fds m ! i) \<noteq> 0
           then map_option snd (fsif_incref B (int i) (upd_man dest (d\<lparr>fds := (fds d)[i := fds m ! i]\<rparr>) S))
           else Some S);
     copy_each B src dest is S }"

definition copy_fds :: "below \<Rightarrow> nat \<Rightarrow> tid \<Rightarrow> tid \<Rightarrow> fdst \<Rightarrow> (unit res \<times> fdst) option" where
  "copy_fds B n src dest S =
     (case (fs_man S src, fs_man S dest) of
        (Some m, Some d) \<Rightarrow> map_option (\<lambda>S. (Inr (), S)) (copy_each B src dest [0..<n] (upd_man dest (d\<lparr>fm_cwd := fm_cwd m\<rparr>) S))
      | _ \<Rightarrow> Some (Inl E_FAIL, S))"

definition fs_fd_copy :: "below \<Rightarrow> tid \<Rightarrow> tid \<Rightarrow> fdst \<Rightarrow> (unit res \<times> fdst) option" where
  "fs_fd_copy B src dest S = copy_fds B LOCAL_FILE_OPEN_NR src dest S"

definition fs_fd_copy_only :: "below \<Rightarrow> tid \<Rightarrow> tid \<Rightarrow> fdst \<Rightarrow> (unit res \<times> fdst) option" where
  "fs_fd_copy_only B src dest S = copy_fds B 3 src dest S"


section \<open>References\<close>

text \<open>The descriptors that refer to an open file, and the invariant: the count of every file is their number, and
  a slot of the table is in use exactly as long as there is one.\<close>

definition refs :: "nat \<Rightarrow> fdst \<Rightarrow> (tid \<times> nat) set" where
  "refs h S = {(t, i). \<exists>m. fs_man S t = Some m \<and> i < 128 \<and> ffd_fsal (fds m ! i) = Some Fsif \<and> ffd_handle (fds m ! i) = int h}"

fun kind_flags :: "fsal_kind \<Rightarrow> u32" where
  "kind_flags Fsif = FILE_FD_NORMAL"
| "kind_flags Pipeif_rd = FILE_FD_PIPE0"
| "kind_flags Pipeif_wr = FILE_FD_PIPE1"
| "kind_flags Netif_fsal = FILE_FD_SOCKET"

definition fd_ok :: "file_fd_t \<Rightarrow> bool" where
  "fd_ok f \<longleftrightarrow> (ffd_flags f = 0 \<longrightarrow> ffd_fsal f = None)
     \<and> (\<forall>k. ffd_fsal f = Some k \<longrightarrow> ffd_flags f AND FILE_FD_TYPE_MASK = kind_flags k \<and> 0 \<le> ffd_handle f \<and> ffd_handle f < 128)"

definition man_ok :: "file_man_t \<Rightarrow> bool" where
  "man_ok m \<longleftrightarrow> length (fds m) = 128 \<and> (\<forall>f \<in> set (fds m). fd_ok f)"

definition file_ok :: "fsal_file_t \<Rightarrow> (tid \<times> nat) set \<Rightarrow> bool" where
  "file_ok f R \<longleftrightarrow> ff_reference f = int (card R) \<and> (ff_flags f \<noteq> 0 \<longleftrightarrow> R \<noteq> {}) \<and> (ff_flags f \<noteq> 0 \<longrightarrow> ff_fsal f \<noteq> None)"

definition files_ok :: "fdst \<Rightarrow> bool" where
  "files_ok S \<longleftrightarrow> length (fs_table S) = 128 \<and> finite (dom (fs_man S))
     \<and> (\<forall>t m. fs_man S t = Some m \<longrightarrow> man_ok m) \<and> (\<forall>h < 128. file_ok (fs_table S ! h) (refs h S))"

lemma refs_finite: "files_ok S \<Longrightarrow> finite (refs h S)"
  by (rule finite_subset[of _ "dom (fs_man S) \<times> {..<128}"]) (auto simp: refs_def files_ok_def)

lemma man_okD: "files_ok S \<Longrightarrow> fs_man S t = Some m \<Longrightarrow> man_ok m"
  by (simp add: files_ok_def)

lemma man_ok_nth: "man_ok m \<Longrightarrow> i < 128 \<Longrightarrow> fd_ok (fds m ! i)"
  by (simp add: man_ok_def)

lemma man_ok_update: "man_ok m \<Longrightarrow> fd_ok f \<Longrightarrow> man_ok (m\<lparr>fds := (fds m)[i := f]\<rparr>)"
  by (auto simp: man_ok_def dest!: set_update_subset_insert[THEN subsetD])

text \<open>Changing one descriptor changes one element of the sets.\<close>

definition set_fd :: "tid \<Rightarrow> nat \<Rightarrow> file_fd_t \<Rightarrow> fdst \<Rightarrow> fdst" where
  "set_fd t i f S = (case fs_man S t of None \<Rightarrow> S | Some m \<Rightarrow> upd_man t (m\<lparr>fds := (fds m)[i := f]\<rparr>) S)"

definition fd_file :: "file_fd_t \<Rightarrow> nat option" where
  "fd_file f = (if ffd_fsal f = Some Fsif then Some (nat (ffd_handle f)) else None)"

lemma refs_set_fd:
  assumes m: "fs_man S t = Some m" "length (fds m) = 128" and i: "i < 128" and f: "fd_ok f"
  shows "refs h (set_fd t i f S) = (if fd_file f = Some h then insert (t, i) (refs h S) else refs h S - {(t, i)})"
proof -
  have f': "(ffd_fsal f = Some Fsif \<and> ffd_handle f = int h) \<longleftrightarrow> fd_file f = Some h" using f by (auto simp: fd_ok_def fd_file_def)
  have "(u, j) \<in> refs h (set_fd t i f S) \<longleftrightarrow> (if (u, j) = (t, i) then fd_file f = Some h else (u, j) \<in> refs h S)" for u j
    using m i f' by (auto simp: refs_def set_fd_def nth_list_update)
  then show ?thesis by (auto split: if_splits)
qed

lemma refs_fd:
  assumes ok: "files_ok S" and m: "fs_man S t = Some m" and i: "i < 128"
  shows "(t, i) \<in> refs h S \<longleftrightarrow> fd_file (fds m ! i) = Some h"
proof -
  have "fd_ok (fds m ! i)" using man_ok_nth[OF man_okD[OF ok m] i] .
  then show ?thesis using m i by (auto simp: refs_def fd_file_def fd_ok_def)
qed

text \<open>The invariant is kept when a descriptor and the counts change together.\<close>

lemma files_ok_set_fd:
  assumes ok: "files_ok S" and m: "fs_man S t = Some m" and i: "i < 128" and f: "fd_ok f" and T: "length T = 128"
    and fo: "\<And>h. h < 128 \<Longrightarrow> file_ok (T ! h) (if fd_file f = Some h then insert (t, i) (refs h S) else refs h S - {(t, i)})"
  shows "files_ok ((set_fd t i f S)\<lparr>fs_table := T\<rparr>)"
proof -
  have len: "length (fds m) = 128" using man_okD[OF ok m] by (simp add: man_ok_def)
  have r: "refs h ((set_fd t i f S)\<lparr>fs_table := T\<rparr>) = refs h (set_fd t i f S)" for h by (simp add: refs_def)
  have "man_ok m'" if "fs_man (set_fd t i f S) u = Some m'" for u m'
    using that ok m man_ok_update[OF man_okD[OF ok m] f] by (auto simp: set_fd_def files_ok_def split: if_splits)
  then show ?thesis using ok fo T refs_set_fd[OF m len i f] m unfolding files_ok_def r by (auto simp: set_fd_def)
qed

lemma refs_simps [simp]:
  "refs h (S\<lparr>fs_pipes := P\<rparr>) = refs h S" "refs h (S\<lparr>fs_table := T\<rparr>) = refs h S" "refs h (S\<lparr>fs_cur := c\<rparr>) = refs h S"
  "files_ok (S\<lparr>fs_pipes := P\<rparr>) = files_ok S" "files_ok (S\<lparr>fs_cur := c\<rparr>) = files_ok S"
  by (simp_all add: refs_def files_ok_def)

lemma fd_file_free [simp]: "fd_file free_fd = None" "fd_ok free_fd"
  by (simp_all add: fd_file_def fd_ok_def)

text \<open>A descriptor that refers to no file can change without the counts.\<close>

lemma files_ok_other_fd:
  assumes ok: "files_ok S" and m: "fs_man S t = Some m" and i: "i < 128" and f: "fd_ok f" and nf: "fd_file (fds m ! i) = fd_file f"
  shows "files_ok (set_fd t i f S)"
proof -
  have "file_ok (fs_table S ! h) (if fd_file f = Some h then insert (t, i) (refs h S) else refs h S - {(t, i)})" if "h < 128" for h
  proof -
    have "(if fd_file f = Some h then insert (t, i) (refs h S) else refs h S - {(t, i)}) = refs h S"
      using refs_fd[OF ok m i, of h] nf by auto
    then show ?thesis using ok that by (simp add: files_ok_def)
  qed
  from files_ok_set_fd[OF ok m i f _ this] show ?thesis using ok by (auto simp: files_ok_def set_fd_def split: option.splits)
qed

lemma fsal_fd_free_set: "fs_man S (fs_cur S) = Some m \<Longrightarrow> i < 128 \<Longrightarrow> ffd_flags (fds m ! i) \<noteq> 0 \<Longrightarrow>
    local_fd_uninstall (int i) S = Some (Inr (), set_fd (fs_cur S) i free_fd S)"
  by (simp add: local_fd_uninstall_def fsal_fd_free_def set_fd_def)

lemma set_fd_simps [simp]:
  "fs_cur (set_fd t i f S) = fs_cur S" "fs_table (set_fd t i f S) = fs_table S" "dom (fs_man (set_fd t i f S)) = dom (fs_man S)"
  by (auto simp: set_fd_def split: option.splits)

text \<open>Closing a file through one of its descriptors: the last one gives the slot back.\<close>

lemma fsalif_close_ok:
  assumes len: "length T = 128" and h: "h < 128" and f: "file_ok (T ! h) R" and R: "finite R" "x \<in> R" and B: "\<forall>d i. b_close B d i"
  shows "\<exists>T'. fsalif_close B (int h) T = (Inr (), T') \<and> length T' = 128 \<and> file_ok (T' ! h) (R - {x}) \<and> (\<forall>j < 128. j \<noteq> h \<longrightarrow> T' ! j = T ! j)"
proof -
  have card: "card R > 0" and c1: "card (R - {x}) = card R - 1" using R by (auto simp: card_gt_0_iff)
  have fl: "ff_flags (T ! h) \<noteq> 0" "ff_fsal (T ! h) \<noteq> None" "ff_reference (T ! h) = int (card R)" using f R(2) by (auto simp: file_ok_def)
  have good: "\<not> FSAL_BAD_FILE (int h) T" using fl h by (simp add: FSAL_BAD_FILE_def)
  let ?f = "(T ! h)\<lparr>ff_reference := int (card R) - 1\<rparr>"
  have d: "fsalif_decref (int h) T = (Inr (), T[h := ?f])" using good fl card by (simp add: fsalif_decref_def fsal_file_dec_reference_def)
  show ?thesis
  proof (cases "card R = 1")
    case True
    then have e: "R - {x} = {}" using c1 R(1) by (metis card_0_eq diff_self_eq_0 finite_Diff)
    have "file_ok (?f\<lparr>ff_flags := 0\<rparr>) (R - {x})" unfolding e using True by (simp add: file_ok_def)
    moreover have "fsalif_close B (int h) T = (Inr (), T[h := ?f\<lparr>ff_flags := 0\<rparr>])"
      using good d True len h fl B by (simp add: fsalif_close_def fsal_file_need_close_def drv_close_def FSAL_BAD_FILE_def fsal_file_free_def)
    ultimately show ?thesis using len h by (intro exI[of _ "T[h := ?f\<lparr>ff_flags := 0\<rparr>]"]) simp
  next
    case False
    then have "R - {x} \<noteq> {}" using c1 card R(1) by (metis card.empty diff_is_0_eq leD less_one nat_neq_iff)
    then have "file_ok ?f (R - {x})" using fl c1 card by (simp add: file_ok_def of_nat_diff)
    moreover have "fsalif_close B (int h) T = (Inr (), T[h := ?f])"
      using good d False card len h by (simp add: fsalif_close_def fsal_file_need_close_def)
    ultimately show ?thesis using len h by (intro exI[of _ "T[h := ?f]"]) simp
  qed
qed

lemma ffd_close_other: "k \<noteq> Fsif \<Longrightarrow> \<exists>e P. ffd_close B k h S = (e, S\<lparr>fs_pipes := P\<rparr>)"
proof (cases k)
  case Netif_fsal
  then show ?thesis by (intro exI[of _ "if b_net_close B h then Inr () else Inl E_FAIL"] exI[of _ "fs_pipes S"]) (simp add: ffd_close_def)
qed (auto simp: ffd_close_def split: prod.split)

lemma sys_close_ok:
  assumes ok: "files_ok S" and m: "fs_man S (fs_cur S) = Some m" and B: "\<forall>d i. b_close B d i"
  shows "\<exists>r S'. sys_close B fd S = Some (r, S') \<and> files_ok S' \<and> fs_cur S' = fs_cur S
    \<and> (\<forall>t. t \<noteq> fs_cur S \<longrightarrow> fs_man S' t = fs_man S t)
    \<and> (\<exists>m'. fs_man S' (fs_cur S) = Some m' \<and> (\<forall>j < 128. int j \<noteq> fd \<longrightarrow> fds m' ! j = fds m ! j) \<and> (0 \<le> fd \<and> fd < 128 \<longrightarrow> fd_file (fds m' ! nat fd) = None))"
proof -
  let ?c = "fs_cur S"
  have mok: "man_ok m" using man_okD[OF ok m] .
  show ?thesis
  proof (cases "OUT_RANGE fd 128")
    case True
    then show ?thesis using ok m by (auto simp: sys_close_def fd_local_to_file_def FILE_FD_IS_BAD_def)
  next
    case False
    define i where "i = nat fd"
    have i: "i < 128" "int i = fd" using False by (auto simp: i_def)
    let ?f = "fds m ! i"
    have fok: "fd_ok ?f" using man_ok_nth[OF mok i(1)] .
    show ?thesis
    proof (cases "FILE_FD_IS_BAD (Some ?f)")
      case True
      then have "sys_close B fd S = Some (Inl E_INVAL, S)" using False m by (simp add: sys_close_def fd_local_to_file_def i_def)
      moreover have "fd_file ?f = None" using True fok by (auto simp: FILE_FD_IS_BAD_def fd_file_def fd_ok_def)
      ultimately show ?thesis using ok m i by auto
    next
      case good: False
      then obtain k where k: "ffd_fsal ?f = Some k" "ffd_flags ?f \<noteq> 0" by (auto simp: FILE_FD_IS_BAD_def)
      have run: "sys_close B fd S = (case ffd_close B k (ffd_handle ?f) S of (Inl _, S) \<Rightarrow> Some (Inl E_FAIL, S) | (Inr _, S) \<Rightarrow> local_fd_uninstall fd S)"
        using good False m k by (simp add: sys_close_def fd_local_to_file_def i_def)
      have un: "local_fd_uninstall fd S1 = Some (Inr (), set_fd ?c i free_fd S1)" if "fs_man S1 = fs_man S" "fs_cur S1 = ?c" for S1
        using fsal_fd_free_set[of S1 m i] that m i k(2) by simp
      have man: "\<exists>m'. fs_man (set_fd ?c i free_fd S1) ?c = Some m' \<and> (\<forall>j < 128. int j \<noteq> fd \<longrightarrow> fds m' ! j = fds m ! j) \<and> (0 \<le> fd \<and> fd < 128 \<longrightarrow> fd_file (fds m' ! nat fd) = None)"
        if "fs_man S1 = fs_man S" for S1
        using that m i mok by (auto simp: set_fd_def man_ok_def nth_list_update fd_file_def)
      have oth: "fs_man (set_fd ?c i free_fd S1) t = fs_man S t" if "fs_man S1 = fs_man S" "t \<noteq> ?c" for S1 t using that m by (auto simp: set_fd_def)
      show ?thesis
      proof (cases "k = Fsif")
        case True
        define h where "h = nat (ffd_handle ?f)"
        have h: "h < 128" "ffd_handle ?f = int h" "fd_file ?f = Some h" using fok k True by (auto simp: fd_ok_def h_def fd_file_def)
        have mem: "(?c, i) \<in> refs h S" using refs_fd[OF ok m i(1)] h(3) by simp
        have fo: "file_ok (fs_table S ! h) (refs h S)" "length (fs_table S) = 128" using ok h(1) by (auto simp: files_ok_def)
        obtain T' where T': "fsalif_close B (int h) (fs_table S) = (Inr (), T')" "length T' = 128" "file_ok (T' ! h) (refs h S - {(?c, i)})"
            "\<forall>j < 128. j \<noteq> h \<longrightarrow> T' ! j = fs_table S ! j"
          using fsalif_close_ok[OF fo(2) h(1) fo(1) refs_finite[OF ok] mem B] by blast
        have "file_ok (T' ! j) (refs j S - {(?c, i)})" if "j < 128" for j
        proof (cases "j = h")
          case False
          then have "(?c, i) \<notin> refs j S" using refs_fd[OF ok m i(1), of j] h(3) by simp
          then show ?thesis using T'(4) that False ok by (simp add: files_ok_def)
        qed (use T'(3) in simp)
        then have "files_ok ((set_fd ?c i free_fd S)\<lparr>fs_table := T'\<rparr>)" using files_ok_set_fd[OF ok m i(1) _ T'(2), of free_fd] by simp
        moreover have "(set_fd ?c i free_fd S)\<lparr>fs_table := T'\<rparr> = set_fd ?c i free_fd (S\<lparr>fs_table := T'\<rparr>)" using m by (simp add: set_fd_def)
        moreover have "sys_close B fd S = Some (Inr (), set_fd ?c i free_fd (S\<lparr>fs_table := T'\<rparr>))"
          using run True T'(1) h(2) un[of "S\<lparr>fs_table := T'\<rparr>"] by (simp add: ffd_close_def)
        ultimately show ?thesis using man[of "S\<lparr>fs_table := T'\<rparr>"] oth[of "S\<lparr>fs_table := T'\<rparr>"] by auto
      next
        case False
        then have nf: "fd_file ?f = None" using k by (simp add: fd_file_def)
        from ffd_close_other[OF False] obtain e P where e: "ffd_close B k (ffd_handle ?f) S = (e, S\<lparr>fs_pipes := P\<rparr>)" by blast
        show ?thesis
        proof (cases e)
          case (Inl x)
          then show ?thesis using run e ok m nf i by auto
        next
          case (Inr u)
          have "files_ok (set_fd ?c i free_fd (S\<lparr>fs_pipes := P\<rparr>))"
            using files_ok_other_fd[of "S\<lparr>fs_pipes := P\<rparr>" ?c m i free_fd] ok m i nf by simp
          then show ?thesis using run e Inr un[of "S\<lparr>fs_pipes := P\<rparr>"] man[of "S\<lparr>fs_pipes := P\<rparr>"] oth[of "S\<lparr>fs_pipes := P\<rparr>"] by auto
        qed
      qed
    qed
  qed
qed

text \<open>One more descriptor for a file, with one more reference.\<close>

lemma files_ok_add:
  assumes ok: "files_ok S" and m: "fs_man S t = Some m" and i: "i < 128" "fd_file (fds m ! i) = None" and f: "fd_ok f" "fd_file f = Some h" and h: "h < 128"
    and g: "ff_reference g = int (card (refs h S)) + 1" "ff_flags g \<noteq> 0" "ff_fsal g \<noteq> None"
  shows "files_ok ((set_fd t i f S)\<lparr>fs_table := (fs_table S)[h := g]\<rparr>)"
proof (rule files_ok_set_fd[OF ok m i(1) f(1)])
  show "length ((fs_table S)[h := g]) = 128" using ok by (simp add: files_ok_def)
next
  fix j :: nat assume j: "j < 128"
  have ni: "(t, i) \<notin> refs j S" using refs_fd[OF ok m i(1)] i(2) by simp
  have len: "length (fs_table S) = 128" using ok by (simp add: files_ok_def)
  show "file_ok ((fs_table S)[h := g] ! j) (if fd_file f = Some j then insert (t, i) (refs j S) else refs j S - {(t, i)})"
  proof (cases "j = h")
    case True
    then show ?thesis using f(2) g ni h len refs_finite[OF ok, of h] by (simp add: file_ok_def)
  next
    case False
    then show ?thesis using f(2) ok j ni by (simp add: files_ok_def)
  qed
qed

definition has_free :: "fdst \<Rightarrow> bool" where
  "has_free S \<longleftrightarrow> (\<exists>m. fs_man S (fs_cur S) = Some m \<and> (\<exists>f \<in> set (fds m). ffd_flags f = 0))"

abbreviation used_fd :: "fsal_kind \<Rightarrow> int \<Rightarrow> file_fd_t" where
  "used_fd k h \<equiv> \<lparr>ffd_handle = h, ffd_flags = FILE_FD_IS_USED OR kind_flags k, ffd_offset = 0, ffd_fsal = Some k\<rparr>"

lemma used_fd_ok: "0 \<le> h \<Longrightarrow> h < 128 \<Longrightarrow> fd_ok (used_fd k h)"
  by (cases k) (simp_all add: fd_ok_def)

lemma set_fsal_kind: "filefd_set_fsal (kind_flags k) f = f\<lparr>ffd_fsal := Some k\<rparr>"
  by (cases k) (simp_all add: filefd_set_fsal_def)

text \<open>The smallest free number is taken.\<close>

lemma local_fd_install_ok:
  assumes m: "fs_man S (fs_cur S) = Some m" "man_ok m" and fr: "\<exists>f \<in> set (fds m). ffd_flags f = 0" and h: "0 \<le> h" "h < 128"
  shows "\<exists>i < 128. local_fd_install h (kind_flags k) S = Some (int i, set_fd (fs_cur S) i (used_fd k h) S) \<and> ffd_flags (fds m ! i) = 0
    \<and> (\<forall>j < i. ffd_flags (fds m ! j) \<noteq> 0)"
proof -
  obtain i where i: "scan_index (\<lambda>f. ffd_flags f = 0) (fds m) = Some i" using fr by (metis (mono_tags, lifting) not_None_eq scan_index_None)
  then have i': "i < 128" "ffd_flags (fds m ! i) = 0" "\<forall>j < i. ffd_flags (fds m ! j) \<noteq> 0" using scan_index_Some[OF i] m(2) by (auto simp: man_ok_def)
  have len: "length (fds m) = 128" using m(2) by (simp add: man_ok_def)
  have "local_fd_install h (kind_flags k) S = Some (int i, set_fd (fs_cur S) i (used_fd k h) S)"
    using m(1) i i' h len by (simp add: local_fd_install_def fsal_fd_alloc_def fd_install_def set_fd_def set_fsal_kind)
  then show ?thesis using i' by blast
qed

lemma local_fd_install_full:
  assumes "fs_man S (fs_cur S) = Some m" "\<not> (\<exists>f \<in> set (fds m). ffd_flags f = 0)"
  shows "local_fd_install h fl S = Some (-1, S)"
proof -
  have "scan_index (\<lambda>f. ffd_flags f = 0) (fds m) = None" using assms(2) by (simp add: scan_index_None)
  then show ?thesis using assms(1) by (simp add: local_fd_install_def fsal_fd_alloc_def)
qed

lemma man_ok_free_fd: "man_ok m \<Longrightarrow> i < 128 \<Longrightarrow> ffd_flags (fds m ! i) = 0 \<Longrightarrow> fd_file (fds m ! i) = None"
  using man_ok_nth[of m i] by (auto simp: fd_ok_def fd_file_def)

text \<open>Opening.\<close>

lemma devif_open_cases:
  assumes len: "length T = 128"
  obtains (none) e where "devif_open B fsal path flags T = (Inl e, T)"
  | (failed) e h g where "devif_open B fsal path flags T = (Inl e, T[h := g])" "h < 128" "ff_flags (T ! h) = 0" "ff_flags g = 0" "ff_reference g = 0"
  | (opened) h where "devif_open B fsal path flags T = (Inr h, T[h := \<lparr>ff_reference = 0, ff_flags = 1, ff_fsal = Some fsal\<rparr>])" "h < 128" "ff_flags (T ! h) = 0"
proof (cases "scan_index (\<lambda>f. ff_flags f = 0) T")
  case None
  then show ?thesis using none by (simp add: devif_open_def fsal_file_alloc_def)
next
  case (Some h)
  then have h: "h < 128" "ff_flags (T ! h) = 0" using scan_index_Some[OF Some] len by auto
  note d = devif_open_def fsal_file_alloc_def fsal_file_free_def
  show ?thesis
  proof (cases "b_mem B \<and> b_open B fsal path flags")
    case True
    then show ?thesis using opened[of h] Some h len by (simp add: d)
  next
    case False
    show ?thesis
      by (rule failed[of "if b_mem B then E_FAIL else E_NOMEM" h "\<lparr>ff_reference = 0, ff_flags = 0, ff_fsal = if b_mem B then Some fsal else None\<rparr>"])
        (use Some h len False in \<open>auto simp: d\<close>)
  qed
qed

lemma free_slot_refs:
  assumes ok: "files_ok S" and h: "h < 128" "ff_flags (fs_table S ! h) = 0"
  shows "refs h S = {}"
proof -
  have "file_ok (fs_table S ! h) (refs h S)" using ok h(1) by (simp add: files_ok_def)
  then show ?thesis using h(2) by (simp add: file_ok_def)
qed

lemma files_ok_free_slot:
  assumes ok: "files_ok S" and h: "h < 128" "ff_flags (fs_table S ! h) = 0" and g: "ff_flags g = 0" "ff_reference g = 0"
  shows "files_ok (S\<lparr>fs_table := (fs_table S)[h := g]\<rparr>)"
proof -
  note r = free_slot_refs[OF ok h]
  have "file_ok ((fs_table S)[h := g] ! j) (refs j S)" if "j < 128" for j
    using ok that h(1) g r by (cases "j = h") (auto simp: files_ok_def file_ok_def)
  then show ?thesis using ok by (simp add: files_ok_def)
qed

lemma fsalif_open_cases:
  assumes len: "length T = 128" and run: "fsalif_open B path flags P T = Some (r, T')"
  obtains (failed) e where "r = Inl e" "T' = T \<or> (\<exists>h g. T' = T[h := g] \<and> h < 128 \<and> ff_flags (T ! h) = 0 \<and> ff_flags g = 0 \<and> ff_reference g = 0)"
  | (opened) h fsal where "r = Inr h" "h < 128" "ff_flags (T ! h) = 0" "T' = T[h := \<lparr>ff_reference = 1, ff_flags = 1, ff_fsal = Some fsal\<rparr>]"
proof -
  consider (no) e where "r = Inl e" "T' = T"
    | (dev) fsal new where "(case devif_open B fsal new flags T of (Inl e, T) \<Rightarrow> Some (Inl e, T) | (Inr i, T) \<Rightarrow> Some (Inr i, snd (fsalif_incref (int i) T))) = Some (r, T')"
    using run by (auto simp: fsalif_open_def split: bind_splits option.splits sum.splits)
  then show ?thesis
  proof cases
    case no
    then show ?thesis by (auto intro: failed)
  next
    case dev
    from len show ?thesis
    proof (cases rule: devif_open_cases[where B = B and fsal = fsal and path = new and flags = flags])
      case (none e)
      then show ?thesis using dev by (auto intro: failed)
    next
      case (failed e h g)
      then show ?thesis using dev by (auto intro: that(1))
    next
      case (opened h)
      then show ?thesis using dev that(2)[of h fsal] len by (simp add: fsalif_incref_def FSAL_BAD_FILE_def fsal_file_inc_reference_def)
    qed
  qed
qed

lemma sys_open_ok:
  assumes ok: "files_ok S" and fr: "has_free S" and run: "sys_open B user_ok permitted path flags S = Some (r, S')"
  shows "files_ok S' \<and> fs_cur S' = fs_cur S
    \<and> (case r of Inl _ \<Rightarrow> (\<forall>h. refs h S' = refs h S) | Inr fd \<Rightarrow> \<exists>h < 128. refs h S = {} \<and> refs h S' = {(fs_cur S, nat fd)} \<and> (\<forall>j. j \<noteq> h \<longrightarrow> refs j S' = refs j S))"
proof -
  obtain m where m: "fs_man S (fs_cur S) = Some m" "\<exists>f \<in> set (fds m). ffd_flags f = 0" using fr by (auto simp: has_free_def)
  have mok: "man_ok m" using man_okD[OF ok m(1)] .
  have len: "length (fs_table S) = 128" using ok by (simp add: files_ok_def)
  consider (same) e where "S' = S" "r = Inl e"
    | (go) abs h T where "fsalif_open B abs flags (fs_paths S) (fs_table S) = Some (h, T)"
        "(case h of Inl _ \<Rightarrow> Some (Inl E_NOENT, S\<lparr>fs_table := T\<rparr>)
          | Inr i \<Rightarrow> map_option (\<lambda>(fd, S). (if fd < 0 then Inl E_FAIL else Inr fd, S)) (local_fd_install (int i) FILE_FD_NORMAL (S\<lparr>fs_table := T\<rparr>))) = Some (r, S')"
    using run by (auto simp: sys_open_def split: if_splits bind_splits)
  then show ?thesis
  proof cases
    case same
    then show ?thesis using ok by simp
  next
    case go
    show ?thesis
    proof (cases rule: fsalif_open_cases[OF len go(1)])
      case (1 e)
      then have "r = Inl E_NOENT" "S' = S\<lparr>fs_table := T\<rparr>" using go(2) by auto
      then show ?thesis using 1 ok files_ok_free_slot[OF ok] by auto
    next
      case (2 i fsal)
      let ?g = "\<lparr>ff_reference = 1, ff_flags = 1, ff_fsal = Some fsal\<rparr>" and ?c = "fs_cur S"
      let ?S = "S\<lparr>fs_table := T\<rparr>"
      obtain k where k: "k < 128" "local_fd_install (int i) (kind_flags Fsif) ?S = Some (int k, set_fd ?c k (used_fd Fsif (int i)) ?S)" "ffd_flags (fds m ! k) = 0"
        using local_fd_install_ok[of ?S m "int i" Fsif] m mok 2(2) by auto
      have re: "refs i S = {}" by (rule free_slot_refs[OF ok 2(2,3)])
      have f: "fd_ok (used_fd Fsif (int i))" "fd_file (used_fd Fsif (int i)) = Some i" using used_fd_ok[of "int i" Fsif] 2(2) by (simp_all add: fd_file_def)
      have fn: "fd_file (fds m ! k) = None" using man_ok_free_fd[OF mok k(1,3)] .
      have "files_ok ((set_fd ?c k (used_fd Fsif (int i)) S)\<lparr>fs_table := (fs_table S)[i := ?g]\<rparr>)"
        by (rule files_ok_add[OF ok m(1) k(1) fn f 2(2)]) (simp_all add: re)
      moreover have "set_fd ?c k (used_fd Fsif (int i)) ?S = (set_fd ?c k (used_fd Fsif (int i)) S)\<lparr>fs_table := (fs_table S)[i := ?g]\<rparr>"
        using m(1) 2(4) by (simp add: set_fd_def)
      moreover have "r = Inr (int k)" "S' = set_fd ?c k (used_fd Fsif (int i)) ?S" using go(2) 2(1) k(2) by auto
      moreover have "refs j (set_fd ?c k (used_fd Fsif (int i)) S) = (if j = i then {(?c, k)} else refs j S)" for j
        using refs_set_fd[OF m(1) _ k(1) f(1), of j] f(2) re mok refs_fd[OF ok m(1) k(1), of j] fn by (auto simp: man_ok_def)
      ultimately show ?thesis using 2(2) re by auto
    qed
  qed
qed

text \<open>Duplicating: \<open>incref\<close> of a descriptor's file.\<close>

lemma fsalif_incref_ok:
  assumes ok: "files_ok S" and h: "h < 128" "refs h S \<noteq> {}"
  shows "\<exists>g. fsalif_incref (int h) (fs_table S) = (Inr (), (fs_table S)[h := g]) \<and> ff_reference g = int (card (refs h S)) + 1 \<and> ff_flags g \<noteq> 0 \<and> ff_fsal g \<noteq> None"
proof -
  have "file_ok (fs_table S ! h) (refs h S)" using ok h(1) by (simp add: files_ok_def)
  then show ?thesis using h by (auto simp: file_ok_def fsalif_incref_def FSAL_BAD_FILE_def fsal_file_inc_reference_def)
qed

lemma ffd_incref_other:
  assumes "k \<noteq> Fsif" "ffd_incref B k h S = Some (e, S')"
  shows "\<exists>P. S' = S\<lparr>fs_pipes := P\<rparr>"
  using assms by (cases k) (auto simp: ffd_incref_def pipe_call_def intro: exI[of _ "fs_pipes S"] split: option.splits outcome.splits)

lemma dup_ok:
  assumes ok: "files_ok S" and m: "fs_man S (fs_cur S) = Some m" and fr: "\<exists>f \<in> set (fds m). ffd_flags f = 0"
    and f: "f \<in> set (fds m)" "ffd_fsal f \<noteq> None" and run: "dup_to B f local_fd_install S = Some (r, S')"
  shows "files_ok S' \<and> fs_cur S' = fs_cur S"
proof -
  let ?c = "fs_cur S"
  have mok: "man_ok m" using man_okD[OF ok m] .
  have fok: "fd_ok f" using mok f(1) by (simp add: man_ok_def)
  obtain k where k: "ffd_fsal f = Some k" using f(2) by auto
  have fl: "ffd_flags f AND FILE_FD_TYPE_MASK = kind_flags k" "0 \<le> ffd_handle f" "ffd_handle f < 128" using fok k by (simp_all add: fd_ok_def)
  obtain e S1 where i: "ffd_incref B k (ffd_handle f) S = Some (e, S1)"
      and r: "(if e \<noteq> Inr () then Some (Inl E_INVAL, S1) else fd_result (local_fd_install (ffd_handle f) (kind_flags k) S1)) = Some (r, S')"
    using run unfolding dup_to_def k option.sel fl(1) by (elim bind_eq_Some_conv[THEN iffD1, THEN exE]) (auto split: prod.splits)
  have inst: "\<exists>j < 128. local_fd_install (ffd_handle f) (kind_flags k) S1 = Some (int j, set_fd ?c j (used_fd k (ffd_handle f)) S1) \<and> ffd_flags (fds m ! j) = 0"
    if "fs_man S1 = fs_man S" "fs_cur S1 = ?c" using local_fd_install_ok[of S1 m "ffd_handle f" k] that m mok fr fl by auto
  show ?thesis
  proof (cases "k = Fsif")
    case True
    define h where "h = nat (ffd_handle f)"
    have h: "h < 128" "ffd_handle f = int h" using fl by (auto simp: h_def)
    obtain q where q: "q < 128" "f = fds m ! q" using f(1) mok by (auto simp: in_set_conv_nth man_ok_def)
    have "(?c, q) \<in> refs h S" using refs_fd[OF ok m q(1), of h] q(2) k True by (simp add: fd_file_def h_def)
    then obtain g where g: "fsalif_incref (int h) (fs_table S) = (Inr (), (fs_table S)[h := g])" "ff_reference g = int (card (refs h S)) + 1" "ff_flags g \<noteq> 0" "ff_fsal g \<noteq> None"
      using fsalif_incref_ok[OF ok h(1)] by blast
    have S1: "e = Inr ()" "S1 = S\<lparr>fs_table := (fs_table S)[h := g]\<rparr>" using i g(1) True h(2) by (simp_all add: ffd_incref_def)
    then obtain j where j: "j < 128" "local_fd_install (ffd_handle f) (kind_flags k) S1 = Some (int j, set_fd ?c j (used_fd k (ffd_handle f)) S1)" "ffd_flags (fds m ! j) = 0"
      using inst by auto
    have "files_ok ((set_fd ?c j (used_fd k (ffd_handle f)) S)\<lparr>fs_table := (fs_table S)[h := g]\<rparr>)"
      by (rule files_ok_add[OF ok m j(1) man_ok_free_fd[OF mok j(1,3)] used_fd_ok[OF fl(2,3)] _ h(1) g(2-4)]) (use True in \<open>simp add: fd_file_def h_def\<close>)
    moreover have "S' = set_fd ?c j (used_fd k (ffd_handle f)) S1" using r S1(1) j(2) by (simp add: fd_result_def)
    moreover have "set_fd ?c j (used_fd k (ffd_handle f)) S1 = (set_fd ?c j (used_fd k (ffd_handle f)) S)\<lparr>fs_table := (fs_table S)[h := g]\<rparr>"
      using m S1(2) by (simp add: set_fd_def)
    ultimately show ?thesis by simp
  next
    case False
    obtain P where P: "S1 = S\<lparr>fs_pipes := P\<rparr>" using ffd_incref_other[OF False i] by blast
    show ?thesis
    proof (cases "e = Inr ()")
      case True
      obtain j where j: "j < 128" "local_fd_install (ffd_handle f) (kind_flags k) S1 = Some (int j, set_fd ?c j (used_fd k (ffd_handle f)) S1)" "ffd_flags (fds m ! j) = 0"
        using inst P by auto
      have "files_ok (set_fd ?c j (used_fd k (ffd_handle f)) S1)"
        by (rule files_ok_other_fd[of _ _ m]) (use P ok m j man_ok_free_fd[OF mok j(1,3)] used_fd_ok[OF fl(2,3)] False in \<open>auto simp: fd_file_def\<close>)
      then show ?thesis using r True j(2) P by (auto simp: fd_result_def)
    next
      case False
      then show ?thesis using r P ok by auto
    qed
  qed
qed

text \<open>Copying the descriptors of the running task: every copy brings its reference.\<close>

lemma copy_one_ok:
  assumes ok: "files_ok S" and m: "fs_man S (fs_cur S) = Some m" and d: "fs_man S t = Some d" "t \<noteq> fs_cur S" and i: "i < 128" "fd_file (fds d ! i) = None"
    and run: "fsif_incref B (int i) (set_fd t i (fds m ! i) S) = Some (e, S')"
  shows "files_ok S' \<and> fs_man S' = fs_man (set_fd t i (fds m ! i) S) \<and> fs_cur S' = fs_cur S"
proof -
  let ?f = "fds m ! i" and ?S = "set_fd t i (fds m ! i) S"
  have mok: "man_ok m" using man_okD[OF ok m] .
  have fok: "fd_ok ?f" using man_ok_nth[OF mok i(1)] .
  have man: "fs_man ?S (fs_cur S) = Some m" using m d by (simp add: set_fd_def)
  have inc: "fsif_incref B (int i) ?S = (if FILE_FD_IS_BAD (Some ?f) then Some (Inl E_FAIL, ?S) else ffd_incref B (the (ffd_fsal ?f)) (ffd_handle ?f) ?S)"
    using i(1) man by (simp add: fsif_incref_def fd_local_to_file_def)
  show ?thesis
  proof (cases "fd_file ?f")
    case None
    then have ok1: "files_ok ?S" using files_ok_other_fd[OF ok d(1) i(1) fok] i(2) by simp
    show ?thesis
    proof (cases "FILE_FD_IS_BAD (Some ?f)")
      case True
      then show ?thesis using inc run ok1 by simp
    next
      case False
      then obtain k where k: "ffd_fsal ?f = Some k" "k \<noteq> Fsif" using None by (auto simp: FILE_FD_IS_BAD_def fd_file_def split: if_splits)
      then have "ffd_incref B k (ffd_handle ?f) ?S = Some (e, S')" using inc run False by simp
      then obtain P where "S' = ?S\<lparr>fs_pipes := P\<rparr>" using ffd_incref_other[OF k(2)] by blast
      then show ?thesis using ok1 by simp
    qed
  next
    case (Some h)
    then have f: "ffd_fsal ?f = Some Fsif" "ffd_handle ?f = int h" "h < 128" "ffd_flags ?f \<noteq> 0" using fok by (auto simp: fd_file_def fd_ok_def split: if_splits)
    then have good: "\<not> FILE_FD_IS_BAD (Some ?f)" by (simp add: FILE_FD_IS_BAD_def)
    have "refs h S \<noteq> {}" using refs_fd[OF ok m i(1), of h] Some by auto
    then obtain g where g: "fsalif_incref (int h) (fs_table S) = (Inr (), (fs_table S)[h := g])" "ff_reference g = int (card (refs h S)) + 1" "ff_flags g \<noteq> 0" "ff_fsal g \<noteq> None"
      using fsalif_incref_ok[OF ok f(3)] by blast
    have "S' = ?S\<lparr>fs_table := (fs_table S)[h := g]\<rparr>" using run inc good f g(1) by (simp add: ffd_incref_def)
    then show ?thesis using files_ok_add[OF ok d(1) i fok Some f(3) g(2-4)] by simp
  qed
qed

lemma copy_each_ok:
  assumes "files_ok S" "fs_man S (fs_cur S) = Some m" "fs_man S t = Some d" "t \<noteq> fs_cur S" "\<forall>i \<in> set is. i < 128 \<and> fd_file (fds d ! i) = None" "distinct is"
    "copy_each B (fs_cur S) t is S = Some S'"
  shows "files_ok S' \<and> fs_cur S' = fs_cur S"
  using assms
proof (induction "is" arbitrary: S d)
  case (Cons i "is")
  have i: "i < 128" "fd_file (fds d ! i) = None" using Cons.prems(5) by auto
  have len: "length (fds d) = 128" using man_okD[OF Cons.prems(1,3)] by (simp add: man_ok_def)
  let ?f = "fds m ! i"
  show ?case
  proof (cases "ffd_flags ?f = 0")
    case True
    then have "copy_each B (fs_cur S) t is S = Some S'" using Cons.prems(2,3,7) by simp
    then show ?thesis using Cons.IH[OF Cons.prems(1-4)] Cons.prems(5,6) by auto
  next
    case False
    have st: "upd_man t (d\<lparr>fds := (fds d)[i := ?f]\<rparr>) S = set_fd t i ?f S" using Cons.prems(3) by (simp add: set_fd_def)
    obtain e S1 where S1: "fsif_incref B (int i) (set_fd t i ?f S) = Some (e, S1)" and rest: "copy_each B (fs_cur S) t is S1 = Some S'"
      using Cons.prems(2,3,7) False st by (auto split: bind_splits)
    note one = copy_one_ok[OF Cons.prems(1-4) i S1]
    have d1: "fs_man S1 t = Some (d\<lparr>fds := (fds d)[i := ?f]\<rparr>)" "fs_man S1 (fs_cur S1) = Some m" using one Cons.prems(2-4) by (simp_all add: set_fd_def)
    have "\<forall>j \<in> set is. j < 128 \<and> fd_file (fds (d\<lparr>fds := (fds d)[i := ?f]\<rparr>) ! j) = None"
    proof
      fix j assume j: "j \<in> set is"
      then have "j \<noteq> i" using Cons.prems(6) by auto
      then show "j < 128 \<and> fd_file (fds (d\<lparr>fds := (fds d)[i := ?f]\<rparr>) ! j) = None" using Cons.prems(5) j by simp
    qed
    then show ?thesis using Cons.IH[OF _ d1(2,1)] one rest Cons.prems(4,6) by simp
  qed
qed simp

lemma close_each_ok:
  assumes "files_ok S" "fs_man S (fs_cur S) = Some m" "\<forall>d i. b_close B d i" "\<forall>i \<in> set is. i < 128"
  shows "\<exists>S' m'. close_each B P is S = Some S' \<and> files_ok S' \<and> fs_cur S' = fs_cur S \<and> (\<forall>t. t \<noteq> fs_cur S \<longrightarrow> fs_man S' t = fs_man S t)
    \<and> fs_man S' (fs_cur S) = Some m' \<and> (\<forall>j < 128. fd_file (fds m ! j) = None \<longrightarrow> fd_file (fds m' ! j) = None)
    \<and> ((\<forall>f i. P f i) \<longrightarrow> (\<forall>j \<in> set is. fd_file (fds m' ! j) = None))"
  using assms
proof (induction "is" arbitrary: S m)
  case (Cons i "is")
  have i: "i < 128" using Cons.prems(4) by simp
  show ?case
  proof (cases "P (fds m ! i) i")
    case True
    obtain r S1 m1 where S1: "sys_close B (int i) S = Some (r, S1)" "files_ok S1" "fs_cur S1 = fs_cur S" "\<forall>t. t \<noteq> fs_cur S \<longrightarrow> fs_man S1 t = fs_man S t"
        "fs_man S1 (fs_cur S) = Some m1" "\<forall>j < 128. int j \<noteq> int i \<longrightarrow> fds m1 ! j = fds m ! j" "fd_file (fds m1 ! i) = None"
      using sys_close_ok[OF Cons.prems(1,2,3), of "int i"] i by auto
    have "fs_man S1 (fs_cur S1) = Some m1" using S1(3,5) by simp
    moreover have "\<forall>i \<in> set is. i < 128" using Cons.prems(4) by simp
    ultimately obtain S' m' where IH: "close_each B P is S1 = Some S'" "files_ok S'" "fs_cur S' = fs_cur S1" "\<forall>t. t \<noteq> fs_cur S1 \<longrightarrow> fs_man S' t = fs_man S1 t"
        "fs_man S' (fs_cur S1) = Some m'" "\<forall>j < 128. fd_file (fds m1 ! j) = None \<longrightarrow> fd_file (fds m' ! j) = None"
        "(\<forall>f i. P f i) \<longrightarrow> (\<forall>j \<in> set is. fd_file (fds m' ! j) = None)"
      using Cons.IH[OF S1(2) _ Cons.prems(3)] by blast
    have "\<forall>j < 128. fd_file (fds m ! j) = None \<longrightarrow> fd_file (fds m' ! j) = None" using IH(6) S1(6,7) by (metis of_nat_eq_iff)
    moreover have "close_each B P (i # is) S = Some S'" using Cons.prems(2) True S1(1) IH(1) by simp
    ultimately show ?thesis using IH S1(3,4,7) i by auto
  next
    case False
    then have "close_each B P (i # is) S = close_each B P is S" using Cons.prems(2) by simp
    moreover have "\<not> (\<forall>f i. P f i)" using False by auto
    ultimately show ?thesis using Cons.IH[OF Cons.prems(1-3)] Cons.prems(4) by auto
  qed
qed auto

lemma fs_fd_exit_ok:
  assumes ok: "files_ok S" and m: "fs_man S (fs_cur S) = Some m" and B: "\<forall>d i. b_close B d i"
  shows "\<exists>S'. fs_fd_exit B (fs_cur S) S = Some (Inr (), S') \<and> files_ok S' \<and> fs_cur S' = fs_cur S \<and> fs_man S' (fs_cur S) = None"
proof -
  obtain S1 m1 where S1: "close_each B (\<lambda>_ _. True) [0..<128] S = Some S1" "files_ok S1" "fs_cur S1 = fs_cur S" "fs_man S1 (fs_cur S) = Some m1"
      "\<forall>j \<in> set [0..<128]. fd_file (fds m1 ! j) = None"
    using close_each_ok[OF ok m B, of "[0..<128]" "\<lambda>_ _. True"] by auto
  let ?S = "S1\<lparr>fs_man := (fs_man S1)(fs_cur S := None)\<rparr>"
  have "(fs_cur S, j) \<notin> refs h S1" for j h
  proof
    assume a: "(fs_cur S, j) \<in> refs h S1"
    then have "j < 128" by (auto simp: refs_def)
    then show False using a refs_fd[OF S1(2,4)] S1(5) by simp
  qed
  then have r: "refs h ?S = refs h S1" for h by (auto simp: refs_def split: if_splits)
  have "files_ok ?S" using S1(2) unfolding files_ok_def r by auto
  then show ?thesis using S1 m by (auto simp: fs_fd_exit_def simp del: upt_rec_numeral)
qed

lemma fd_local_to_file_Some:
  assumes "files_ok S" "fs_man S (fs_cur S) = Some m" "fd_local_to_file fd S = Some ffd" "\<not> FILE_FD_IS_BAD ffd"
  shows "\<exists>i < 128. fd = int i \<and> ffd = Some (fds m ! i) \<and> fds m ! i \<in> set (fds m) \<and> ffd_fsal (fds m ! i) \<noteq> None"
proof -
  have len: "length (fds m) = 128" using man_okD[OF assms(1,2)] by (simp add: man_ok_def)
  have "\<not> OUT_RANGE fd 128" using assms(3,4) by (auto simp: fd_local_to_file_def FILE_FD_IS_BAD_def split: if_splits)
  then show ?thesis using assms len by (intro exI[of _ "nat fd"]) (auto simp: fd_local_to_file_def FILE_FD_IS_BAD_def)
qed

lemma sys_dup_ok:
  assumes ok: "files_ok S" and fr: "has_free S" and run: "sys_dup B fd S = Some (r, S')"
  shows "files_ok S' \<and> fs_cur S' = fs_cur S"
proof -
  obtain m where m: "fs_man S (fs_cur S) = Some m" "\<exists>f \<in> set (fds m). ffd_flags f = 0" using fr by (auto simp: has_free_def)
  obtain ffd where ffd: "fd_local_to_file fd S = Some ffd"
      "(if FILE_FD_IS_BAD ffd then Some (Inl E_INVAL, S) else dup_to B (the ffd) local_fd_install S) = Some (r, S')"
    using run by (auto simp: sys_dup_def split: bind_splits)
  show ?thesis
  proof (cases "FILE_FD_IS_BAD ffd")
    case True
    then show ?thesis using ffd(2) ok by simp
  next
    case False
    then obtain i where "ffd = Some (fds m ! i)" "fds m ! i \<in> set (fds m)" "ffd_fsal (fds m ! i) \<noteq> None" using fd_local_to_file_Some[OF ok m(1) ffd(1)] by blast
    then show ?thesis using dup_ok[OF ok m] ffd(2) False by simp
  qed
qed

text \<open>\<^verbatim>\<open>sys_dup2\<close> after the first checks: the target is closed if it is open, then the source is duplicated.\<close>

lemma sys_dup2_run:
  assumes ok: "files_ok S" and m: "fs_man S (fs_cur S) = Some m" and B: "\<forall>d i. b_close B d i" and ne: "int i \<noteq> newfd"
    and i: "i < 128" "\<not> FILE_FD_IS_BAD (Some (fds m ! i))" and run: "sys_dup2 B (int i) newfd S = Some (r, S')"
  shows "\<exists>S1 m1. files_ok S1 \<and> fs_cur S1 = fs_cur S \<and> fs_man S1 (fs_cur S) = Some m1 \<and> (\<forall>j < 128. int j \<noteq> newfd \<or> ffd_flags (fds m ! j) = 0 \<longrightarrow> fds m1 ! j = fds m ! j)
    \<and> ((\<exists>e. r = Inl e) \<and> S' = S1 \<or> dup_to B (fds m ! i) local_fd_install S1 = Some (r, S'))"
proof -
  have len: "length (fds m) = 128" using man_okD[OF ok m] by (simp add: man_ok_def)
  let ?close = "case fd_local_to_file newfd S of Some (Some f) \<Rightarrow> ffd_handle f \<ge> 0 \<and> ffd_flags f \<noteq> 0 | _ \<Rightarrow> False"
  have "(do { (e, S) \<leftarrow> (if ?close then sys_close B newfd S else Some (Inr (), S));
       if e \<noteq> Inr () then Some (Inl E_FAIL, S) else dup_to B (the (Some (fds m ! i))) local_fd_install S }) = Some (r, S')"
    using run m i ne by (auto simp: sys_dup2_def fd_local_to_file_def split: if_splits)
  note run' = this[unfolded option.sel]
  show ?thesis
  proof (cases ?close)
    case True
    obtain e S1 m1 where S1: "sys_close B newfd S = Some (e, S1)" "files_ok S1" "fs_cur S1 = fs_cur S" "fs_man S1 (fs_cur S) = Some m1"
        "\<forall>j < 128. int j \<noteq> newfd \<longrightarrow> fds m1 ! j = fds m ! j" using sys_close_ok[OF ok m B, of newfd] by auto
    have "ffd_flags (fds m ! j) \<noteq> 0" if "j < 128" "int j = newfd" for j using True that m by (auto simp: fd_local_to_file_def)
    then have "\<forall>j < 128. int j \<noteq> newfd \<or> ffd_flags (fds m ! j) = 0 \<longrightarrow> fds m1 ! j = fds m ! j" using S1(5) by blast
    then show ?thesis using run' True S1 by (auto split: if_splits)
  next
    case False
    then show ?thesis using run' ok m by auto
  qed
qed

lemma sys_dup2_ok:
  assumes ok: "files_ok S" and fr: "has_free S" and B: "\<forall>d i. b_close B d i" and run: "sys_dup2 B oldfd newfd S = Some (r, S')"
  shows "files_ok S' \<and> fs_cur S' = fs_cur S"
proof -
  obtain m where m: "fs_man S (fs_cur S) = Some m" "\<exists>f \<in> set (fds m). ffd_flags f = 0" using fr by (auto simp: has_free_def)
  have len: "length (fds m) = 128" using man_okD[OF ok m(1)] by (simp add: man_ok_def)
  obtain q where q: "q < 128" "ffd_flags (fds m ! q) = 0" using m(2) len by (auto simp: in_set_conv_nth)
  obtain ffd where ffd: "fd_local_to_file oldfd S = Some ffd" using run by (auto simp: sys_dup2_def split: bind_splits)
  show ?thesis
  proof (cases "FILE_FD_IS_BAD ffd \<or> oldfd = newfd")
    case True
    then have "S' = S" using run ffd by (cases "FILE_FD_IS_BAD ffd") (auto simp: sys_dup2_def)
    then show ?thesis using ok by simp
  next
    case False
    then obtain i where i: "i < 128" "oldfd = int i" "ffd = Some (fds m ! i)" "ffd_fsal (fds m ! i) \<noteq> None" using fd_local_to_file_Some[OF ok m(1) ffd] by blast
    obtain S1 m1 where S1: "files_ok S1" "fs_cur S1 = fs_cur S" "fs_man S1 (fs_cur S) = Some m1"
        "\<forall>j < 128. int j \<noteq> newfd \<or> ffd_flags (fds m ! j) = 0 \<longrightarrow> fds m1 ! j = fds m ! j"
        "(\<exists>e. r = Inl e) \<and> S' = S1 \<or> dup_to B (fds m ! i) local_fd_install S1 = Some (r, S')"
      using sys_dup2_run[OF ok m(1) B _ i(1) _ run[unfolded i(2)]] False i(2,3) by blast
    have m1: "fs_man S1 (fs_cur S1) = Some m1" using S1(2,3) by simp
    have len1: "length (fds m1) = 128" using man_okD[OF S1(1,3)] by (simp add: man_ok_def)
    have "fds m1 ! q = fds m ! q" "fds m1 ! i = fds m ! i" using S1(4) q i(1,2) False by auto
    then have "\<exists>f \<in> set (fds m1). ffd_flags f = 0" "fds m ! i \<in> set (fds m1)" using q i(1) len1 by (metis nth_mem)+
    then show ?thesis using S1(1,2,5) dup_ok[OF S1(1) m1, of "fds m ! i" B r S'] i(4) by auto
  qed
qed

text \<open>Setting the close-on-exec flag keeps the kind of a descriptor.\<close>

lemma cloexec_ok: "fd_ok f \<Longrightarrow> ffd_fsal f \<noteq> None \<Longrightarrow> fd_ok (f\<lparr>ffd_flags := if odd arg then ffd_flags f OR FILE_FD_CLOEXEC else ffd_flags f AND NOT FILE_FD_CLOEXEC\<rparr>)"
proof -
  assume f: "fd_ok f" "ffd_fsal f \<noteq> None"
  then obtain k where k: "ffd_fsal f = Some k" "ffd_flags f AND FILE_FD_TYPE_MASK = kind_flags k" by (auto simp: fd_ok_def)
  have "(ffd_flags f OR FILE_FD_CLOEXEC) AND FILE_FD_TYPE_MASK = kind_flags k" "(ffd_flags f AND NOT FILE_FD_CLOEXEC) AND FILE_FD_TYPE_MASK = kind_flags k"
    unfolding k(2)[symmetric] by (simp_all add: bit.conj_disj_distrib2 and.assoc)
  moreover have "x = 0 \<Longrightarrow> x AND FILE_FD_TYPE_MASK \<noteq> kind_flags k" for x by (cases k) simp_all
  ultimately show ?thesis using f k(1) by (auto simp: fd_ok_def)
qed

lemma sys_fcntl_setfd_ok:
  assumes ok: "files_ok S" and m: "fs_man S (fs_cur S) = Some m" and run: "sys_fcntl B fd F_SETFD arg S = Some (r, S')"
  shows "files_ok S' \<and> fs_cur S' = fs_cur S"
proof -
  obtain ffd where ffd: "fd_local_to_file fd S = Some ffd" using run by (auto simp: sys_fcntl_def split: bind_splits)
  show ?thesis
  proof (cases "FILE_FD_IS_BAD ffd")
    case True
    then show ?thesis using run ffd ok by (simp add: sys_fcntl_def)
  next
    case False
    then obtain i where i: "i < 128" "fd = int i" "ffd = Some (fds m ! i)" "ffd_fsal (fds m ! i) \<noteq> None" using fd_local_to_file_Some[OF ok m ffd] by blast
    let ?f = "(fds m ! i)\<lparr>ffd_flags := if odd arg then ffd_flags (fds m ! i) OR FILE_FD_CLOEXEC else ffd_flags (fds m ! i) AND NOT FILE_FD_CLOEXEC\<rparr>"
    have "fd_ok ?f" using cloexec_ok man_ok_nth[OF man_okD[OF ok m] i(1)] i(4) by blast
    moreover have "S' = set_fd (fs_cur S) i ?f S" using run ffd False m i by (auto simp: sys_fcntl_def set_fd_def Let_def)
    ultimately show ?thesis using files_ok_other_fd[OF ok m i(1), of ?f] by (simp add: fd_file_def)
  qed
qed

text \<open>A new pipe: both ends get a descriptor or none does.\<close>

lemma install_pipe_ok:
  assumes ok: "files_ok S" and m: "fs_man S (fs_cur S) = Some m" and k: "k \<noteq> Fsif" and run: "local_fd_install h (kind_flags k) S = Some (fd, S')"
  shows "fd = -1 \<and> S' = S \<or> (\<exists>i < 128. fd = int i \<and> S' = set_fd (fs_cur S) i (used_fd k h) S \<and> files_ok S' \<and> fd_file (fds m ! i) = None)"
proof (cases "OUT_RANGE h 128 \<or> \<not> (\<exists>f \<in> set (fds m). ffd_flags f = 0)")
  case True
  then show ?thesis using run local_fd_install_full[of S m h "kind_flags k"] m by (auto simp: local_fd_install_def)
next
  case False
  have mok: "man_ok m" using man_okD[OF ok m] .
  obtain i where i: "i < 128" "local_fd_install h (kind_flags k) S = Some (int i, set_fd (fs_cur S) i (used_fd k h) S)" "ffd_flags (fds m ! i) = 0"
    using local_fd_install_ok[OF m mok, of h k] False by auto
  have fr: "fd_file (fds m ! i) = None" by (rule man_ok_free_fd[OF mok i(1,3)])
  then have "files_ok (set_fd (fs_cur S) i (used_fd k h) S)" using files_ok_other_fd[OF ok m i(1) used_fd_ok[of h k]] False k by (auto simp: fd_file_def)
  then show ?thesis using run i fr by auto
qed

lemma files_ok_unused:
  assumes ok: "files_ok S" and m: "fs_man S (fs_cur S) = Some m" and i: "i < 128" "fd_file (fds m ! i) = None" and run: "local_fd_uninstall (int i) S = Some (r, S')"
  shows "files_ok S' \<and> fs_cur S' = fs_cur S"
proof (cases "ffd_flags (fds m ! i) = 0")
  case True
  then show ?thesis using run m i ok by (simp add: local_fd_uninstall_def fsal_fd_free_def)
next
  case False
  have "files_ok (set_fd (fs_cur S) i free_fd S)" by (rule files_ok_other_fd[OF ok m i(1)]) (simp_all add: i(2))
  then show ?thesis using run fsal_fd_free_set[OF m i(1) False] by auto
qed

lemma sys_pipe_ok:
  assumes ok: "files_ok S" and m: "fs_man S (fs_cur S) = Some m" and run: "sys_pipe u np S = Some (r, S')"
  shows "files_ok S' \<and> fs_cur S' = fs_cur S"
proof (cases u)
  case False
  then show ?thesis using run ok by (simp add: sys_pipe_def)
next
  case True
  then obtain q P where q: "np (fs_pipes S) = Some (q, P)" using run by (auto simp: sys_pipe_def split: bind_splits)
  let ?S = "S\<lparr>fs_pipes := P\<rparr>"
  show ?thesis
  proof (cases q)
    case (Inl e)
    then show ?thesis using run q True ok by (auto simp: sys_pipe_def)
  next
    case (Inr p)
    obtain rfd S1 where S1: "local_fd_install (p_id p) FILE_FD_PIPE0 ?S = Some (rfd, S1)" using run q True Inr by (auto simp: sys_pipe_def split: bind_splits)
    have ok0: "files_ok ?S" "fs_man ?S (fs_cur ?S) = Some m" using ok m by simp_all
    from install_pipe_ok[OF ok0, of Pipeif_rd "p_id p" rfd S1] S1
    consider (no) "rfd = -1" "S1 = ?S" | (yes) i where "i < 128" "rfd = int i" "S1 = set_fd (fs_cur S) i (used_fd Pipeif_rd (p_id p)) ?S" "files_ok S1" by auto
    then show ?thesis
    proof cases
      case no
      then show ?thesis using run q True Inr S1 ok by (auto simp: sys_pipe_def)
    next
      case yes
      let ?m = "m\<lparr>fds := (fds m)[i := used_fd Pipeif_rd (p_id p)]\<rparr>"
      have len: "length (fds m) = 128" using man_okD[OF ok m] by (simp add: man_ok_def)
      have m1: "fs_man S1 (fs_cur S1) = Some ?m" "fs_cur S1 = fs_cur S" using yes(3) m by (simp_all add: set_fd_def)
      have f1: "fd_file (fds ?m ! i) = None" using yes(1) len by (simp add: fd_file_def)
      obtain wfd S2 where S2: "local_fd_install (p_id p) FILE_FD_PIPE1 S1 = Some (wfd, S2)"
        "(if wfd < 0 then do { (_, S) \<leftarrow> local_fd_uninstall rfd S2; Some (Inl E_AGAIN, S\<lparr>fs_pipes := destroy_pipe p (fs_pipes S)\<rparr>) } else Some (Inr (rfd, wfd), S2)) = Some (r, S')"
        using run q True Inr S1 yes(2) by (auto simp: sys_pipe_def split: bind_splits)
      from install_pipe_ok[OF yes(4) m1(1), of Pipeif_wr "p_id p" wfd S2] S2(1)
      consider (no2) "wfd = -1" "S2 = S1" | (yes2) "0 \<le> wfd" "files_ok S2" "fs_cur S2 = fs_cur S1" by auto
      then show ?thesis
      proof cases
        case no2
        then obtain z S3 where "local_fd_uninstall rfd S1 = Some (z, S3)" "S' = S3\<lparr>fs_pipes := destroy_pipe p (fs_pipes S3)\<rparr>"
          using S2(2) by (auto split: bind_splits)
        then show ?thesis using files_ok_unused[OF yes(4) m1(1) yes(1) f1, of z S3] yes(2) m1(2) by auto
      next
        case yes2
        then show ?thesis using S2(2) m1(2) by auto
      qed
    qed
  qed
qed

text \<open>A new task starts with an empty table, and after the copy with the descriptors of the running one.\<close>

lemma files_ok_new_man:
  assumes ok: "files_ok S" and t: "fs_man S t = None" and d: "man_ok d" "\<forall>i < 128. fd_file (fds d ! i) = None"
  shows "files_ok (upd_man t d S)"
proof -
  have "refs h (upd_man t d S) = refs h S" for h
    using t d by (auto simp: refs_def fd_file_def split: if_splits)
  then show ?thesis using ok d(1) by (auto simp: files_ok_def)
qed

definition new_task :: "below \<Rightarrow> tid \<Rightarrow> fdst \<Rightarrow> (unit res \<times> fdst) option" where
  "new_task B t S = fs_fd_copy B (fs_cur S) t (snd (fs_fd_init True t S))"

lemma new_task_ok:
  assumes ok: "files_ok S" and m: "fs_man S (fs_cur S) = Some m" and t: "fs_man S t = None" and run: "new_task B t S = Some (r, S')"
  shows "files_ok S' \<and> fs_cur S' = fs_cur S"
proof -
  let ?d = "\<lparr>fds = replicate 128 free_fd, fm_cwd = fm_cwd m\<rparr>"
  let ?S = "upd_man t ?d S"
  have ne: "t \<noteq> fs_cur S" using m t by auto
  have d: "man_ok ?d" "\<forall>i < 128. fd_file (fds ?d ! i) = None" by (simp_all add: man_ok_def)
  have ok1: "files_ok ?S" by (rule files_ok_new_man[OF ok t d])
  have c: "copy_each B (fs_cur ?S) t [0..<128] ?S = Some S'"
    using run m ne by (auto simp: new_task_def fs_fd_copy_def fs_fd_init_def copy_fds_def simp del: upt_rec_numeral)
  have "files_ok S' \<and> fs_cur S' = fs_cur ?S"
    by (rule copy_each_ok[OF ok1, of m t ?d]) (use m ne d c in \<open>auto simp del: upt_rec_numeral\<close>)
  then show ?thesis by simp
qed

lemma fs_fd_reinit_ok:
  assumes ok: "files_ok S" and m: "fs_man S (fs_cur S) = Some m" and B: "\<forall>d i. b_close B d i"
  shows "\<exists>S'. fs_fd_reinit B S = Some (Inr (), S') \<and> files_ok S' \<and> fs_cur S' = fs_cur S"
  using close_each_ok[OF ok m B, of "[0..<128]" "\<lambda>f i. ffd_flags f \<noteq> 0 \<and> (i < 3 \<longrightarrow> ffd_flags f AND FILE_FD_CLOEXEC \<noteq> 0)"] m
  by (auto simp: fs_fd_reinit_def simp del: upt_rec_numeral)

text \<open>
  The calls of all tasks in any order. \<open>has_free\<close> is the condition under which a call that takes a reference also
  finds a descriptor for it.
\<close>

inductive file_step :: "below \<Rightarrow> fdst \<Rightarrow> fdst \<Rightarrow> bool" for B where
  opens: "has_free S \<Longrightarrow> sys_open B u p path flags S = Some (r, S') \<Longrightarrow> file_step B S S'"
| closes: "fs_man S (fs_cur S) \<noteq> None \<Longrightarrow> sys_close B fd S = Some (r', S') \<Longrightarrow> file_step B S S'"
| dups: "has_free S \<Longrightarrow> sys_dup B fd S = Some (r, S') \<Longrightarrow> file_step B S S'"
| dup2s: "has_free S \<Longrightarrow> sys_dup2 B fd newfd S = Some (r, S') \<Longrightarrow> file_step B S S'"
| setfds: "fs_man S (fs_cur S) \<noteq> None \<Longrightarrow> sys_fcntl B fd F_SETFD arg S = Some (r, S') \<Longrightarrow> file_step B S S'"
| pipes: "fs_man S (fs_cur S) \<noteq> None \<Longrightarrow> sys_pipe u np S = Some (r'', S') \<Longrightarrow> file_step B S S'"
| forks: "fs_man S (fs_cur S) \<noteq> None \<Longrightarrow> fs_man S t = None \<Longrightarrow> new_task B t S = Some (r', S') \<Longrightarrow> file_step B S S'"
| execs: "fs_man S (fs_cur S) \<noteq> None \<Longrightarrow> fs_fd_reinit B S = Some (r', S') \<Longrightarrow> file_step B S S'"
| exits: "fs_man S (fs_cur S) \<noteq> None \<Longrightarrow> fs_fd_exit B (fs_cur S) S = Some (r', S') \<Longrightarrow> file_step B S S'"
| switches: "file_step B S (S\<lparr>fs_cur := t\<rparr>)"

lemma file_step_ok:
  assumes "file_step B S S'" "files_ok S" "\<forall>d i. b_close B d i"
  shows "files_ok S'"
  using assms
proof (induction rule: file_step.induct)
  case (opens S u p path flags r S')
  then show ?case using sys_open_ok by blast
next
  case (closes S fd r' S')
  then show ?case using sys_close_ok[of S _ B fd] by fastforce
next
  case (dups S fd r S')
  then show ?case using sys_dup_ok by blast
next
  case (dup2s S fd newfd r S')
  then show ?case using sys_dup2_ok by blast
next
  case (setfds S fd arg r S')
  then show ?case using sys_fcntl_setfd_ok by blast
next
  case (pipes S u np r'' S')
  then show ?case using sys_pipe_ok by blast
next
  case (forks S t r' S')
  then show ?case using new_task_ok by blast
next
  case (execs S r' S')
  then show ?case using fs_fd_reinit_ok[of S _ B] by fastforce
next
  case (exits S r' S')
  then show ?case using fs_fd_exit_ok[of S _ B] by fastforce
qed simp

text \<open>C1: Over any sequence of opening, closing, duplicating, setting flags, making pipes, copying the
  descriptors to a new task, replacing a program and ending tasks, in any order and with switches between tasks,
  the reference count of every open file is the number of descriptors that refer to it, and a slot of the file
  table is free exactly when there is none: no file is freed while a descriptor refers to it and none leaks. The
  file systems must not refuse to close, and the calls that take a reference must find a free descriptor; the
  code breaks the counts otherwise.\<close>

theorem file_steps_ok:
  assumes "(file_step B)\<^sup>*\<^sup>* S S'" "files_ok S" "\<forall>d i. b_close B d i"
  shows "files_ok S' \<and> (\<forall>h < 128. ff_reference (fs_table S' ! h) = int (card (refs h S')) \<and> (ff_flags (fs_table S' ! h) = 0 \<longleftrightarrow> refs h S' = {}))"
proof -
  have "files_ok S'" using assms by (induction rule: rtranclp_induct) (auto intro: file_step_ok)
  then show ?thesis by (auto simp: files_ok_def file_ok_def)
qed

definition demo_below :: below where
  "demo_below = \<lparr>b_mem = True, b_open = \<lambda>_ _ _. True, b_close = \<lambda>_ _. True, b_net_close = \<lambda>_. True, b_net_incref = \<lambda>_. True, b_fcntl = \<lambda>_ _ _. Inl E_FAIL\<rparr>"

text \<open>Task 1 has one open file, at descriptor 0.\<close>

definition demo_fds0 :: fdst where
  "demo_fds0 = \<lparr>fs_table = replicate 128 \<lparr>ff_reference = 0, ff_flags = 0, ff_fsal = None\<rparr>,
     fs_man = (\<lambda>_. None)(1 := Some \<lparr>fds = replicate 128 free_fd, fm_cwd = ''/''\<rparr>), fs_cur = 1, fs_paths = demo_tbl, fs_pipes = \<lparr>pl_list = [], pl_next_id = 0, pl_x = demo_caller\<rparr>\<rparr>"

definition demo_fds :: fdst where
  "demo_fds = (set_fd 1 0 (used_fd Fsif 0) demo_fds0)\<lparr>fs_table := (fs_table demo_fds0)[0 := \<lparr>ff_reference = 1, ff_flags = 1, ff_fsal = Some 0\<rparr>]\<rparr>"

lemma demo_fds0_ok: "files_ok demo_fds0"
proof -
  let ?E = "demo_fds0\<lparr>fs_man := \<lambda>_. None\<rparr>" and ?d = "\<lparr>fds = replicate 128 free_fd, fm_cwd = ''/''\<rparr>"
  have "refs h ?E = {}" for h by (simp add: refs_def)
  then have "files_ok ?E" by (simp add: files_ok_def file_ok_def) (simp add: demo_fds0_def)
  then have "files_ok (upd_man 1 ?d ?E)" by (rule files_ok_new_man) (simp_all add: man_ok_def)
  then show ?thesis by (simp add: demo_fds0_def)
qed

lemma demo_fds_ok: "files_ok demo_fds"
proof -
  have m: "fs_man demo_fds0 1 = Some \<lparr>fds = replicate 128 free_fd, fm_cwd = ''/''\<rparr>" by (simp add: demo_fds0_def)
  have "refs 0 demo_fds0 = {}" by (rule free_slot_refs[OF demo_fds0_ok]) (simp_all add: demo_fds0_def)
  then show ?thesis unfolding demo_fds_def
    by (intro files_ok_add[OF demo_fds0_ok m]) (simp_all add: used_fd_ok[of 0 Fsif, simplified] fd_file_def)
qed

theorem file_steps_ok_witness:
  "case sys_dup demo_below 0 demo_fds of
     Some (Inr fd, S') \<Rightarrow> fd = 1 \<and> (file_step demo_below)\<^sup>*\<^sup>* demo_fds S' \<and> ff_reference (fs_table S' ! 0) = 2 \<and> card (refs 0 S') = 2
   | _ \<Rightarrow> False"
proof -
  have run: "case sys_dup demo_below 0 demo_fds of Some (Inr fd, S') \<Rightarrow> fd = 1 \<and> ff_reference (fs_table S' ! 0) = 2 | _ \<Rightarrow> False" by code_simp
  then obtain S' where S': "sys_dup demo_below 0 demo_fds = Some (Inr 1, S')" "ff_reference (fs_table S' ! 0) = 2"
    by (auto split: option.split_asm prod.split_asm sum.split_asm)
  have "has_free demo_fds" unfolding has_free_def
    by (auto simp: demo_fds_def demo_fds0_def set_fd_def intro!: bexI[of _ free_fd] simp: in_set_conv_nth intro!: exI[of _ 1])
  then have "(file_step demo_below)\<^sup>*\<^sup>* demo_fds S'" using S'(1) by (blast intro: dups)
  then show ?thesis using S' file_steps_ok[of demo_below demo_fds S'] demo_fds_ok by (simp add: demo_below_def)
qed

text \<open>C1: \<^verbatim>\<open>dup2\<close> does not install the copy at the requested number: with a smaller number free, the copy
  of a file gets a number below the free number that was asked for, which stays free. (The function that installs at a
  given number, \<^verbatim>\<open>local_fd_install_to\<close>, is not called.)\<close>

theorem sys_dup2_ignores_target:
  assumes ok: "files_ok S" and m: "fs_man S (fs_cur S) = Some m" and i: "i < 128" "fd_file (fds m ! i) = Some h"
    and fr: "j < n" "n < 128" "ffd_flags (fds m ! j) = 0" "ffd_flags (fds m ! n) = 0"
  shows "\<exists>fd S' m'. sys_dup2 B (int i) (int n) S = Some (Inr (int fd), S') \<and> fd \<le> j \<and> files_ok S'
    \<and> fs_man S' (fs_cur S) = Some m' \<and> fd_file (fds m' ! fd) = Some h \<and> ffd_flags (fds m' ! n) = 0"
proof -
  let ?f = "fds m ! i" and ?c = "fs_cur S"
  have mok: "man_ok m" and len: "length (fds m) = 128" using man_okD[OF ok m] by (simp_all add: man_ok_def)
  have f: "ffd_fsal ?f = Some Fsif" "ffd_handle ?f = int h" "h < 128" "ffd_flags ?f \<noteq> 0" "ffd_flags ?f AND FILE_FD_TYPE_MASK = kind_flags Fsif"
    using i(2) man_ok_nth[OF mok i(1)] by (auto simp: fd_file_def fd_ok_def split: if_splits)
  have "refs h S \<noteq> {}" using refs_fd[OF ok m i(1), of h] i(2) by auto
  then obtain g where g: "fsalif_incref (int h) (fs_table S) = (Inr (), (fs_table S)[h := g])"
    using fsalif_incref_ok[OF ok f(3)] by blast
  let ?S = "S\<lparr>fs_table := (fs_table S)[h := g]\<rparr>"
  have free: "\<exists>f \<in> set (fds m). ffd_flags f = 0" using fr len by (metis nth_mem)
  obtain k where k: "k < 128" "local_fd_install (int h) (kind_flags Fsif) ?S = Some (int k, set_fd ?c k (used_fd Fsif (int h)) ?S)" "\<forall>q < k. ffd_flags (fds m ! q) \<noteq> 0"
    using local_fd_install_ok[of ?S m "int h" Fsif] m mok free f(3) by auto
  have kj: "k \<le> j" using k(3) fr(3) by (meson not_le_imp_less)
  have run: "sys_dup2 B (int i) (int n) S = Some (Inr (int k), set_fd ?c k (used_fd Fsif (int h)) ?S)"
    using m i(1) f fr g k(2) by (auto simp: sys_dup2_def fd_local_to_file_def FILE_FD_IS_BAD_def dup_to_def ffd_incref_def fd_result_def)
  have "files_ok (set_fd ?c k (used_fd Fsif (int h)) ?S)"
    using dup_ok[OF ok m free, of ?f B] i(1) len f g k(2) by (simp add: dup_to_def ffd_incref_def fd_result_def)
  moreover have "fs_man (set_fd ?c k (used_fd Fsif (int h)) ?S) ?c = Some (m\<lparr>fds := (fds m)[k := used_fd Fsif (int h)]\<rparr>)" using m by (simp add: set_fd_def)
  moreover have "fd_file ((fds m)[k := used_fd Fsif (int h)] ! k) = Some h" "ffd_flags ((fds m)[k := used_fd Fsif (int h)] ! n) = 0"
    using k(1) len kj fr by (simp_all add: fd_file_def)
  ultimately show ?thesis using run kj by fastforce
qed

theorem sys_dup2_ignores_target_witness:
  "\<exists>fd S'. sys_dup2 demo_below 0 7 demo_fds = Some (Inr (int fd), S') \<and> fd \<le> 3 \<and> files_ok S'"
proof -
  have "fs_man demo_fds (fs_cur demo_fds) = Some \<lparr>fds = (replicate 128 free_fd)[0 := used_fd Fsif 0], fm_cwd = ''/''\<rparr>"
    by (simp add: demo_fds_def demo_fds0_def set_fd_def)
  from sys_dup2_ignores_target[OF demo_fds_ok this, of 0 0 3 7 demo_below] show ?thesis by (auto simp: fd_file_def)
qed

text \<open>Pipes get increasing numbers, and a descriptor holds no number from 128 on: after 128 pipes no pipe can be made.\<close>

lemma sys_pipe_fails_after_128:
  assumes "new_pipe (fs_pipes S) = Some (Inr p, P)" "128 \<le> p_id p"
  shows "sys_pipe True new_pipe S = Some (Inl E_AGAIN, S\<lparr>fs_pipes := destroy_pipe p P\<rparr>)"
  using assms by (simp add: sys_pipe_def local_fd_install_def)

text \<open>
  Freeing the table of another task, as the error path of \<^verbatim>\<open>sys_fork\<close> does with the new task, closes the files of
  the running task.
\<close>

lemma fs_fd_exit_closes_caller:
  assumes ok: "files_ok S" and m: "fs_man S (fs_cur S) = Some m" and t: "t \<noteq> fs_cur S" "fs_man S t \<noteq> None" and B: "\<forall>d i. b_close B d i"
  shows "\<exists>S' m'. fs_fd_exit B t S = Some (Inr (), S') \<and> fs_man S' (fs_cur S) = Some m' \<and> (\<forall>j < 128. fd_file (fds m' ! j) = None)"
proof -
  obtain S1 m1 where S1: "close_each B (\<lambda>_ _. True) [0..<128] S = Some S1" "fs_man S1 (fs_cur S) = Some m1" "\<forall>j \<in> set [0..<128]. fd_file (fds m1 ! j) = None"
    using close_each_ok[OF ok m B, of "[0..<128]" "\<lambda>_ _. True"] by auto
  then show ?thesis using t by (auto simp: fs_fd_exit_def simp del: upt_rec_numeral)
qed

end
